(* ===== verification/Kurogane_Prelude.thy ===== *)
theory Kurogane_Prelude
  imports Main "HOL-Library.Word" "HOL-Library.Char_ord"
begin

text \<open>
  Shared vocabulary of the KuroganeOS development.  It names the machine integer types of the
  kernel sources, collects the facts the component theories hand to the simplifier, and proves
  the generic lemmas on lists, first-match searches and machine words that several components use.

  Conventions used by every component theory:
  \<^item> fixed-width integers whose wrap-around or bit layout matters are \<open>word\<close>s; array indices and
    counters that the code keeps below a small constant are \<open>nat\<close>;
  \<^item> a C pointer argument that the code compares with \<open>nullptr\<close> is an \<open>option\<close>; an output pointer
    \<open>T*\<close> is a \<open>T option\<close> whose \<open>Some\<close> holds the pointee before the call, and the operation
    returns the pointee after it;
  \<^item> a pointer with a length argument is one list, so its length is the length argument;
  \<^item> a static array is a list whose length is part of the component's invariant.
\<close>

unbundle bit_operations_syntax

type_synonym u8 = "8 word"
type_synonym u16 = "16 word"
type_synonym u32 = "32 word"
type_synonym u64 = "64 word"

named_theorems slot_simps \<open>unfolding rules for slot tables\<close>
named_theorems word_facts \<open>facts on machine words\<close>

section \<open>First-match searches\<close>

text \<open>
  The loop \<^verbatim>\<open>for (i = 0; i < n; ++i) if (P(a[i])) return i;\<close>, which the kernel's slot tables use
  to look for a free or matching slot.
\<close>

fun find_index :: "('a \<Rightarrow> bool) \<Rightarrow> 'a list \<Rightarrow> nat option" where
  "find_index P [] = None"
| "find_index P (x # xs) = (if P x then Some 0 else map_option Suc (find_index P xs))"

lemma find_index_None_iff: "find_index P xs = None \<longleftrightarrow> (\<forall>x \<in> set xs. \<not> P x)"
  by (induction xs) auto

lemma find_index_SomeD:
  "find_index P xs = Some i \<Longrightarrow> i < length xs \<and> P (xs ! i) \<and> (\<forall>j < i. \<not> P (xs ! j))"
proof (induction xs arbitrary: i)
  case Nil
  then show ?case by simp
next
  case (Cons x xs)
  show ?case
  proof (cases "P x")
    case True
    with Cons.prems show ?thesis by simp
  next
    case False
    with Cons.prems obtain k where k: "find_index P xs = Some k" "i = Suc k" by auto
    with Cons.IH [OF k(1)] False show ?thesis
      by (auto simp: nth_Cons split: nat.splits)
  qed
qed

lemma find_index_Some_nthD:
  "find_index P xs = Some i \<Longrightarrow> P (xs ! i)"
  and find_index_Some_lessD:
  "find_index P xs = Some i \<Longrightarrow> i < length xs"
  by (simp_all add: find_index_SomeD)

lemma find_index_ex:
  "i < length xs \<Longrightarrow> P (xs ! i) \<Longrightarrow> \<exists>j \<le> i. find_index P xs = Some j"
proof (induction xs arbitrary: i)
  case Nil
  then show ?case by simp
next
  case (Cons x xs)
  show ?case
  proof (cases "P x")
    case True
    then show ?thesis by simp
  next
    case False
    with Cons.prems obtain k where "i = Suc k" "k < length xs" "P (xs ! k)"
      by (cases i) auto
    with Cons.IH [of k] False show ?thesis by auto
  qed
qed

lemma find_index_eq_SomeI:
  assumes "i < length xs" "P (xs ! i)" "\<And>j. j < i \<Longrightarrow> \<not> P (xs ! j)"
  shows "find_index P xs = Some i"
proof -
  obtain j where j: "j \<le> i" "find_index P xs = Some j"
    using find_index_ex [of i xs P] assms(1,2) by blast
  with assms(3) find_index_SomeD [OF j(2)] have "j = i"
    by (meson le_neq_implies_less)
  with j show ?thesis by simp
qed

lemma find_index_cong_nth:
  assumes "length xs = length ys" "\<And>i. i < length xs \<Longrightarrow> P (xs ! i) = Q (ys ! i)"
  shows "find_index P xs = find_index Q ys"
  using assms
proof (induction xs ys rule: list_induct2)
  case Nil
  then show ?case by simp
next
  case (Cons x xs y ys)
  have "P x = Q y" using Cons.prems [of 0] by simp
  moreover have "find_index P xs = find_index Q ys"
    using Cons.IH Cons.prems [of "Suc i" for i] by simp
  ultimately show ?case by simp
qed

section \<open>Lists used as arrays\<close>

lemma set_list_update_subset: "set (xs[i := x]) \<subseteq> insert x (set xs)"
  by (rule set_update_subset_insert)

lemma nth_list_update_all:
  "(\<forall>k < length xs. P (xs ! k)) \<Longrightarrow> P v \<Longrightarrow> (\<forall>k < length xs. P (xs[i := v] ! k))"
  by (cases "i < length xs") (auto simp: nth_list_update)

lemma list_all_update:
  "list_all P xs \<Longrightarrow> P v \<Longrightarrow> list_all P (xs[i := v])"
  by (cases "i < length xs") (auto simp: list_all_length nth_list_update)

lemma length_filter_update_True:
  assumes "i < length xs" "\<not> P (xs ! i)" "P v"
  shows "length (filter P (xs[i := v])) = Suc (length (filter P xs))"
  using assms
proof (induction xs arbitrary: i)
  case Nil
  then show ?case by simp
next
  case (Cons x xs)
  then show ?case by (cases i) auto
qed

lemma length_filter_update_False:
  assumes "i < length xs" "P (xs ! i)" "\<not> P v"
  shows "Suc (length (filter P (xs[i := v]))) = length (filter P xs)"
  using assms
proof (induction xs arbitrary: i)
  case Nil
  then show ?case by simp
next
  case (Cons x xs)
  then show ?case by (cases i) auto
qed

lemma length_filter_update_same:
  assumes "i < length xs" "P (xs ! i) = P v"
  shows "length (filter P (xs[i := v])) = length (filter P xs)"
  using assms
proof (induction xs arbitrary: i)
  case Nil
  then show ?case by simp
next
  case (Cons x xs)
  then show ?case by (cases i) auto
qed

text \<open>
  Removal of one element by shifting the tail down, as \<^verbatim>\<open>for (m = i + 1; m < n; ++m) a[m - 1] = a[m]\<close>
  does.
\<close>

definition remove_nth :: "nat \<Rightarrow> 'a list \<Rightarrow> 'a list" where
  "remove_nth i xs = take i xs @ drop (Suc i) xs"

lemma length_remove_nth: "i < length xs \<Longrightarrow> length (remove_nth i xs) = length xs - 1"
  by (simp add: remove_nth_def)

lemma remove_nth_find_index:
  "find_index (\<lambda>y. y = x) xs = Some i \<Longrightarrow> remove_nth i xs = remove1 x xs"
proof (induction xs arbitrary: i)
  case Nil
  then show ?case by simp
next
  case (Cons y ys)
  show ?case
  proof (cases "y = x")
    case True
    with Cons.prems show ?thesis by (simp add: remove_nth_def)
  next
    case False
    with Cons.prems obtain k where k: "find_index (\<lambda>y. y = x) ys = Some k" "i = Suc k" by auto
    with Cons.IH [OF k(1)] False show ?thesis by (simp add: remove_nth_def)
  qed
qed

section \<open>Machine words\<close>

lemma unat_less_2p: "unat (w :: 'a::len word) < 2 ^ LENGTH('a)"
  by (rule unsigned_less)

lemma unat_u64_less [word_facts]: "unat (w :: u64) < 18446744073709551616"
  using unat_less_2p [of w] by simp

lemma unat_u32_less [word_facts]: "unat (w :: u32) < 4294967296"
  using unat_less_2p [of w] by simp

lemma unat_u16_less [word_facts]: "unat (w :: u16) < 65536"
  using unat_less_2p [of w] by simp

lemma unat_u8_less [word_facts]: "unat (w :: u8) < 256"
  using unat_less_2p [of w] by simp

lemma unat_of_nat_small: "n < 2 ^ LENGTH('a) \<Longrightarrow> unat (of_nat n :: 'a::len word) = n"
  by (simp add: unsigned_of_nat take_bit_nat_eq_self)

lemma unat_add_no_wrap:
  "unat a + unat b < 2 ^ LENGTH('a) \<Longrightarrow> unat (a + b :: 'a::len word) = unat a + unat b"
  by (simp add: unat_word_ariths)

lemma unat_mult_no_wrap:
  "unat a * unat b < 2 ^ LENGTH('a) \<Longrightarrow> unat (a * b :: 'a::len word) = unat a * unat b"
  by (simp add: unat_word_ariths)

lemma unat_sub_no_wrap: "b \<le> a \<Longrightarrow> unat (a - b :: 'a::len word) = unat a - unat b"
  by (rule unat_sub)

text \<open>The overflow guard \<^verbatim>\<open>increment > MAX - value\<close> is exactly the test that the sum fits.\<close>

lemma word_add_guard:
  "(b \<le> - 1 - a) \<longleftrightarrow> unat a + unat (b :: 'a::len word) < 2 ^ LENGTH('a)"
proof -
  have "unat (- 1 - a) = 2 ^ LENGTH('a) - 1 - unat a"
    using unat_sub_no_wrap [of a "- 1"] by (simp add: unsigned_minus_1_eq_mask mask_eq_exp_minus_1)
  then show ?thesis
    using unat_less_2p [of a] unfolding word_le_nat_alt by linarith
qed

lemma word_neq_0_unat: "(w :: 'a::len word) \<noteq> 0 \<longleftrightarrow> 0 < unat w"
  by (simp add: unat_gt_0)

lemma word_and_one_bit: "(w AND push_bit n 1 = (0 :: 'a::len word)) \<longleftrightarrow> \<not> bit w n"
  unfolding push_bit_of_1 by (rule and_exp_eq_0_iff_not_bit)


text \<open>The test \<^verbatim>\<open>(value & (value - 1)) == 0\<close> recognises exactly the powers of two.\<close>

lemma word_power_of_two:
  assumes "w \<noteq> 0" "w AND (w - 1) = (0 :: 'a::len word)"
  shows "\<exists>k < LENGTH('a). unat w = 2 ^ k"
proof -
  define n where "n = unat w"
  have n0: "0 < n" using assms(1) by (simp add: n_def unat_gt_0)
  obtain k where k: "2 ^ k \<le> n" "n < 2 ^ Suc k"
    using n0 ex_power_ivl1 [of 2 n] by auto
  have "n < 2 ^ LENGTH('a)" unfolding n_def by (rule unat_less_2p)
  then have kl: "k < LENGTH('a)"
    using k(1) by (metis le_less_trans nat_power_less_imp_less zero_less_numeral)
  have high: "bit m k" if "2 ^ k \<le> m" "m < 2 ^ Suc k" for m :: nat
  proof -
    have "m div 2 ^ k = 1" using that by (intro div_nat_eqI) simp_all
    then show ?thesis by (simp add: bit_iff_odd)
  qed
  have "n = 2 ^ k"
  proof (rule ccontr)
    assume "n \<noteq> 2 ^ k"
    with k have "bit n k" "bit (n - 1) k" using n0 by (auto intro!: high)
    moreover have "n - 1 = unat (w - 1)"
      using n0 by (subst unat_sub_no_wrap) (auto simp: n_def word_le_nat_alt)
    ultimately have "bit w k" "bit (w - 1) k"
      using kl by (simp_all add: n_def bit_unsigned_iff)
    then have "bit (w AND (w - 1)) k" by (simp add: bit_and_iff)
    with assms(2) show False by simp
  qed
  with kl show ?thesis unfolding n_def by blast
qed

lemma unat_and_power_minus_1:
  assumes "unat (p :: 'a::len word) = 2 ^ k"
  shows "unat (w AND (p - 1)) = unat w mod unat p"
proof -
  have "(2 :: nat) ^ k < 2 ^ LENGTH('a)" using unat_less_2p [of p] assms by simp
  then have "k < LENGTH('a)" by simp
  then have "p = 2 ^ k"
    using assms unat_of_nat_small [of "2 ^ k", where 'a = 'a] by (simp add: word_unat_eq_iff)
  then have "w AND (p - 1) = w mod p"
    by (simp add: mask_eq_exp_minus_1 [symmetric] take_bit_eq_mask [symmetric] take_bit_eq_mod)
  then show ?thesis by (simp add: unat_mod)
qed


lemma not_bit_ge:
  assumes "unat (w :: 'a::len word) < 2 ^ k" "k \<le> n"
  shows "\<not> bit w n"
proof
  assume b: "bit w n"
  then have "n < LENGTH('a)" by (rule bit_imp_le_length)
  with b have "bit (unat w) n" by (simp add: bit_unsigned_iff)
  then have "bit (take_bit k (unat w)) n" using assms(1) by (simp add: take_bit_nat_eq_self)
  with assms(2) show False by (simp add: bit_take_bit_iff)
qed

lemma and_mask_small:
  "unat (w :: 'a::len word) < 2 ^ k \<Longrightarrow> w AND mask k = w"
  by (rule bit_word_eqI) (auto simp: bit_and_iff bit_mask_iff dest: not_bit_ge, meson not_bit_ge not_le)

end
