(* ===== verification/Ring_Buffer.thy ===== *)
theory Ring_Buffer
  imports Kurogane_Prelude
begin

text \<open>
  \<^verbatim>\<open>kernel/libk/status.hpp\<close> and \<^verbatim>\<open>kernel/libk/ring_buffer.hpp\<close>: the common result codes and the
  fixed-capacity ring buffer.  The interface of a bounded first-in first-out queue is the locale
  \<open>bounded_fifo\<close>; its client lemma compares any run of pushes and pops with the run of the same
  calls on a plain list.  \<open>RingBuffer\<close> is interpreted here, the IPC message queue in the theory
  of the channels.
\<close>

section \<open>Result codes\<close>

datatype KStatus =
    Ok | InvalidArgument | NotFound | AlreadyExists | NoMemory | IoError | Timeout
  | PermissionDenied | NotSupported | Busy | Corrupted | InternalError | OutOfRange
  | BufferTooSmall | WouldBlock | Interrupted | BadState | NoDevice | DeviceFault | ReadOnly
  | EndOfStream | StaleHandle

definition kstatus_succeeded :: "KStatus \<Rightarrow> bool" where
  "kstatus_succeeded status \<longleftrightarrow> status = KStatus.Ok"

definition kstatus_failed :: "KStatus \<Rightarrow> bool" where
  "kstatus_failed status \<longleftrightarrow> \<not> kstatus_succeeded status"

fun kstatus_name :: "KStatus \<Rightarrow> string" where
  "kstatus_name Ok = ''KSTATUS_OK''"
| "kstatus_name InvalidArgument = ''KSTATUS_INVALID_ARGUMENT''"
| "kstatus_name NotFound = ''KSTATUS_NOT_FOUND''"
| "kstatus_name AlreadyExists = ''KSTATUS_ALREADY_EXISTS''"
| "kstatus_name NoMemory = ''KSTATUS_NO_MEMORY''"
| "kstatus_name IoError = ''KSTATUS_IO_ERROR''"
| "kstatus_name Timeout = ''KSTATUS_TIMEOUT''"
| "kstatus_name PermissionDenied = ''KSTATUS_PERMISSION_DENIED''"
| "kstatus_name NotSupported = ''KSTATUS_NOT_SUPPORTED''"
| "kstatus_name Busy = ''KSTATUS_BUSY''"
| "kstatus_name Corrupted = ''KSTATUS_CORRUPTED''"
| "kstatus_name InternalError = ''KSTATUS_INTERNAL_ERROR''"
| "kstatus_name OutOfRange = ''KSTATUS_OUT_OF_RANGE''"
| "kstatus_name BufferTooSmall = ''KSTATUS_BUFFER_TOO_SMALL''"
| "kstatus_name WouldBlock = ''KSTATUS_WOULD_BLOCK''"
| "kstatus_name Interrupted = ''KSTATUS_INTERRUPTED''"
| "kstatus_name BadState = ''KSTATUS_BAD_STATE''"
| "kstatus_name NoDevice = ''KSTATUS_NO_DEVICE''"
| "kstatus_name DeviceFault = ''KSTATUS_DEVICE_FAULT''"
| "kstatus_name ReadOnly = ''KSTATUS_READ_ONLY''"
| "kstatus_name EndOfStream = ''KSTATUS_END_OF_STREAM''"
| "kstatus_name StaleHandle = ''KSTATUS_STALE_HANDLE''"

fun kstatus_message :: "KStatus \<Rightarrow> string" where
  "kstatus_message Ok = ''success''"
| "kstatus_message InvalidArgument = ''invalid argument''"
| "kstatus_message NotFound = ''not found''"
| "kstatus_message AlreadyExists = ''already exists''"
| "kstatus_message NoMemory = ''out of memory''"
| "kstatus_message IoError = ''I/O error''"
| "kstatus_message Timeout = ''operation timed out''"
| "kstatus_message PermissionDenied = ''permission denied''"
| "kstatus_message NotSupported = ''operation not supported''"
| "kstatus_message Busy = ''resource busy''"
| "kstatus_message Corrupted = ''corrupted data''"
| "kstatus_message InternalError = ''internal error''"
| "kstatus_message OutOfRange = ''value out of range''"
| "kstatus_message BufferTooSmall = ''buffer too small''"
| "kstatus_message WouldBlock = ''operation would block''"
| "kstatus_message Interrupted = ''operation interrupted''"
| "kstatus_message BadState = ''invalid state''"
| "kstatus_message NoDevice = ''device not present''"
| "kstatus_message DeviceFault = ''device fault''"
| "kstatus_message ReadOnly = ''resource is read-only''"
| "kstatus_message EndOfStream = ''end of stream''"
| "kstatus_message StaleHandle = ''stale handle''"

section \<open>Circular arrays\<close>

text \<open>The elements of a circular array, oldest first.\<close>

definition ring_contents :: "'a list \<Rightarrow> nat \<Rightarrow> nat \<Rightarrow> 'a list" where
  "ring_contents vals head n = map (\<lambda>k. vals ! ((head + k) mod length vals)) [0..<n]"

lemma length_ring_contents [simp]: "length (ring_contents vals head n) = n"
  by (simp add: ring_contents_def)

lemma ring_contents_0 [simp]: "ring_contents vals head 0 = []"
  by (simp add: ring_contents_def)

lemma mod_add_neq:
  assumes "k < n" "n < (m :: nat)"
  shows "(h + k) mod m \<noteq> (h + n) mod m"
proof
  assume "(h + k) mod m = (h + n) mod m"
  then have "m dvd (h + n) - (h + k)"
    using assms by (metis add_le_cancel_left less_imp_le mod_eq_dvd_iff_nat)
  then have "m dvd n - k" by simp
  with assms show False by (auto dest: dvd_imp_le)
qed

lemma ring_contents_push:
  assumes "n < length vals"
  shows "ring_contents (vals[(head + n) mod length vals := x]) head (Suc n)
    = ring_contents vals head n @ [x]"
proof -
  have "vals[(head + n) mod length vals := x] ! ((head + k) mod length vals)
      = vals ! ((head + k) mod length vals)" if "k < n" for k
    using mod_add_neq [OF that assms, of head] by (metis nth_list_update_neq)
  moreover have "(head + n) mod length vals < length vals"
    by (rule mod_less_divisor) (use assms in linarith)
  ultimately show ?thesis by (simp add: ring_contents_def)
qed

lemma ring_contents_pop:
  assumes "0 < n" "head < length vals"
  shows "ring_contents vals head n = vals ! head # ring_contents vals ((head + 1) mod length vals) (n - 1)"
proof -
  obtain m where m: "n = Suc m" using assms(1) by (cases n) auto
  have "map (\<lambda>k. vals ! ((head + k) mod length vals)) [0..<Suc m]
      = vals ! (head mod length vals) # map (\<lambda>k. vals ! ((head + Suc k) mod length vals)) [0..<m]"
    by (simp only: upt_conv_Cons [OF zero_less_Suc] map_upt_Suc [symmetric] list.map map_Suc_upt [symmetric])
       simp
  moreover have "(Suc head mod length vals + k) mod length vals = Suc (head + k) mod length vals" for k
    using mod_add_left_eq [of "Suc head" "length vals" k] by simp
  ultimately show ?thesis using assms(2) by (simp add: ring_contents_def m)
qed

lemma ring_contents_update_outside:
  assumes "n < length vals" "head < length vals"
  shows "ring_contents (vals[head := x]) ((head + 1) mod length vals) n
    = ring_contents vals ((head + 1) mod length vals) n"
proof -
  have "((head + 1) mod length vals + k) mod length vals \<noteq> head" if "k < n" for k
    using mod_add_neq [of 0 "Suc k" "length vals" head] assms that
    by (auto simp: mod_simps)
  then have "vals[head := x] ! (((head + 1) mod length vals + k) mod length vals)
      = vals ! (((head + 1) mod length vals + k) mod length vals)" if "k < n" for k
    using that by (metis nth_list_update_neq)
  then show ?thesis by (simp add: ring_contents_def)
qed

section \<open>Bounded first-in first-out queues\<close>

text \<open>
  The calls a client makes on a bounded queue and what it sees of them.  The list machine
  \<open>fifo_spec\<close> is the contract: a push on a full queue is refused and changes nothing, a pop
  returns the oldest element still held.
\<close>

datatype 'a fifo_call = Push 'a | Pop

datatype 'a fifo_reply = Accepted | Refused | Got 'a | Empty

fun fifo_spec :: "nat \<Rightarrow> 'a list \<Rightarrow> 'a fifo_call list \<Rightarrow> 'a fifo_reply list \<times> 'a list" where
  "fifo_spec cap xs [] = ([], xs)"
| "fifo_spec cap xs (Push x # cs) =
     (if length xs < cap
      then let (rs, ys) = fifo_spec cap (xs @ [x]) cs in (Accepted # rs, ys)
      else let (rs, ys) = fifo_spec cap xs cs in (Refused # rs, ys))"
| "fifo_spec cap xs (Pop # cs) =
     (case xs of
        [] \<Rightarrow> let (rs, ys) = fifo_spec cap [] cs in (Empty # rs, ys)
      | x # xs' \<Rightarrow> let (rs, ys) = fifo_spec cap xs' cs in (Got x # rs, ys))"

text \<open>What went in and what came out, in order.\<close>

fun pushed :: "'a fifo_call list \<Rightarrow> 'a fifo_reply list \<Rightarrow> 'a list" where
  "pushed (Push x # cs) (Accepted # rs) = x # pushed cs rs"
| "pushed (_ # cs) (_ # rs) = pushed cs rs"
| "pushed _ _ = []"

fun popped :: "'a fifo_reply list \<Rightarrow> 'a list" where
  "popped [] = []"
| "popped (Got x # rs) = x # popped rs"
| "popped (_ # rs) = popped rs"

text \<open>The same calls on an implementation, given by its push and pop.\<close>

fun fifo_run :: "('a \<Rightarrow> 'q \<Rightarrow> 'a fifo_reply \<times> 'q) \<Rightarrow> ('q \<Rightarrow> 'a fifo_reply \<times> 'q) \<Rightarrow>
    'q \<Rightarrow> 'a fifo_call list \<Rightarrow> 'a fifo_reply list \<times> 'q" where
  "fifo_run push pop q [] = ([], q)"
| "fifo_run push pop q (Push x # cs) =
     (let (r, q') = push x q; (rs, q'') = fifo_run push pop q' cs in (r # rs, q''))"
| "fifo_run push pop q (Pop # cs) =
     (let (r, q') = pop q; (rs, q'') = fifo_run push pop q' cs in (r # rs, q''))"

lemma fifo_spec_order:
  "fifo_spec cap xs cs = (rs, ys) \<Longrightarrow> xs @ pushed cs rs = popped rs @ ys"
  by (induction cap xs cs arbitrary: rs ys rule: fifo_spec.induct)
     (auto split: if_splits list.splits prod.splits)

locale bounded_fifo =
  fixes invar :: "'q \<Rightarrow> bool"
    and contents :: "'q \<Rightarrow> 'a list"
    and cap :: nat
    and push :: "'a \<Rightarrow> 'q \<Rightarrow> 'a fifo_reply \<times> 'q"
    and pop :: "'q \<Rightarrow> 'a fifo_reply \<times> 'q"
  assumes push_room: "invar q \<Longrightarrow> length (contents q) < cap \<Longrightarrow>
      fst (push x q) = Accepted \<and> contents (snd (push x q)) = contents q @ [x]"
    and push_full: "invar q \<Longrightarrow> \<not> length (contents q) < cap \<Longrightarrow>
      fst (push x q) = Refused \<and> contents (snd (push x q)) = contents q"
    and pop_some: "invar q \<Longrightarrow> contents q = x # xs \<Longrightarrow>
      fst (pop q) = Got x \<and> contents (snd (pop q)) = xs"
    and pop_none: "invar q \<Longrightarrow> contents q = [] \<Longrightarrow> pop q = (Empty, q)"
    and push_invar: "invar q \<Longrightarrow> invar (snd (push x q))"
    and pop_invar: "invar q \<Longrightarrow> invar (snd (pop q))"
begin

lemma run_push:
  assumes inv: "invar q"
    and IH: "\<And>q. invar q \<Longrightarrow> invar (snd (fifo_run push pop q cs)) \<and> fifo_spec cap (contents q) cs
      = (fst (fifo_run push pop q cs), contents (snd (fifo_run push pop q cs)))"
  shows "invar (snd (fifo_run push pop q (Push x # cs))) \<and> fifo_spec cap (contents q) (Push x # cs)
      = (fst (fifo_run push pop q (Push x # cs)), contents (snd (fifo_run push pop q (Push x # cs))))"
proof -
  obtain r q' where p: "push x q = (r, q')" by (cases "push x q")
  have I: "invar q'" using push_invar [OF inv, of x] p by simp
  show ?thesis
  proof (cases "length (contents q) < cap")
    case True
    with push_room [OF inv, of x] p have "r = Accepted" "contents q' = contents q @ [x]" by auto
    with IH [OF I] True p show ?thesis by (auto split: prod.splits)
  next
    case False
    with push_full [OF inv, of x] p have "r = Refused" "contents q' = contents q" by auto
    with IH [OF I] False p show ?thesis by (auto split: prod.splits)
  qed
qed

lemma run_pop:
  assumes inv: "invar q"
    and IH: "\<And>q. invar q \<Longrightarrow> invar (snd (fifo_run push pop q cs)) \<and> fifo_spec cap (contents q) cs
      = (fst (fifo_run push pop q cs), contents (snd (fifo_run push pop q cs)))"
  shows "invar (snd (fifo_run push pop q (Pop # cs))) \<and> fifo_spec cap (contents q) (Pop # cs)
      = (fst (fifo_run push pop q (Pop # cs)), contents (snd (fifo_run push pop q (Pop # cs))))"
proof -
  obtain r q' where p: "pop q = (r, q')" by (cases "pop q")
  have I: "invar q'" using pop_invar [OF inv] p by simp
  show ?thesis
  proof (cases "contents q")
    case Nil
    with pop_none [OF inv] p have "r = Empty" "q' = q" by auto
    with IH [OF I] Nil p show ?thesis by (auto split: prod.splits)
  next
    case (Cons x xs)
    with pop_some [OF inv] p have "r = Got x" "contents q' = xs" by auto
    with IH [OF I] Cons p show ?thesis by (auto split: prod.splits)
  qed
qed

lemma run_refines:
  "invar q \<Longrightarrow> invar (snd (fifo_run push pop q cs)) \<and> fifo_spec cap (contents q) cs
    = (fst (fifo_run push pop q cs), contents (snd (fifo_run push pop q cs)))"
proof (induction cs arbitrary: q)
  case Nil
  then show ?case by simp
next
  case (Cons c cs)
  show ?case
  proof (cases c)
    case (Push x)
    show ?thesis unfolding Push by (rule run_push [OF Cons.prems Cons.IH])
  next
    case Pop
    show ?thesis unfolding Pop by (rule run_pop [OF Cons.prems Cons.IH])
  qed
qed

lemma run_fifo:
  assumes "invar q"
  shows "contents q @ pushed cs (fst (fifo_run push pop q cs)) = popped (fst (fifo_run push pop q cs)) @ contents (snd (fifo_run push pop q cs))"
  using run_refines [OF assms, of cs] by (intro fifo_spec_order [of cap]) simp

end

section \<open>RingBuffer\<close>

record 'a RingBuffer =
  rb_values :: "'a list"
  rb_head :: nat
  rb_tail :: nat
  rb_size :: nat

text \<open>
  A buffer starts with \<open>Capacity\<close> value-initialised cells; \<open>zero\<close> is the value-initialised \<open>T\<close>.
\<close>

definition RingBuffer_init :: "nat \<Rightarrow> 'a \<Rightarrow> 'a RingBuffer" where
  "RingBuffer_init Capacity zero =
     \<lparr>rb_values = replicate Capacity zero, rb_head = 0, rb_tail = 0, rb_size = 0\<rparr>"

abbreviation Capacity :: "'a RingBuffer \<Rightarrow> nat" where
  "Capacity b \<equiv> length (rb_values b)"

definition ring_empty :: "'a RingBuffer \<Rightarrow> bool" where
  "ring_empty b \<longleftrightarrow> rb_size b = 0"

definition ring_full :: "'a RingBuffer \<Rightarrow> bool" where
  "ring_full b \<longleftrightarrow> rb_size b = Capacity b"

definition ring_push :: "'a \<Rightarrow> 'a RingBuffer \<Rightarrow> KStatus \<times> 'a RingBuffer" where
  "ring_push value b =
     (if ring_full b then (KStatus.Busy, b)
      else (KStatus.Ok,
            b\<lparr>rb_values := (rb_values b)[rb_tail b := value],
              rb_tail := (rb_tail b + 1) mod Capacity b,
              rb_size := rb_size b + 1\<rparr>))"

definition ring_pop :: "'a option \<Rightarrow> 'a RingBuffer \<Rightarrow> KStatus \<times> 'a option \<times> 'a RingBuffer" where
  "ring_pop value b =
     (case value of
        None \<Rightarrow> (KStatus.InvalidArgument, None, b)
      | Some _ \<Rightarrow>
          if ring_empty b then (KStatus.WouldBlock, value, b)
          else (KStatus.Ok, Some (rb_values b ! rb_head b),
                b\<lparr>rb_head := (rb_head b + 1) mod Capacity b, rb_size := rb_size b - 1\<rparr>))"

definition ring_invar :: "nat \<Rightarrow> 'a RingBuffer \<Rightarrow> bool" where
  "ring_invar cap b \<longleftrightarrow> 0 < cap \<and> Capacity b = cap \<and> rb_head b < cap \<and> rb_size b \<le> cap
     \<and> rb_tail b = (rb_head b + rb_size b) mod cap"

definition ring_list :: "'a RingBuffer \<Rightarrow> 'a list" where
  "ring_list b = ring_contents (rb_values b) (rb_head b) (rb_size b)"

text \<open>The replies of the two calls as a client reads them; \<open>pop\<close> gets a valid output pointer.\<close>

definition ring_push_reply :: "'a \<Rightarrow> 'a RingBuffer \<Rightarrow> 'a fifo_reply \<times> 'a RingBuffer" where
  "ring_push_reply x b = (case ring_push x b of (st, b') \<Rightarrow> (if st = KStatus.Ok then Accepted else Refused, b'))"

definition ring_pop_reply :: "'a \<Rightarrow> 'a RingBuffer \<Rightarrow> 'a fifo_reply \<times> 'a RingBuffer" where
  "ring_pop_reply out b =
     (case ring_pop (Some out) b of (st, v, b') \<Rightarrow> (if st = KStatus.Ok then Got (the v) else Empty, b'))"

lemma ring_invar_init: "0 < cap \<Longrightarrow> ring_invar cap (RingBuffer_init cap z)"
  by (simp add: ring_invar_def RingBuffer_init_def)

lemma ring_list_init: "ring_list (RingBuffer_init cap z) = []"
  by (simp add: ring_list_def RingBuffer_init_def)

lemma ring_push_room:
  assumes "ring_invar cap b" "rb_size b < cap"
  shows "ring_list (snd (ring_push x b)) = ring_list b @ [x]" "fst (ring_push x b) = KStatus.Ok"
    "ring_invar cap (snd (ring_push x b))"
  using assms ring_contents_push [of "rb_size b" "rb_values b" "rb_head b" x]
  by (auto simp: ring_push_def ring_full_def ring_list_def ring_invar_def mod_Suc_eq)

lemma ring_pop_some:
  assumes "ring_invar cap b" "0 < rb_size b"
  shows "ring_pop (Some out) b = (KStatus.Ok, Some (hd (ring_list b)),
      b\<lparr>rb_head := (rb_head b + 1) mod cap, rb_size := rb_size b - 1\<rparr>)"
    "ring_list (b\<lparr>rb_head := (rb_head b + 1) mod cap, rb_size := rb_size b - 1\<rparr>) = tl (ring_list b)"
    "ring_invar cap (b\<lparr>rb_head := (rb_head b + 1) mod cap, rb_size := rb_size b - 1\<rparr>)"
proof -
  have c: "ring_list b = rb_values b ! rb_head b # ring_contents (rb_values b) ((rb_head b + 1) mod cap) (rb_size b - 1)"
    using ring_contents_pop [of "rb_size b" "rb_head b" "rb_values b"] assms
    by (simp add: ring_list_def ring_invar_def)
  show "ring_pop (Some out) b = (KStatus.Ok, Some (hd (ring_list b)),
      b\<lparr>rb_head := (rb_head b + 1) mod cap, rb_size := rb_size b - 1\<rparr>)"
    using assms c by (simp add: ring_pop_def ring_empty_def ring_invar_def)
  show "ring_list (b\<lparr>rb_head := (rb_head b + 1) mod cap, rb_size := rb_size b - 1\<rparr>) = tl (ring_list b)"
    using c by (simp add: ring_list_def)
  have "((rb_head b + 1) mod cap + (rb_size b - 1)) mod cap = (rb_head b + rb_size b) mod cap"
    using assms(2) mod_add_left_eq [of "rb_head b + 1" cap "rb_size b - 1"] by simp
  then show "ring_invar cap (b\<lparr>rb_head := (rb_head b + 1) mod cap, rb_size := rb_size b - 1\<rparr>)"
    using assms by (auto simp: ring_invar_def)
qed

interpretation rb: bounded_fifo "ring_invar cap" ring_list cap ring_push_reply "ring_pop_reply out"
proof unfold_locales
  fix q :: "'a RingBuffer" and x :: 'a and xs
  assume inv: "ring_invar cap q"
  have len: "length (ring_list q) = rb_size q" by (simp add: ring_list_def)
  show "fst (ring_push_reply x q) = Accepted \<and> ring_list (snd (ring_push_reply x q)) = ring_list q @ [x]"
    if "length (ring_list q) < cap"
    using ring_push_room [OF inv, of x] that len by (auto simp: ring_push_reply_def split: prod.splits)
  show "fst (ring_push_reply x q) = Refused \<and> ring_list (snd (ring_push_reply x q)) = ring_list q" if "\<not> length (ring_list q) < cap"
    using inv that len by (simp add: ring_push_reply_def ring_push_def ring_full_def ring_invar_def)
  show "fst (ring_pop_reply out q) = Got x \<and> ring_list (snd (ring_pop_reply out q)) = xs"
    if "ring_list q = x # xs"
  proof -
    have "0 < rb_size q" using that len by auto
    from ring_pop_some [OF inv this] that show ?thesis by (simp add: ring_pop_reply_def)
  qed
  show "ring_pop_reply out q = (Empty, q)" if "ring_list q = []"
    using that len by (simp add: ring_pop_reply_def ring_pop_def ring_empty_def)
  show "ring_invar cap (snd (ring_push_reply x q))"
    using ring_push_room(3) [OF inv, of x] inv
    by (cases "rb_size q < cap")
       (auto simp: ring_push_reply_def ring_push_def ring_full_def ring_invar_def split: prod.splits)
  show "ring_invar cap (snd (ring_pop_reply out q))"
    using ring_pop_some [OF inv] inv
    by (cases "0 < rb_size q") (auto simp: ring_pop_reply_def ring_pop_def ring_empty_def)
qed

text \<open>
  C1.  Every sequence of \<open>push\<close> and \<open>pop\<close> calls on a \<open>RingBuffer\<close> of any non-zero capacity answers
  exactly as a bounded list would (a push is refused only when \<open>Capacity\<close> elements are held), and
  the values popped followed by the values still held are the accepted pushes in order: nothing is
  lost, duplicated or reordered.
\<close>

theorem ring_buffer_is_fifo:
  assumes "0 < cap"
  shows "fifo_spec cap [] cs =
      (fst (fifo_run ring_push_reply (ring_pop_reply out) (RingBuffer_init cap z) cs),
       ring_list (snd (fifo_run ring_push_reply (ring_pop_reply out) (RingBuffer_init cap z) cs))) \<and>
    pushed cs (fst (fifo_run ring_push_reply (ring_pop_reply out) (RingBuffer_init cap z) cs)) =
      popped (fst (fifo_run ring_push_reply (ring_pop_reply out) (RingBuffer_init cap z) cs)) @
      ring_list (snd (fifo_run ring_push_reply (ring_pop_reply out) (RingBuffer_init cap z) cs))"
  using rb.run_refines [OF ring_invar_init [OF assms, of z], of out cs]
    rb.run_fifo [OF ring_invar_init [OF assms, of z], of cs out]
  by (simp add: ring_list_init)

theorem ring_buffer_is_fifo_witness:
  "0 < (2 :: nat) \<and>
   fst (fifo_run ring_push_reply (ring_pop_reply 0) (RingBuffer_init 2 0)
     [Push (5 :: nat), Push 6, Push 7, Pop, Push 8, Pop, Pop, Pop]) =
   [Accepted, Accepted, Refused, Got 5, Accepted, Got 6, Got 8, Empty]"
  using ring_buffer_is_fifo [of 2 "[Push (5 :: nat), Push 6, Push 7, Pop, Push 8, Pop, Pop, Pop]" 0 0]
  by simp

end
