(* ===== verification/Physical_Memory.thy ===== *)
theory Physical_Memory
  imports Kurogane_Prelude
begin

text \<open>
  \<^verbatim>\<open>kernel/memory/physical_memory.cpp\<close>: the bitmap allocator of physical frames.  The file's static
  variables are the record \<open>pmm\<close>; \<open>g_bitmap\<close> is the bitmap's address (0 is \<open>nullptr\<close>) and
  \<open>g_bitmap_store\<close> the bytes it points to.  The interface the rest of the kernel relies on is the
  locale \<open>frame_provider\<close>, interpreted here on \<open>alloc_frame\<close> and \<open>free_frame\<close>.
\<close>

section \<open>State and operations\<close>

record pmm =
  g_bitmap :: u64
  g_bitmap_store :: "u8 list"
  g_bitmap_bytes :: u64
  g_base :: u64
  g_end :: u64
  g_frame_count :: u64
  g_frame_size :: u64
  g_used_frames :: u64
  g_reserved_frames :: u64
  g_bitmap_reserved_first :: u64
  g_bitmap_reserved_count :: u64
  g_zero_frame_reserved :: bool

definition STATIC_BITMAP_BYTES :: u64 where
  "STATIC_BITMAP_BYTES = 128 * 1024"

definition is_power_of_two :: "u64 \<Rightarrow> bool" where
  "is_power_of_two value \<longleftrightarrow> value \<noteq> 0 \<and> value AND (value - 1) = 0"

definition reset_state :: pmm where
  "reset_state =
     \<lparr>g_bitmap = 0, g_bitmap_store = [], g_bitmap_bytes = 0, g_base = 0, g_end = 0,
      g_frame_count = 0, g_frame_size = 4096, g_used_frames = 0, g_reserved_frames = 0,
      g_bitmap_reserved_first = 0, g_bitmap_reserved_count = 0, g_zero_frame_reserved = False\<rparr>"

definition bitmap_bit :: "pmm \<Rightarrow> nat \<Rightarrow> bool" where
  "bitmap_bit s frame_index \<longleftrightarrow>
     (g_bitmap_store s ! (frame_index div 8)) AND push_bit (frame_index mod 8) 1 \<noteq> 0"

definition set_bitmap_bit :: "nat \<Rightarrow> pmm \<Rightarrow> pmm" where
  "set_bitmap_bit frame_index s =
     s\<lparr>g_bitmap_store := (g_bitmap_store s)[frame_index div 8 :=
         (g_bitmap_store s ! (frame_index div 8)) OR push_bit (frame_index mod 8) 1]\<rparr>"

definition clear_bitmap_bit :: "nat \<Rightarrow> pmm \<Rightarrow> pmm" where
  "clear_bitmap_bit frame_index s =
     s\<lparr>g_bitmap_store := (g_bitmap_store s)[frame_index div 8 :=
         (g_bitmap_store s ! (frame_index div 8)) AND NOT (push_bit (frame_index mod 8) 1)]\<rparr>"

definition reserve_frame :: "nat \<Rightarrow> pmm \<Rightarrow> pmm" where
  "reserve_frame frame_index s =
     (if \<not> bitmap_bit s frame_index
      then (set_bitmap_bit frame_index s)\<lparr>g_used_frames := g_used_frames s + 1\<rparr>
      else s)"

definition is_reserved_frame :: "pmm \<Rightarrow> nat \<Rightarrow> bool" where
  "is_reserved_frame s frame_index \<longleftrightarrow>
     (g_zero_frame_reserved s \<and> frame_index = 0) \<or>
     (g_bitmap_reserved_count s \<noteq> 0 \<and> unat (g_bitmap_reserved_first s) \<le> frame_index \<and>
      frame_index - unat (g_bitmap_reserved_first s) < unat (g_bitmap_reserved_count s))"

text \<open>
  \<open>initialize\<close> in three steps: the argument checks, the state after the bitmap is cleared, and the
  reservations.  \<open>bitmap_storage\<close> is the storage's address.
\<close>

definition initialize_checks :: "u64 \<Rightarrow> u64 \<Rightarrow> u64 \<Rightarrow> u64 \<Rightarrow> u64 \<Rightarrow> bool" where
  "initialize_checks base sz frame_size bitmap_storage bitmap_storage_size =
     (if bitmap_storage = 0 \<or> frame_size = 0 \<or> \<not> is_power_of_two frame_size \<or> frame_size > - 1 \<or>
         base AND (frame_size - 1) \<noteq> 0 \<or> sz < frame_size
      then False
      else let frame_count = sz div frame_size in
        if frame_count = 0 \<or> frame_count > - 1 - 7 then False
        else let bitmap_bytes = (frame_count + 7) div 8 in
          if bitmap_storage_size < bitmap_bytes then False
          else let managed_size = frame_count * frame_size in
            if managed_size > - 1 - base then False
            else \<not> bitmap_bytes > - 1 - bitmap_storage)"

definition reserve_bitmap :: "pmm \<Rightarrow> pmm" where
  "reserve_bitmap s =
     (let bitmap_start = g_bitmap s;
          bitmap_end = bitmap_start + g_bitmap_bytes s;
          overlap_start = (if bitmap_start > g_base s then bitmap_start else g_base s);
          overlap_end = (if bitmap_end < g_end s then bitmap_end else g_end s)
      in if overlap_start < overlap_end
         then let first = (overlap_start - g_base s) div g_frame_size s;
                  last_frame = (overlap_end - 1 - g_base s) div g_frame_size s;
                  count = last_frame - first + 1
              in fold reserve_frame (map (\<lambda>i. unat first + i) [0..<unat count])
                   (s\<lparr>g_bitmap_reserved_first := first, g_bitmap_reserved_count := count\<rparr>)
         else s)"

definition reserve_zero :: "pmm \<Rightarrow> pmm" where
  "reserve_zero s =
     (if g_base s = 0 then reserve_frame 0 (s\<lparr>g_zero_frame_reserved := True\<rparr>) else s)"

definition count_reserved :: "pmm \<Rightarrow> pmm" where
  "count_reserved s =
     s\<lparr>g_reserved_frames := g_bitmap_reserved_count s +
         (if g_zero_frame_reserved s \<and>
             \<not> (g_bitmap_reserved_count s \<noteq> 0 \<and> g_bitmap_reserved_first s = 0)
          then 1 else 0)\<rparr>"

definition cleared_state :: "u64 \<Rightarrow> u64 \<Rightarrow> u64 \<Rightarrow> u64 \<Rightarrow> pmm" where
  "cleared_state base sz frame_size bitmap_storage =
     (let frame_count = sz div frame_size; bitmap_bytes = (frame_count + 7) div 8 in
      reset_state\<lparr>g_bitmap := bitmap_storage,
        g_bitmap_store := replicate (unat bitmap_bytes) 0,
        g_bitmap_bytes := bitmap_bytes,
        g_base := base,
        g_end := base + frame_count * frame_size,
        g_frame_count := frame_count,
        g_frame_size := frame_size\<rparr>)"

definition initialize :: "u64 \<Rightarrow> u64 \<Rightarrow> u64 \<Rightarrow> u64 \<Rightarrow> u64 \<Rightarrow> bool \<times> pmm" where
  "initialize base sz frame_size bitmap_storage bitmap_storage_size =
     (if initialize_checks base sz frame_size bitmap_storage bitmap_storage_size
      then (True, count_reserved (reserve_zero (reserve_bitmap
              (cleared_state base sz frame_size bitmap_storage))))
      else (False, reset_state))"

text \<open>\<open>static_bitmap\<close> is the link-time address of \<open>g_static_bitmap\<close>.\<close>

definition init_physical_memory :: "u64 \<Rightarrow> u64 \<Rightarrow> u64 \<Rightarrow> u64 \<Rightarrow> pmm" where
  "init_physical_memory static_bitmap base sz frame_size =
     snd (initialize base sz frame_size static_bitmap STATIC_BITMAP_BYTES)"

definition init_physical_memory_with_bitmap :: "u64 \<Rightarrow> u64 \<Rightarrow> u64 \<Rightarrow> u64 \<Rightarrow> u64 \<Rightarrow> bool \<times> pmm" where
  "init_physical_memory_with_bitmap base sz frame_size bitmap_storage bitmap_storage_size =
     initialize base sz frame_size bitmap_storage bitmap_storage_size"

definition frame_address :: "pmm \<Rightarrow> nat \<Rightarrow> u64" where
  "frame_address s i = g_base s + of_nat i * g_frame_size s"

definition frame_index_for_address :: "pmm \<Rightarrow> u64 \<Rightarrow> nat option" where
  "frame_index_for_address s address =
     (if g_bitmap s = 0 \<or> address < g_base s \<or> address \<ge> g_end s then None
      else let offset = address - g_base s in
        if offset mod g_frame_size s \<noteq> 0 then None
        else let frame_index = offset div g_frame_size s in
          if frame_index < g_frame_count s then Some (unat frame_index) else None)"

definition take_frame :: "nat \<Rightarrow> pmm \<Rightarrow> pmm" where
  "take_frame i s = (set_bitmap_bit i s)\<lparr>g_used_frames := g_used_frames s + 1\<rparr>"

definition alloc_frame :: "pmm \<Rightarrow> u64 \<times> pmm" where
  "alloc_frame s =
     (if g_bitmap s = 0 then (0, s)
      else case find_index (\<lambda>i. \<not> bitmap_bit s i) [0..<unat (g_frame_count s)] of
             None \<Rightarrow> (0, s)
           | Some i \<Rightarrow> (frame_address s i, take_frame i s))"

fun below_scan :: "pmm \<Rightarrow> u64 \<Rightarrow> nat list \<Rightarrow> nat option" where
  "below_scan s exclusive_limit [] = None"
| "below_scan s exclusive_limit (i # is) =
     (let address = frame_address s i in
      if address \<ge> exclusive_limit \<or> g_frame_size s > exclusive_limit - address then None
      else if \<not> bitmap_bit s i then Some i
      else below_scan s exclusive_limit is)"

definition alloc_frame_below :: "u64 \<Rightarrow> pmm \<Rightarrow> u64 \<times> pmm" where
  "alloc_frame_below exclusive_limit s =
     (if g_bitmap s = 0 \<or> exclusive_limit \<le> g_base s \<or> exclusive_limit < g_frame_size s then (0, s)
      else case below_scan s exclusive_limit [0..<unat (g_frame_count s)] of
             None \<Rightarrow> (0, s)
           | Some i \<Rightarrow> (frame_address s i, take_frame i s))"

definition try_free_frame :: "u64 \<Rightarrow> pmm \<Rightarrow> bool \<times> pmm" where
  "try_free_frame frame s =
     (case frame_index_for_address s frame of
        None \<Rightarrow> (False, s)
      | Some i \<Rightarrow>
          if is_reserved_frame s i \<or> \<not> bitmap_bit s i then (False, s)
          else (True, (clear_bitmap_bit i s)\<lparr>g_used_frames :=
                 (if g_used_frames s > 0 then g_used_frames s - 1 else g_used_frames s)\<rparr>))"

definition free_frame :: "u64 \<Rightarrow> pmm \<Rightarrow> pmm" where
  "free_frame frame s = snd (try_free_frame frame s)"

definition is_frame_allocated :: "pmm \<Rightarrow> u64 \<Rightarrow> bool" where
  "is_frame_allocated s frame =
     (case frame_index_for_address s frame of None \<Rightarrow> False | Some i \<Rightarrow> bitmap_bit s i)"

definition physical_memory_initialized :: "pmm \<Rightarrow> bool" where
  "physical_memory_initialized s \<longleftrightarrow> g_bitmap s \<noteq> 0"

definition total_frames :: "pmm \<Rightarrow> u64" where
  "total_frames s = g_frame_count s"

definition used_frames :: "pmm \<Rightarrow> u64" where
  "used_frames s = g_used_frames s"

definition free_frames :: "pmm \<Rightarrow> u64" where
  "free_frames s = g_frame_count s - g_used_frames s"

definition reserved_frames :: "pmm \<Rightarrow> u64" where
  "reserved_frames s = g_reserved_frames s"

section \<open>Invariant\<close>

abbreviation n_frames :: "pmm \<Rightarrow> nat" where
  "n_frames s \<equiv> unat (g_frame_count s)"

definition used_count :: "pmm \<Rightarrow> nat" where
  "used_count s = length (filter (bitmap_bit s) [0..<n_frames s])"

text \<open>
  Geometry: the managed range holds a whole number of aligned frames and does not wrap, and the
  bitmap has a bit for each of them.
\<close>

definition pmm_geometry :: "pmm \<Rightarrow> bool" where
  "pmm_geometry s \<longleftrightarrow> g_bitmap s \<noteq> 0 \<and> 0 < n_frames s \<and> 0 < unat (g_frame_size s) \<and>
     unat (g_base s) mod unat (g_frame_size s) = 0 \<and>
     unat (g_base s) + n_frames s * unat (g_frame_size s) = unat (g_end s) \<and>
     n_frames s \<le> 8 * length (g_bitmap_store s)"

definition pmm_inv :: "pmm \<Rightarrow> bool" where
  "pmm_inv s \<longleftrightarrow> s = reset_state \<or>
     (pmm_geometry s \<and> unat (g_used_frames s) = used_count s \<and>
      (\<forall>i < n_frames s. is_reserved_frame s i \<longrightarrow> bitmap_bit s i) \<and>
      (g_base s = 0 \<longrightarrow> g_zero_frame_reserved s))"


section \<open>The bitmap\<close>

lemma bitmap_bit_iff: "bitmap_bit s i \<longleftrightarrow> bit (g_bitmap_store s ! (i div 8)) (i mod 8)"
  by (simp only: bitmap_bit_def word_and_one_bit not_not)

lemma div_mod_8_eq: "i div 8 = j div 8 \<Longrightarrow> i mod 8 = j mod 8 \<Longrightarrow> i = (j::nat)"
  by (metis div_mult_mod_eq)

lemma bit_u8_push: "n < 8 \<Longrightarrow> bit (2 ^ n :: u8) m \<longleftrightarrow> m = n"
  by (auto simp: bit_exp_iff)

lemma bitmap_bit_set:
  assumes "i < 8 * length (g_bitmap_store s)"
  shows "bitmap_bit (set_bitmap_bit i s) j \<longleftrightarrow> j = i \<or> bitmap_bit s j"
proof -
  have "i div 8 < length (g_bitmap_store s)" using assms by simp
  then show ?thesis
    by (cases "j div 8 = i div 8")
       (auto simp: bitmap_bit_iff set_bitmap_bit_def bit_or_iff bit_u8_push dest: div_mod_8_eq)
qed

lemma bitmap_bit_clear:
  assumes "i < 8 * length (g_bitmap_store s)"
  shows "bitmap_bit (clear_bitmap_bit i s) j \<longleftrightarrow> j \<noteq> i \<and> bitmap_bit s j"
proof -
  have "i div 8 < length (g_bitmap_store s)" using assms by simp
  then show ?thesis
    by (cases "j div 8 = i div 8")
       (auto simp: bitmap_bit_iff clear_bitmap_bit_def bit_and_iff bit_not_iff bit_u8_push
         dest: div_mod_8_eq bit_imp_le_length)
qed

lemma set_clear_bitmap:
  "i < 8 * length (g_bitmap_store s) \<Longrightarrow> \<not> bitmap_bit s i \<Longrightarrow>
    clear_bitmap_bit i (set_bitmap_bit i s) = s"
proof -
  assume i: "i < 8 * length (g_bitmap_store s)" and b: "\<not> bitmap_bit s i"
  let ?w = "g_bitmap_store s ! (i div 8)" and ?m = "push_bit (i mod 8) 1 :: u8"
  have "(?w OR ?m) AND NOT ?m = ?w"
    using b by (intro bit_word_eqI) (auto simp: bitmap_bit_iff bit_simps)
  with i show ?thesis
    by (simp add: set_bitmap_bit_def clear_bitmap_bit_def)
qed

lemma bitmap_frame_simps [simp]:
  "g_bitmap (set_bitmap_bit i s) = g_bitmap s"
  "g_base (set_bitmap_bit i s) = g_base s"
  "g_end (set_bitmap_bit i s) = g_end s"
  "g_bitmap_bytes (set_bitmap_bit i s) = g_bitmap_bytes s"
  "g_frame_count (set_bitmap_bit i s) = g_frame_count s"
  "g_frame_size (set_bitmap_bit i s) = g_frame_size s"
  "g_used_frames (set_bitmap_bit i s) = g_used_frames s"
  "g_bitmap_reserved_first (set_bitmap_bit i s) = g_bitmap_reserved_first s"
  "g_bitmap_reserved_count (set_bitmap_bit i s) = g_bitmap_reserved_count s"
  "g_zero_frame_reserved (set_bitmap_bit i s) = g_zero_frame_reserved s"
  "length (g_bitmap_store (set_bitmap_bit i s)) = length (g_bitmap_store s)"
  "g_bitmap (clear_bitmap_bit i s) = g_bitmap s"
  "g_base (clear_bitmap_bit i s) = g_base s"
  "g_end (clear_bitmap_bit i s) = g_end s"
  "g_frame_count (clear_bitmap_bit i s) = g_frame_count s"
  "g_frame_size (clear_bitmap_bit i s) = g_frame_size s"
  "g_used_frames (clear_bitmap_bit i s) = g_used_frames s"
  "g_bitmap_reserved_first (clear_bitmap_bit i s) = g_bitmap_reserved_first s"
  "g_bitmap_reserved_count (clear_bitmap_bit i s) = g_bitmap_reserved_count s"
  "g_zero_frame_reserved (clear_bitmap_bit i s) = g_zero_frame_reserved s"
  "length (g_bitmap_store (clear_bitmap_bit i s)) = length (g_bitmap_store s)"
  by (simp_all add: set_bitmap_bit_def clear_bitmap_bit_def)

lemma bitmap_bit_used [simp]: "bitmap_bit (s\<lparr>g_used_frames := u\<rparr>) i = bitmap_bit s i"
  by (simp add: bitmap_bit_def)

lemma used_count_card: "used_count s = card {i. i < n_frames s \<and> bitmap_bit s i}"
proof -
  have "used_count s = card (set (filter (bitmap_bit s) [0..<n_frames s]))"
    unfolding used_count_def by (rule distinct_card [symmetric]) simp
  also have "set (filter (bitmap_bit s) [0..<n_frames s]) = {i. i < n_frames s \<and> bitmap_bit s i}"
    by auto
  finally show ?thesis .
qed

lemma used_count_le: "used_count s \<le> n_frames s"
  unfolding used_count_def using length_filter_le [of "bitmap_bit s" "[0..<n_frames s]"] by simp

lemma used_count_set:
  assumes "i < n_frames s" "n_frames s \<le> 8 * length (g_bitmap_store s)" "\<not> bitmap_bit s i"
  shows "used_count (set_bitmap_bit i s) = Suc (used_count s)"
proof -
  have "{j. j < n_frames s \<and> bitmap_bit (set_bitmap_bit i s) j}
      = insert i {j. j < n_frames s \<and> bitmap_bit s j}"
    using assms by (auto simp: bitmap_bit_set)
  then show ?thesis using assms(3) by (simp add: used_count_card)
qed

lemma used_count_clear:
  assumes "i < n_frames s" "n_frames s \<le> 8 * length (g_bitmap_store s)" "bitmap_bit s i"
  shows "Suc (used_count (clear_bitmap_bit i s)) = used_count s"
proof -
  have "{j. j < n_frames s \<and> bitmap_bit s j}
      = insert i {j. j < n_frames s \<and> bitmap_bit (clear_bitmap_bit i s) j}"
    using assms by (auto simp: bitmap_bit_clear)
  then show ?thesis using assms by (simp add: used_count_card bitmap_bit_clear)
qed

lemma used_count_full_iff:
  "used_count s = n_frames s \<longleftrightarrow> (\<forall>i < n_frames s. bitmap_bit s i)"
proof
  assume "used_count s = n_frames s"
  then have "card {i. i < n_frames s \<and> bitmap_bit s i} = card {i. i < n_frames s}"
    by (simp add: used_count_card)
  then have "{i. i < n_frames s \<and> bitmap_bit s i} = {i. i < n_frames s}"
    by (intro card_subset_eq) auto
  then show "\<forall>i < n_frames s. bitmap_bit s i" by auto
next
  assume "\<forall>i < n_frames s. bitmap_bit s i"
  then have "{i. i < n_frames s \<and> bitmap_bit s i} = {i. i < n_frames s}" by auto
  then show "used_count s = n_frames s" by (simp add: used_count_card)
qed

section \<open>Frames and addresses\<close>

lemma frame_address_unat:
  assumes "pmm_geometry s" "i < n_frames s"
  shows "unat (frame_address s i) = unat (g_base s) + i * unat (g_frame_size s)"
    and "unat (frame_address s i) + unat (g_frame_size s) \<le> unat (g_end s)"
proof -
  let ?fs = "unat (g_frame_size s)"
  have le: "Suc i * ?fs \<le> n_frames s * ?fs" using assms(2) by (intro mult_right_mono) auto
  with assms(1) have b: "unat (g_base s) + i * ?fs + ?fs \<le> unat (g_end s)"
    by (simp add: pmm_geometry_def)
  have i: "unat (of_nat i :: u64) = i"
    using assms(2) by (intro unat_of_nat_small) (simp add: less_trans [OF _ unat_u64_less])
  have m: "unat (of_nat i * g_frame_size s) = i * ?fs"
    using b unat_u64_less [of "g_end s"]
    by (subst unat_mult_no_wrap) (simp_all add: i)
  show *: "unat (frame_address s i) = unat (g_base s) + i * ?fs"
    unfolding frame_address_def using b unat_u64_less [of "g_end s"]
    by (subst unat_add_no_wrap) (simp_all add: m)
  show "unat (frame_address s i) + ?fs \<le> unat (g_end s)" using b * by simp
qed

lemma frame_index_of_address:
  assumes "pmm_geometry s" "i < n_frames s"
  shows "frame_index_for_address s (frame_address s i) = Some i"
proof -
  let ?a = "frame_address s i"
  note a = frame_address_unat [OF assms]
  have fs: "0 < unat (g_frame_size s)" using assms(1) by (simp add: pmm_geometry_def)
  have ge: "\<not> ?a < g_base s" using a by (simp add: word_less_nat_alt)
  have off: "unat (?a - g_base s) = i * unat (g_frame_size s)"
    using ge a by (simp add: unat_sub_no_wrap word_less_nat_alt word_le_nat_alt)
  have "\<not> g_end s \<le> ?a" using a fs by (simp add: word_le_nat_alt)
  moreover have "(?a - g_base s) mod g_frame_size s = 0"
    by (simp add: unat_eq_zero [symmetric] unat_mod off del: unat_eq_zero)
  moreover have idx: "unat ((?a - g_base s) div g_frame_size s) = i"
    using fs by (simp add: unat_div off)
  moreover have "(?a - g_base s) div g_frame_size s < g_frame_count s"
    using assms(2) by (simp add: word_less_nat_alt idx)
  ultimately show ?thesis
    using ge assms(1) by (simp add: frame_index_for_address_def pmm_geometry_def Let_def)
qed

lemma frame_index_for_addressD:
  assumes "pmm_geometry s" "frame_index_for_address s a = Some i"
  shows "i < n_frames s" "a = frame_address s i"
proof -
  have g: "\<not> a < g_base s" "(a - g_base s) mod g_frame_size s = 0"
      "(a - g_base s) div g_frame_size s < g_frame_count s"
    and i: "i = unat ((a - g_base s) div g_frame_size s)"
    using assms(2) by (auto simp: frame_index_for_address_def Let_def split: if_splits)
  show lt: "i < n_frames s" using g(3) i by (simp add: word_less_nat_alt)
  have "unat (a - g_base s) mod unat (g_frame_size s) = 0"
    using g(2) by (metis unat_0 unat_mod)
  then have "unat (a - g_base s) = i * unat (g_frame_size s)"
    unfolding i unat_div by auto
  with g(1) have "unat a = unat (g_base s) + i * unat (g_frame_size s)"
    by (simp add: unat_sub_no_wrap word_less_nat_alt word_le_nat_alt)
  with frame_address_unat(1) [OF assms(1) lt] show "a = frame_address s i"
    by (simp add: word_unat_eq_iff)
qed

lemma frame_address_inject:
  "pmm_geometry s \<Longrightarrow> i < n_frames s \<Longrightarrow> j < n_frames s \<Longrightarrow>
    frame_address s i = frame_address s j \<Longrightarrow> i = j"
  by (metis frame_index_of_address option.inject)

lemma find_index_upt:
  "find_index P [0..<n] = Some i \<Longrightarrow> i < n \<and> P i"
  using find_index_SomeD [of P "[0..<n]" i] by auto


section \<open>What the operations do\<close>

lemma pmm_geometry_set [simp]:
  "pmm_geometry (set_bitmap_bit i s) = pmm_geometry s"
  "pmm_geometry (clear_bitmap_bit i s) = pmm_geometry s"
  "pmm_geometry (s\<lparr>g_used_frames := u\<rparr>) = pmm_geometry s"
  by (simp_all add: pmm_geometry_def)

lemma is_reserved_set [simp]:
  "is_reserved_frame (set_bitmap_bit i s) j = is_reserved_frame s j"
  "is_reserved_frame (clear_bitmap_bit i s) j = is_reserved_frame s j"
  "is_reserved_frame (s\<lparr>g_used_frames := u\<rparr>) j = is_reserved_frame s j"
  by (simp_all add: is_reserved_frame_def)

lemma frame_address_set [simp]:
  "frame_address (set_bitmap_bit i s) j = frame_address s j"
  "frame_address (clear_bitmap_bit i s) j = frame_address s j"
  "frame_address (s\<lparr>g_used_frames := u\<rparr>) j = frame_address s j"
  by (simp_all add: frame_address_def)

lemma frame_index_set [simp]:
  "frame_index_for_address (set_bitmap_bit i s) a = frame_index_for_address s a"
  "frame_index_for_address (clear_bitmap_bit i s) a = frame_index_for_address s a"
  "frame_index_for_address (s\<lparr>g_used_frames := u\<rparr>) a = frame_index_for_address s a"
  by (simp_all add: frame_index_for_address_def Let_def)

lemma used_count_used [simp]: "used_count (s\<lparr>g_used_frames := u\<rparr>) = used_count s"
  by (simp add: used_count_card)

lemma pmm_inv_geometry: "pmm_inv s \<Longrightarrow> g_bitmap s \<noteq> 0 \<Longrightarrow> pmm_geometry s"
  by (auto simp: pmm_inv_def reset_state_def)

lemma geometry_store: "pmm_geometry s \<Longrightarrow> i < n_frames s \<Longrightarrow> i < 8 * length (g_bitmap_store s)"
  by (simp add: pmm_geometry_def)

text \<open>The frames the allocator regards as taken, and those no caller may free.\<close>

definition allocated :: "pmm \<Rightarrow> u64 set" where
  "allocated s = {a. is_frame_allocated s a}"

definition reserved :: "pmm \<Rightarrow> u64 set" where
  "reserved s = {a. \<exists>i. frame_index_for_address s a = Some i \<and> is_reserved_frame s i}"

lemma allocated_alt:
  "pmm_geometry s \<Longrightarrow> allocated s = {frame_address s i | i. i < n_frames s \<and> bitmap_bit s i}"
  by (auto simp: allocated_def is_frame_allocated_def frame_index_of_address
      split: option.splits dest: frame_index_for_addressD)

lemma take_frame_inv:
  assumes "pmm_inv s" "g_bitmap s \<noteq> 0" "i < n_frames s" "\<not> bitmap_bit s i"
  shows "pmm_inv (take_frame i s)"
proof -
  have g: "pmm_geometry s" using assms by (simp add: pmm_inv_geometry)
  have sz: "n_frames s \<le> 8 * length (g_bitmap_store s)" using g by (simp add: pmm_geometry_def)
  have u: "unat (g_used_frames s) = used_count s"
    using assms(1,2) by (auto simp: pmm_inv_def reset_state_def)
  have "used_count s \<noteq> n_frames s" using assms(3,4) used_count_full_iff by blast
  then have "used_count s < n_frames s" using used_count_le [of s] by linarith
  then have "unat (g_used_frames s + 1) = Suc (used_count s)"
    using u unat_u64_less [of "g_frame_count s"] by (subst unat_add_no_wrap) simp_all
  with assms g sz show ?thesis
    by (auto simp: pmm_inv_def take_frame_def used_count_set bitmap_bit_set reset_state_def)
qed

lemma allocated_take:
  assumes "pmm_geometry s" "i < n_frames s"
  shows "allocated (take_frame i s) = insert (frame_address s i) (allocated s)"
  using assms geometry_store [OF assms]
  by (auto simp: allocated_def is_frame_allocated_def take_frame_def bitmap_bit_set
      frame_index_of_address split: option.splits dest: frame_index_for_addressD)

lemma frame_address_not_allocated:
  "pmm_geometry s \<Longrightarrow> i < n_frames s \<Longrightarrow> frame_address s i \<in> allocated s \<longleftrightarrow> bitmap_bit s i"
  by (simp add: allocated_def is_frame_allocated_def frame_index_of_address)

lemma frame_address_nonzero:
  assumes "pmm_inv s" "g_bitmap s \<noteq> 0" "i < n_frames s" "\<not> bitmap_bit s i"
  shows "frame_address s i \<noteq> 0"
proof
  assume z: "frame_address s i = 0"
  have g: "pmm_geometry s" using assms by (simp add: pmm_inv_geometry)
  have "unat (g_base s) + i * unat (g_frame_size s) = 0"
    using frame_address_unat(1) [OF g assms(3)] z by simp
  then have "g_base s = 0" "i = 0" using g by (auto simp: pmm_geometry_def unat_eq_zero)
  with assms show False by (auto simp: pmm_inv_def reset_state_def is_reserved_frame_def)
qed

lemma alloc_frame_cases:
  assumes "pmm_inv s"
  obtains (none) "alloc_frame s = (0, s)" "g_bitmap s = 0 \<or> (\<forall>i < n_frames s. bitmap_bit s i)"
  | (some) i where "alloc_frame s = (frame_address s i, take_frame i s)" "g_bitmap s \<noteq> 0"
      "i < n_frames s" "\<not> bitmap_bit s i" "\<forall>j < i. bitmap_bit s j"
proof (cases "g_bitmap s = 0")
  case True
  then show thesis by (intro none) (simp_all add: alloc_frame_def)
next
  case False
  show thesis
  proof (cases "find_index (\<lambda>i. \<not> bitmap_bit s i) [0..<n_frames s]")
    case None
    then have "\<forall>i < n_frames s. bitmap_bit s i" by (simp add: find_index_None_iff)
    with None False show thesis by (intro none) (simp_all add: alloc_frame_def)
  next
    case (Some i)
    with find_index_SomeD [OF Some] False show thesis
      by (intro some [of i]) (auto simp: alloc_frame_def)
  qed
qed

lemma alloc_frame_inv: "pmm_inv s \<Longrightarrow> pmm_inv (snd (alloc_frame s))"
  by (rule alloc_frame_cases) (auto simp: take_frame_inv)

lemma below_scan_Some:
  "below_scan s lim is = Some i \<Longrightarrow> i \<in> set is \<and> \<not> bitmap_bit s i \<and> frame_address s i < lim
     \<and> \<not> g_frame_size s > lim - frame_address s i"
  by (induction s lim "is" rule: below_scan.induct) (auto simp: Let_def split: if_splits)

lemma alloc_frame_below_inv:
  assumes "pmm_inv s"
  shows "pmm_inv (snd (alloc_frame_below lim s))"
  using assms
  by (auto simp: alloc_frame_below_def split: option.splits intro!: take_frame_inv dest!: below_scan_Some)

lemma try_free_cases:
  assumes "pmm_inv s"
  obtains (fail) "try_free_frame a s = (False, s)" "a \<notin> allocated s \<or> a \<in> reserved s"
  | (freed) i where "try_free_frame a s =
        (True, (clear_bitmap_bit i s)\<lparr>g_used_frames := g_used_frames s - 1\<rparr>)"
      "g_bitmap s \<noteq> 0" "i < n_frames s" "a = frame_address s i" "bitmap_bit s i"
      "\<not> is_reserved_frame s i"
proof (cases "frame_index_for_address s a")
  case None
  then show thesis
    by (intro fail) (simp_all add: try_free_frame_def allocated_def is_frame_allocated_def)
next
  case (Some i)
  then have b: "g_bitmap s \<noteq> 0" by (auto simp: frame_index_for_address_def)
  with assms have g: "pmm_geometry s" by (rule pmm_inv_geometry)
  note i = frame_index_for_addressD [OF g Some]
  show thesis
  proof (cases "is_reserved_frame s i \<or> \<not> bitmap_bit s i")
    case True
    with Some show thesis
      by (intro fail) (auto simp: try_free_frame_def allocated_def is_frame_allocated_def reserved_def)
  next
    case False
    have "0 < used_count s"
      using False i(1) by (auto simp: used_count_def filter_empty_conv)
    then have "g_used_frames s > 0"
      using assms b by (auto simp: pmm_inv_def reset_state_def word_less_nat_alt)
    with Some False i b show thesis
      by (intro freed [of i]) (simp_all add: try_free_frame_def)
  qed
qed

lemma try_free_inv:
  assumes "pmm_inv s"
  shows "pmm_inv (snd (try_free_frame a s))"
  using assms
proof (cases rule: try_free_cases [where a = a])
  case fail
  with assms show ?thesis by simp
next
  case (freed i)
  have g: "pmm_geometry s" using assms freed(2) by (rule pmm_inv_geometry)
  then have sz: "n_frames s \<le> 8 * length (g_bitmap_store s)" by (simp add: pmm_geometry_def)
  have u: "unat (g_used_frames s) = Suc (used_count (clear_bitmap_bit i s))"
    using used_count_clear [OF freed(3) sz freed(5)] assms freed(2)
    by (auto simp: pmm_inv_def reset_state_def)
  then have "unat (g_used_frames s - 1) = used_count (clear_bitmap_bit i s)"
    by (subst unat_sub_no_wrap) (auto simp: word_le_nat_alt)
  with freed g sz assms show ?thesis
    by (auto simp: pmm_inv_def bitmap_bit_clear reset_state_def)
qed


section \<open>Initialisation\<close>

lemma initialize_checksD:
  assumes "initialize_checks base sz frame_size st st_size"
  shows "st \<noteq> 0" "\<exists>k. unat frame_size = 2 ^ k" "unat base mod unat frame_size = 0"
    "0 < unat (sz div frame_size)"
    "unat ((sz div frame_size + 7) div 8) = (unat (sz div frame_size) + 7) div 8"
    "unat (base + sz div frame_size * frame_size)
       = unat base + unat (sz div frame_size) * unat frame_size"
    "unat (st + (sz div frame_size + 7) div 8) = unat st + unat ((sz div frame_size + 7) div 8)"
proof -
  let ?n = "sz div frame_size"
  have c: "st \<noteq> 0" "is_power_of_two frame_size" "base AND (frame_size - 1) = 0" "?n \<noteq> 0"
    "?n \<le> - 1 - 7" "?n * frame_size \<le> - 1 - base" "(?n + 7) div 8 \<le> - 1 - st"
    using assms by (auto simp: initialize_checks_def Let_def linorder_not_less split: if_splits)
  show "st \<noteq> 0" by (rule c)
  show p: "\<exists>k. unat frame_size = 2 ^ k"
    using c(2) word_power_of_two [of frame_size] by (auto simp: is_power_of_two_def)
  then obtain k where k: "unat frame_size = 2 ^ k" by blast
  show "unat base mod unat frame_size = 0"
    using unat_and_power_minus_1 [OF k, of base] c(3) by simp
  show "0 < unat ?n" using c(4) by (simp add: unat_gt_0)
  show "unat ((?n + 7) div 8) = (unat ?n + 7) div 8"
  proof -
    have "unat ?n + unat (7 :: u64) < 2 ^ LENGTH(64)"
      using c(5) unfolding word_add_guard by (simp only: add.commute)
    then have "unat (?n + 7) = unat ?n + 7"
      using unat_add_no_wrap [of ?n 7] by simp
    then show ?thesis by (simp only: unat_div unat_numeral) simp
  qed
  have m: "unat (?n * frame_size) = unat ?n * unat frame_size"
  proof (rule unat_mult_no_wrap)
    have "unat ?n * unat frame_size \<le> unat sz" by (simp add: unat_div)
    then show "unat ?n * unat frame_size < 2 ^ LENGTH(64)"
      using unat_u64_less [of sz] by simp
  qed
  show "unat (base + ?n * frame_size) = unat base + unat ?n * unat frame_size"
    using c(6) unat_add_no_wrap [of base "?n * frame_size"] unfolding word_add_guard m by simp
  show "unat (st + (?n + 7) div 8) = unat st + unat ((?n + 7) div 8)"
    using c(7) unat_add_no_wrap unfolding word_add_guard by blast
qed

lemma cleared_geometry:
  assumes "initialize_checks base sz frame_size st st_size"
  shows "pmm_geometry (cleared_state base sz frame_size st)"
proof -
  note c = initialize_checksD [OF assms]
  have "unat (sz div frame_size) \<le> 8 * ((unat (sz div frame_size) + 7) div 8)" by simp
  moreover have "0 < unat frame_size" using c(2) by auto
  ultimately show ?thesis
    using c by (simp add: pmm_geometry_def cleared_state_def Let_def reset_state_def unat_gt_0)
qed

lemma cleared_bits:
  "i < n_frames (cleared_state base sz frame_size st) \<Longrightarrow>
    initialize_checks base sz frame_size st st_size \<Longrightarrow>
    \<not> bitmap_bit (cleared_state base sz frame_size st) i"
  using geometry_store [OF cleared_geometry, of base sz frame_size st st_size i]
  by (simp add: bitmap_bit_def cleared_state_def Let_def)

text \<open>What \<open>reserve_frame\<close> keeps and adds, folded over a list of frames of the range.\<close>

definition pmm_core :: "pmm \<Rightarrow> bool" where
  "pmm_core s \<longleftrightarrow> pmm_geometry s \<and> unat (g_used_frames s) = used_count s"

lemma reserve_frame_core:
  assumes "pmm_core s" "i < n_frames s"
  shows "pmm_core (reserve_frame i s)"
    and "bitmap_bit (reserve_frame i s) j \<longleftrightarrow> j = i \<or> bitmap_bit s j"
proof -
  have g: "pmm_geometry s" and sz: "n_frames s \<le> 8 * length (g_bitmap_store s)"
    using assms(1) by (simp_all add: pmm_core_def pmm_geometry_def)
  show "bitmap_bit (reserve_frame i s) j \<longleftrightarrow> j = i \<or> bitmap_bit s j"
    using geometry_store [OF g assms(2)] by (auto simp: reserve_frame_def bitmap_bit_set)
  show "pmm_core (reserve_frame i s)"
  proof (cases "bitmap_bit s i")
    case True
    with assms show ?thesis by (simp add: reserve_frame_def)
  next
    case False
    then have "used_count s \<noteq> n_frames s" using assms(2) used_count_full_iff by blast
    then have "used_count s < n_frames s" using used_count_le [of s] by linarith
    then have "unat (g_used_frames s + 1) = Suc (used_count s)"
      using assms(1) unat_u64_less [of "g_frame_count s"]
      by (subst unat_add_no_wrap) (simp_all add: pmm_core_def)
    with False assms sz g show ?thesis
      by (simp add: pmm_core_def reserve_frame_def used_count_set)
  qed
qed

lemma reserve_frame_fields [simp]:
  "g_bitmap (reserve_frame i s) = g_bitmap s"
  "g_bitmap_bytes (reserve_frame i s) = g_bitmap_bytes s"
  "g_base (reserve_frame i s) = g_base s"
  "g_end (reserve_frame i s) = g_end s"
  "g_frame_count (reserve_frame i s) = g_frame_count s"
  "g_frame_size (reserve_frame i s) = g_frame_size s"
  "g_bitmap_reserved_first (reserve_frame i s) = g_bitmap_reserved_first s"
  "g_bitmap_reserved_count (reserve_frame i s) = g_bitmap_reserved_count s"
  "g_zero_frame_reserved (reserve_frame i s) = g_zero_frame_reserved s"
  by (simp_all add: reserve_frame_def)

lemma fold_reserve_core:
  "pmm_core s \<Longrightarrow> \<forall>i \<in> set is. i < n_frames s \<Longrightarrow>
    pmm_core (fold reserve_frame is s) \<and>
    (\<forall>j. bitmap_bit (fold reserve_frame is s) j \<longleftrightarrow> j \<in> set is \<or> bitmap_bit s j)"
proof (induction "is" arbitrary: s)
  case Nil
  then show ?case by simp
next
  case (Cons i "is")
  have "pmm_core (reserve_frame i s)" "\<forall>i \<in> set is. i < n_frames (reserve_frame i s)"
    using Cons.prems reserve_frame_core(1) by auto
  with Cons.IH [of "reserve_frame i s"] Cons.prems reserve_frame_core(2) [of s i]
  show ?case by auto
qed

lemma fold_reserve_fields [simp]:
  "g_bitmap (fold reserve_frame is s) = g_bitmap s"
  "g_bitmap_bytes (fold reserve_frame is s) = g_bitmap_bytes s"
  "g_base (fold reserve_frame is s) = g_base s"
  "g_end (fold reserve_frame is s) = g_end s"
  "g_frame_count (fold reserve_frame is s) = g_frame_count s"
  "g_frame_size (fold reserve_frame is s) = g_frame_size s"
  "g_bitmap_reserved_first (fold reserve_frame is s) = g_bitmap_reserved_first s"
  "g_bitmap_reserved_count (fold reserve_frame is s) = g_bitmap_reserved_count s"
  "g_zero_frame_reserved (fold reserve_frame is s) = g_zero_frame_reserved s"
  by (induction "is" arbitrary: s) simp_all


text \<open>The frames that share a byte with the bitmap's own storage.\<close>

definition overlaps_bitmap :: "pmm \<Rightarrow> nat \<Rightarrow> bool" where
  "overlaps_bitmap s i \<longleftrightarrow>
     unat (g_base s) + i * unat (g_frame_size s) < unat (g_bitmap s) + unat (g_bitmap_bytes s) \<and>
     unat (g_bitmap s) < unat (g_base s) + i * unat (g_frame_size s) + unat (g_frame_size s)"

lemma overlap_window:
  fixes B S T F N i :: nat
  assumes "0 < F" "i < N" "max S B < min T (B + N * F)"
  shows "(max S B - B) div F \<le> i \<and> i \<le> (min T (B + N * F) - 1 - B) div F
    \<longleftrightarrow> B + i * F < T \<and> S < B + i * F + F"
proof -
  have "(max S B - B) div F \<le> i \<longleftrightarrow> max S B - B < (i + 1) * F"
    using assms(1) by (metis Suc_eq_plus1 div_less_iff_less_mult less_Suc_eq_le)
  also have "\<dots> \<longleftrightarrow> S < B + i * F + F" using assms(1) by (auto simp: max_def)
  finally have l: "(max S B - B) div F \<le> i \<longleftrightarrow> S < B + i * F + F" .
  have "i \<le> (min T (B + N * F) - 1 - B) div F \<longleftrightarrow> i * F \<le> min T (B + N * F) - 1 - B"
    using assms(1) by (simp add: less_eq_div_iff_mult_less_eq)
  also have "\<dots> \<longleftrightarrow> B + i * F < min T (B + N * F)"
    using assms(3) by linarith
  also have "\<dots> \<longleftrightarrow> B + i * F < T" using assms(1,2) by simp
  finally show ?thesis using l by blast
qed

lemma overlap_none:
  fixes B S T F N i :: nat
  assumes "0 < F" "S < T" "i < N" "\<not> max S B < min T (B + N * F)"
  shows "\<not> (B + i * F < T \<and> S < B + i * F + F)"
proof
  assume h: "B + i * F < T \<and> S < B + i * F + F"
  have "Suc i * F \<le> N * F" using assms(3) by (intro mult_right_mono) auto
  then have "B + i * F + F \<le> B + N * F" by simp
  with h assms(1) have "S < B + N * F" "B < T" "B < B + N * F" by linarith+
  with assms(2,4) show False by simp
qed

lemma reserve_bitmap_fields [simp]:
  "g_bitmap (reserve_bitmap s) = g_bitmap s"
  "g_bitmap_bytes (reserve_bitmap s) = g_bitmap_bytes s"
  "g_base (reserve_bitmap s) = g_base s"
  "g_end (reserve_bitmap s) = g_end s"
  "g_frame_count (reserve_bitmap s) = g_frame_count s"
  "g_frame_size (reserve_bitmap s) = g_frame_size s"
  "g_zero_frame_reserved (reserve_bitmap s) = g_zero_frame_reserved s"
  by (simp_all add: reserve_bitmap_def Let_def)

lemma pmm_core_reserved [simp]:
  "pmm_core (s\<lparr>g_bitmap_reserved_first := a, g_bitmap_reserved_count := b\<rparr>) = pmm_core s"
  "pmm_core (s\<lparr>g_zero_frame_reserved := z\<rparr>) = pmm_core s"
  "pmm_core (s\<lparr>g_reserved_frames := r\<rparr>) = pmm_core s"
  by (simp_all add: pmm_core_def pmm_geometry_def used_count_card bitmap_bit_def)

text \<open>
  The reserved window is computed from the overlap of two address ranges; as frame indices it is
  exactly the set of frames that overlap the bitmap.
\<close>

lemma reserve_bitmap_window:
  assumes core: "pmm_core s"
    and wrap: "unat (g_bitmap s + g_bitmap_bytes s) = unat (g_bitmap s) + unat (g_bitmap_bytes s)"
    and bytes: "0 < unat (g_bitmap_bytes s)"
    and ov: "max (g_bitmap s) (g_base s) < min (g_bitmap s + g_bitmap_bytes s) (g_end s)"
  defines "first \<equiv> (max (g_bitmap s) (g_base s) - g_base s) div g_frame_size s"
    and "count \<equiv> (min (g_bitmap s + g_bitmap_bytes s) (g_end s) - 1 - g_base s) div g_frame_size s
        - (max (g_bitmap s) (g_base s) - g_base s) div g_frame_size s + 1"
  shows "j < n_frames s \<Longrightarrow> unat first \<le> j \<and> j - unat first < unat count \<longleftrightarrow> overlaps_bitmap s j"
    and "unat first + unat count \<le> n_frames s" and "count \<noteq> 0"
proof -
  let ?B = "unat (g_base s)" and ?S = "unat (g_bitmap s)" and ?F = "unat (g_frame_size s)"
  let ?T = "unat (g_bitmap s) + unat (g_bitmap_bytes s)" and ?N = "n_frames s"
  let ?last = "(min (g_bitmap s + g_bitmap_bytes s) (g_end s) - 1 - g_base s) div g_frame_size s"
  have F: "0 < ?F" and E: "unat (g_end s) = ?B + ?N * ?F"
    using core by (simp_all add: pmm_core_def pmm_geometry_def)
  have ovn: "max ?S ?B < min ?T (?B + ?N * ?F)"
    using ov by (auto simp: word_less_nat_alt word_le_nat_alt wrap E max_def min_def split: if_splits)
  have f: "unat first = (max ?S ?B - ?B) div ?F"
    unfolding first_def
    by (simp add: unat_div unat_sub_no_wrap max_def word_le_nat_alt)
  have oe: "unat (min (g_bitmap s + g_bitmap_bytes s) (g_end s)) = min ?T (?B + ?N * ?F)"
    by (simp add: min_def word_le_nat_alt wrap E)
  have "unat (min (g_bitmap s + g_bitmap_bytes s) (g_end s) - 1 - g_base s)
      = min ?T (?B + ?N * ?F) - 1 - ?B"
  proof -
    let ?m = "min (g_bitmap s + g_bitmap_bytes s) (g_end s)"
    have pos: "?B < unat ?m" using ovn unfolding oe by linarith
    then have 1: "unat (?m - 1) = unat ?m - 1"
      by (intro trans [OF unat_sub_no_wrap]) (simp_all add: word_le_nat_alt)
    then have "unat (?m - 1 - g_base s) = unat (?m - 1) - ?B"
      using pos by (intro unat_sub_no_wrap) (simp add: word_le_nat_alt 1)
    then show ?thesis unfolding 1 oe .
  qed
  then have l: "unat ?last = (min ?T (?B + ?N * ?F) - 1 - ?B) div ?F" by (simp only: unat_div)
  have le: "unat first \<le> unat ?last" unfolding f l using ovn by (intro div_le_mono) linarith
  have "min ?T (?B + ?N * ?F) - 1 - ?B < ?N * ?F" using ovn by linarith
  then have lN: "unat ?last < ?N" unfolding l by (simp add: div_less_iff_less_mult F)
  have "unat (?last - first) = unat ?last - unat first"
    using le by (intro unat_sub_no_wrap) (simp add: word_le_nat_alt)
  then have c: "unat count = unat ?last - unat first + 1"
    unfolding count_def first_def [symmetric] using lN unat_u64_less [of "g_frame_count s"]
    by (subst unat_add_no_wrap) simp_all
  show "unat first + unat count \<le> ?N" using c lN le by linarith
  show "count \<noteq> 0" using c by auto
  assume j: "j < ?N"
  have "unat first \<le> j \<and> j - unat first < unat count \<longleftrightarrow> unat first \<le> j \<and> j \<le> unat ?last"
    using c le by auto
  also have "\<dots> \<longleftrightarrow> overlaps_bitmap s j"
    using overlap_window [OF F j ovn] unfolding f l overlaps_bitmap_def by simp
  finally show "unat first \<le> j \<and> j - unat first < unat count \<longleftrightarrow> overlaps_bitmap s j" .
qed


lemma reserve_bitmap_eq:
  "reserve_bitmap s =
    (let first = (max (g_bitmap s) (g_base s) - g_base s) div g_frame_size s;
         count = (min (g_bitmap s + g_bitmap_bytes s) (g_end s) - 1 - g_base s) div g_frame_size s
           - first + 1
     in if max (g_bitmap s) (g_base s) < min (g_bitmap s + g_bitmap_bytes s) (g_end s)
        then fold reserve_frame (map (\<lambda>i. unat first + i) [0..<unat count])
          (s\<lparr>g_bitmap_reserved_first := first, g_bitmap_reserved_count := count\<rparr>)
        else s)"
proof -
  have mx: "(if g_bitmap s > g_base s then g_bitmap s else g_base s) = max (g_bitmap s) (g_base s)"
    by (auto simp: max_def)
  have mn: "(if g_bitmap s + g_bitmap_bytes s < g_end s then g_bitmap s + g_bitmap_bytes s else g_end s)
      = min (g_bitmap s + g_bitmap_bytes s) (g_end s)"
    by (auto simp: min_def)
  show ?thesis unfolding reserve_bitmap_def Let_def mx mn by (rule refl)
qed

lemma reserve_bitmap_bound:
  assumes "pmm_core s"
    and "unat (g_bitmap s + g_bitmap_bytes s) = unat (g_bitmap s) + unat (g_bitmap_bytes s)"
    and "0 < unat (g_bitmap_bytes s)" "g_bitmap_reserved_count s = 0"
  shows "g_bitmap_reserved_count (reserve_bitmap s) \<noteq> 0 \<Longrightarrow>
    unat (g_bitmap_reserved_first (reserve_bitmap s))
      + unat (g_bitmap_reserved_count (reserve_bitmap s)) \<le> n_frames s"
proof (cases "max (g_bitmap s) (g_base s) < min (g_bitmap s + g_bitmap_bytes s) (g_end s)")
  case True
  show ?thesis
    unfolding reserve_bitmap_eq Let_def if_P [OF True] fold_reserve_fields
    using reserve_bitmap_window(2) [OF assms(1,2,3) True] by simp
next
  case False
  assume "g_bitmap_reserved_count (reserve_bitmap s) \<noteq> 0"
  with assms(4) show ?thesis unfolding reserve_bitmap_eq Let_def if_not_P [OF False] by simp
qed

lemma reserve_bitmap_spec:
  assumes core: "pmm_core s"
    and wrap: "unat (g_bitmap s + g_bitmap_bytes s) = unat (g_bitmap s) + unat (g_bitmap_bytes s)"
    and bytes: "0 < unat (g_bitmap_bytes s)"
    and fresh: "\<forall>i < n_frames s. \<not> bitmap_bit s i" "g_bitmap_reserved_count s = 0"
      "\<not> g_zero_frame_reserved s"
  shows "pmm_core (reserve_bitmap s)"
    and "j < n_frames s \<Longrightarrow> bitmap_bit (reserve_bitmap s) j \<longleftrightarrow> overlaps_bitmap s j"
    and "j < n_frames s \<Longrightarrow> is_reserved_frame (reserve_bitmap s) j \<longleftrightarrow> overlaps_bitmap s j"
proof -
  let ?ov = "max (g_bitmap s) (g_base s) < min (g_bitmap s + g_bitmap_bytes s) (g_end s)"
  let ?first = "(max (g_bitmap s) (g_base s) - g_base s) div g_frame_size s"
  let ?count = "(min (g_bitmap s + g_bitmap_bytes s) (g_end s) - 1 - g_base s) div g_frame_size s
        - ?first + 1"
  let ?s = "s\<lparr>g_bitmap_reserved_first := ?first, g_bitmap_reserved_count := ?count\<rparr>"
  have eq: "reserve_bitmap s = (if ?ov then
      fold reserve_frame (map (\<lambda>i. unat ?first + i) [0..<unat ?count]) ?s else s)"
    unfolding reserve_bitmap_eq Let_def by (rule refl)
  have bits: "bitmap_bit ?s j = bitmap_bit s j" for j by (simp add: bitmap_bit_def)
  show "pmm_core (reserve_bitmap s)"
    and "j < n_frames s \<Longrightarrow> bitmap_bit (reserve_bitmap s) j \<longleftrightarrow> overlaps_bitmap s j"
    and "j < n_frames s \<Longrightarrow> is_reserved_frame (reserve_bitmap s) j \<longleftrightarrow> overlaps_bitmap s j"
  proof (atomize (full), cases ?ov)
    case True
    note w = reserve_bitmap_window [OF core wrap bytes True]
    have f: "pmm_core (fold reserve_frame (map (\<lambda>i. unat ?first + i) [0..<unat ?count]) ?s) \<and>
        (\<forall>j. bitmap_bit (fold reserve_frame (map (\<lambda>i. unat ?first + i) [0..<unat ?count]) ?s) j \<longleftrightarrow>
          j \<in> set (map (\<lambda>i. unat ?first + i) [0..<unat ?count]) \<or> bitmap_bit ?s j)"
      using core w(2) by (intro fold_reserve_core) auto
    have m: "j \<in> set (map (\<lambda>i. unat ?first + i) [0..<unat ?count]) \<longleftrightarrow>
        unat ?first \<le> j \<and> j - unat ?first < unat ?count" for j
      by (auto simp: image_iff Bex_def intro!: exI [of _ "j - unat ?first"])
    have e: "reserve_bitmap s = fold reserve_frame (map (\<lambda>i. unat ?first + i) [0..<unat ?count]) ?s"
      using True eq by simp
    have "bitmap_bit (reserve_bitmap s) j \<longleftrightarrow> overlaps_bitmap s j" if "j < n_frames s"
      using f w(1) [OF that] m [of j] fresh(1) that bits unfolding e by blast
    moreover have "is_reserved_frame (reserve_bitmap s) j \<longleftrightarrow> overlaps_bitmap s j" if "j < n_frames s"
      using w(1) [OF that] w(3) fresh(3) unfolding e is_reserved_frame_def by simp
    ultimately show "pmm_core (reserve_bitmap s) \<and>
        (j < n_frames s \<longrightarrow> bitmap_bit (reserve_bitmap s) j = overlaps_bitmap s j) \<and>
        (j < n_frames s \<longrightarrow> is_reserved_frame (reserve_bitmap s) j = overlaps_bitmap s j)"
      using f unfolding e by blast
  next
    case False
    have "0 < unat (g_frame_size s)" "unat (g_end s) = unat (g_base s) + n_frames s * unat (g_frame_size s)"
      using core by (simp_all add: pmm_core_def pmm_geometry_def)
    with False bytes have no: "\<not> overlaps_bitmap s j" if "j < n_frames s"
      using overlap_none [of "unat (g_frame_size s)" "unat (g_bitmap s)"
          "unat (g_bitmap s) + unat (g_bitmap_bytes s)" j "n_frames s" "unat (g_base s)"] that
      by (auto simp: overlaps_bitmap_def word_less_nat_alt wrap max_def min_def word_le_nat_alt
          split: if_splits)
    moreover have "reserve_bitmap s = s" using eq unfolding if_not_P [OF False] .
    ultimately show "pmm_core (reserve_bitmap s) \<and>
        (j < n_frames s \<longrightarrow> bitmap_bit (reserve_bitmap s) j = overlaps_bitmap s j) \<and>
        (j < n_frames s \<longrightarrow> is_reserved_frame (reserve_bitmap s) j = overlaps_bitmap s j)"
      using core fresh by (simp add: is_reserved_frame_def)
  qed
qed


lemma count_reserved_card:
  assumes "0 < n_frames s"
    and "g_bitmap_reserved_count s \<noteq> 0 \<Longrightarrow>
      unat (g_bitmap_reserved_first s) + unat (g_bitmap_reserved_count s) \<le> n_frames s"
  shows "unat (g_reserved_frames (count_reserved s)) = card {i. i < n_frames s \<and> is_reserved_frame s i}"
proof -
  let ?f = "unat (g_bitmap_reserved_first s)" and ?c = "unat (g_bitmap_reserved_count s)"
  let ?extra = "g_zero_frame_reserved s \<and> \<not> (g_bitmap_reserved_count s \<noteq> 0 \<and> g_bitmap_reserved_first s = 0)"
  have c: "?f + ?c \<le> n_frames s" if "0 < ?c" using assms(2) that by (simp add: unat_gt_0)
  have win: "{i. i < n_frames s \<and> is_reserved_frame s i}
      = {?f..<?f + ?c} \<union> (if g_zero_frame_reserved s then {0} else {})"
    using assms(1) c by (auto simp: is_reserved_frame_def word_neq_0_unat)
  show ?thesis
  proof (cases ?extra)
    case True
    then have d: "0 \<notin> {?f..<?f + ?c}" by (auto simp: word_neq_0_unat unat_gt_0 [symmetric])
    then have "?c + 1 \<le> n_frames s" using c assms(1) by (cases "?c = 0") auto
    then have "unat (g_bitmap_reserved_count s + 1) = ?c + 1"
      using unat_u64_less [of "g_frame_count s"] by (subst unat_add_no_wrap) simp_all
    with True d win show ?thesis by (simp add: count_reserved_def)
  next
    case False
    then have "(if g_zero_frame_reserved s then {0} else {}) \<subseteq> {?f..<?f + ?c}"
      by (auto simp: word_neq_0_unat)
    with win have "{i. i < n_frames s \<and> is_reserved_frame s i} = {?f..<?f + ?c}" by blast
    with False show ?thesis by (auto simp: count_reserved_def)
  qed
qed

lemma initialize_ok:
  assumes "initialize base sz frame_size st st_size = (True, s)"
  shows "pmm_inv s" "g_bitmap s \<noteq> 0" "g_base s = base" "g_frame_size s = frame_size" "g_bitmap s = st"
    "g_frame_count s = sz div frame_size"
    "\<And>i. i < n_frames s \<Longrightarrow>
      bitmap_bit s i \<longleftrightarrow> overlaps_bitmap s i \<or> (base = 0 \<and> i = 0)"
    "\<And>i. i < n_frames s \<Longrightarrow> is_reserved_frame s i \<longleftrightarrow> bitmap_bit s i"
    "unat (g_reserved_frames s) = used_count s"
proof -
  let ?c = "cleared_state base sz frame_size st"
  let ?r = "reserve_bitmap ?c"
  have chk: "initialize_checks base sz frame_size st st_size"
    and s: "s = count_reserved (reserve_zero ?r)"
    using assms by (auto simp: initialize_def split: if_splits)
  note cd = initialize_checksD [OF chk]
  have fc: "g_frame_count ?c = sz div frame_size" "g_base ?c = base" "g_frame_size ?c = frame_size"
    "g_bitmap ?c = st" "g_bitmap_bytes ?c = (sz div frame_size + 7) div 8"
    "g_bitmap_reserved_count ?c = 0" "\<not> g_zero_frame_reserved ?c" "g_used_frames ?c = 0"
    by (simp_all add: cleared_state_def Let_def reset_state_def)
  have nob: "\<forall>i < n_frames ?c. \<not> bitmap_bit ?c i" using cleared_bits [OF _ chk] by blast
  then have core: "pmm_core ?c"
    using cleared_geometry [OF chk] fc(8) by (simp add: pmm_core_def used_count_card)
  have bytes: "0 < unat (g_bitmap_bytes ?c)" using cd(4,5) unfolding fc by linarith
  have wrap: "unat (g_bitmap ?c + g_bitmap_bytes ?c) = unat (g_bitmap ?c) + unat (g_bitmap_bytes ?c)"
    using cd(7) unfolding fc .
  note spec = reserve_bitmap_spec [OF core wrap bytes nob fc(6,7)]
  have ovc: "overlaps_bitmap s i = overlaps_bitmap ?c i" for i
    by (simp add: s overlaps_bitmap_def count_reserved_def reserve_zero_def)
  have n: "n_frames s = n_frames ?c" by (simp add: s count_reserved_def reserve_zero_def)
  have pos: "0 < n_frames ?c" using core by (simp add: pmm_core_def pmm_geometry_def)
  show flds: "g_base s = base" "g_frame_size s = frame_size" "g_bitmap s = st"
    "g_frame_count s = sz div frame_size"
    by (simp_all add: s count_reserved_def reserve_zero_def cleared_state_def Let_def)
  show "g_bitmap s \<noteq> 0" using cd(1) flds by simp
  have zero_core: "pmm_core (reserve_zero ?r) \<and>
      (\<forall>i < n_frames ?c. bitmap_bit (reserve_zero ?r) i \<longleftrightarrow> overlaps_bitmap ?c i \<or> base = 0 \<and> i = 0)"
    using spec(1,2) reserve_frame_core [of "?r\<lparr>g_zero_frame_reserved := True\<rparr>" 0] pos
    by (auto simp: reserve_zero_def fc bitmap_bit_def)
  have res: "is_reserved_frame s i \<longleftrightarrow> overlaps_bitmap ?c i \<or> base = 0 \<and> i = 0" if "i < n_frames ?c" for i
    using spec(3) [OF that] fc by (auto simp: s count_reserved_def reserve_zero_def is_reserved_frame_def)
  have bit: "bitmap_bit s i = bitmap_bit (reserve_zero ?r) i" for i
    by (simp add: s count_reserved_def bitmap_bit_def)
  show b: "bitmap_bit s i \<longleftrightarrow> overlaps_bitmap s i \<or> (base = 0 \<and> i = 0)" if "i < n_frames s" for i
    using zero_core that by (simp add: bit ovc n)
  show r: "is_reserved_frame s i \<longleftrightarrow> bitmap_bit s i" if "i < n_frames s" for i
    using res b that by (simp add: ovc n)
  have "pmm_core s" using zero_core by (simp add: s count_reserved_def)
  moreover have "g_base s = 0 \<longrightarrow> g_zero_frame_reserved s"
    by (simp add: s count_reserved_def reserve_zero_def)
  ultimately show "pmm_inv s" using r by (simp add: pmm_inv_def pmm_core_def)
  have "unat (g_reserved_frames s) = card {i. i < n_frames (reserve_zero ?r) \<and> is_reserved_frame (reserve_zero ?r) i}"
    unfolding s using pos reserve_bitmap_bound [OF core wrap bytes fc(6)]
    by (intro count_reserved_card) (simp_all add: reserve_zero_def split: if_splits)
  also have "{i. i < n_frames (reserve_zero ?r) \<and> is_reserved_frame (reserve_zero ?r) i}
      = {i. i < n_frames s \<and> bitmap_bit s i}"
  proof -
    have "is_reserved_frame (reserve_zero ?r) i = is_reserved_frame s i" for i
      by (simp add: s count_reserved_def is_reserved_frame_def)
    moreover have "n_frames (reserve_zero ?r) = n_frames s" by (simp add: s count_reserved_def)
    ultimately show ?thesis using r by auto
  qed
  finally show "unat (g_reserved_frames s) = used_count s" by (simp add: used_count_card)
qed


section \<open>The interface: a provider of frames\<close>

text \<open>
  What the users of the allocator (shared memory, page tables, drivers) rely on: an allocation
  returns 0 and changes nothing, or returns a frame nobody holds; a freed frame that may be freed
  is given back, anything else is ignored; nothing else changes.
\<close>

locale frame_provider =
  fixes invar :: "'m \<Rightarrow> bool"
    and held :: "'m \<Rightarrow> u64 set"
    and pinned :: "'m \<Rightarrow> u64 set"
    and alloc :: "'m \<Rightarrow> u64 \<times> 'm"
    and free :: "u64 \<Rightarrow> 'm \<Rightarrow> 'm"
  assumes alloc_fail: "invar m \<Longrightarrow> fst (alloc m) = 0 \<Longrightarrow> snd (alloc m) = m"
    and alloc_fresh: "invar m \<Longrightarrow> fst (alloc m) \<noteq> 0 \<Longrightarrow> fst (alloc m) \<notin> held m"
    and alloc_held: "invar m \<Longrightarrow> fst (alloc m) \<noteq> 0 \<Longrightarrow>
      held (snd (alloc m)) = insert (fst (alloc m)) (held m)"
    and alloc_pinned: "invar m \<Longrightarrow> pinned (snd (alloc m)) = pinned m"
    and pinned_held: "invar m \<Longrightarrow> pinned m \<subseteq> held m"
    and free_held: "invar m \<Longrightarrow> a \<in> held m - pinned m \<Longrightarrow> held (free a m) = held m - {a}"
    and free_ignored: "invar m \<Longrightarrow> a \<notin> held m - pinned m \<Longrightarrow> free a m = m"
    and free_pinned: "invar m \<Longrightarrow> pinned (free a m) = pinned m"
    and alloc_invar: "invar m \<Longrightarrow> invar (snd (alloc m))"
    and free_invar: "invar m \<Longrightarrow> invar (free a m)"
begin

lemma free_list_invar: "invar m \<Longrightarrow> invar (fold free as m)"
  by (induction as arbitrary: m) (auto simp: free_invar)

lemma free_list_pinned: "invar m \<Longrightarrow> pinned (fold free as m) = pinned m"
  by (induction as arbitrary: m) (auto simp: free_invar free_pinned)

lemma free_list_held:
  "invar m \<Longrightarrow> distinct as \<Longrightarrow> set as \<subseteq> held m - pinned m \<Longrightarrow>
    held (fold free as m) = held m - set as"
proof (induction as arbitrary: m)
  case Nil
  then show ?case by simp
next
  case (Cons a as)
  have h: "held (free a m) = held m - {a}" using Cons.prems by (intro free_held) auto
  have "set as \<subseteq> held (free a m) - pinned (free a m)"
    using Cons.prems h by (auto simp: free_pinned)
  with Cons.IH [of "free a m"] Cons.prems h show ?case by (auto simp: free_invar)
qed

end

lemma pmm_reset_ops:
  "alloc_frame reset_state = (0, reset_state)" "allocated reset_state = {}"
  by (simp_all add: alloc_frame_def allocated_def is_frame_allocated_def frame_index_for_address_def
      reset_state_def)

lemma reserved_take: "reserved (take_frame i s) = reserved s"
  by (simp add: reserved_def take_frame_def)

lemma reserved_clear: "reserved ((clear_bitmap_bit i s)\<lparr>g_used_frames := u\<rparr>) = reserved s"
  by (simp add: reserved_def)

lemma allocated_clear:
  assumes "pmm_geometry s" "i < n_frames s"
  shows "allocated ((clear_bitmap_bit i s)\<lparr>g_used_frames := u\<rparr>) = allocated s - {frame_address s i}"
  using assms geometry_store [OF assms]
  by (auto simp: allocated_def is_frame_allocated_def bitmap_bit_clear
      frame_index_of_address split: option.splits dest: frame_index_for_addressD)

interpretation pmm: frame_provider pmm_inv allocated reserved alloc_frame free_frame
proof unfold_locales
  fix m :: pmm and a
  assume inv: "pmm_inv m"
  note nz = frame_address_nonzero [OF inv]
  show "fst (alloc_frame m) = 0 \<Longrightarrow> snd (alloc_frame m) = m"
    using inv by (cases rule: alloc_frame_cases) (auto simp: nz)
  show "fst (alloc_frame m) \<noteq> 0 \<Longrightarrow> fst (alloc_frame m) \<notin> allocated m"
    using inv by (cases rule: alloc_frame_cases)
      (auto simp: frame_address_not_allocated pmm_inv_geometry [OF inv])
  show "fst (alloc_frame m) \<noteq> 0 \<Longrightarrow>
      allocated (snd (alloc_frame m)) = insert (fst (alloc_frame m)) (allocated m)"
    using inv by (cases rule: alloc_frame_cases) (auto simp: allocated_take pmm_inv_geometry [OF inv])
  show "reserved (snd (alloc_frame m)) = reserved m"
    using inv by (cases rule: alloc_frame_cases) (auto simp: reserved_take)
  show "reserved m \<subseteq> allocated m"
  proof
    fix x assume "x \<in> reserved m"
    then obtain i where i: "frame_index_for_address m x = Some i" "is_reserved_frame m i"
      by (auto simp: reserved_def)
    then have b: "g_bitmap m \<noteq> 0" by (auto simp: frame_index_for_address_def)
    with inv i frame_index_for_addressD(1) [OF pmm_inv_geometry [OF inv b] i(1)]
    show "x \<in> allocated m"
      by (auto simp: allocated_def is_frame_allocated_def pmm_inv_def reset_state_def)
  qed
  show "a \<in> allocated m - reserved m \<Longrightarrow> allocated (free_frame a m) = allocated m - {a}"
    using inv by (cases rule: try_free_cases [where a = a])
      (auto simp: free_frame_def allocated_clear pmm_inv_geometry [OF inv])
  show "a \<notin> allocated m - reserved m \<Longrightarrow> free_frame a m = m"
    using inv
  proof (cases rule: try_free_cases [where a = a])
    case fail
    then show ?thesis by (simp add: free_frame_def)
  next
    case (freed i)
    have g: "pmm_geometry m" using inv freed(2) by (rule pmm_inv_geometry)
    assume "a \<notin> allocated m - reserved m"
    with freed g show ?thesis
      by (auto simp: frame_address_not_allocated reserved_def frame_index_of_address)
  qed
  show "reserved (free_frame a m) = reserved m"
    using inv by (cases rule: try_free_cases [where a = a]) (auto simp: free_frame_def reserved_clear)
  show "pmm_inv (snd (alloc_frame m))" by (rule alloc_frame_inv [OF inv])
  show "pmm_inv (free_frame a m)" unfolding free_frame_def by (rule try_free_inv [OF inv])
qed


section \<open>Properties\<close>

lemma free_frames_0_iff:
  assumes "pmm_inv s"
  shows "free_frames s = 0 \<longleftrightarrow> (g_bitmap s = 0 \<or> (\<forall>i < n_frames s. bitmap_bit s i))"
proof (cases "g_bitmap s = 0")
  case True
  with assms have "s = reset_state" by (auto simp: pmm_inv_def pmm_geometry_def)
  then show ?thesis by (simp add: free_frames_def reset_state_def)
next
  case False
  with assms have "unat (g_used_frames s) = used_count s" by (auto simp: pmm_inv_def reset_state_def)
  then have "free_frames s = 0 \<longleftrightarrow> used_count s = n_frames s"
    by (auto simp: free_frames_def word_unat_eq_iff [of "g_frame_count s"])
  with False show ?thesis by (simp add: used_count_full_iff)
qed

lemma frame_address_aligned:
  assumes "pmm_geometry s" "i < n_frames s"
  shows "unat (frame_address s i) mod unat (g_frame_size s) = 0"
proof -
  have "unat (g_base s) mod unat (g_frame_size s) = 0" using assms(1) by (simp add: pmm_geometry_def)
  then show ?thesis unfolding frame_address_unat(1) [OF assms] by (simp add: mod_add_left_eq [symmetric])
qed

lemma below_scan_None:
  assumes g: "pmm_geometry s"
  shows "k \<le> n_frames s \<Longrightarrow> below_scan s lim [k..<n_frames s] = None \<Longrightarrow>
    (\<forall>i. k \<le> i \<and> i < n_frames s \<and> unat (frame_address s i) + unat (g_frame_size s) \<le> unat lim
      \<longrightarrow> bitmap_bit s i)"
proof (induction "n_frames s - k" arbitrary: k)
  case 0
  then show ?case by auto
next
  case (Suc d)
  then have kn: "k < n_frames s" by simp
  then have u: "[k..<n_frames s] = k # [Suc k..<n_frames s]" by (rule upt_conv_Cons)
  show ?case
  proof (cases "frame_address s k \<ge> lim \<or> g_frame_size s > lim - frame_address s k")
    case True
    have "0 < unat (g_frame_size s)" using g by (simp add: pmm_geometry_def)
    then have big: "unat lim < unat (frame_address s k) + unat (g_frame_size s)"
      using True by (auto simp: word_le_nat_alt word_less_nat_alt unat_sub_if' split: if_splits)
    have "unat (frame_address s k) \<le> unat (frame_address s i)" if "k \<le> i" "i < n_frames s" for i
      using that by (simp add: frame_address_unat(1) [OF g])
    with big show ?thesis by fastforce
  next
    case False
    with Suc.prems(2) have "bitmap_bit s k" "below_scan s lim [Suc k..<n_frames s] = None"
      unfolding u by (auto simp: Let_def split: if_splits)
    with Suc.hyps(1) [of "Suc k"] Suc.hyps(2) kn show ?thesis
      by (metis Suc_leI diff_Suc_Suc diff_Suc_diff_eq1 le_antisym not_less_eq_eq Suc_diff_Suc Suc_inject)
  qed
qed

text \<open>Four frames from 1 MiB whose bitmap lies in the second of them, as a concrete instance.\<close>

definition pmm_example :: pmm where
  "pmm_example = snd (initialize 0x100000 0x4000 0x1000 0x101800 64)"

lemma pmm_example_inv: "pmm_inv pmm_example"
  by (rule initialize_ok(1) [where base = "0x100000" and sz = "0x4000"
        and frame_size = "0x1000" and st = "0x101800" and st_size = "64"])
     (simp add: pmm_example_def initialize_def initialize_checks_def is_power_of_two_def Let_def)

text \<open>
  C2.  Initialisation.  On success the state satisfies the allocator's invariant, it manages
  \<open>sz div frame_size\<close> frames from \<open>base\<close>, and a frame starts out taken exactly when it shares a byte
  with the bitmap's own storage or is the frame at address 0; these frames are reserved for good
  and both counters agree with their number.  On failure no partial state is retained.
\<close>

theorem pmm_initialize:
  assumes "initialize base sz frame_size st st_size = (ok, s)"
  shows "pmm_inv s \<and> (\<not> ok \<longrightarrow> s = reset_state) \<and>
    (ok \<longrightarrow> total_frames s = sz div frame_size \<and> reserved_frames s = used_frames s \<and>
      allocated s = reserved s \<and>
      (\<forall>i < n_frames s. is_frame_allocated s (frame_address s i) \<longleftrightarrow>
         overlaps_bitmap s i \<or> frame_address s i = 0))"
proof (cases ok)
  case False
  with assms show ?thesis by (auto simp: initialize_def pmm_inv_def split: if_splits)
next
  case True
  with assms have "initialize base sz frame_size st st_size = (True, s)" by simp
  note i = initialize_ok [OF this]
  have g: "pmm_geometry s" using i(1,2) by (rule pmm_inv_geometry)
  have z: "frame_address s j = 0 \<longleftrightarrow> base = 0 \<and> j = 0" if "j < n_frames s" for j
    using frame_address_unat(1) [OF g that] g i(3)
    by (auto simp: pmm_geometry_def unat_eq_zero [symmetric] simp del: unat_eq_zero)
  have u: "reserved_frames s = used_frames s"
    using i(1,2,9) by (auto simp: reserved_frames_def used_frames_def word_unat_eq_iff pmm_inv_def reset_state_def)
  have "allocated s = reserved s"
    using i(8) frame_index_for_addressD(1) [OF g]
    by (auto simp: allocated_def reserved_def is_frame_allocated_def split: option.splits)
  with True u i(1,6,7) z g show ?thesis
    by (auto simp: total_frames_def is_frame_allocated_def frame_index_of_address)
qed

theorem pmm_initialize_witness:
  "initialize 0x100000 0x4000 0x1000 0x101800 64 = (True, pmm_example) \<and> pmm_inv pmm_example \<and>
   allocated pmm_example = reserved pmm_example \<and> used_frames pmm_example = 1"
proof -
  have h: "initialize 0x100000 0x4000 0x1000 0x101800 64 = (True, pmm_example)"
    unfolding pmm_example_def by (simp add: initialize_def initialize_checks_def is_power_of_two_def Let_def)
  moreover have "used_frames pmm_example = 1" unfolding pmm_example_def by code_simp
  ultimately show ?thesis using pmm_initialize [OF h] by simp
qed

text \<open>
  C3.  \<open>alloc_frame\<close>.  It fails exactly when no frame is free, and then changes nothing.  Otherwise
  it returns the lowest free frame: aligned, inside the managed range, never address 0 and never a
  reserved frame, and the only change is that this frame is now taken and counted.
\<close>

theorem pmm_alloc_frame:
  assumes "pmm_inv s" "alloc_frame s = (a, s')"
  shows "pmm_inv s' \<and> (a = 0 \<longleftrightarrow> free_frames s = 0) \<and> (a = 0 \<longrightarrow> s' = s) \<and>
    (a \<noteq> 0 \<longrightarrow> unat (g_base s) \<le> unat a \<and> unat a + unat (g_frame_size s) \<le> unat (g_end s) \<and>
      unat a mod unat (g_frame_size s) = 0 \<and> \<not> is_frame_allocated s a \<and> a \<notin> reserved s \<and>
      allocated s' = insert a (allocated s) \<and> reserved s' = reserved s \<and>
      used_frames s' = used_frames s + 1 \<and>
      (\<forall>i < n_frames s. \<not> is_frame_allocated s (frame_address s i) \<longrightarrow> a \<le> frame_address s i))"
  using assms(1)
proof (cases rule: alloc_frame_cases)
  case none
  with assms show ?thesis by (auto simp: free_frames_0_iff)
next
  case (some i)
  then have a: "a = frame_address s i" "s' = take_frame i s" using assms(2) by simp_all
  have g: "pmm_geometry s" using assms(1) some(2) by (rule pmm_inv_geometry)
  note fa = frame_address_unat [OF g some(3)]
  have ne: "a \<noteq> 0" using frame_address_nonzero [OF assms(1) some(2,3,4)] a by simp
  have na: "a \<notin> allocated s" using frame_address_not_allocated [OF g some(3)] some(4) a by simp
  have res: "a \<notin> reserved s" using na pmm.pinned_held [OF assms(1)] by blast
  have low: "a \<le> frame_address s j" if "j < n_frames s" "\<not> is_frame_allocated s (frame_address s j)" for j
  proof -
    have "i \<le> j" using that some(5) g
      by (metis frame_index_of_address is_frame_allocated_def not_less option.simps(5))
    then show ?thesis
      using fa(1) frame_address_unat(1) [OF g that(1)] a by (simp add: word_le_nat_alt)
  qed
  have "used_frames s' = used_frames s + 1" by (simp add: a used_frames_def take_frame_def)
  moreover have "\<not> is_frame_allocated s a" using na by (simp add: allocated_def)
  moreover have "free_frames s \<noteq> 0" using some assms(1) by (auto simp: free_frames_0_iff)
  ultimately show ?thesis
    using ne res low some fa frame_address_aligned [OF g some(3)] assms(1) g
    by (simp add: a take_frame_inv allocated_take reserved_take)
qed


theorem pmm_alloc_frame_witness:
  "alloc_frame pmm_example = (0x100000, snd (alloc_frame pmm_example)) \<and>
   \<not> is_frame_allocated pmm_example 0x100000 \<and>
   allocated (snd (alloc_frame pmm_example)) = insert 0x100000 (allocated pmm_example)"
proof -
  have h: "alloc_frame pmm_example = (0x100000, snd (alloc_frame pmm_example))"
    by code_simp
  show ?thesis using h pmm_alloc_frame [OF pmm_example_inv h] by simp
qed

text \<open>
  \<open>alloc_frame_below\<close>.  A returned frame lies wholly below the limit and was free; the call
  fails, without consuming anything, exactly when no free frame lies wholly below the limit.
\<close>

theorem pmm_alloc_frame_below:
  assumes "pmm_inv s" "alloc_frame_below lim s = (a, s')"
  shows "pmm_inv s' \<and>
    (a = 0 \<longrightarrow> s' = s \<and> (\<forall>i < n_frames s.
       unat (frame_address s i) + unat (g_frame_size s) \<le> unat lim \<longrightarrow>
       is_frame_allocated s (frame_address s i))) \<and>
    (a \<noteq> 0 \<longrightarrow> unat a + unat (g_frame_size s) \<le> unat lim \<and> a \<notin> allocated s \<and>
       allocated s' = insert a (allocated s) \<and> used_frames s' = used_frames s + 1)"
proof (cases "g_bitmap s = 0")
  case True
  then have "s = reset_state" using assms(1) by (auto simp: pmm_inv_def pmm_geometry_def)
  with True assms show ?thesis by (auto simp: alloc_frame_below_def reset_state_def)
next
  case False
  then have g: "pmm_geometry s" using assms(1) by (simp add: pmm_inv_geometry)
  have fs: "0 < unat (g_frame_size s)" using g by (simp add: pmm_geometry_def)
  show ?thesis
  proof (cases "lim \<le> g_base s \<or> lim < g_frame_size s \<or> below_scan s lim [0..<n_frames s] = None")
    case True
    then have r: "a = 0" "s' = s" using assms(2) by (auto simp: alloc_frame_below_def split: if_splits)
    have "bitmap_bit s i" if "i < n_frames s" "unat (frame_address s i) + unat (g_frame_size s) \<le> unat lim" for i
      using True below_scan_None [OF g, of 0 lim] that fs frame_address_unat(1) [OF g that(1)]
      by (auto simp: word_le_nat_alt word_less_nat_alt)
    with r assms(1) g show ?thesis by (auto simp: is_frame_allocated_def frame_index_of_address)
  next
    case found: False
    then obtain i where i: "below_scan s lim [0..<n_frames s] = Some i" by auto
    then have a: "a = frame_address s i" "s' = take_frame i s"
      using found False assms(2) by (auto simp: alloc_frame_below_def)
    note sc = below_scan_Some [OF i]
    have lt: "i < n_frames s" using sc by simp
    have "a \<noteq> 0" using frame_address_nonzero [OF assms(1) False lt] sc a by simp
    moreover have "unat a + unat (g_frame_size s) \<le> unat lim"
      using sc unat_sub_no_wrap [of "frame_address s i" lim]
      by (auto simp: a word_less_nat_alt word_le_nat_alt)
    moreover have "a \<notin> allocated s" using frame_address_not_allocated [OF g lt] sc a by simp
    moreover have "used_frames s' = used_frames s + 1"
      by (simp add: a used_frames_def take_frame_def)
    ultimately show ?thesis
      using assms(1) False lt sc g by (simp add: a take_frame_inv allocated_take)
  qed
qed

theorem pmm_alloc_frame_below_witness:
  "alloc_frame_below 0x101000 pmm_example = (0x100000, snd (alloc_frame_below 0x101000 pmm_example)) \<and>
   0x100000 \<notin> allocated pmm_example"
proof -
  have h: "alloc_frame_below 0x101000 pmm_example
      = (0x100000, snd (alloc_frame_below 0x101000 pmm_example))"
    by code_simp
  show ?thesis using h pmm_alloc_frame_below [OF pmm_example_inv h] by simp
qed

text \<open>
  C4.  \<open>try_free_frame\<close>.  It succeeds exactly on a taken, non-reserved frame; then that frame alone
  becomes free and a second free of it is refused.  Every other address (misaligned, out of range,
  reserved, already free) leaves the state unchanged.
\<close>

theorem pmm_try_free_frame:
  assumes "pmm_inv s" "try_free_frame a s = (ok, s')"
  shows "pmm_inv s' \<and> (ok \<longleftrightarrow> a \<in> allocated s - reserved s) \<and> (\<not> ok \<longrightarrow> s' = s) \<and>
    (ok \<longrightarrow> allocated s' = allocated s - {a} \<and> reserved s' = reserved s \<and>
      used_frames s' = used_frames s - 1 \<and> try_free_frame a s' = (False, s'))"
proof -
  have inv: "pmm_inv s'" using try_free_inv [OF assms(1), of a] assms(2) by simp
  have fr: "free_frame a s = s'" using assms(2) by (simp add: free_frame_def)
  show ?thesis
    using assms(1)
  proof (cases rule: try_free_cases [where a = a])
    case fail
    with assms show ?thesis by auto
  next
    case (freed i)
    have g: "pmm_geometry s" using assms(1) freed(2) by (rule pmm_inv_geometry)
    have r: "ok" "s' = (clear_bitmap_bit i s)\<lparr>g_used_frames := g_used_frames s - 1\<rparr>"
      using freed(1) assms(2) by simp_all
    have mem: "a \<in> allocated s" "a \<notin> reserved s"
      using freed frame_address_not_allocated [OF g freed(3)] frame_index_of_address [OF g freed(3)]
      by (auto simp: reserved_def)
    then have h: "allocated s' = allocated s - {a}" "reserved s' = reserved s"
      using pmm.free_held [OF assms(1)] pmm.free_pinned [OF assms(1)] fr by auto
    have "try_free_frame a s' = (False, s')"
      using inv
    proof (cases rule: try_free_cases [where a = a])
      case fail
      then show ?thesis by simp
    next
      case (freed j)
      have "pmm_geometry s'" using inv freed(2) by (rule pmm_inv_geometry)
      with freed h show ?thesis using frame_address_not_allocated by blast
    qed
    with inv r mem h show ?thesis by (simp add: used_frames_def)
  qed
qed

theorem pmm_try_free_frame_witness:
  "try_free_frame 0x100000 (snd (alloc_frame pmm_example)) =
     (True, snd (try_free_frame 0x100000 (snd (alloc_frame pmm_example)))) \<and>
   try_free_frame 0x100000 (snd (try_free_frame 0x100000 (snd (alloc_frame pmm_example)))) =
     (False, snd (try_free_frame 0x100000 (snd (alloc_frame pmm_example))))"
proof -
  have h: "try_free_frame 0x100000 (snd (alloc_frame pmm_example)) =
     (True, snd (try_free_frame 0x100000 (snd (alloc_frame pmm_example))))"
    by code_simp
  show ?thesis
    using h pmm_try_free_frame [OF alloc_frame_inv [OF pmm_example_inv] h] by simp
qed

text \<open>
  Freeing the frame just allocated restores the allocator exactly: bitmap and counters.
\<close>

theorem pmm_alloc_free_roundtrip:
  assumes "pmm_inv s" "alloc_frame s = (a, s')" "a \<noteq> 0"
  shows "try_free_frame a s' = (True, s)"
  using assms(1)
proof (cases rule: alloc_frame_cases)
  case none
  with assms show ?thesis by simp
next
  case (some i)
  have a: "a = frame_address s i" "s' = take_frame i s" using some(1) assms(2) by simp_all
  have g: "pmm_geometry s" using assms(1) some(2) by (rule pmm_inv_geometry)
  have st: "i < 8 * length (g_bitmap_store s)" using geometry_store [OF g some(3)] .
  have nr: "\<not> is_reserved_frame s i"
    using assms(1) some(2,3,4) by (auto simp: pmm_inv_def reset_state_def)
  have "pmm_inv s'" using take_frame_inv [OF assms(1) some(2,3,4)] a by simp
  moreover have "s' \<noteq> reset_state"
  proof
    assume "s' = reset_state"
    then have "g_bitmap s' = 0" by (simp add: reset_state_def)
    with some(2) show False by (simp add: a take_frame_def)
  qed
  ultimately have "unat (g_used_frames s') = used_count s'" by (simp add: pmm_inv_def)
  then have "0 < unat (g_used_frames s')"
    using used_count_set [OF some(3) _ some(4)] g by (simp add: a take_frame_def pmm_geometry_def)
  then have pos: "g_used_frames s' > 0" by (simp add: word_less_nat_alt)
  have "(clear_bitmap_bit i s')\<lparr>g_used_frames := g_used_frames s' - 1\<rparr> = s"
    using set_clear_bitmap [OF st some(4)]
    by (simp add: a take_frame_def clear_bitmap_bit_def set_bitmap_bit_def)
  with pos nr st show ?thesis
    using frame_index_of_address [OF g some(3)]
    by (simp add: try_free_frame_def a take_frame_def bitmap_bit_set)
qed

theorem pmm_alloc_free_roundtrip_witness:
  "try_free_frame 0x100000 (snd (alloc_frame pmm_example)) = (True, pmm_example)"
proof -
  have h: "alloc_frame pmm_example = (0x100000, snd (alloc_frame pmm_example))"
    by code_simp
  show ?thesis using pmm_alloc_free_roundtrip [OF pmm_example_inv h] by simp
qed

end
