(* ===== verification/Kernel_Heap.thy ===== *)
theory Kernel_Heap
  imports Kurogane_Prelude "HOL-Library.Monad_Syntax"
begin

text \<open>
  The kernel heap, \<^verbatim>\<open>kernel/memory/allocator.hpp\<close> and \<^verbatim>\<open>allocator.cpp\<close>: first-fit allocation over a doubly
  linked list of blocks that covers the heap.  Block headers and allocation prefixes live in the heap's own memory
  next to the users' data, so the state has an explicit memory.  It maps the address of each aligned
  8-byte word to its value: every access of the allocator is to such a word (\<^verbatim>\<open>kfree\<close> checks the
  alignment of the prefix before it reads it), except that \<^verbatim>\<open>used\<close> is the low byte of its word.

  A \<^verbatim>\<open>BlockHeader\<close> is 32 bytes (\<^verbatim>\<open>size\<close>, \<^verbatim>\<open>used\<close>, \<^verbatim>\<open>next\<close>, \<^verbatim>\<open>previous\<close> at offsets 0, 8, 16, 24) and an
  \<^verbatim>\<open>AllocationPrefix\<close> 24 (\<^verbatim>\<open>magic\<close>, \<^verbatim>\<open>block\<close>, \<^verbatim>\<open>requested_size\<close> at 0, 8, 16), both with alignment 8.
  The loops over the list follow pointers in memory and are partial: \<open>None\<close> is a loop that never ends.
\<close>

section \<open>State\<close>

record heap =
  mem :: "u64 \<Rightarrow> u64"
  g_heap_start :: u64
  g_heap_end :: u64
  g_heap_size :: u64
  g_first_block :: u64
  g_used_bytes :: u64
  g_allocation_count :: u64

definition ALLOCATION_MAGIC :: u64 where "ALLOCATION_MAGIC = 0x4B55524F47414E45"

abbreviation header_bytes :: u64 where "header_bytes \<equiv> 32"
abbreviation prefix_bytes :: u64 where "prefix_bytes \<equiv> 24"
abbreviation word_align :: u64 where "word_align \<equiv> 8"

definition put :: "u64 \<Rightarrow> u64 \<Rightarrow> heap \<Rightarrow> heap" where
  "put a v h = h\<lparr> mem := (mem h)(a := v) \<rparr>"

text \<open>The fields of the header at \<open>b\<close> and of the prefix at \<open>p\<close>.\<close>

definition hd_size :: "heap \<Rightarrow> u64 \<Rightarrow> u64" where "hd_size h b = mem h b"
definition hd_used :: "heap \<Rightarrow> u64 \<Rightarrow> bool" where "hd_used h b \<longleftrightarrow> mem h (b + 8) AND 0xFF \<noteq> 0"
definition hd_next :: "heap \<Rightarrow> u64 \<Rightarrow> u64" where "hd_next h b = mem h (b + 16)"
definition hd_previous :: "heap \<Rightarrow> u64 \<Rightarrow> u64" where "hd_previous h b = mem h (b + 24)"

definition set_size :: "u64 \<Rightarrow> u64 \<Rightarrow> heap \<Rightarrow> heap" where "set_size b v = put b v"
definition set_used :: "u64 \<Rightarrow> bool \<Rightarrow> heap \<Rightarrow> heap" where
  "set_used b v h = put (b + 8) (mem h (b + 8) AND NOT 0xFF OR (if v then 1 else 0)) h"
definition set_next :: "u64 \<Rightarrow> u64 \<Rightarrow> heap \<Rightarrow> heap" where "set_next b v = put (b + 16) v"
definition set_previous :: "u64 \<Rightarrow> u64 \<Rightarrow> heap \<Rightarrow> heap" where "set_previous b v = put (b + 24) v"

definition pf_magic :: "heap \<Rightarrow> u64 \<Rightarrow> u64" where "pf_magic h p = mem h p"
definition pf_block :: "heap \<Rightarrow> u64 \<Rightarrow> u64" where "pf_block h p = mem h (p + 8)"
definition pf_requested_size :: "heap \<Rightarrow> u64 \<Rightarrow> u64" where "pf_requested_size h p = mem h (p + 16)"

definition set_prefix :: "u64 \<Rightarrow> u64 \<Rightarrow> u64 \<Rightarrow> u64 \<Rightarrow> heap \<Rightarrow> heap" where
  "set_prefix p magic block requested h =
     put (p + 16) requested (put (p + 8) block (put p magic h))"

section \<open>Helpers\<close>

definition is_power_of_two :: "u64 \<Rightarrow> bool" where
  "is_power_of_two value \<longleftrightarrow> value \<noteq> 0 \<and> value AND (value - 1) = 0"

definition checked_add :: "u64 \<Rightarrow> u64 \<Rightarrow> u64 option" where
  "checked_add value increment =
     (if increment > - 1 - value then None else Some (value + increment))"

definition align_up :: "u64 \<Rightarrow> u64 \<Rightarrow> u64 option" where
  "align_up value alignment =
     (if \<not> is_power_of_two alignment then None
      else let low = alignment - 1 in
        if value > - 1 - low then None else Some ((value + low) AND NOT low))"

definition reset_heap_state :: "heap \<Rightarrow> heap" where
  "reset_heap_state h = h\<lparr> g_heap_start := 0, g_heap_end := 0, g_heap_size := 0, g_first_block := 0,
     g_used_bytes := 0, g_allocation_count := 0 \<rparr>"

definition block_payload_start :: "u64 \<Rightarrow> u64" where
  "block_payload_start block = block + header_bytes"

partial_function (option) known_from :: "heap \<Rightarrow> u64 \<Rightarrow> u64 \<Rightarrow> bool option" where
  [code]: "known_from h target current =
     (if current = 0 then Some False
      else if current = target then Some True
      else known_from h target (hd_next h current))"

definition block_is_known :: "heap \<Rightarrow> u64 \<Rightarrow> bool option" where
  "block_is_known h target = known_from h target (g_first_block h)"

text \<open>The user address and the payload consumed by an allocation in the block, when it fits.\<close>

definition calculate_layout :: "heap \<Rightarrow> u64 \<Rightarrow> u64 \<Rightarrow> u64 \<Rightarrow> (u64 \<times> u64) option" where
  "calculate_layout h block requested_size alignment = do {
     let effective_alignment = (if alignment < word_align then word_align else alignment);
     let payload_start = block_payload_start block;
     prefix_end \<leftarrow> checked_add payload_start prefix_bytes;
     user_address \<leftarrow> align_up prefix_end effective_alignment;
     requested_end \<leftarrow> checked_add user_address requested_size;
     block_end \<leftarrow> checked_add payload_start (hd_size h block);
     if requested_end > block_end then None
     else case align_up requested_end word_align of
         Some split_address \<Rightarrow>
           if split_address \<le> block_end then Some (user_address, split_address - payload_start)
           else Some (user_address, hd_size h block)
       | None \<Rightarrow> Some (user_address, hd_size h block)
   }"

text \<open>The block found, with its user address and consumed payload; the inner \<open>None\<close> is a null result.\<close>

partial_function (option) free_block_from ::
  "heap \<Rightarrow> u64 \<Rightarrow> u64 \<Rightarrow> u64 \<Rightarrow> (u64 \<times> u64 \<times> u64) option option" where
  [code]: "free_block_from h bytes alignment current =
     (if current = 0 then Some None
      else if \<not> hd_used h current \<and> calculate_layout h current bytes alignment \<noteq> None
      then Some (Some (current, the (calculate_layout h current bytes alignment)))
      else free_block_from h bytes alignment (hd_next h current))"

definition find_free_block :: "heap \<Rightarrow> u64 \<Rightarrow> u64 \<Rightarrow> (u64 \<times> u64 \<times> u64) option option" where
  "find_free_block h bytes alignment = free_block_from h bytes alignment (g_first_block h)"

definition blocks_are_adjacent :: "heap \<Rightarrow> u64 \<Rightarrow> u64 \<Rightarrow> bool" where
  "blocks_are_adjacent h first second \<longleftrightarrow>
     first \<noteq> 0 \<and> second \<noteq> 0
     \<and> checked_add (block_payload_start first) (hd_size h first) = Some second"

definition merge_with_next :: "u64 \<Rightarrow> heap \<Rightarrow> heap" where
  "merge_with_next block h =
     (let next = hd_next h block in
      if next = 0 \<or> hd_used h next \<or> \<not> blocks_are_adjacent h block next then h
      else
        let h1 = set_size block (hd_size h block + (header_bytes + hd_size h next)) h;
            h2 = set_next block (hd_next h1 next) h1
        in if hd_next h2 block \<noteq> 0 then set_previous (hd_next h2 block) block h2 else h2)"

section \<open>Operations\<close>

definition init_kernel_heap :: "u64 \<Rightarrow> u64 \<Rightarrow> heap \<Rightarrow> heap" where
  "init_kernel_heap start bytes h =
     (let h0 = reset_heap_state h in
      if start = 0 \<or> bytes = 0 then h0
      else case checked_add start bytes of
        None \<Rightarrow> h0
      | Some original_end \<Rightarrow>
          (case align_up start word_align of
             None \<Rightarrow> h0
           | Some aligned_start \<Rightarrow>
               if aligned_start \<ge> original_end then h0
               else
                 let adjusted_size = original_end - aligned_start in
                 if adjusted_size < header_bytes + prefix_bytes + 1 then h0
                 else
                   set_previous aligned_start 0 (set_next aligned_start 0 (set_used aligned_start False
                     (set_size aligned_start (adjusted_size - header_bytes)
                       (h0\<lparr> g_heap_start := aligned_start, g_heap_end := original_end,
                            g_heap_size := adjusted_size, g_first_block := aligned_start \<rparr>))))))"

text \<open>The part of \<^verbatim>\<open>kmalloc\<close> that cuts a free block off the end of the block it found.\<close>

definition split_block :: "u64 \<Rightarrow> u64 \<Rightarrow> heap \<Rightarrow> heap" where
  "split_block block consumed_payload h =
     (let original_size = hd_size h block;
          remainder = original_size - consumed_payload;
          minimum_free_payload = prefix_bytes + 1
      in if remainder \<ge> header_bytes + minimum_free_payload
         then
           let split = block_payload_start block + consumed_payload;
               h1 = set_size split (remainder - header_bytes) h;
               h2 = set_used split False h1;
               h3 = set_next split (hd_next h2 block) h2;
               h4 = set_previous split block h3;
               h5 = (if hd_next h4 split \<noteq> 0 then set_previous (hd_next h4 split) split h4 else h4);
               h6 = set_size block consumed_payload h5
           in set_next block split h6
         else h)"

definition kmalloc :: "u64 \<Rightarrow> u64 \<Rightarrow> heap \<Rightarrow> (u64 \<times> heap) option" where
  "kmalloc bytes alignment h =
     (if g_heap_start h = 0 \<or> bytes = 0 \<or> \<not> is_power_of_two alignment then Some (0, h)
      else do {
        found \<leftarrow> find_free_block h bytes alignment;
        case found of
          None \<Rightarrow> Some (0, h)
        | Some (block, user_address, consumed_payload) \<Rightarrow>
            let h1 = split_block block consumed_payload h;
                h2 = set_prefix (user_address - prefix_bytes) ALLOCATION_MAGIC block bytes h1;
                h3 = set_used block True h2
            in Some (user_address, h3\<lparr> g_used_bytes := g_used_bytes h3 + bytes,
                       g_allocation_count := g_allocation_count h3 + 1 \<rparr>)
      })"

text \<open>The part of \<^verbatim>\<open>kfree\<close> after its checks: the release of \<open>block\<close>, whose prefix is at \<open>prefix\<close>.\<close>

definition release_block :: "u64 \<Rightarrow> u64 \<Rightarrow> heap \<Rightarrow> heap" where
  "release_block prefix block h =
     (let released_size = pf_requested_size h prefix;
          h1 = set_used block False (set_prefix prefix 0 0 0 h);
          h2 = h1\<lparr> g_used_bytes := (if released_size \<le> g_used_bytes h1 then g_used_bytes h1 - released_size else 0),
                   g_allocation_count := (if g_allocation_count h1 > 0 then g_allocation_count h1 - 1
                                          else g_allocation_count h1) \<rparr>;
          h3 = merge_with_next block h2
      in if hd_previous h3 block \<noteq> 0 \<and> \<not> hd_used h3 (hd_previous h3 block)
         then merge_with_next (hd_previous h3 block) h3
         else h3)"

definition kfree :: "u64 \<Rightarrow> heap \<Rightarrow> heap option" where
  "kfree address h =
     (if address = 0 \<or> g_heap_start h = 0 then Some h
      else if address < g_heap_start h + header_bytes + prefix_bytes
              \<or> address \<ge> g_heap_end h \<or> address < prefix_bytes then Some h
      else
        let prefix = address - prefix_bytes in
        if prefix AND (word_align - 1) \<noteq> 0 then Some h
        else
          let block = pf_block h prefix in
          if pf_magic h prefix \<noteq> ALLOCATION_MAGIC \<or> block = 0 then Some h
          else do {
            known \<leftarrow> block_is_known h block;
            if \<not> known \<or> \<not> hd_used h block then Some h
            else
              let payload_start = block_payload_start block in
              case (checked_add payload_start (hd_size h block),
                    checked_add address (pf_requested_size h prefix)) of
                (Some payload_end, Some allocation_end) \<Rightarrow>
                  if prefix < payload_start \<or> allocation_end > payload_end then Some h
                  else Some (release_block prefix block h)
              | (_, _) \<Rightarrow> Some h
          })"

definition kernel_heap_initialized :: "heap \<Rightarrow> bool" where
  "kernel_heap_initialized h \<longleftrightarrow> g_first_block h \<noteq> 0"

definition total_bytes :: "heap \<Rightarrow> u64" where
  "total_bytes h = (if g_heap_size h > header_bytes then g_heap_size h - header_bytes else 0)"

definition used_bytes :: "heap \<Rightarrow> u64" where "used_bytes h = g_used_bytes h"

partial_function (option) free_bytes_from :: "heap \<Rightarrow> u64 \<Rightarrow> u64 \<Rightarrow> u64 option" where
  [code]: "free_bytes_from h result current =
     (if current = 0 then Some result
      else free_bytes_from h (if hd_used h current then result else result + hd_size h current)
             (hd_next h current))"

definition free_bytes :: "heap \<Rightarrow> u64 option" where
  "free_bytes h = free_bytes_from h 0 (g_first_block h)"

definition allocation_count :: "heap \<Rightarrow> u64" where "allocation_count h = g_allocation_count h"


section \<open>Address arithmetic\<close>

abbreviation W :: "nat \<Rightarrow> u64" where "W \<equiv> of_nat"

lemma unat_W: "n < 2 ^ 64 \<Longrightarrow> unat (W n) = n"
  by (rule unat_of_nat_small) simp

lemma W_unat: "W (unat w) = w"
  by simp

lemma W_eq_iff: "x < 2 ^ 64 \<Longrightarrow> y < 2 ^ 64 \<Longrightarrow> W x = W y \<longleftrightarrow> x = y"
  by (metis unat_W)

lemma W_eq_0_iff: "x < 2 ^ 64 \<Longrightarrow> W x = 0 \<longleftrightarrow> x = 0"
  using W_eq_iff [of x 0] by simp

lemma W_less_iff: "x < 2 ^ 64 \<Longrightarrow> y < 2 ^ 64 \<Longrightarrow> W x < W y \<longleftrightarrow> x < y"
  and W_le_iff: "x < 2 ^ 64 \<Longrightarrow> y < 2 ^ 64 \<Longrightarrow> W x \<le> W y \<longleftrightarrow> x \<le> y"
  unfolding word_less_nat_alt word_le_nat_alt by (simp_all only: unat_W)

lemma unat_lt: "unat (w :: u64) < 2 ^ 64"
  using unat_less_2p [of w] by simp

lemma checked_add_eq:
  "checked_add v i = (if unat v + unat i < 2 ^ 64 then Some (W (unat v + unat i)) else None)"
  using word_add_guard [of i v] by (auto simp: checked_add_def not_less)

lemma checked_add_W:
  assumes "a < 2 ^ 64" "b < 2 ^ 64"
  shows "checked_add (W a) (W b) = (if a + b < 2 ^ 64 then Some (W (a + b)) else None)"
  unfolding checked_add_eq unat_W [OF assms(1)] unat_W [OF assms(2)] ..

lemma word_and_not_mask: "w AND NOT m = w - (w AND m)" for w m :: "'a::len word"
proof -
  have "w - (w AND m) = w AND NOT (w AND m)" by (rule disjunctive_diff) (simp add: bit_and_iff)
  also have "\<dots> = w AND NOT m" by (rule bit_word_eqI) (auto simp: bit_simps)
  finally show ?thesis by simp
qed

text \<open>\<open>align_up\<close> rounds up to the next multiple of the alignment, unless that would pass the end of the address space.\<close>

definition round_up :: "nat \<Rightarrow> nat \<Rightarrow> nat" where
  "round_up v a = (v + (a - 1)) div a * a"

lemma round_up_bounds:
  assumes "0 < a"
  shows "a dvd round_up v a" "v \<le> round_up v a" "round_up v a \<le> v + (a - 1)"
proof -
  have e: "round_up v a = v + (a - 1) - (v + (a - 1)) mod a"
    by (simp add: round_up_def minus_mod_eq_div_mult)
  have "(v + (a - 1)) mod a < a" using assms by simp
  then show "v \<le> round_up v a" unfolding e by linarith
  show "round_up v a \<le> v + (a - 1)" unfolding e by simp
qed (simp add: round_up_def)

lemma power_of_two_pos: "is_power_of_two a \<Longrightarrow> 0 < unat a"
  by (simp add: is_power_of_two_def unat_gt_0)

lemma align_up_eq:
  assumes "is_power_of_two a"
  shows "align_up v a =
    (if unat v + (unat a - 1) < 2 ^ 64 then Some (W (round_up (unat v) (unat a))) else None)"
proof -
  obtain k where k: "unat a = 2 ^ k" using word_power_of_two [of a] assms by (auto simp: is_power_of_two_def)
  have low: "unat (a - 1) = unat a - 1"
    using power_of_two_pos [OF assms] by (subst unat_sub_no_wrap) (auto simp: word_le_nat_alt)
  have l: "LENGTH(64) = 64" by simp
  have guard: "v \<le> - 1 - (a - 1) \<longleftrightarrow> unat v + (unat a - 1) < 2 ^ 64"
    using word_add_guard [of v "a - 1"] unfolding low l add.commute [of "unat a - 1"] .
  show ?thesis
  proof (cases "unat v + (unat a - 1) < 2 ^ 64")
    case True
    then have s: "unat (v + (a - 1)) = unat v + (unat a - 1)"
      using unat_add_no_wrap [of v "a - 1"] unfolding low l by blast
    define x where "x = v + (a - 1)"
    have le: "x AND (a - 1) \<le> x"
      unfolding word_le_nat_alt unat_and_power_minus_1 [OF k] by simp
    have "unat (x AND NOT (a - 1)) = unat x - unat x mod unat a"
      unfolding word_and_not_mask unat_sub_no_wrap [OF le] unat_and_power_minus_1 [OF k] ..
    also have "\<dots> = round_up (unat v) (unat a)"
      unfolding x_def s by (simp add: round_up_def minus_mod_eq_div_mult)
    finally have x: "x AND NOT (a - 1) = W (round_up (unat v) (unat a))" by (metis W_unat)
    have "align_up v a = Some (x AND NOT (a - 1))"
      unfolding align_up_def Let_def x_def not_le [symmetric] guard by (simp only: True [unfolded not_le [symmetric]] assms if_False simp_thms)
    then show ?thesis unfolding x by (simp only: True if_True)
  next
    case False
    then have "align_up v a = None"
      unfolding align_up_def Let_def not_le [symmetric] guard by (simp only: False assms if_True if_False simp_thms)
    then show ?thesis by (simp only: False if_False)
  qed
qed

lemma align_8: "is_power_of_two 8" "unat (8 :: u64) = 8"
  by code_simp simp

section \<open>Memory by address\<close>

text \<open>The memory as a function of the address as a number, so that addresses compare as numbers.\<close>

definition words :: "heap \<Rightarrow> nat \<Rightarrow> u64" where
  "words h a = (if a < 2 ^ 64 then mem h (W a) else 0)"

lemma words_put: "x < 2 ^ 64 \<Longrightarrow> words (put (W x) v h) = (words h)(x := v)"
  by (auto simp: words_def put_def fun_eq_iff W_eq_iff)

lemma words_cong: "mem h' = mem h \<Longrightarrow> words h' = words h"
  by (simp add: words_def fun_eq_iff)

lemma put_globals [simp]:
  "g_heap_start (put a v h) = g_heap_start h" "g_heap_end (put a v h) = g_heap_end h"
  "g_heap_size (put a v h) = g_heap_size h" "g_first_block (put a v h) = g_first_block h"
  "g_used_bytes (put a v h) = g_used_bytes h" "g_allocation_count (put a v h) = g_allocation_count h"
  by (simp_all add: put_def)

definition same_globals :: "heap \<Rightarrow> heap \<Rightarrow> bool" where
  "same_globals h h' \<longleftrightarrow> g_heap_start h' = g_heap_start h \<and> g_heap_end h' = g_heap_end h
     \<and> g_heap_size h' = g_heap_size h \<and> g_first_block h' = g_first_block h
     \<and> g_used_bytes h' = g_used_bytes h \<and> g_allocation_count h' = g_allocation_count h"

definition flag :: "u64 \<Rightarrow> bool" where "flag w \<longleftrightarrow> w AND 0xFF \<noteq> 0"

lemma flag_set: "flag (w AND NOT 0xFF OR 1)" "\<not> flag (w AND NOT 0xFF OR 0)"
proof -
  have "(w AND NOT 0xFF OR 1) AND 0xFF = (1 :: u64)"
    by (rule bit_word_eqI) (auto simp: bit_simps)
  then show "flag (w AND NOT 0xFF OR 1)" by (simp add: flag_def)
  have "(w AND NOT 0xFF OR 0) AND 0xFF = (0 :: u64)"
    by (rule bit_word_eqI) (auto simp: bit_simps)
  then show "\<not> flag (w AND NOT 0xFF OR 0)" by (simp add: flag_def)
qed

lemma header_words:
  assumes "a + 32 \<le> 2 ^ 64"
  shows "hd_size h (W a) = words h a" "hd_used h (W a) = flag (words h (a + 8))"
    "hd_next h (W a) = words h (a + 16)" "hd_previous h (W a) = words h (a + 24)"
    "words (set_size (W a) v h) = (words h)(a := v)"
    "words (set_used (W a) b h) = (words h)(a + 8 := words h (a + 8) AND NOT 0xFF OR (if b then 1 else 0))"
    "words (set_next (W a) v h) = (words h)(a + 16 := v)"
    "words (set_previous (W a) v h) = (words h)(a + 24 := v)"
proof -
  have s: "W a + 8 = W (a + 8)" "W a + 16 = W (a + 16)" "W a + 24 = W (a + 24)" by simp_all
  have b: "a < 2 ^ 64" "a + 8 < 2 ^ 64" "a + 16 < 2 ^ 64" "a + 24 < 2 ^ 64" using assms by linarith+
  show "hd_size h (W a) = words h a" "hd_used h (W a) = flag (words h (a + 8))"
    "hd_next h (W a) = words h (a + 16)" "hd_previous h (W a) = words h (a + 24)"
    unfolding hd_size_def hd_used_def hd_next_def hd_previous_def s words_def flag_def using b by simp_all
  show "words (set_size (W a) v h) = (words h)(a := v)"
    unfolding set_size_def by (rule words_put [OF b(1)])
  show "words (set_used (W a) b h) = (words h)(a + 8 := words h (a + 8) AND NOT 0xFF OR (if b then 1 else 0))"
    unfolding set_used_def s words_put [OF b(2)] using b(2) by (simp add: words_def)
  show "words (set_next (W a) v h) = (words h)(a + 16 := v)"
    unfolding set_next_def s by (rule words_put [OF b(3)])
  show "words (set_previous (W a) v h) = (words h)(a + 24 := v)"
    unfolding set_previous_def s by (rule words_put [OF b(4)])
qed

lemma prefix_words:
  assumes "p + 24 \<le> 2 ^ 64"
  shows "pf_magic h (W p) = words h p" "pf_block h (W p) = words h (p + 8)"
    "pf_requested_size h (W p) = words h (p + 16)"
    "words (set_prefix (W p) x y z h) = (words h)(p := x, p + 8 := y, p + 16 := z)"
proof -
  have s: "W p + 8 = W (p + 8)" "W p + 16 = W (p + 16)" by simp_all
  have b: "p < 2 ^ 64" "p + 8 < 2 ^ 64" "p + 16 < 2 ^ 64" using assms by linarith+
  show "pf_magic h (W p) = words h p" "pf_block h (W p) = words h (p + 8)"
    "pf_requested_size h (W p) = words h (p + 16)"
    unfolding pf_magic_def pf_block_def pf_requested_size_def s words_def using b by simp_all
  show "words (set_prefix (W p) x y z h) = (words h)(p := x, p + 8 := y, p + 16 := z)"
    unfolding set_prefix_def s words_put [OF b(3)] words_put [OF b(2)] words_put [OF b(1)] ..
qed

lemma setters_globals [simp]:
  "same_globals h (set_size a v h)" "same_globals h (set_used a b h)" "same_globals h (set_next a v h)"
  "same_globals h (set_previous a v h)" "same_globals h (set_prefix a x y z h)" "same_globals h h"
  by (simp_all add: same_globals_def set_size_def set_used_def set_next_def set_previous_def set_prefix_def)

lemma same_globals_trans: "same_globals h h' \<Longrightarrow> same_globals h' h'' \<Longrightarrow> same_globals h h''"
  by (simp add: same_globals_def)

end
