(* ===== verification/Kernel_Heap_Inv.thy ===== *)
theory Kernel_Heap_Inv
  imports Kernel_Heap
begin

text \<open>
  The shape of the kernel heap: the list of blocks that its headers describe, the invariant that ties it to the
  memory, and the effect of the allocator's pieces (\<open>split_block\<close>, \<open>merge_with_next\<close>, the loops) on it.
\<close>

section \<open>Blocks\<close>

text \<open>
  A block with its address and payload size; \<open>alloc\<close> holds the user address and the requested size
  while the block is in use.
\<close>

record blk =
  at :: nat
  len :: nat
  alloc :: "(nat \<times> nat) option"

abbreviation past :: "blk \<Rightarrow> nat" where "past b \<equiv> at b + 32 + len b"

definition blk_ok :: "blk \<Rightarrow> bool" where
  "blk_ok b \<longleftrightarrow> 8 dvd at b
     \<and> (case alloc b of None \<Rightarrow> True
        | Some (u, r) \<Rightarrow> 8 dvd u \<and> at b + 56 \<le> u \<and> 0 < r \<and> u + r \<le> past b)"

text \<open>The blocks tile the addresses from \<open>a\<close> up to \<open>e\<close>.\<close>

fun layout :: "nat \<Rightarrow> blk list \<Rightarrow> nat \<Rightarrow> bool" where
  "layout a [] e \<longleftrightarrow> a = e"
| "layout a (b # bs) e \<longleftrightarrow> at b = a \<and> blk_ok b \<and> layout (past b) bs e"

fun first_at :: "blk list \<Rightarrow> nat \<Rightarrow> nat" where
  "first_at [] n = n"
| "first_at (b # bs) n = at b"

fun last_at :: "nat \<Rightarrow> blk list \<Rightarrow> nat" where
  "last_at p [] = p"
| "last_at p (b # bs) = last_at (at b) bs"

definition header_ok :: "(nat \<Rightarrow> u64) \<Rightarrow> blk \<Rightarrow> nat \<Rightarrow> nat \<Rightarrow> bool" where
  "header_ok m b n p \<longleftrightarrow> m (at b) = W (len b) \<and> flag (m (at b + 8)) = (alloc b \<noteq> None)
     \<and> m (at b + 16) = W n \<and> m (at b + 24) = W p"

definition prefix_ok :: "(nat \<Rightarrow> u64) \<Rightarrow> blk \<Rightarrow> bool" where
  "prefix_ok m b \<longleftrightarrow>
     (case alloc b of None \<Rightarrow> True
      | Some (u, r) \<Rightarrow> m (u - 24) = ALLOCATION_MAGIC \<and> m (u - 16) = W (at b) \<and> m (u - 8) = W r)"

text \<open>The headers link the blocks in order, between the neighbours \<open>p\<close> and \<open>n\<close> (0 is null).\<close>

fun links :: "(nat \<Rightarrow> u64) \<Rightarrow> nat \<Rightarrow> blk list \<Rightarrow> nat \<Rightarrow> bool" where
  "links m p [] n \<longleftrightarrow> True"
| "links m p (b # bs) n \<longleftrightarrow> header_ok m b (first_at bs n) p \<and> prefix_ok m b \<and> links m (at b) bs n"

text \<open>No two neighbours are both free.\<close>

fun compact :: "blk list \<Rightarrow> bool" where
  "compact (b # c # bs) \<longleftrightarrow> (alloc b \<noteq> None \<or> alloc c \<noteq> None) \<and> compact (c # bs)"
| "compact _ \<longleftrightarrow> True"

lemma layout_append: "layout a (xs @ ys) e \<longleftrightarrow> (\<exists>k. layout a xs k \<and> layout k ys e)"
  by (induction xs arbitrary: a) auto

lemma layout_le: "layout a bs e \<Longrightarrow> a \<le> e"
  by (induction bs arbitrary: a) (auto, fastforce)

lemma layout_first: "layout a bs e \<Longrightarrow> bs \<noteq> [] \<Longrightarrow> first_at bs n = a"
  by (cases bs) auto

lemma layout_mem:
  "layout a bs e \<Longrightarrow> b \<in> set bs \<Longrightarrow> a \<le> at b \<and> past b \<le> e \<and> blk_ok b"
proof (induction bs arbitrary: a)
  case Nil
  then show ?case by simp
next
  case (Cons c bs)
  show ?case
  proof (cases "b = c")
    case True
    then show ?thesis using Cons.prems layout_le [of "past c" bs e] by auto
  next
    case False
    then have "past c \<le> at b \<and> past b \<le> e \<and> blk_ok b" using Cons by auto
    then show ?thesis using Cons.prems by auto
  qed
qed

lemma first_at_append: "first_at (xs @ ys) n = first_at xs (first_at ys n)"
  by (cases xs) auto

lemma last_at_append: "last_at p (xs @ ys) = last_at (last_at p xs) ys"
  by (induction xs arbitrary: p) auto

lemma links_append:
  "links m p (xs @ ys) n \<longleftrightarrow> links m p xs (first_at ys n) \<and> links m (last_at p xs) ys n"
  by (induction xs arbitrary: p) (auto simp: first_at_append)

lemma last_at_mem: "bs \<noteq> [] \<Longrightarrow> last_at p bs = at (last bs)"
  by (induction bs arbitrary: p) auto

text \<open>The words a block's header and prefix occupy lie inside the block.\<close>

lemma links_frame:
  assumes "layout a bs e" "\<And>x. a \<le> x \<Longrightarrow> x < e \<Longrightarrow> m' x = m x"
  shows "links m' p bs n \<longleftrightarrow> links m p bs n"
  using assms
proof (induction bs arbitrary: a p)
  case Nil
  then show ?case by simp
next
  case (Cons b bs)
  have l: "at b = a" "blk_ok b" "layout (past b) bs e" "past b \<le> e"
    using Cons.prems(1) layout_le by auto
  have same: "m' x = m x" if "at b \<le> x" "x < past b" for x using that Cons.prems(2) l by simp
  have "header_ok m' b (first_at bs n) p \<longleftrightarrow> header_ok m b (first_at bs n) p"
    unfolding header_ok_def using same [of "at b"] same [of "at b + 8"] same [of "at b + 16"] same [of "at b + 24"] by simp
  moreover have "prefix_ok m' b \<longleftrightarrow> prefix_ok m b"
  proof (cases "alloc b")
    case None
    then show ?thesis by (simp add: prefix_ok_def)
  next
    case (Some ur)
    obtain u r where ur: "ur = (u, r)" by (cases ur)
    then have "at b + 56 \<le> u" "u + r \<le> past b" using l(2) Some by (auto simp: blk_ok_def)
    then show ?thesis
      using same [of "u - 24"] same [of "u - 16"] same [of "u - 8"] Some ur by (simp add: prefix_ok_def)
  qed
  moreover have "links m' (at b) bs n \<longleftrightarrow> links m (at b) bs n"
    using Cons.IH [OF l(3)] Cons.prems(2) l(1) by simp
  ultimately show ?case by simp
qed

text \<open>Changing the first block's \<^verbatim>\<open>previous\<close> field moves the list behind another block.\<close>

lemma links_set_previous:
  assumes "layout a bs e" "links m p bs n" "bs \<noteq> []"
  shows "links (m(a + 24 := W q)) q bs n"
proof -
  obtain b cs where bs: "bs = b # cs" using assms(3) by (cases bs) auto
  have l: "at b = a" "blk_ok b" "layout (past b) cs e" using assms(1) by (auto simp: bs)
  have "header_ok (m(a + 24 := W q)) b (first_at cs n) q"
    using assms(2) l(1) by (simp add: bs header_ok_def)
  moreover have "prefix_ok (m(a + 24 := W q)) b"
    using assms(2) l by (auto simp: bs prefix_ok_def blk_ok_def split: option.splits)
  moreover have "links (m(a + 24 := W q)) (at b) cs n \<longleftrightarrow> links m (at b) cs n"
    by (rule links_frame [OF l(3)]) (use l(1) in simp)
  ultimately show ?thesis using assms(2) by (simp add: bs)
qed

lemma links_set_next:
  assumes "layout a (xs @ [b]) e" "links m p (xs @ [b]) n" "x = at b + 16"
  shows "links (m(x := W k)) p (xs @ [b]) k"
proof -
  obtain j where j: "layout a xs j" "layout j [b] e" using assms(1) by (auto simp: layout_append)
  have ok: "at b = j" "blk_ok b" using j(2) by auto
  have "links (m(x := W k)) p xs (at b) \<longleftrightarrow> links m p xs (at b)"
    by (rule links_frame [OF j(1)]) (use ok assms(3) in simp)
  moreover have "header_ok (m(x := W k)) b k (last_at p xs)"
    using assms(2,3) by (auto simp: links_append header_ok_def)
  moreover have "prefix_ok (m(x := W k)) b"
    using assms(2,3) ok by (auto simp: links_append prefix_ok_def blk_ok_def split: option.splits)
  ultimately show ?thesis using assms(2) by (simp add: links_append)
qed

section \<open>The invariant\<close>

fun requested :: "blk list \<Rightarrow> nat" where
  "requested [] = 0"
| "requested (b # bs) = (case alloc b of None \<Rightarrow> 0 | Some (u, r) \<Rightarrow> r) + requested bs"

fun in_use :: "blk list \<Rightarrow> nat" where
  "in_use [] = 0"
| "in_use (b # bs) = (case alloc b of None \<Rightarrow> 0 | Some _ \<Rightarrow> 1) + in_use bs"

lemma requested_append [simp]: "requested (xs @ ys) = requested xs + requested ys"
  and in_use_append [simp]: "in_use (xs @ ys) = in_use xs + in_use ys"
  by (induction xs) auto

lemma requested_bound: "layout a bs e \<Longrightarrow> requested bs + 32 * in_use bs \<le> e - a"
proof (induction bs arbitrary: a)
  case Nil
  then show ?case by simp
next
  case (Cons b bs)
  then have l: "at b = a" "blk_ok b" "layout (past b) bs e" by auto
  have "requested bs + 32 * in_use bs \<le> e - past b" "past b \<le> e" using Cons.IH [OF l(3)] layout_le [OF l(3)] by auto
  moreover have "(case alloc b of None \<Rightarrow> 0 | Some (u, r) \<Rightarrow> r) \<le> len b"
    using l(2) by (auto simp: blk_ok_def split: option.splits)
  ultimately show ?case using l(1) by (auto split: option.splits)
qed

definition heap_rep :: "heap \<Rightarrow> blk list \<Rightarrow> bool" where
  "heap_rep h bs \<longleftrightarrow>
     g_heap_start h \<noteq> 0 \<and> g_first_block h = g_heap_start h
     \<and> g_heap_size h = g_heap_end h - g_heap_start h \<and> bs \<noteq> []
     \<and> layout (unat (g_heap_start h)) bs (unat (g_heap_end h))
     \<and> links (words h) 0 bs 0 \<and> compact bs
     \<and> unat (g_used_bytes h) = requested bs \<and> unat (g_allocation_count h) = in_use bs"

definition live :: "blk list \<Rightarrow> (nat \<times> nat) set" where
  "live bs = {ur. \<exists>b \<in> set bs. alloc b = Some ur}"

lemma live_simps [simp]:
  "live [] = {}" "live (b # bs) = set_option (alloc b) \<union> live bs" "live (xs @ ys) = live xs \<union> live ys"
  by (auto simp: live_def)


lemma compact_append:
  "compact (xs @ ys) \<longleftrightarrow> compact xs \<and> compact ys
     \<and> (xs = [] \<or> ys = [] \<or> alloc (last xs) \<noteq> None \<or> alloc (hd ys) \<noteq> None)"
proof (induction xs)
  case Nil
  then show ?case by simp
next
  case (Cons b xs)
  then show ?case by (cases xs; cases ys) auto
qed

section \<open>Walking the list\<close>

text \<open>On a proper list the loops reach the end: they return, with the value of a search over the blocks.\<close>

lemma known_from_links:
  assumes "layout a bs e" "links (words h) p bs 0" "0 < a" "e < 2 ^ 64"
  shows "known_from h t (W (first_at bs 0)) = Some (\<exists>b \<in> set bs. W (at b) = t)"
  using assms
proof (induction bs arbitrary: a p)
  case Nil
  then show ?case by (subst known_from.simps) simp
next
  case (Cons b bs)
  have l: "at b = a" "layout (past b) bs e" "past b \<le> e" using Cons.prems(1) layout_le by auto
  have b: "at b + 32 \<le> 2 ^ 64" "W (at b) \<noteq> 0"
    using l Cons.prems(3,4) by (simp_all add: W_eq_0_iff)
  have n: "hd_next h (W (at b)) = W (first_at bs 0)"
    using Cons.prems(2) header_words(3) [OF b(1)] by (simp add: header_ok_def)
  have "known_from h t (W (first_at bs 0)) = Some (\<exists>b \<in> set bs. W (at b) = t)"
    using Cons.IH [OF l(2), where p = "at b"] Cons.prems l by simp
  then show ?case using b(2) n by (subst known_from.simps) auto
qed

lemma free_block_from_links:
  assumes "layout a bs e" "links (words h) p bs 0" "0 < a" "e < 2 ^ 64"
  shows "free_block_from h n al (W (first_at bs 0)) =
    Some (map_option (\<lambda>b. (W (at b), the (calculate_layout h (W (at b)) n al)))
      (find (\<lambda>b. alloc b = None \<and> calculate_layout h (W (at b)) n al \<noteq> None) bs))"
  using assms
proof (induction bs arbitrary: a p)
  case Nil
  then show ?case by (subst free_block_from.simps) simp
next
  case (Cons b bs)
  have l: "at b = a" "layout (past b) bs e" "past b \<le> e" using Cons.prems(1) layout_le by auto
  have b: "at b + 32 \<le> 2 ^ 64" "W (at b) \<noteq> 0"
    using l Cons.prems(3,4) by (simp_all add: W_eq_0_iff)
  have n: "hd_next h (W (at b)) = W (first_at bs 0)" "hd_used h (W (at b)) = (alloc b \<noteq> None)"
    using Cons.prems(2) header_words(2,3) [OF b(1)] by (simp_all add: header_ok_def)
  have "free_block_from h n al (W (first_at bs 0)) =
    Some (map_option (\<lambda>b. (W (at b), the (calculate_layout h (W (at b)) n al)))
      (find (\<lambda>b. alloc b = None \<and> calculate_layout h (W (at b)) n al \<noteq> None) bs))"
    using Cons.IH [OF l(2), where p = "at b"] Cons.prems l by simp
  then show ?case using b(2) n by (subst free_block_from.simps) auto
qed

fun free_payload :: "blk list \<Rightarrow> nat" where
  "free_payload [] = 0"
| "free_payload (b # bs) = (if alloc b = None then len b else 0) + free_payload bs"

lemma free_bytes_from_links:
  assumes "layout a bs e" "links (words h) p bs 0" "0 < a" "e < 2 ^ 64"
  shows "free_bytes_from h (W r) (W (first_at bs 0)) = Some (W (r + free_payload bs))"
  using assms
proof (induction bs arbitrary: a p r)
  case Nil
  then show ?case by (subst free_bytes_from.simps) simp
next
  case (Cons b bs)
  have l: "at b = a" "layout (past b) bs e" "past b \<le> e" using Cons.prems(1) layout_le by auto
  have b: "at b + 32 \<le> 2 ^ 64" "W (at b) \<noteq> 0"
    using l Cons.prems(3,4) by (simp_all add: W_eq_0_iff)
  have n: "hd_next h (W (at b)) = W (first_at bs 0)" "hd_used h (W (at b)) = (alloc b \<noteq> None)"
    "hd_size h (W (at b)) = W (len b)"
    using Cons.prems(2) header_words(1-3) [OF b(1)] by (simp_all add: header_ok_def)
  have ih: "free_bytes_from h (W k) (W (first_at bs 0)) = Some (W (k + free_payload bs))" for k
    using Cons.IH [OF l(2), where p = "at b"] Cons.prems l by simp
  show ?case
  proof (cases "alloc b")
    case None
    then show ?thesis
      using b(2) n ih [of "r + len b"] by (subst free_bytes_from.simps) (simp add: add.assoc)
  next
    case (Some ur)
    then show ?thesis using b(2) n ih [of r] by (subst free_bytes_from.simps) simp
  qed
qed

section \<open>Where an allocation goes\<close>

definition effective :: "u64 \<Rightarrow> nat" where
  "effective al = (if unat al < 8 then 8 else unat al)"

lemma effective_props:
  assumes "is_power_of_two al"
  shows "unat al dvd effective al" "8 dvd effective al" "0 < effective al"
proof -
  obtain k where k: "unat al = 2 ^ k" using word_power_of_two [of al] assms by (auto simp: is_power_of_two_def)
  have e: "(8 :: nat) = 2 ^ 3" by simp
  show "unat al dvd effective al"
  proof (cases "unat al < 8")
    case True
    then have "k \<le> 3" using power_less_imp_less_exp [of "2 :: nat" k 3] unfolding k e by simp
    then have "2 ^ k dvd (2 ^ 3 :: nat)" by (rule le_imp_power_dvd)
    then show ?thesis using True unfolding effective_def k by simp
  qed (simp add: effective_def)
  show "8 dvd effective al"
  proof (cases "unat al < 8")
    case False
    then have "3 \<le> k" using power_le_imp_le_exp [of "2 :: nat" 3 k] unfolding k e by simp
    then have "2 ^ 3 dvd (2 ^ k :: nat)" by (rule le_imp_power_dvd)
    then show ?thesis using False unfolding effective_def k by simp
  qed (simp add: effective_def)
  show "0 < effective al" using power_of_two_pos [OF assms] by (simp add: effective_def)
qed

lemma align_up_W:
  assumes "is_power_of_two a" "v < 2 ^ 64"
  shows "align_up (W v) a = (if v + (unat a - 1) < 2 ^ 64 then Some (W (round_up v (unat a))) else None)"
  unfolding align_up_eq [OF assms(1)] unat_W [OF assms(2)] ..

lemma calculate_layout_cases:
  assumes "checked_add (block_payload_start k) prefix_bytes = Some pe"
    "checked_add (block_payload_start k) (hd_size h k) = Some be" "eff = (if al < word_align then word_align else al)"
  shows "calculate_layout h k n al =
    (case align_up pe eff of
       None \<Rightarrow> None
     | Some u \<Rightarrow>
         (case checked_add u n of
            None \<Rightarrow> None
          | Some re \<Rightarrow>
              if be < re then None
              else (case align_up re word_align of
                  Some sp \<Rightarrow> if sp \<le> be then Some (u, sp - block_payload_start k) else Some (u, hd_size h k)
                | None \<Rightarrow> Some (u, hd_size h k))))"
  unfolding calculate_layout_def Let_def assms(1,2) assms(3) [symmetric] bind.bind_lunit
  by (cases "align_up pe eff"; simp) (simp split: option.splits)

lemma calculate_layout_eq:
  assumes "is_power_of_two al" "past b < 2 ^ 64" "at b + 56 < 2 ^ 64" "hd_size h (W (at b)) = W (len b)"
  defines "u \<equiv> round_up (at b + 56) (effective al)"
  shows "calculate_layout h (W (at b)) n al =
    (if at b + 56 + (effective al - 1) < 2 ^ 64 \<and> u + unat n \<le> past b
     then Some (W u, W (if round_up (u + unat n) 8 \<le> past b then round_up (u + unat n) 8 - (at b + 32) else len b))
     else None)"
proof -
  let ?eff = "if al < word_align then word_align else al"
  have lt8: "al < 8 \<longleftrightarrow> unat al < 8" by (simp add: word_less_nat_alt)
  have eff: "is_power_of_two ?eff" "unat ?eff = effective al"
    using assms(1) align_8 by (simp_all add: lt8 effective_def)
  have ps: "block_payload_start (W (at b)) = W (at b + 32)" by (simp add: block_payload_start_def)
  have p1: "checked_add (W (at b + 32)) prefix_bytes = Some (W (at b + 56))"
    using checked_add_W [of "at b + 32" 24] assms(2,3) by simp
  have p2: "checked_add (W (at b + 32)) (W (len b)) = Some (W (past b))"
    using checked_add_W [of "at b + 32" "len b"] assms(2) by simp
  note L = calculate_layout_cases [OF p1 [folded ps] p2 [folded ps assms(4)] refl, of n al]
  show ?thesis
  proof (cases "at b + 56 + (effective al - 1) < 2 ^ 64")
    case False
    then have "align_up (W (at b + 56)) ?eff = None"
      using align_up_W [OF eff(1) assms(3)] unfolding eff(2) by simp
    then show ?thesis unfolding L by (simp only: False option.case simp_thms if_False)
  next
    case True
    have a1: "align_up (W (at b + 56)) ?eff = Some (W u)"
      using align_up_W [OF eff(1) assms(3)] True unfolding eff(2) u_def by simp
    have ub: "u < 2 ^ 64"
      using round_up_bounds(3) [OF effective_props(3) [OF assms(1)], of "at b + 56"] True unfolding u_def by linarith
    show ?thesis
    proof (cases "u + unat n \<le> past b")
      case False
      show ?thesis
      proof (cases "u + unat n < 2 ^ 64")
        case True
        then have "checked_add (W u) n = Some (W (u + unat n))" using checked_add_W [OF ub unat_lt [of n]] by simp
        moreover have "W (past b) < W (u + unat n)"
          unfolding W_less_iff [OF assms(2) True] using False by simp
        ultimately show ?thesis unfolding L by (simp only: False a1 option.case simp_thms if_False if_True)
      next
        case no: False
        then have "checked_add (W u) n = None" using checked_add_W [OF ub unat_lt [of n]] by simp
        then show ?thesis unfolding L by (simp only: False a1 option.case simp_thms if_False if_True)
      qed
    next
      case fits: True
      have rb: "u + unat n < 2 ^ 64" using fits assms(2) by simp
      have c: "checked_add (W u) n = Some (W (u + unat n))" using checked_add_W [OF ub unat_lt [of n]] rb by simp
      have ge: "\<not> W (past b) < W (u + unat n)"
        unfolding W_less_iff [OF assms(2) rb] using fits by simp
      let ?s = "round_up (u + unat n) 8"
      have s8: "u + unat n \<le> ?s" "?s \<le> u + unat n + 7" "8 dvd ?s" using round_up_bounds [of 8 "u + unat n"] by simp_all
      have al8: "align_up (W (u + unat n)) 8 = (if u + unat n + 7 < 2 ^ 64 then Some (W ?s) else None)"
        using align_up_W [OF align_8(1) rb] unfolding align_8(2) by simp
      have "?s \<le> past b \<Longrightarrow> u + unat n + 7 < 2 ^ 64"
      proof (rule ccontr)
        assume a: "?s \<le> past b" "\<not> u + unat n + 7 < 2 ^ 64"
        obtain q where q: "?s = 8 * q" using s8(3) by (elim dvdE)
        have "18446744073709551616 \<le> u + unat n + 7" "?s < 18446744073709551616" using a assms(2) by simp_all
        then have "18446744073709551608 < 8 * q" "8 * q < 18446744073709551616" using s8(1) q by linarith+
        then show False by presburger
      qed
      moreover have "W ?s \<le> W (past b) \<longleftrightarrow> ?s \<le> past b" if "u + unat n + 7 < 2 ^ 64"
        by (rule W_le_iff [OF _ assms(2)]) (use that s8(2) in linarith)
      moreover have "W ?s - W (at b + 32) = W (?s - (at b + 32))" if "?s \<le> past b"
      proof -
        have "at b + 56 \<le> u" using round_up_bounds(2) [OF effective_props(3) [OF assms(1)]] by (simp add: u_def)
        then have "at b + 32 \<le> ?s" using s8(1) by linarith
        then show ?thesis by (simp add: of_nat_diff)
      qed
      ultimately show ?thesis
        unfolding L assms(4) ps
        by (cases "u + unat n + 7 < 2 ^ 64"; cases "?s \<le> past b")
          (simp_all only: a1 c ge al8 True fits option.case simp_thms if_True if_False)
    qed
  qed
qed


section \<open>Rewriting blocks\<close>

lemma layout_replace:
  assumes "layout a (xs @ b # ys) e" "at b' = at b" "past b' = past b" "blk_ok b'"
  shows "layout a (xs @ b' # ys) e"
  using assms by (auto simp: layout_append)

lemma links_replace:
  assumes "layout a (xs @ b # ys) e" "links m p (xs @ b # ys) n" "at b' = at b"
    "\<And>x. x < at b \<or> past b \<le> x \<Longrightarrow> m' x = m x"
    "header_ok m' b' (first_at ys n) (last_at p xs)" "prefix_ok m' b'"
  shows "links m' p (xs @ b' # ys) n"
proof -
  have l: "layout a xs (at b)" "layout (past b) ys e" using assms(1) by (auto simp: layout_append)
  have "links m' p xs (at b) \<longleftrightarrow> links m p xs (at b)" by (rule links_frame [OF l(1)]) (use assms(4) in simp)
  moreover have "links m' (at b) ys n \<longleftrightarrow> links m (at b) ys n"
    by (rule links_frame [OF l(2)]) (use assms(4) in simp)
  ultimately show ?thesis using assms(2,3,5,6) by (simp add: links_append)
qed

lemma middle_header:
  assumes "layout a (xs @ b # ys) e" "links m p (xs @ b # ys) n"
  shows "layout a xs (at b)" "layout (past b) ys e" "blk_ok b" "header_ok m b (first_at ys n) (last_at p xs)"
    "prefix_ok m b" "links m p xs (at b)" "links m (at b) ys n" "a \<le> at b" "past b \<le> e"
  using assms layout_mem [OF assms(1), of b] by (auto simp: layout_append links_append)

lemma first_at_zero:
  assumes "layout k ys e" "0 < k"
  shows "first_at ys 0 = 0 \<longleftrightarrow> ys = []" "ys \<noteq> [] \<Longrightarrow> first_at ys 0 = k"
  using assms by (cases ys; auto)+

text \<open>Cutting the block \<open>b\<close> at a header boundary \<open>s\<close>.\<close>

lemma links_split:
  assumes "layout a (xs @ b # ys) e" "links m p (xs @ b # ys) 0" "alloc b = None"
    "8 dvd at b + 32 + c" "c + 32 \<le> len b" "0 < a"
    "s = at b + 32 + c" "z = \<lparr> at = s, len = len b - c - 32, alloc = None \<rparr>" "b1 = b\<lparr> len := c \<rparr>"
    "m1 = m(s := W (len z), s + 8 := w, s + 16 := W (first_at ys 0), s + 24 := W (at b))" "\<not> flag w"
    "m2 = (if ys = [] then m1 else m1(past b + 24 := W s))"
    "m' = m2(at b := W c, at b + 16 := W s)"
  shows "layout a (xs @ b1 # z # ys) e" "links m' p (xs @ b1 # z # ys) 0"
    "\<And>x. x < at b \<or> past b \<le> x \<Longrightarrow> x \<noteq> past b + 24 \<Longrightarrow> m' x = m x"
proof -
  note M = middle_header [OF assms(1,2)]
  have pz: "past z = past b" "at z = s" "past b1 = s" "at b1 = at b" using assms(5) by (simp_all add: assms(7,8,9))
  have ok: "blk_ok b1" "blk_ok z"
    using M(3) assms(3,4) by (simp_all add: blk_ok_def assms(7,8,9))
  have "layout (past z) ys e" using M(2) unfolding pz(1) .
  then have "layout (at b) (b1 # z # ys) e" unfolding layout.simps pz(2,4) using ok by (simp add: assms(7,9))
  then show "layout a (xs @ b1 # z # ys) e" using M(1) unfolding layout_append by blast
  have sb: "at b + 32 \<le> s" "s + 32 \<le> past b" using assms(5) by (simp_all add: assms(7))
  show out: "m' x = m x" if "x < at b \<or> past b \<le> x" "x \<noteq> past b + 24" for x
    using that sb by (simp add: assms(10,12,13)) linarith
  have "links m' p xs (at b) \<longleftrightarrow> links m p xs (at b)" by (rule links_frame [OF M(1)]) (use out in simp)
  then have l1: "links m' p xs (at b1)" using M(6) pz(4) by simp
  have h1: "header_ok m' b1 (at z) (last_at p xs)"
    using M(4) sb assms(3) by (auto simp: header_ok_def pz assms(9,10,12,13))
  have h2: "header_ok m' z (first_at ys 0) (at b1)"
    using sb assms(11) by (auto simp: header_ok_def pz assms(10,12,13)) (auto simp: assms(8))
  have l2: "links m' (at z) ys 0"
  proof (cases "ys = []")
    case False
    have "links (m(past b + 24 := W s)) s ys 0" by (rule links_set_previous [OF M(2,7) False])
    moreover have "links m' s ys 0 \<longleftrightarrow> links (m(past b + 24 := W s)) s ys 0"
      by (rule links_frame [OF M(2)]) (use sb False in \<open>auto simp: assms(10,12,13)\<close>)
    ultimately show ?thesis using pz(2) by simp
  qed simp
  have f: "first_at (b1 # z # ys) 0 = at b1" "first_at (z # ys) 0 = at z" by simp_all
  have pr: "prefix_ok m' b1" "prefix_ok m' z" using assms(3) by (simp_all add: prefix_ok_def assms(8,9))
  show "links m' p (xs @ b1 # z # ys) 0"
    unfolding links_append f(1) links.simps f(2) using l1 h1 h2 pr l2 by simp
qed

lemma split_block_spec:
  assumes "layout a (xs @ b # ys) e" "links (words h) 0 (xs @ b # ys) 0" "0 < a" "e < 2 ^ 64" "alloc b = None"
    "c \<le> len b" "8 dvd at b + 32 + c \<or> c = len b"
  obtains h' c' zs where "split_block (W (at b)) (W c) h = h'" "c \<le> c'" "c' \<le> len b" "zs = [] \<or> (\<exists>z. zs = [z] \<and> alloc z = None)"
    "layout a (xs @ b\<lparr> len := c' \<rparr> # zs @ ys) e" "links (words h') 0 (xs @ b\<lparr> len := c' \<rparr> # zs @ ys) 0"
    "same_globals h h'" "\<forall>x. (x < at b \<or> past b \<le> x) \<and> x \<noteq> past b + 24 \<longrightarrow> words h' x = words h x"
proof -
  note M = middle_header [OF assms(1,2)]
  define s where "s = at b + 32 + c"
  have bb: "at b + 32 \<le> 2 ^ 64" "past b < 2 ^ 64" "s < 2 ^ 64" using M(9) assms(4,6) by (simp_all add: s_def)
  have sz: "hd_size h (W (at b)) = W (len b)" using M(4) header_words(1) [OF bb(1)] by (simp add: header_ok_def)
  have rem: "W (len b) - W c = W (len b - c)" using assms(6) by (simp add: of_nat_diff)
  have ps: "block_payload_start (W (at b)) + W c = W s" by (simp add: block_payload_start_def s_def)
  have lb: "len b - c < 2 ^ 64" using bb(2) by linarith
  have cond: "W (len b) - W c \<ge> header_bytes + (prefix_bytes + 1) \<longleftrightarrow> 57 \<le> len b - c"
    using W_le_iff [OF _ lb, of 57] unfolding rem by simp
  show ?thesis
  proof (cases "57 \<le> len b - c")
    case False
    then have "split_block (W (at b)) (W c) h = h"
      unfolding split_block_def Let_def sz using cond by auto
    moreover have "b\<lparr> len := len b \<rparr> = b" by simp
    ultimately show ?thesis using that [of h "len b" "[]"] assms(1,2,6) by simp
  next
    case True
    have c: "c + 32 \<le> len b" "8 dvd at b + 32 + c" using True assms(6,7) by auto
    have s32: "s + 32 \<le> 2 ^ 64" "s + 32 \<le> past b" using c(1) bb(2) by (simp_all add: s_def)
    define z where "z = \<lparr> at = s, len = len b - c - 32, alloc = None :: (nat \<times> nat) option \<rparr>"
    note S = header_words [OF s32(1)] and B = header_words [OF bb(1)]
    define h1 where "h1 = set_size (W s) (W (len b) - W c - header_bytes) h"
    define h2 where "h2 = set_used (W s) False h1"
    define h3 where "h3 = set_next (W s) (hd_next h2 (W (at b))) h2"
    define h4 where "h4 = set_previous (W s) (W (at b)) h3"
    define h5 where "h5 = (if hd_next h4 (W s) \<noteq> 0 then set_previous (hd_next h4 (W s)) (W s) h4 else h4)"
    define h6 where "h6 = set_size (W (at b)) (W c) h5"
    define h7 where "h7 = set_next (W (at b)) (W s) h6"
    have run: "split_block (W (at b)) (W c) h = h7"
      unfolding split_block_def Let_def sz ps using cond True
      by (simp add: h1_def h2_def h3_def h4_def h5_def h6_def h7_def)
    define w where "w = words h1 (s + 8) AND NOT 0xFF OR 0"
    have w: "\<not> flag w" unfolding w_def by (rule flag_set(2))
    have lz: "W (len b) - W c - header_bytes = W (len z)" 
      unfolding rem using c(1) of_nat_diff [of 32 "len b - c", where ?'a = "64 word"] by (simp add: z_def)
    have v1: "words h1 = (words h)(s := W (len z))" unfolding h1_def lz by (rule S(5))
    have v2: "words h2 = (words h1)(s + 8 := w)" unfolding h2_def w_def by (simp add: S(6))
    have nx: "hd_next h2 (W (at b)) = W (first_at ys 0)"
      using M(4) by (simp add: B(3) v2 v1 s_def header_ok_def)
    have v3: "words h3 = (words h2)(s + 16 := W (first_at ys 0))" unfolding h3_def nx by (rule S(7))
    have v4: "words h4 = (words h3)(s + 24 := W (at b))" unfolding h4_def by (rule S(8))
    have m1: "words h4 = (words h)(s := W (len z), s + 8 := w, s + 16 := W (first_at ys 0), s + 24 := W (at b))"
      by (simp add: v4 v3 v2 v1)
    have nx4: "hd_next h4 (W s) = W (first_at ys 0)" by (simp add: S(3) m1)
    have pb: "0 < past b" by simp
    have v5: "words h5 = (if ys = [] then words h4 else (words h4)(past b + 24 := W s))"
    proof (cases "ys = []")
      case True
      then show ?thesis by (simp add: h5_def nx4)
    next
      case False
      obtain y ys' where ys: "ys = y # ys'" using False by (cases ys) auto
      have "past y \<le> e" using M(2) layout_le by (auto simp: ys)
      then have p32: "past b + 32 \<le> 2 ^ 64" using M(2) assms(4) by (auto simp: ys)
      have f: "first_at ys 0 = past b" using M(2) by (auto simp: ys)
      have "W (past b) \<noteq> 0" using W_eq_0_iff [OF bb(2)] by simp
      then show ?thesis using False header_words(8) [OF p32] by (simp only: h5_def nx4 f if_True simp_thms if_False)
    qed
    have v7: "words h7 = (words h5)(at b := W c, at b + 16 := W s)"
      unfolding h7_def h6_def B(7) B(5) ..
    note L = links_split [OF assms(1,2,5) c(2,1) assms(3) s_def z_def refl m1 w v5 v7]
    have g: "same_globals h h7"
    proof -
      have "same_globals h h4" unfolding h4_def h3_def h2_def h1_def
        by (intro same_globals_trans [OF setters_globals(1) same_globals_trans [OF setters_globals(2)
              same_globals_trans [OF setters_globals(3) setters_globals(4)]]])
      moreover have "same_globals h4 h5" by (simp add: h5_def)
      moreover have "same_globals h5 h7" unfolding h7_def h6_def
        by (rule same_globals_trans [OF setters_globals(1) setters_globals(3)])
      ultimately show ?thesis using same_globals_trans by blast
    qed
    have one: "[z] = [] \<or> (\<exists>x. [z] = [x] \<and> alloc x = None)" by (simp add: z_def)
    have app: "b\<lparr> len := c \<rparr> # z # ys = b\<lparr> len := c \<rparr> # [z] @ ys" by simp
    show ?thesis
      by (rule that [OF run order.refl assms(6) one L(1,2) [unfolded app] g]) (use L(3) in blast)
  qed
qed


section \<open>Allocation\<close>

text \<open>The words of the users' data; the allocator leaves them alone.\<close>

definition user_words :: "(nat \<times> nat) set \<Rightarrow> nat set" where
  "user_words L = {x. \<exists>(u, r) \<in> L. u \<le> x \<and> x < u + r}"

lemma user_words_outside:
  assumes "layout a (xs @ b # ys) e" "x \<in> user_words (live (xs @ ys))"
  shows "x < at b \<or> past b + 56 \<le> x"
proof -
  obtain b' u r where b': "b' \<in> set (xs @ ys)" "alloc b' = Some (u, r)" "u \<le> x" "x < u + r"
    using assms(2) by (auto simp: user_words_def live_def)
  have l: "layout a xs (at b)" "layout (past b) ys e" using assms(1) by (auto simp: layout_append)
  have ok: "blk_ok b'" using b'(1) layout_mem [OF l(1)] layout_mem [OF l(2)] by auto
  then have x: "at b' + 56 \<le> x" "x < past b'" using b' by (auto simp: blk_ok_def)
  show ?thesis
  proof (cases "b' \<in> set xs")
    case True
    then show ?thesis using layout_mem [OF l(1)] x by fastforce
  next
    case False
    then show ?thesis using b'(1) layout_mem [OF l(2)] x by fastforce
  qed
qed

lemma live_elsewhere:
  assumes "layout a (xs @ b # ys) e" "alloc b = Some (u, r)"
  shows "(u, q) \<notin> live (xs @ ys)"
proof
  assume l: "(u, q) \<in> live (xs @ ys)"
  have ok: "at b + 56 \<le> u" "u + r \<le> past b" "0 < r"
    using layout_mem [OF assms(1), of b] assms(2) by (auto simp: blk_ok_def)
  obtain b' where b': "b' \<in> set (xs @ ys)" "alloc b' = Some (u, q)" using l by (auto simp: live_def)
  then have "blk_ok b'" using layout_mem [OF assms(1), of b'] by auto
  then have "0 < q" using b'(2) by (simp add: blk_ok_def)
  then have "u \<in> user_words (live (xs @ ys))" using l by (auto simp: user_words_def)
  then show False using user_words_outside [OF assms(1)] ok by fastforce
qed

lemma heap_rep_bounds:
  assumes "heap_rep h bs"
  shows "layout (unat (g_heap_start h)) bs (unat (g_heap_end h))" "0 < unat (g_heap_start h)"
    "unat (g_heap_end h) < 2 ^ 64" "links (words h) 0 bs 0" "g_first_block h = W (first_at bs 0)"
proof -
  show l: "layout (unat (g_heap_start h)) bs (unat (g_heap_end h))" using assms by (simp add: heap_rep_def)
  have "first_at bs 0 = unat (g_heap_start h)" using l assms by (cases bs) (auto simp: heap_rep_def)
  then show "g_first_block h = W (first_at bs 0)" using assms by (simp add: heap_rep_def)
qed (use assms in \<open>simp_all add: heap_rep_def unat_gt_0 unat_lt [simplified]\<close>)

lemma find_split: "find P bs = Some b \<Longrightarrow> \<exists>xs ys. bs = xs @ b # ys \<and> P b"
  by (induction bs) (auto split: if_splits intro: exI [of _ "[]"], metis append_Cons)

text \<open>The two final writes of \<^verbatim>\<open>kmalloc\<close>, the prefix and the \<^verbatim>\<open>used\<close> flag, turn a free block into an allocation.\<close>

lemma links_mark_used:
  assumes "layout a (xs @ b # ys) e" "links m p (xs @ b # ys) n" "b' = b\<lparr> alloc := Some (u, r) \<rparr>" "blk_ok b'"
    "m1 = m(u - 24 := ALLOCATION_MAGIC, u - 16 := W (at b), u - 8 := W r)"
    "m' = m1(at b + 8 := w)" "flag w"
  shows "layout a (xs @ b' # ys) e" "links m' p (xs @ b' # ys) n"
    "\<And>x. x < at b \<or> past b \<le> x \<Longrightarrow> m' x = m x"
proof -
  note M = middle_header [OF assms(1,2)]
  have u: "at b + 56 \<le> u" "u + r \<le> past b" "0 < r" using assms(4) by (auto simp: assms(3) blk_ok_def)
  show "layout a (xs @ b' # ys) e" by (rule layout_replace [OF assms(1) _ _ assms(4)]) (simp_all add: assms(3))
  obtain k where k: "u = at b + 56 + k" using u(1) by (metis le_add_diff_inverse)
  have d: "u - 24 = at b + 32 + k" "u - 16 = at b + 40 + k" "u - 8 = at b + 48 + k" by (simp_all add: k)
  have kl: "24 + k < len b" using u(2,3) by (simp add: k)
  have m': "m' = m(at b + 32 + k := ALLOCATION_MAGIC, at b + 40 + k := W (at b), at b + 48 + k := W r, at b + 8 := w)"
    unfolding assms(5,6) d ..
  show out: "m' x = m x" if "x < at b \<or> past b \<le> x" for x
  proof -
    have "x \<noteq> at b + 32 + k" "x \<noteq> at b + 40 + k" "x \<noteq> at b + 48 + k" "x \<noteq> at b + 8" using that kl by linarith+
    then show ?thesis unfolding m' by simp
  qed
  have "header_ok m' b' (first_at ys n) (last_at p xs)"
    using M(4) assms(7) unfolding header_ok_def m' by (simp add: assms(3))
  moreover have "prefix_ok m' b'" unfolding prefix_ok_def by (simp add: assms(3) d m')
  ultimately show "links m' p (xs @ b' # ys) n"
    using links_replace [OF assms(1,2) _ out, of b'] by (simp add: assms(3))
qed

lemma calculate_layout_block:
  assumes "is_power_of_two al" "layout a (xs @ b # ys) e" "links (words h) 0 (xs @ b # ys) 0" "e < 2 ^ 64" "0 < unat n"
    "calculate_layout h (W (at b)) n al = Some (ua, cp)"
  obtains u c where "ua = W u" "cp = W c" "unat al dvd u" "8 dvd u" "at b + 56 \<le> u" "u + unat n \<le> at b + 32 + c"
    "c \<le> len b" "8 dvd at b + 32 + c \<or> c = len b"
proof -
  note M = middle_header [OF assms(2,3)]
  have pb: "past b < 2 ^ 64" "at b + 32 \<le> 2 ^ 64" using M(9) assms(4) by simp_all
  have sz: "hd_size h (W (at b)) = W (len b)" using M(4) header_words(1) [OF pb(2)] by (simp add: header_ok_def)
  define u where "u = round_up (at b + 56) (effective al)"
  define s where "s = round_up (u + unat n) 8"
  note E = effective_props [OF assms(1)]
  note R = round_up_bounds [OF E(3), of "at b + 56", folded u_def]
  have S: "u + unat n \<le> s" "8 dvd s" using round_up_bounds [of 8 "u + unat n"] by (simp_all add: s_def)
  have a56: "at b + 56 < 2 ^ 64"
  proof (rule ccontr)
    assume "\<not> at b + 56 < 2 ^ 64"
    then have "checked_add (W (at b + 32)) prefix_bytes = None"
      using checked_add_W [of "at b + 32" 24] pb by simp
    then have "calculate_layout h (W (at b)) n al = None"
      by (simp add: calculate_layout_def Let_def block_payload_start_def)
    then show False using assms(6) by simp
  qed
  note C = calculate_layout_eq [OF assms(1) pb(1) a56 sz, of n, folded u_def, folded s_def]
  have fits: "u + unat n \<le> past b" and ua: "ua = W u" and cp: "cp = W (if s \<le> past b then s - (at b + 32) else len b)"
    using assms(6) unfolding C by (auto split: if_splits)
  define c where "c = (if s \<le> past b then s - (at b + 32) else len b)"
  have su: "at b + 32 \<le> s" using S(1) R(2) by linarith
  show ?thesis
  proof (rule that [OF ua cp [folded c_def]])
    show "unat al dvd u" "8 dvd u" using R(1) E(1,2) by (auto intro: dvd_trans)
    show "at b + 56 \<le> u" by (rule R(2))
    show "u + unat n \<le> at b + 32 + c" using S(1) su fits by (simp add: c_def)
    show "c \<le> len b" using su by (auto simp: c_def)
    show "8 dvd at b + 32 + c \<or> c = len b" using S(2) su by (simp add: c_def)
  qed
qed


lemma compact_allocate:
  assumes "compact (xs @ b # ys)" "alloc b = None" "alloc b' \<noteq> None" "zs = [] \<or> (\<exists>z. zs = [z] \<and> alloc z = None)"
  shows "compact (xs @ b' # zs @ ys)"
proof -
  have c: "compact xs" "compact (b # ys)" using assms(1) by (simp_all add: compact_append)
  have ys: "compact ys" "ys = [] \<or> alloc (hd ys) \<noteq> None" using c(2) assms(2) by (cases ys; simp)+
  then have "compact (zs @ ys)" using assms(4) by (cases ys) auto
  then have "compact (b' # zs @ ys)" using assms(3) by (cases "zs @ ys") simp_all
  then show ?thesis using c(1) assms(3) by (simp add: compact_append)
qed

lemma free_requested: "(\<And>z. z \<in> set zs \<Longrightarrow> alloc z = None) \<Longrightarrow> requested zs = 0 \<and> in_use zs = 0 \<and> live zs = {}"
  by (induction zs) auto

text \<open>
  Allocation from a proper heap returns: null, with nothing changed, when no free block fits; otherwise
  a new aligned allocation, with the users' data untouched.
\<close>

lemma kmalloc_cases:
  assumes "heap_rep h bs" "n \<noteq> 0" "is_power_of_two al"
  obtains (none) "kmalloc n al h = Some (0, h)"
      "\<forall>b \<in> set bs. alloc b = None \<longrightarrow> calculate_layout h (W (at b)) n al = None"
  | (got) u h' bs' where "kmalloc n al h = Some (W u, h')" "heap_rep h' bs'"
      "live bs' = insert (u, unat n) (live bs)" "unat al dvd u" "\<forall>q. (u, q) \<notin> live bs"
      "\<forall>x \<in> user_words (live bs). words h' x = words h x"
      "g_heap_start h' = g_heap_start h" "g_heap_end h' = g_heap_end h"
proof -
  note H = heap_rep_bounds [OF assms(1)]
  define S E where "S = unat (g_heap_start h)" and "E = unat (g_heap_end h)"
  have SE: "layout S bs E" "0 < S" "E < 2 ^ 64" using H by (simp_all add: S_def E_def)
  let ?P = "\<lambda>b. alloc b = None \<and> calculate_layout h (W (at b)) n al \<noteq> None"
  have walk: "find_free_block h n al = Some (map_option (\<lambda>b. (W (at b), the (calculate_layout h (W (at b)) n al))) (find ?P bs))"
    unfolding find_free_block_def H(5) by (rule free_block_from_links [OF SE(1) H(4) SE(2,3)])
  have start: "g_heap_start h \<noteq> 0" using assms(1) by (simp add: heap_rep_def)
  have n0: "0 < unat n" using assms(2) by (simp add: unat_gt_0)
  show ?thesis
  proof (cases "find ?P bs")
    case None
    then have "\<forall>b \<in> set bs. alloc b = None \<longrightarrow> calculate_layout h (W (at b)) n al = None"
      unfolding find_None_iff by blast
    moreover have "kmalloc n al h = Some (0, h)"
      using start assms(2,3) walk None by (simp add: kmalloc_def)
    ultimately show ?thesis using none by blast
  next
    case (Some b)
    then obtain xs ys where bs: "bs = xs @ b # ys" and b: "alloc b = None" "calculate_layout h (W (at b)) n al \<noteq> None"
      using find_split by fastforce
    then obtain ua cp where uc: "calculate_layout h (W (at b)) n al = Some (ua, cp)" by auto
    have l: "layout S (xs @ b # ys) E" "links (words h) 0 (xs @ b # ys) 0" using SE(1) H(4) by (simp_all add: bs)
    obtain u c where u: "ua = W u" "cp = W c" "unat al dvd u" "8 dvd u" "at b + 56 \<le> u"
        "u + unat n \<le> at b + 32 + c" "c \<le> len b" "8 dvd at b + 32 + c \<or> c = len b"
      by (rule calculate_layout_block [OF assms(3) l SE(3) n0 uc])
    obtain h1 c' zs where s: "split_block (W (at b)) (W c) h = h1" "c \<le> c'" "c' \<le> len b"
        "zs = [] \<or> (\<exists>z. zs = [z] \<and> alloc z = None)"
        "layout S (xs @ b\<lparr> len := c' \<rparr> # zs @ ys) E" "links (words h1) 0 (xs @ b\<lparr> len := c' \<rparr> # zs @ ys) 0"
        "same_globals h h1" "\<forall>x. (x < at b \<or> past b \<le> x) \<and> x \<noteq> past b + 24 \<longrightarrow> words h1 x = words h x"
      by (rule split_block_spec [OF l SE(2,3) b(1) u(7,8)])
    note M = middle_header [OF l]
    define b1 where "b1 = b\<lparr> len := c' \<rparr>"
    define b2 where "b2 = b1\<lparr> alloc := Some (u, unat n) \<rparr>"
    have at1: "at b1 = at b" "past b1 \<le> past b" using s(3) by (simp_all add: b1_def)
    have ok2: "blk_ok b2" using M(3) u(4-6) n0 s(2) by (auto simp: blk_ok_def b1_def b2_def)
    define h2 where "h2 = set_prefix (W u - prefix_bytes) ALLOCATION_MAGIC (W (at b)) n h1"
    define h3 where "h3 = set_used (W (at b)) True h2"
    define h' where "h' = h3\<lparr> g_used_bytes := g_used_bytes h3 + n, g_allocation_count := g_allocation_count h3 + 1 \<rparr>"
    have run: "kmalloc n al h = Some (W u, h')"
      using start assms(2,3) walk Some uc u(1,2) s(1)
      by (simp add: kmalloc_def Let_def h'_def h3_def h2_def)
    have bnd: "at b + 32 \<le> 2 ^ 64" "u - 24 + 24 \<le> 2 ^ 64" using M(9) SE(3) u(5-7) by linarith+
    have wu: "W u - prefix_bytes = W (u - 24)" using u(5) by (simp add: of_nat_diff)
    have d: "u - 24 + 8 = u - 16" "u - 24 + 16 = u - 8" using u(5) by simp_all
    have v2: "words h2 = (words h1)(u - 24 := ALLOCATION_MAGIC, u - 16 := W (at b1), u - 8 := W (unat n))"
      unfolding h2_def wu prefix_words(4) [OF bnd(2)] d at1(1) by simp
    define w where "w = words h2 (at b + 8) AND NOT 0xFF OR 1"
    have fw: "flag w" unfolding w_def by (rule flag_set(1))
    have v3: "words h3 = (words h2)(at b1 + 8 := w)"
      unfolding h3_def w_def header_words(6) [OF bnd(1)] at1(1) by simp
    have vh: "words h' = words h3" by (rule words_cong) (simp add: h'_def)
    note U = links_mark_used [OF s(5,6) [folded b1_def] b2_def ok2 v2 v3 fw]
    let ?bs = "xs @ b2 # zs @ ys"
    have g: "same_globals h h3"
      unfolding h3_def h2_def
      by (rule same_globals_trans [OF s(7) same_globals_trans [OF setters_globals(5) setters_globals(2)]])
    have zs: "requested zs = 0" "in_use zs = 0" "live zs = {}" using s(4) by auto
    have sums: "requested ?bs = requested bs + unat n" "in_use ?bs = in_use bs + 1"
      by (simp_all add: bs zs b2_def b(1))
    have lim: "requested ?bs + 32 * in_use ?bs < 2 ^ 64" using requested_bound [OF U(1)] SE(3) by linarith
    have ub: "unat (g_used_bytes h) = requested bs" "unat (g_allocation_count h) = in_use bs"
      using assms(1) by (simp_all add: heap_rep_def)
    have "unat (g_used_bytes h + n) = requested ?bs" "unat (g_allocation_count h + 1) = in_use ?bs"
      using lim ub unfolding sums by (subst unat_add_no_wrap; simp)+
    then have ub': "unat (g_used_bytes h') = requested ?bs" "unat (g_allocation_count h') = in_use ?bs"
      using g by (simp_all add: h'_def same_globals_def)
    have gl: "g_heap_start h' = g_heap_start h" "g_heap_end h' = g_heap_end h" "g_heap_size h' = g_heap_size h"
      "g_first_block h' = g_first_block h"
      using g by (simp_all add: h'_def same_globals_def)
    have "compact ?bs"
      by (rule compact_allocate [OF _ b(1) _ s(4)]) (use assms(1) in \<open>simp_all add: heap_rep_def bs b2_def\<close>)
    then have rep: "heap_rep h' ?bs"
      using assms(1) U(1,2) ub' unfolding heap_rep_def gl vh S_def E_def by simp
    have lv: "live ?bs = insert (u, unat n) (live bs)" using zs(3) b(1) by (auto simp: bs b2_def)
    have "words h' x = words h x" if x: "x \<in> user_words (live bs)" for x
    proof -
      have o: "x < at b \<or> past b + 56 \<le> x" using user_words_outside [OF l(1)] x b(1) by (simp add: bs)
      then have "words h1 x = words h x" using s(8) by auto
      moreover have "words h3 x = words h1 x" using U(3) o at1 by fastforce
      ultimately show ?thesis using vh by simp
    qed
    moreover have "\<forall>q. (u, q) \<notin> live bs"
      using live_elsewhere [OF U(1), of u "unat n"] b(1) by (auto simp: bs b2_def)
    ultimately show ?thesis using got [OF run rep lv u(3) _ _ gl(1,2)] by blast
  qed
qed


section \<open>Release\<close>

lemma links_merge:
  assumes "layout a (xs @ b # c # ys) e" "links m p (xs @ b # c # ys) 0" "alloc b = None"
    "b' = b\<lparr> len := len b + (32 + len c) \<rparr>"
    "m1 = m(at b := W (len b'), at b + 16 := W (first_at ys 0))"
    "m' = (if ys = [] then m1 else m1(past c + 24 := W (at b)))"
  shows "layout a (xs @ b' # ys) e" "links m' p (xs @ b' # ys) 0"
    "\<And>x. x \<noteq> at b \<Longrightarrow> x \<noteq> at b + 16 \<Longrightarrow> (\<And>y. y \<in> set ys \<Longrightarrow> x \<noteq> at y + 24) \<Longrightarrow> m' x = m x"
proof -
  note M = middle_header [OF assms(1,2)]
  have c: "at c = past b" "layout (past c) ys e" "links m (at c) ys 0" using M(2,7) by auto
  have p': "past b' = past c" "at b' = at b" using c(1) by (simp_all add: assms(4))
  have ok: "blk_ok b'" using M(3) assms(3) by (simp add: blk_ok_def assms(4))
  have "layout (past b') ys e" using c(2) unfolding p'(1) .
  then show "layout a (xs @ b' # ys) e" using M(1) ok p'(2) by (auto simp: layout_append)
  show out: "m' x = m x" if "x \<noteq> at b" "x \<noteq> at b + 16" "\<And>y. y \<in> set ys \<Longrightarrow> x \<noteq> at y + 24" for x
  proof (cases ys)
    case Nil
    then show ?thesis using that by (simp add: assms(5,6))
  next
    case (Cons y ys')
    then have "at y = past c" using c(2) by simp
    then show ?thesis using that(1,2) that(3) [of y] Cons by (simp add: assms(5,6))
  qed
  have far: "at b + 32 \<le> past c" using c(1) by simp
  have "links m' p xs (at b) \<longleftrightarrow> links m p xs (at b)"
    by (rule links_frame [OF M(1)]) (use far in \<open>simp add: assms(5,6)\<close>)
  then have l1: "links m' p xs (at b')" using M(6) p'(2) by simp
  have h1: "header_ok m' b' (first_at ys 0) (last_at p xs)"
    using M(4) far assms(3) by (auto simp: header_ok_def p'(2) assms(5,6)) (simp_all add: assms(4))
  have l2: "links m' (at b') ys 0"
  proof (cases "ys = []")
    case False
    have "links (m(past c + 24 := W (at b))) (at b) ys 0" by (rule links_set_previous [OF c(2,3) False])
    moreover have "links m' (at b) ys 0 \<longleftrightarrow> links (m(past c + 24 := W (at b))) (at b) ys 0"
      by (rule links_frame [OF c(2)]) (use far False in \<open>auto simp: assms(5,6)\<close>)
    ultimately show ?thesis using p'(2) by simp
  qed simp
  have "prefix_ok m' b'" using assms(3) by (simp add: prefix_ok_def assms(4))
  then show "links m' p (xs @ b' # ys) 0" using l1 h1 l2 by (simp add: links_append)
qed

text \<open>\<^verbatim>\<open>merge_with_next\<close> on a free block: afterwards the block is followed by an allocation, or by nothing.\<close>

lemma merge_with_next_spec:
  assumes "layout a (xs @ b # ys) e" "links (words h) 0 (xs @ b # ys) 0" "0 < a" "e < 2 ^ 64" "alloc b = None" "compact ys"
  obtains h' b' ys' where "merge_with_next (W (at b)) h = h'" "at b' = at b" "alloc b' = None" "past b \<le> past b'"
    "layout a (xs @ b' # ys') e" "links (words h') 0 (xs @ b' # ys') 0" "same_globals h h'"
    "ys' = (if ys \<noteq> [] \<and> alloc (hd ys) = None then tl ys else ys)"
    "compact ys'" "ys' = [] \<or> alloc (hd ys') \<noteq> None"
    "\<forall>x. x \<noteq> at b \<and> x \<noteq> at b + 16 \<and> (\<forall>y \<in> set ys'. x \<noteq> at y + 24) \<longrightarrow> words h' x = words h x"
proof -
  note M = middle_header [OF assms(1,2)]
  have bb: "at b + 32 \<le> 2 ^ 64" "past b < 2 ^ 64" "W (at b) \<noteq> 0" using M(8,9) assms(3,4) by (simp_all add: W_eq_0_iff)
  note B = header_words [OF bb(1)]
  have nx: "hd_next h (W (at b)) = W (first_at ys 0)" "hd_size h (W (at b)) = W (len b)"
    using M(4) by (simp_all add: B(1,3) header_ok_def)
  show ?thesis
  proof (cases "ys \<noteq> [] \<and> alloc (hd ys) = None")
    case no: False
    have "merge_with_next (W (at b)) h = h"
    proof (cases ys)
      case Nil
      then show ?thesis by (simp add: merge_with_next_def nx)
    next
      case (Cons c cs)
      have "layout (past c) cs e" using M(2) unfolding Cons layout.simps by blast
      then have "past c \<le> e" by (rule layout_le)
      then have "at c + 32 \<le> 2 ^ 64" using assms(4) by linarith
      moreover have "header_ok (words h) c (first_at cs 0) (at b)" using M(7) Cons by simp
      ultimately have "hd_used h (W (at c))" using no Cons header_words(2) by (simp add: header_ok_def)
      then show ?thesis using Cons nx(1) by (simp add: merge_with_next_def)
    qed
    then show ?thesis using that [of h b ys] assms(1,2,5,6) no by auto
  next
    case True
    then obtain c cs where ys: "ys = c # cs" and c: "alloc c = None" by (cases ys) auto
    have lc: "at c = past b" "layout (past c) cs e" "header_ok (words h) c (first_at cs 0) (at b)"
      using M(2,7) unfolding ys layout.simps links.simps by blast+
    have ce: "past c \<le> e" using layout_le [OF lc(2)] .
    have cb: "at c + 32 \<le> 2 ^ 64" "W (at c) \<noteq> 0" using ce assms(4) lc(1) bb(2) by (simp_all add: W_eq_0_iff del: of_nat_add)
    note C = header_words [OF cb(1)]
    have used: "\<not> hd_used h (W (at c))" using lc(3) c by (simp add: C(2) header_ok_def)
    have "checked_add (W (at b + 32)) (W (len b)) = Some (W (at b + 32 + len b))"
      using checked_add_W [of "at b + 32" "len b"] bb(2) by simp
    then have adj: "blocks_are_adjacent h (W (at b)) (W (at c))"
      using bb(3) cb(2) nx(2) lc(1) by (simp add: blocks_are_adjacent_def block_payload_start_def)
    have szc: "hd_size h (W (at c)) = W (len c)" using lc(3) by (simp add: C(1) header_ok_def)
    define b' where "b' = b\<lparr> len := len b + (32 + len c) \<rparr>"
    define h1 where "h1 = set_size (W (at b)) (hd_size h (W (at b)) + (header_bytes + hd_size h (W (at c)))) h"
    define h2 where "h2 = set_next (W (at b)) (hd_next h1 (W (at c))) h1"
    define h3 where "h3 = (if hd_next h2 (W (at b)) \<noteq> 0 then set_previous (hd_next h2 (W (at b))) (W (at b)) h2 else h2)"
    have run: "merge_with_next (W (at b)) h = h3"
      unfolding merge_with_next_def Let_def using used adj cb(2) nx(1)
      by (simp add: ys h1_def h2_def h3_def)
    have sz: "hd_size h (W (at b)) + (header_bytes + hd_size h (W (at c))) = W (len b')"
      by (simp add: nx(2) szc b'_def)
    have v1: "words h1 = (words h)(at b := W (len b'))" unfolding h1_def sz by (rule B(5))
    have nxc: "hd_next h1 (W (at c)) = W (first_at cs 0)"
    proof -
      have "at c + 16 \<noteq> at b" using lc(1) by linarith
      then show ?thesis using lc(3) unfolding C(3) v1 header_ok_def by simp
    qed
    have v2: "words h2 = (words h)(at b := W (len b'), at b + 16 := W (first_at cs 0))"
      unfolding h2_def nxc B(7) v1 ..
    have nx2: "hd_next h2 (W (at b)) = W (first_at cs 0)" by (simp add: B(3) v2)
    have v3: "words h3 = (if cs = [] then words h2 else (words h2)(past c + 24 := W (at b)))"
    proof (cases cs)
      case Nil
      then show ?thesis by (simp add: h3_def nx2)
    next
      case (Cons d ds)
      have d: "at d = past c" "past d \<le> e" using lc(2) layout_le [of "past d" ds e] Cons by auto
      have "past c + 32 \<le> 2 ^ 64" "past c < 2 ^ 64" using d assms(4) by simp_all
      moreover have "W (past c) \<noteq> 0" using W_eq_0_iff [of "past c"] calculation(2) by simp
      ultimately show ?thesis
        using header_words(8) [of "past c" "W (at b)" h2] d(1)
        by (simp only: h3_def nx2 Cons first_at.simps list.distinct if_False if_True simp_thms)
    qed
    note L = links_merge [OF assms(1,2) [unfolded ys] assms(5) b'_def v2 v3]
    have g: "same_globals h h3"
    proof -
      have "same_globals h h2" unfolding h2_def h1_def
        by (rule same_globals_trans [OF setters_globals(1) setters_globals(3)])
      moreover have "same_globals h2 h3" by (simp add: h3_def)
      ultimately show ?thesis by (rule same_globals_trans)
    qed
    have cc: "compact cs" "cs = [] \<or> alloc (hd cs) \<noteq> None" using assms(6) c by (cases cs; simp add: ys)+
    have p: "at b' = at b" "alloc b' = None" "past b \<le> past b'" using assms(5) by (simp_all add: b'_def)
    have y: "cs = (if ys \<noteq> [] \<and> alloc (hd ys) = None then tl ys else ys)" using c by (simp add: ys)
    show ?thesis by (rule that [OF run p L(1,2) g y cc]) (use L(3) in blast)
  qed
qed

end
