(* ===== verification/Kernel_Heap_Theorems.thy ===== *)
theory Kernel_Heap_Theorems
  imports Kernel_Heap_Inv
begin

text \<open>
  Correctness of the kernel heap: release, initialisation, the reachable heaps of any sequence of
  allocations, releases and writes by the users, and the properties of \<open>kmalloc\<close> and \<open>kfree\<close> on them.
\<close>

section \<open>Releasing an allocation\<close>

lemma unat_and_7: "8 dvd p \<Longrightarrow> p < 2 ^ 64 \<Longrightarrow> W p AND (word_align - 1) = 0"
proof -
  assume p: "8 dvd p" "p < 2 ^ 64"
  have "unat (W p AND (word_align - 1)) = unat (W p) mod unat (8 :: u64)"
    by (rule unat_and_power_minus_1 [where k = 3]) simp
  also have "\<dots> = 0" using p unfolding unat_W [OF p(2)] by (simp add: align_8)
  finally show ?thesis by (simp only: unat_eq_zero)
qed

lemma live_split:
  assumes "(u, r) \<in> live bs"
  obtains xs b ys where "bs = xs @ b # ys" "alloc b = Some (u, r)"
  using assms by (auto simp: live_def dest!: split_list)

text \<open>The first part of the release: prefix and flag are cleared.\<close>

lemma links_mark_free:
  assumes "layout a (xs @ b # ys) e" "links m p (xs @ b # ys) n" "alloc b = Some (u, r)" "b' = b\<lparr> alloc := None \<rparr>"
    "m' = m(u - 24 := 0, u - 16 := 0, u - 8 := 0, at b + 8 := w)" "\<not> flag w"
  shows "layout a (xs @ b' # ys) e" "links m' p (xs @ b' # ys) n" "m' (u - 24) = 0"
    "\<forall>x. x < at b \<or> past b \<le> x \<longrightarrow> m' x = m x"
proof -
  note M = middle_header [OF assms(1,2)]
  have u: "at b + 56 \<le> u" "u + r \<le> past b" "0 < r" using M(3) assms(3) by (auto simp: blk_ok_def)
  have ok: "blk_ok b'" using M(3) by (simp add: blk_ok_def assms(4))
  show "layout a (xs @ b' # ys) e" by (rule layout_replace [OF assms(1) _ _ ok]) (simp_all add: assms(4))
  obtain k where k: "u = at b + 56 + k" using u(1) by (metis le_add_diff_inverse)
  have d: "u - 24 = at b + 32 + k" "u - 16 = at b + 40 + k" "u - 8 = at b + 48 + k" by (simp_all add: k)
  have kl: "24 + k < len b" using u(2,3) by (simp add: k)
  have m': "m' = m(at b + 32 + k := 0, at b + 40 + k := 0, at b + 48 + k := 0, at b + 8 := w)"
    unfolding assms(5) d ..
  have out: "m' x = m x" if "x < at b \<or> past b \<le> x" for x
  proof -
    have "x \<noteq> at b + 32 + k" "x \<noteq> at b + 40 + k" "x \<noteq> at b + 48 + k" "x \<noteq> at b + 8" using that kl by linarith+
    then show ?thesis unfolding m' by simp
  qed
  then show "\<forall>x. x < at b \<or> past b \<le> x \<longrightarrow> m' x = m x" by blast
  show "m' (u - 24) = 0" unfolding m' d by simp
  have "header_ok m' b' (first_at ys n) (last_at p xs)"
    using M(4) assms(6) unfolding header_ok_def m' by (simp add: assms(4))
  moreover have "prefix_ok m' b'" by (simp add: prefix_ok_def assms(4))
  ultimately show "links m' p (xs @ b' # ys) n"
    using links_replace [OF assms(1,2) _ out, of b'] by (simp add: assms(4))
qed

lemma header_field_elsewhere:
  assumes "layout a (xs @ b # ys) e" "x \<in> user_words (live (xs @ ys))" "y \<in> set (xs @ ys)"
  shows "x \<noteq> at y" "x \<noteq> at y + 16" "x \<noteq> at y + 24"
proof -
  have "x \<notin> {at y ..< at y + 32}"
  proof
    assume xy: "x \<in> {at y ..< at y + 32}"
    obtain b' u r where b': "b' \<in> set (xs @ ys)" "alloc b' = Some (u, r)" "u \<le> x" "x < u + r"
      using assms(2) by (auto simp: user_words_def live_def)
    then have "at b' + 56 \<le> x" "x < past b'"
      using layout_mem [OF assms(1), of b'] by (auto simp: blk_ok_def)
    moreover obtain ps qs where split: "xs @ b # ys = ps @ y # qs" using assms(3) by (metis in_set_conv_decomp Un_iff list.set_intros(2) set_append)
    have l: "layout a ps (at y)" "layout (past y) qs e" using assms(1) unfolding split by (auto simp: layout_append)
    have "b' \<in> set (xs @ b # ys)" using b'(1) by auto
    then have "b' \<in> set ps \<or> b' = y \<or> b' \<in> set qs" unfolding split by auto
    ultimately show False
      using xy layout_mem [OF l(1), of b'] layout_mem [OF l(2), of b'] by auto
  qed
  then show "x \<noteq> at y" "x \<noteq> at y + 16" "x \<noteq> at y + 24" by auto
qed


lemma merged_free: "requested (b # ys') = requested (b0 # ys) \<and> in_use (b # ys') = in_use (b0 # ys) \<and> live (b # ys') = live (b0 # ys)"
  if "alloc b = None" "alloc b0 = None" "ys' = (if ys \<noteq> [] \<and> alloc (hd ys) = None then tl ys else ys)"
  using that by (cases ys) auto

text \<open>
  The second part: the free block is merged with its free neighbours, so that no two free blocks are
  left side by side.
\<close>

lemma coalesce:
  assumes "layout a (xs @ b # ys) e" "links (words h) 0 (xs @ b # ys) 0" "0 < a" "e < 2 ^ 64"
    "alloc b = None" "compact xs" "compact ys" "h1 = merge_with_next (W (at b)) h"
    "h2 = (if hd_previous h1 (W (at b)) \<noteq> 0 \<and> \<not> hd_used h1 (hd_previous h1 (W (at b)))
           then merge_with_next (hd_previous h1 (W (at b))) h1 else h1)"
  obtains bs' where "layout a bs' e" "links (words h2) 0 bs' 0" "compact bs'" "bs' \<noteq> []" "same_globals h h2"
    "requested bs' = requested (xs @ b # ys)" "in_use bs' = in_use (xs @ b # ys)" "live bs' = live (xs @ ys)"
    "\<forall>x \<in> user_words (live (xs @ ys)). words h2 x = words h x"
    "\<forall>x. at b + 32 \<le> x \<and> x < past b \<longrightarrow> words h2 x = words h x"
proof -
  obtain k1 b1 ys1 where k1: "merge_with_next (W (at b)) h = k1" "at b1 = at b" "alloc b1 = None" "past b \<le> past b1"
    "layout a (xs @ b1 # ys1) e" "links (words k1) 0 (xs @ b1 # ys1) 0" "same_globals h k1"
    "ys1 = (if ys \<noteq> [] \<and> alloc (hd ys) = None then tl ys else ys)"
    "compact ys1" "ys1 = [] \<or> alloc (hd ys1) \<noteq> None"
    "\<forall>x. x \<noteq> at b \<and> x \<noteq> at b + 16 \<and> (\<forall>y \<in> set ys1. x \<noteq> at y + 24) \<longrightarrow> words k1 x = words h x"
    by (rule merge_with_next_spec [OF assms(1-5,7)])
  have "k1 = h1" using k1(1) assms(8) by simp
  note m1 = k1 [unfolded this]
  have sub: "set ys1 \<subseteq> set ys" using m1(8) by (cases ys) auto
  have user1: "words h1 x = words h x" if x: "x \<in> user_words (live (xs @ ys))" for x
  proof -
    have "x < at b \<or> past b + 56 \<le> x" by (rule user_words_outside [OF assms(1) x])
    then have "x \<noteq> at b" "x \<noteq> at b + 16" by auto
    moreover have "x \<noteq> at y + 24" if "y \<in> set ys1" for y
      using header_field_elsewhere(3) [OF assms(1) x] that sub by auto
    ultimately show ?thesis using m1(11) by blast
  qed
  note M1 = middle_header [OF m1(5,6)]
  have pay1: "words h1 x = words h x" if x: "at b + 32 \<le> x" "x < past b" for x
  proof -
    have "x \<noteq> at y + 24" if "y \<in> set ys1" for y
    proof -
      have "past b1 \<le> at y" using layout_mem [OF M1(2)] that by blast
      then show ?thesis using x m1(4) by linarith
    qed
    then show ?thesis using m1(11) x by auto
  qed
  note T1 = merged_free [OF m1(3) assms(5) m1(8)]
  have bb: "at b + 32 \<le> 2 ^ 64" using M1(9) m1(2,4) assms(4) by linarith
  have prev: "hd_previous h1 (W (at b)) = W (last_at 0 xs)"
    using M1(4) header_words(4) [OF bb] m1(2) by (simp add: header_ok_def)
  show ?thesis
  proof (cases "xs \<noteq> [] \<and> alloc (last xs) = None")
    case no: False
    have "h2 = h1"
    proof (cases "xs = []")
      case True
      then show ?thesis using assms(9) prev by simp
    next
      case False
      define y where "y = last xs"
      have y: "last_at 0 xs = at y" "xs = butlast xs @ [y]" using False last_at_mem by (simp_all add: y_def)
      then have l: "layout a (butlast xs @ y # b1 # ys1) e" "links (words h1) 0 (butlast xs @ y # b1 # ys1) 0"
        using m1(5,6) by (metis append_Cons append_Nil append_assoc)+
      note My = middle_header [OF l]
      have "at y + 32 \<le> 2 ^ 64" using My(9) assms(4) by linarith
      then have "hd_used h1 (W (at y))" using My(4) header_words(2) no False by (simp add: header_ok_def y_def)
      then show ?thesis using assms(9) prev y(1) by simp
    qed
    moreover have "compact (xs @ b1 # ys1)"
      using assms(6) m1(9,10) no by (cases ys1) (auto simp: compact_append)
    ultimately show ?thesis
      using that [of "xs @ b1 # ys1"] m1(5-7) T1 user1 pay1 assms(5) by auto
  next
    case True
    define y where "y = last xs"
    define xs0 where "xs0 = butlast xs"
    have xs: "xs = xs0 @ [y]" and ya: "alloc y = None" and ly: "last_at 0 xs = at y"
      using True last_at_mem by (simp_all add: y_def xs0_def)
    have l: "layout a (xs0 @ y # b1 # ys1) e" "links (words h1) 0 (xs0 @ y # b1 # ys1) 0"
      using m1(5,6) by (simp_all add: xs)
    note My = middle_header [OF l]
    have y32: "at y + 32 \<le> 2 ^ 64" "0 < at y" "at y < 2 ^ 64" using My(8,9) assms(3,4) by linarith+
    have "W (at y) \<noteq> 0" using W_eq_0_iff [OF y32(3)] y32(2) by simp
    moreover have "\<not> hd_used h1 (W (at y))" using My(4) header_words(2) [OF y32(1)] ya by (simp add: header_ok_def)
    ultimately have h2: "h2 = merge_with_next (W (at y)) h1" using assms(9) prev ly by simp
    have cb: "compact (b1 # ys1)" using m1(9,10) by (cases ys1) auto
    obtain k2 b2 ys2 where k2: "merge_with_next (W (at y)) h1 = k2" "at b2 = at y" "alloc b2 = None" "past y \<le> past b2"
      "layout a (xs0 @ b2 # ys2) e" "links (words k2) 0 (xs0 @ b2 # ys2) 0" "same_globals h1 k2"
      "ys2 = (if b1 # ys1 \<noteq> [] \<and> alloc (hd (b1 # ys1)) = None then tl (b1 # ys1) else b1 # ys1)"
      "\<forall>x. x \<noteq> at y \<and> x \<noteq> at y + 16 \<and> (\<forall>z \<in> set ys2. x \<noteq> at z + 24) \<longrightarrow> words k2 x = words h1 x"
      by (rule merge_with_next_spec [OF l assms(3,4) ya cb])
    have "k2 = h2" using k2(1) h2 by simp
    note m2 = k2 [unfolded this]
    have ys2: "ys2 = ys1" using m2(8) m1(3) by simp
    have ybelow: "past y = at b1" using My(2) by simp
    have user2: "words h2 x = words h x" if x: "x \<in> user_words (live (xs @ ys))" for x
    proof -
      have "x \<noteq> at y" "x \<noteq> at y + 16" using header_field_elsewhere(1,2) [OF assms(1) x, of y] by (simp_all add: xs)
      moreover have "x \<noteq> at z + 24" if "z \<in> set ys2" for z
        using header_field_elsewhere(3) [OF assms(1) x] that sub ys2 by auto
      ultimately show ?thesis using m2(9) user1 [OF x] by simp
    qed
    have pay2: "words h2 x = words h x" if x: "at b + 32 \<le> x" "x < past b" for x
    proof -
      have "x \<noteq> at z + 24" if "z \<in> set ys2" for z
      proof -
        have "past b1 \<le> at z" using layout_mem [OF M1(2)] that ys2 by blast
        then show ?thesis using x m1(4) by linarith
      qed
      moreover have "x \<noteq> at y" "x \<noteq> at y + 16" using x(1) ybelow m1(2) by linarith+
      ultimately show ?thesis using m2(9) pay1 [OF x] by simp
    qed
    have c0: "compact xs0" "xs0 = [] \<or> alloc (last xs0) \<noteq> None" using assms(6) ya by (simp_all add: xs compact_append)
    have cy: "compact (b2 # ys2)" using m1(9,10) ys2 by (cases ys1) auto
    have "compact (xs0 @ b2 # ys2)" using c0 cy by (auto simp: compact_append)
    moreover have "requested (xs0 @ b2 # ys2) = requested (xs @ b # ys)" "in_use (xs0 @ b2 # ys2) = in_use (xs @ b # ys)"
      "live (xs0 @ b2 # ys2) = live (xs @ ys)"
      using T1 m1(3) m2(3) ya assms(5) by (auto simp: xs ys2)
    moreover have "same_globals h h2" by (rule same_globals_trans [OF m1(7) m2(7)])
    ultimately show ?thesis using that [of "xs0 @ b2 # ys2"] m2(5,6) user2 pay2 by auto
  qed
qed


lemma release_block_spec:
  assumes "heap_rep h (xs @ b # ys)" "alloc b = Some (u, r)"
  obtains bs' where "heap_rep (release_block (W (u - 24)) (W (at b)) h) bs'" "live bs' = live (xs @ ys)"
    "\<forall>x \<in> user_words (live bs'). words (release_block (W (u - 24)) (W (at b)) h) x = words h x"
    "words (release_block (W (u - 24)) (W (at b)) h) (u - 24) = 0"
    "g_heap_start (release_block (W (u - 24)) (W (at b)) h) = g_heap_start h"
    "g_heap_end (release_block (W (u - 24)) (W (at b)) h) = g_heap_end h"
proof -
  note H = heap_rep_bounds [OF assms(1)]
  define S E where "S = unat (g_heap_start h)" and "E = unat (g_heap_end h)"
  have SE: "layout S (xs @ b # ys) E" "0 < S" "E < 2 ^ 64" using H by (simp_all add: S_def E_def)
  note M = middle_header [OF SE(1) H(4)]
  have u: "at b + 56 \<le> u" "u + r \<le> past b" "0 < r" using M(3) assms(2) by (auto simp: blk_ok_def)
  have bnd: "at b + 32 \<le> 2 ^ 64" "u - 24 + 24 \<le> 2 ^ 64" "r < 2 ^ 64" using M(9) SE(3) u by linarith+
  have d: "u - 24 + 8 = u - 16" "u - 24 + 16 = u - 8" using u(1) by simp_all
  have rel: "pf_requested_size h (W (u - 24)) = W r"
    using M(5) assms(2) unfolding prefix_words(3) [OF bnd(2)] d by (simp add: prefix_ok_def)
  define h1 where "h1 = set_used (W (at b)) False (set_prefix (W (u - 24)) 0 0 0 h)"
  define m0 where "m0 = (words h)(u - 24 := 0, u - 16 := 0, u - 8 := 0)"
  have v0: "words (set_prefix (W (u - 24)) 0 0 0 h) = m0"
    unfolding m0_def prefix_words(4) [OF bnd(2)] d ..
  define w where "w = m0 (at b + 8) AND NOT 0xFF OR 0"
  have v1: "words h1 = (words h)(u - 24 := 0, u - 16 := 0, u - 8 := 0, at b + 8 := w)"
    unfolding h1_def header_words(6) [OF bnd(1)] v0 w_def m0_def by simp
  have w: "\<not> flag w" unfolding w_def by (rule flag_set(2))
  define b0 where "b0 = b\<lparr> alloc := None \<rparr>"
  note F = links_mark_free [OF SE(1) H(4) assms(2) b0_def v1 w]
  have b0: "at b0 = at b" "past b0 = past b" "alloc b0 = None" by (simp_all add: b0_def)
  define h2 where "h2 = h1\<lparr> g_used_bytes := (if W r \<le> g_used_bytes h1 then g_used_bytes h1 - W r else 0),
    g_allocation_count := (if g_allocation_count h1 > 0 then g_allocation_count h1 - 1 else g_allocation_count h1) \<rparr>"
  have v2: "words h2 = words h1" by (rule words_cong) (simp add: h2_def)
  define h3 where "h3 = merge_with_next (W (at b0)) h2"
  define h4 where "h4 = (if hd_previous h3 (W (at b0)) \<noteq> 0 \<and> \<not> hd_used h3 (hd_previous h3 (W (at b0)))
           then merge_with_next (hd_previous h3 (W (at b0))) h3 else h3)"
  have run: "release_block (W (u - 24)) (W (at b)) h = h4"
    unfolding release_block_def Let_def rel h1_def [symmetric] h4_def h3_def h2_def b0(1) ..
  have cb: "compact xs" "compact (b # ys)" using assms(1) by (simp_all add: heap_rep_def compact_append)
  then have "compact ys" by (cases ys) simp_all
  note cp = cb(1) this
  obtain bs' where C: "layout S bs' E" "links (words h4) 0 bs' 0" "compact bs'" "bs' \<noteq> []" "same_globals h2 h4"
    "requested bs' = requested (xs @ b0 # ys)" "in_use bs' = in_use (xs @ b0 # ys)" "live bs' = live (xs @ ys)"
    "\<forall>x \<in> user_words (live (xs @ ys)). words h4 x = words h2 x"
    "\<forall>x. at b0 + 32 \<le> x \<and> x < past b0 \<longrightarrow> words h4 x = words h2 x"
    by (rule coalesce [OF F(1,2) [folded v2] SE(2,3) b0(3) cp h3_def h4_def])
  have g1: "same_globals h h1" unfolding h1_def by (rule same_globals_trans [OF setters_globals(5) setters_globals(2)])
  have gl: "g_heap_start h4 = g_heap_start h" "g_heap_end h4 = g_heap_end h" "g_heap_size h4 = g_heap_size h"
    "g_first_block h4 = g_first_block h"
    using C(5) g1 by (simp_all add: same_globals_def h2_def)
  have ub: "unat (g_used_bytes h) = requested (xs @ b # ys)" "unat (g_allocation_count h) = in_use (xs @ b # ys)"
    using assms(1) by (simp_all add: heap_rep_def)
  then have tot: "unat (g_used_bytes h) = requested (xs @ b0 # ys) + r" "unat (g_allocation_count h) = in_use (xs @ b0 # ys) + 1"
    using assms(2) by (simp_all add: b0_def)
  have le: "W r \<le> g_used_bytes h" "1 \<le> g_allocation_count h"
    using tot unat_W [OF bnd(3)] by (simp_all add: word_le_nat_alt)
  then have "0 < g_allocation_count h" using tot(2) by (simp add: word_less_nat_alt)
  then have "g_used_bytes h4 = g_used_bytes h - W r" "g_allocation_count h4 = g_allocation_count h - 1"
    using C(5) g1 le by (simp_all add: same_globals_def h2_def)
  then have ub4: "unat (g_used_bytes h4) = requested bs'" "unat (g_allocation_count h4) = in_use bs'"
    using tot C(6,7) unat_sub_no_wrap [OF le(1)] unat_sub_no_wrap [OF le(2)] unat_W [OF bnd(3)] by simp_all
  have rep: "heap_rep h4 bs'"
    using assms(1) C(1-4) ub4 unfolding heap_rep_def gl S_def E_def by simp
  have user: "\<forall>x \<in> user_words (live bs'). words h4 x = words h x"
  proof
    fix x assume x: "x \<in> user_words (live bs')"
    then have x': "x \<in> user_words (live (xs @ ys))" using C(8) by simp
    then have "x < at b \<or> past b \<le> x" using user_words_outside [OF SE(1)] by fastforce
    then have "words h1 x = words h x" using F(4) by blast
    then show "words h4 x = words h x" using C(9) x' v2 by simp
  qed
  have "len b0 = len b" by (simp add: b0_def)
  then have "at b0 + 32 \<le> u - 24" "u - 24 < past b0" using u unfolding b0(1) by linarith+
  then have zero: "words h4 (u - 24) = 0" using C(10) F(3) v2 by simp
  show ?thesis by (rule that [unfolded run, OF rep C(8) user zero gl(1,2)])
qed

text \<open>Releasing a live allocation.\<close>

lemma kfree_live:
  assumes "heap_rep h bs" "(u, r) \<in> live bs"
  obtains h' bs' where "kfree (W u) h = Some h'" "heap_rep h' bs'" "live bs' = live bs - {(u, r)}"
    "\<forall>x \<in> user_words (live bs'). words h' x = words h x" "words h' (u - 24) = 0"
    "g_heap_start h' = g_heap_start h" "g_heap_end h' = g_heap_end h"
proof -
  obtain xs b ys where bs: "bs = xs @ b # ys" and b: "alloc b = Some (u, r)" by (rule live_split [OF assms(2)])
  have rep: "heap_rep h (xs @ b # ys)" using assms(1) by (simp add: bs)
  note H = heap_rep_bounds [OF rep]
  note M = middle_header [OF H(1,4)]
  have u: "at b + 56 \<le> u" "u + r \<le> past b" "0 < r" "8 dvd u" using M(3) b by (auto simp: blk_ok_def)
  have S: "unat (g_heap_start h) + 56 \<le> u" "u < unat (g_heap_end h)" using M(8,9) u by linarith+
  have lim: "u < 2 ^ 64" "u - 24 < 2 ^ 64" "at b + 32 \<le> 2 ^ 64" "u - 24 + 24 \<le> 2 ^ 64" "past b < 2 ^ 64" "u + r < 2 ^ 64"
    "at b < 2 ^ 64" "0 < at b" "r < 2 ^ 64" "len b < 2 ^ 64" "at b + 32 < 2 ^ 64"
    using M(8,9) H(2,3) u S by linarith+
  have start: "g_heap_start h \<noteq> 0" using assms(1) by (simp add: heap_rep_def)
  have wu: "W u - prefix_bytes = W (u - 24)" using u(1) by (simp add: of_nat_diff)
  have c1: "\<not> W u < g_heap_start h + header_bytes + prefix_bytes"
  proof -
    have "unat (g_heap_start h + 56) = unat (g_heap_start h) + 56"
      using S(1) lim(1) by (subst unat_add_no_wrap) simp_all
    moreover have e: "g_heap_start h + header_bytes + prefix_bytes = g_heap_start h + 56" by (simp add: add.assoc)
    ultimately show ?thesis using S(1) unfolding e word_less_nat_alt unat_W [OF lim(1)] by linarith
  qed
  have c2: "\<not> g_heap_end h \<le> W u" using S(2) by (simp add: word_le_nat_alt unat_W [OF lim(1)])
  have c3: "\<not> W u < prefix_bytes" using u(1) by (simp add: word_less_nat_alt unat_W [OF lim(1)])
  have c4: "W (u - 24) AND (word_align - 1) = 0" by (rule unat_and_7 [OF _ lim(2)]) (use u(1,4) in \<open>simp add: dvd_diff_nat\<close>)
  have d: "u - 24 + 8 = u - 16" "u - 24 + 16 = u - 8" using u(1) by simp_all
  note P = prefix_words(1-3) [OF lim(4), where h = h, unfolded d]
  have pf: "pf_magic h (W (u - 24)) = ALLOCATION_MAGIC" "pf_block h (W (u - 24)) = W (at b)"
    "pf_requested_size h (W (u - 24)) = W r"
    using M(5) b unfolding P(1-3) by (simp_all add: prefix_ok_def)
  have nz: "W (at b) \<noteq> 0" "W u \<noteq> 0" using W_eq_0_iff [OF lim(7)] W_eq_0_iff [OF lim(1)] lim(8) u(1) by simp_all
  have "known_from h (W (at b)) (W (first_at (xs @ b # ys) 0)) = Some (\<exists>c \<in> set (xs @ b # ys). W (at c) = W (at b))"
    by (rule known_from_links [OF H(1,4,2,3)])
  then have known: "block_is_known h (W (at b)) = Some True" unfolding block_is_known_def H(5) by auto
  have used: "hd_used h (W (at b))" and sz: "hd_size h (W (at b)) = W (len b)"
    using M(4) b header_words(1,2) [OF lim(3)] by (simp_all add: header_ok_def)
  have ps: "block_payload_start (W (at b)) = W (at b + 32)" by (simp add: block_payload_start_def)
  have e1: "checked_add (W (at b + 32)) (W (len b)) = Some (W (past b))"
    using checked_add_W [OF lim(11,10)] lim(5) by (simp only: if_True)
  have e2: "checked_add (W u) (W r) = Some (W (u + r))"
    using checked_add_W [OF lim(1,9)] lim(6) by (simp only: if_True)
  have e3: "\<not> W (u - 24) < W (at b + 32)" "\<not> W (past b) < W (u + r)"
    unfolding W_less_iff [OF lim(2,11)] W_less_iff [OF lim(5,6)] using u by simp_all
  have run: "kfree (W u) h = Some (release_block (W (u - 24)) (W (at b)) h)"
    unfolding kfree_def Let_def wu pf ps sz
    by (simp only: nz start c1 c2 c3 c4 known used e1 e2 e3 simp_thms if_True if_False option.case prod.case bind.bind_lunit)
  have lv: "live (xs @ ys) = live bs - {(u, r)}"
    using live_elsewhere [OF H(1) b, of r] b by (auto simp: bs)
  obtain bs' where R: "heap_rep (release_block (W (u - 24)) (W (at b)) h) bs'" "live bs' = live (xs @ ys)"
    "\<forall>x \<in> user_words (live bs'). words (release_block (W (u - 24)) (W (at b)) h) x = words h x"
    "words (release_block (W (u - 24)) (W (at b)) h) (u - 24) = 0"
    "g_heap_start (release_block (W (u - 24)) (W (at b)) h) = g_heap_start h"
    "g_heap_end (release_block (W (u - 24)) (W (at b)) h) = g_heap_end h"
    by (rule release_block_spec [OF rep b])
  show ?thesis by (rule that [OF run R(1) R(2) [unfolded lv] R(3-6)])
qed

text \<open>An address without the magic word in front of it is ignored.\<close>

lemma kfree_ignored:
  assumes "unat p < 24 \<or> words h (unat p - 24) \<noteq> ALLOCATION_MAGIC"
  shows "kfree p h = Some h"
proof (cases "unat p < 24")
  case True
  then have "p < prefix_bytes" by (simp add: word_less_nat_alt)
  then show ?thesis by (simp add: kfree_def)
next
  case False
  have lim: "unat p - 24 + 24 \<le> 2 ^ 64" using unat_lt [of p] False by linarith
  have "p - prefix_bytes = W (unat p - 24)"
    using False by (simp add: of_nat_diff)
  then have "pf_magic h (p - prefix_bytes) \<noteq> ALLOCATION_MAGIC"
    using assms False prefix_words(1) [OF lim] by simp
  then show ?thesis by (simp add: kfree_def Let_def)
qed


section \<open>Initialisation\<close>

lemma init_kernel_heap_rep:
  assumes "g_heap_start (init_kernel_heap start bytes h) \<noteq> 0"
  obtains b where "heap_rep (init_kernel_heap start bytes h) [b]" "alloc b = None"
proof -
  have g0: "g_heap_start (reset_heap_state h) = 0" by (simp add: reset_heap_state_def)
  have s0: "start \<noteq> 0" "bytes \<noteq> 0" using assms g0 by (auto simp: init_kernel_heap_def)
  have "checked_add start bytes \<noteq> None"
  proof
    assume "checked_add start bytes = None"
    then show False using assms g0 s0 by (simp add: init_kernel_heap_def Let_def)
  qed
  then obtain oe where oe: "checked_add start bytes = Some oe" by blast
  have "align_up start word_align \<noteq> None"
  proof
    assume "align_up start word_align = None"
    then show False using assms g0 s0 oe by (simp add: init_kernel_heap_def Let_def)
  qed
  then obtain as where as: "align_up start word_align = Some as" by blast
  define a where "a = round_up (unat start) 8"
  have asw: "as = W a" "a < 2 ^ 64"
    using as round_up_bounds(3) [of 8 "unat start"] unfolding align_up_eq [OF align_8(1)] align_8(2)
    by (auto simp: a_def split: if_splits)
  have "0 < unat start" using s0(1) by (simp add: unat_gt_0)
  then have a: "8 dvd a" "0 < a"
    using round_up_bounds(1,2) [of 8 "unat start"] unfolding a_def by simp_all
  have lt: "as < oe" "\<not> oe - as < header_bytes + prefix_bytes + 1"
    using assms g0 s0 oe as by (auto simp: init_kernel_heap_def Let_def split: if_splits)
  have ad: "unat (oe - as) = unat oe - a" using lt(1) unat_sub_no_wrap [of as oe] unat_W [OF asw(2)] by (simp add: asw(1))
  then have big: "57 \<le> unat oe - a" using lt(2) by (simp add: word_less_nat_alt)
  have lim: "a + 32 \<le> 2 ^ 64" using big unat_lt [of oe] by linarith
  define h1 where "h1 = (reset_heap_state h)\<lparr> g_heap_start := as, g_heap_end := oe,
    g_heap_size := oe - as, g_first_block := as \<rparr>"
  define h2 where "h2 = set_size (W a) (oe - as - header_bytes) h1"
  define h3 where "h3 = set_used (W a) False h2"
  define h4 where "h4 = set_next (W a) 0 h3"
  define h5 where "h5 = set_previous (W a) 0 h4"
  have run: "init_kernel_heap start bytes h = h5"
    using s0 oe as lt by (simp add: init_kernel_heap_def Let_def h5_def h4_def h3_def h2_def h1_def asw(1) [symmetric])
  define b where "b = \<lparr> at = a, len = unat oe - a - 32, alloc = None :: (nat \<times> nat) option \<rparr>"
  have "(32 :: u64) \<le> oe - as" using big unfolding word_le_nat_alt ad by simp
  then have "unat (oe - as - 32) = unat oe - a - 32" using unat_sub_no_wrap [of 32 "oe - as"] ad by simp
  then have sz: "oe - as - 32 = W (len b)" by (metis W_unat b_def blk.select_convs(2))
  define w where "w = words h2 (a + 8) AND NOT 0xFF OR 0"
  have w: "\<not> flag w" unfolding w_def by (rule flag_set(2))
  note A = header_words [OF lim]
  have v: "words h5 = (words h1)(a := W (len b), a + 8 := w, a + 16 := 0, a + 24 := 0)"
    unfolding h5_def A(8) h4_def A(7) h3_def A(6) w_def by (simp add: h2_def A(5) sz)
  have "same_globals h1 h5"
    unfolding h5_def h4_def h3_def h2_def
    by (rule same_globals_trans [OF setters_globals(1) same_globals_trans [OF setters_globals(2)
            same_globals_trans [OF setters_globals(3) setters_globals(4)]]])
  then have g: "g_heap_start h5 = W a" "g_heap_end h5 = oe" "g_heap_size h5 = oe - as" "g_first_block h5 = W a"
    "g_used_bytes h5 = 0" "g_allocation_count h5 = 0"
    by (simp_all add: same_globals_def h1_def asw(1) reset_heap_state_def)
  have "links (words h5) 0 [b] 0"
    unfolding v using w by (simp add: header_ok_def prefix_ok_def b_def)
  moreover have "layout a [b] (unat oe)" using a(1) big by (simp add: b_def blk_ok_def)
  moreover have "W a \<noteq> 0" using W_eq_0_iff [OF asw(2)] a(2) by simp
  ultimately have "heap_rep h5 [b]"
    unfolding heap_rep_def g unat_W [OF asw(2)] by (simp add: asw(1)) (simp add: b_def)
  then show ?thesis using that [of b] run by (simp add: b_def)
qed

section \<open>Reachable heaps\<close>

lemma layout_disjoint:
  assumes "layout a bs e" "b \<in> set bs" "c \<in> set bs"
  shows "b = c \<or> past b \<le> at c \<or> past c \<le> at b"
proof -
  obtain xs ys where bs: "bs = xs @ b # ys" using assms(2) by (meson split_list)
  have l: "layout a xs (at b)" "layout (past b) ys e" using assms(1) unfolding bs by (auto simp: layout_append)
  have "c = b \<or> c \<in> set xs \<or> c \<in> set ys" using assms(3) by (auto simp: bs)
  then show ?thesis using layout_mem [OF l(1), of c] layout_mem [OF l(2), of c] by auto
qed

text \<open>No word of a header or of a prefix belongs to a user.\<close>

lemma metadata_not_user:
  assumes "layout a bs e" "b \<in> set bs"
  shows "at b \<le> x \<Longrightarrow> x < at b + 32 \<Longrightarrow> x \<notin> user_words (live bs)"
    "alloc b = Some (u, r) \<Longrightarrow> u - 24 \<le> x \<Longrightarrow> x < u \<Longrightarrow> x \<notin> user_words (live bs)"
proof -
  have own: "at c + 56 \<le> v" "v + q \<le> past c" "0 < q" if "c \<in> set bs" "alloc c = Some (v, q)" for c v q
    using layout_mem [OF assms(1) that(1)] that(2) by (auto simp: blk_ok_def)
  show "x \<notin> user_words (live bs)" if x: "at b \<le> x" "x < at b + 32"
  proof
    assume "x \<in> user_words (live bs)"
    then obtain c v q where c: "c \<in> set bs" "alloc c = Some (v, q)" "v \<le> x" "x < v + q"
      by (auto simp: user_words_def live_def)
    then show False using layout_disjoint [OF assms c(1)] own [OF c(1,2)] x by auto
  qed
  show "x \<notin> user_words (live bs)" if x: "alloc b = Some (u, r)" "u - 24 \<le> x" "x < u"
  proof
    assume "x \<in> user_words (live bs)"
    then obtain c v q where c: "c \<in> set bs" "alloc c = Some (v, q)" "v \<le> x" "x < v + q"
      by (auto simp: user_words_def live_def)
    consider "b = c" | "past b \<le> at c" | "past c \<le> at b" using layout_disjoint [OF assms c(1)] by blast
    then show False
    proof cases
      case 1
      then show ?thesis using c x by simp
    qed (use own [OF c(1,2)] own [OF assms(2) x(1)] x c(3,4) in linarith)+
  qed
qed

lemma links_user_write:
  assumes "\<And>b x. b \<in> set bs \<Longrightarrow> at b \<le> x \<Longrightarrow> x < at b + 32 \<Longrightarrow> m' x = m x"
    "\<And>b u r x. b \<in> set bs \<Longrightarrow> alloc b = Some (u, r) \<Longrightarrow> u - 24 \<le> x \<Longrightarrow> x < u \<Longrightarrow> m' x = m x"
    "\<And>b u r. b \<in> set bs \<Longrightarrow> alloc b = Some (u, r) \<Longrightarrow> 24 \<le> u"
  shows "links m' p bs n \<longleftrightarrow> links m p bs n"
  using assms
proof (induction bs arbitrary: p)
  case Nil
  then show ?case by simp
next
  case (Cons b bs)
  have h: "m' (at b) = m (at b)" "m' (at b + 8) = m (at b + 8)" "m' (at b + 16) = m (at b + 16)" "m' (at b + 24) = m (at b + 24)"
    using Cons.prems(1) [of b] by simp_all
  have "prefix_ok m' b \<longleftrightarrow> prefix_ok m b"
  proof (cases "alloc b")
    case (Some ur)
    obtain u r where ur: "ur = (u, r)" by (cases ur)
    have "24 \<le> u" using Cons.prems(3) [of b u r] Some ur by simp
    then have "m' (u - 24) = m (u - 24)" "m' (u - 16) = m (u - 16)" "m' (u - 8) = m (u - 8)"
      using Cons.prems(2) [of b u r] Some ur by auto
    then show ?thesis using Some ur by (simp add: prefix_ok_def)
  qed (simp add: prefix_ok_def)
  moreover have "links m' (at b) bs n \<longleftrightarrow> links m (at b) bs n"
  proof (rule Cons.IH)
    show "m' x = m x" if "c \<in> set bs" "at c \<le> x" "x < at c + 32" for c x
      using Cons.prems(1) [of c x] that by simp
    show "m' x = m x" if "c \<in> set bs" "alloc c = Some (u, r)" "u - 24 \<le> x" "x < u" for c u r x
      using Cons.prems(2) [of c u r x] that by simp
    show "24 \<le> u" if "c \<in> set bs" "alloc c = Some (u, r)" for c u r
      using Cons.prems(3) [of c u r] that by simp
  qed
  ultimately show ?case using h by (simp add: header_ok_def)
qed

text \<open>
  What the rest of the kernel can do with a heap: allocate, release an allocation, release an
  address that is not one, and write anywhere inside its allocations.  The set holds the live allocations
  with their sizes.
\<close>

inductive heap_run :: "heap \<Rightarrow> (nat \<times> nat) set \<Rightarrow> bool" where
  init: "g_heap_start (init_kernel_heap start bytes h) \<noteq> 0 \<Longrightarrow> heap_run (init_kernel_heap start bytes h) {}"
| malloc: "heap_run h L \<Longrightarrow> kmalloc n al h = Some (p, h') \<Longrightarrow>
    heap_run h' (if p = 0 then L else insert (unat p, unat n) L)"
| free: "heap_run h L \<Longrightarrow> (unat p, r) \<in> L \<Longrightarrow> kfree p h = Some h' \<Longrightarrow> heap_run h' (L - {(unat p, r)})"
| ignored: "heap_run h L \<Longrightarrow> unat p < 24 \<or> words h (unat p - 24) \<noteq> ALLOCATION_MAGIC \<Longrightarrow>
    kfree p h = Some h' \<Longrightarrow> heap_run h' L"
| user_write: "heap_run h L \<Longrightarrow> (\<And>a. unat a \<notin> user_words L \<Longrightarrow> m a = mem h a) \<Longrightarrow> heap_run (h\<lparr> mem := m \<rparr>) L"

lemma heap_run_rep: "heap_run h L \<Longrightarrow> \<exists>bs. heap_rep h bs \<and> live bs = L"
proof (induction rule: heap_run.induct)
  case (init start bytes h)
  then obtain b where "heap_rep (init_kernel_heap start bytes h) [b]" "alloc b = None"
    by (rule init_kernel_heap_rep)
  then show ?case by (intro exI [of _ "[b]"]) simp
next
  case (malloc h L n al p h')
  then obtain bs where bs: "heap_rep h bs" "live bs = L" by blast
  show ?case
  proof (cases "n = 0 \<or> \<not> is_power_of_two al")
    case True
    then have "p = 0" "h' = h" using malloc.hyps(2) by (auto simp: kmalloc_def split: if_splits)
    then show ?thesis using bs by auto
  next
    case False
    then have na: "n \<noteq> 0" "is_power_of_two al" by simp_all
    from bs(1) na show ?thesis
    proof (cases rule: kmalloc_cases)
      case none
      then show ?thesis using malloc.hyps(2) bs by auto
    next
      case (got u h2 bs')
      have "u < 2 ^ 64" "0 < u"
      proof -
        have "(u, unat n) \<in> live bs'" using got(3) by simp
        then obtain b where "b \<in> set bs'" "alloc b = Some (u, unat n)" by (auto simp: live_def)
        then show "u < 2 ^ 64" "0 < u"
          using layout_mem [OF heap_rep_bounds(1) [OF got(2)], of b] heap_rep_bounds(3) [OF got(2)]
          by (auto simp: blk_ok_def)
      qed
      then have "W u \<noteq> 0" "unat (W u) = u" using W_eq_0_iff unat_W by auto
      moreover have "p = W u" "h' = h2" using malloc.hyps(2) got(1) by simp_all
      ultimately show ?thesis using got(2,3) bs(2) by auto
    qed
  qed
next
  case (free h L p r h')
  then obtain bs where bs: "heap_rep h bs" "live bs = L" by blast
  have "(unat p, r) \<in> live bs" using free bs by simp
  then obtain h2 bs' where "kfree (W (unat p)) h = Some h2" "heap_rep h2 bs'" "live bs' = live bs - {(unat p, r)}"
    using kfree_live [OF bs(1)] by metis
  then show ?case using free.hyps(3) bs(2) by auto
next
  case (ignored h L p h')
  then show ?case using kfree_ignored [of p h] by auto
next
  case (user_write h L m)
  then obtain bs where bs: "heap_rep h bs" "live bs = L" by blast
  note H = heap_rep_bounds [OF bs(1)]
  have same: "words (h\<lparr> mem := m \<rparr>) x = words h x" if "x \<notin> user_words (live bs)" for x
    using user_write.hyps(2) [of "W x"] that bs(2) unat_W [of x] by (simp add: words_def)
  have big: "24 \<le> u" if "b \<in> set bs" "alloc b = Some (u, r)" for b u r
    using layout_mem [OF H(1) that(1)] that(2) by (auto simp: blk_ok_def)
  have "links (words (h\<lparr> mem := m \<rparr>)) 0 bs 0 \<longleftrightarrow> links (words h) 0 bs 0"
    by (rule links_user_write)
      (use metadata_not_user [OF H(1)] same big in blast)+
  then have "heap_rep (h\<lparr> mem := m \<rparr>) bs" using bs(1) by (simp add: heap_rep_def)
  then show ?case using bs(2) by blast
qed


section \<open>Properties\<close>

lemma live_sums:
  "layout a bs e \<Longrightarrow> finite (live bs) \<and> (\<Sum>(u, r) \<in> live bs. r) = requested bs \<and> card (live bs) = in_use bs"
proof (induction bs arbitrary: a)
  case Nil
  then show ?case by simp
next
  case (Cons b bs)
  then have ih: "finite (live bs)" "(\<Sum>(u, r) \<in> live bs. r) = requested bs" "card (live bs) = in_use bs" by auto
  show ?case
  proof (cases "alloc b")
    case None
    then show ?thesis using ih by simp
  next
    case (Some ur)
    obtain u r where ur: "ur = (u, r)" by (cases ur)
    have "(u, r) \<notin> live bs" using live_elsewhere [of a "[]" b bs e u r r] Cons.prems Some ur
      by (simp del: layout.simps)
    then show ?thesis using ih Some ur by simp
  qed
qed

lemma live_bounds:
  assumes "heap_rep h bs" "(u, r) \<in> live bs"
  shows "unat (g_heap_start h) + 56 \<le> u" "u + r \<le> unat (g_heap_end h)" "0 < r"
proof -
  obtain b where b: "b \<in> set bs" "alloc b = Some (u, r)" using assms(2) by (auto simp: live_def)
  show "unat (g_heap_start h) + 56 \<le> u" "u + r \<le> unat (g_heap_end h)" "0 < r"
    using layout_mem [OF heap_rep_bounds(1) [OF assms(1)] b(1)] b(2) by (auto simp: blk_ok_def)
qed

lemma live_disjoint:
  assumes "heap_rep h bs" "(u, r) \<in> live bs" "(v, q) \<in> live bs" "(u, r) \<noteq> (v, q)"
  shows "u + r \<le> v \<or> v + q \<le> u"
proof -
  note l = heap_rep_bounds(1) [OF assms(1)]
  obtain b where b: "b \<in> set bs" "alloc b = Some (u, r)" using assms(2) by (auto simp: live_def)
  obtain c where c: "c \<in> set bs" "alloc c = Some (v, q)" using assms(3) by (auto simp: live_def)
  have "b \<noteq> c" using b(2) c(2) assms(4) by auto
  then show ?thesis
    using layout_disjoint [OF l b(1) c(1)] layout_mem [OF l b(1)] layout_mem [OF l c(1)] b(2) c(2)
    by (auto simp: blk_ok_def)
qed

text \<open>A heap of 1024 bytes, and the same heap with one allocation of 10 bytes.\<close>

definition small_heap :: heap where
  "small_heap = init_kernel_heap 4096 1024 \<lparr> mem = (\<lambda>_. 0), g_heap_start = 0, g_heap_end = 0, g_heap_size = 0,
     g_first_block = 0, g_used_bytes = 0, g_allocation_count = 0 \<rparr>"

lemma small_heap_run: "heap_run small_heap {}"
  unfolding small_heap_def by (rule heap_run.init) code_simp

lemma compact_free_single: "compact bs \<Longrightarrow> bs \<noteq> [] \<Longrightarrow> \<forall>b \<in> set bs. alloc b = None \<Longrightarrow> \<exists>b. bs = [b]"
  by (cases bs rule: compact.cases) auto

lemma empty_heap:
  assumes "heap_rep h bs" "live bs = {}"
  obtains b where "bs = [b]" "alloc b = None" "at b = unat (g_heap_start h)" "past b = unat (g_heap_end h)"
    "total_bytes h = W (len b)" "hd_size h (W (at b)) = W (len b)"
proof -
  note H = heap_rep_bounds [OF assms(1)]
  have all: "\<forall>b \<in> set bs. alloc b = None" using assms(2) unfolding live_def by (metis (mono_tags, lifting) empty_Collect_eq not_Some_eq)
  then obtain b where b: "bs = [b]" using assms(1) compact_free_single by (auto simp: heap_rep_def)
  have l: "at b = unat (g_heap_start h)" "past b = unat (g_heap_end h)" using H(1) by (simp_all add: b)
  have "g_heap_start h \<le> g_heap_end h" unfolding word_le_nat_alt using l by linarith
  then have "unat (g_heap_end h - g_heap_start h) = 32 + len b"
    using l by (simp add: unat_sub)
  then have sz: "unat (g_heap_size h) = 32 + len b" using assms(1) by (simp add: heap_rep_def)
  have "unat (total_bytes h) = len b"
  proof (cases "len b = 0")
    case True
    then have "unat (g_heap_size h) = unat (32 :: u64)" using sz by simp
    then show ?thesis using True by (simp add: total_bytes_def word_less_nat_alt)
  next
    case False
    then have "(32 :: u64) < g_heap_size h" unfolding word_less_nat_alt using sz by simp
    then show ?thesis using sz by (simp add: total_bytes_def unat_sub word_less_nat_alt word_le_nat_alt)
  qed
  then have t: "total_bytes h = W (len b)" using W_unat [of "total_bytes h"] by simp
  have "words h (at b) = W (len b)" using H(4) by (simp add: b header_ok_def)
  then have "hd_size h (W (at b)) = W (len b)"
    using header_words(1) [of "at b" h] l H(3) by simp
  then show ?thesis using that [OF b _ l t] all b by simp
qed

lemma empty_free_bytes:
  assumes "heap_rep h bs" "live bs = {}"
  shows "free_bytes h = Some (total_bytes h)"
proof -
  note H = heap_rep_bounds [OF assms(1)]
  obtain b where b: "bs = [b]" "alloc b = None" "total_bytes h = W (len b)" using assms by (rule empty_heap)
  have "free_bytes_from h (W 0) (W (first_at bs 0)) = Some (W (0 + free_payload bs))"
    by (rule free_bytes_from_links [OF H(1,4,2,3)])
  then show ?thesis unfolding free_bytes_def H(5) using b by simp
qed

lemma empty_kmalloc:
  assumes "heap_rep h bs" "live bs = {}" "n \<noteq> 0" "is_power_of_two al"
    "24 + (effective al - 1) + unat n \<le> unat (total_bytes h)"
  shows "\<exists>p h'. kmalloc n al h = Some (p, h') \<and> p \<noteq> 0"
proof -
  note H = heap_rep_bounds [OF assms(1)]
  obtain b where b: "bs = [b]" "alloc b = None" "at b = unat (g_heap_start h)" "past b = unat (g_heap_end h)"
      "total_bytes h = W (len b)" "hd_size h (W (at b)) = W (len b)" using assms(1,2) by (rule empty_heap)
  have pb: "past b < 2 ^ 64" using b(4) H(3) by simp
  then have "unat (total_bytes h) = len b" unfolding b(5) by (intro unat_W) simp
  then have fits: "24 + (effective al - 1) + unat n \<le> len b" using assms(5) by simp
  have a: "at b + 56 + (effective al - 1) < 2 ^ 64" "at b + 56 < 2 ^ 64" using fits pb by linarith+
  note E = effective_props(3) [OF assms(4)]
  have "round_up (at b + 56) (effective al) + unat n \<le> past b"
    using round_up_bounds [OF E, of "at b + 56"] E fits by linarith
  then have fit: "calculate_layout h (W (at b)) n al \<noteq> None"
    unfolding calculate_layout_eq [OF assms(4) pb a(2) b(6)] using a(1) by simp
  from assms(1,3,4) show ?thesis
  proof (cases rule: kmalloc_cases)
    case none
    then show ?thesis using fit b(1,2) by simp
  next
    case (got u h' bs')
    have "(u, unat n) \<in> live bs'" using got(3) by simp
    note lb = live_bounds [OF got(2) this, unfolded got(7,8)]
    have "u < 2 ^ 64" using lb H(3) by linarith
    then have "W u \<noteq> 0" using W_eq_0_iff [of u] lb(1) by simp
    then show ?thesis using got(1) by blast
  qed
qed

lemma kfree_returns:
  assumes "heap_rep h bs"
  shows "\<exists>h'. kfree p h = Some h'"
proof -
  note H = heap_rep_bounds [OF assms]
  have "\<exists>k. block_is_known h t = Some k" for t
    unfolding block_is_known_def H(5) using known_from_links [OF H(1,4,2,3)] by blast
  then obtain f where "block_is_known h = (\<lambda>t. Some (f t))" by metis
  then show ?thesis by (simp add: kfree_def Let_def split: option.splits)
qed

text \<open>
  The walks over the block list end.  On any such heap \<open>kmalloc\<close>, \<open>kfree\<close> and \<open>free_bytes\<close> return,
  \<open>kfree\<close> for every address whatever the word before it holds.
\<close>

lemma heap_walks_end:
  assumes "heap_run h L"
  shows "kmalloc n al h \<noteq> None \<and> kfree p h \<noteq> None \<and> free_bytes h \<noteq> None"
proof -
  obtain bs where bs: "heap_rep h bs" using heap_run_rep [OF assms] by blast
  note H = heap_rep_bounds [OF bs]
  have "free_bytes_from h (W 0) (W (first_at bs 0)) \<noteq> None"
    unfolding free_bytes_from_links [OF H(1,4,2,3)] by simp
  then have "free_bytes h \<noteq> None" unfolding free_bytes_def H(5) by simp
  moreover have "find_free_block h n al \<noteq> None"
    unfolding find_free_block_def H(5) free_block_from_links [OF H(1,4,2,3)] by simp
  then have "kmalloc n al h \<noteq> None" by (auto simp: kmalloc_def Let_def split: option.splits)
  ultimately show ?thesis using kfree_returns [OF bs, of p] by auto
qed

text \<open>
  C5.  Allocation.  On any heap that allocations, releases and writes of the users can lead to, \<open>kmalloc\<close>
  returns.  A null result changes nothing.  Any other result is aligned as requested; its bytes lie in
  the heap and overlap no live allocation, and the data of every live allocation stays as it was.
\<close>

theorem kmalloc_correct:
  assumes "heap_run h L"
  shows "\<exists>p h'. kmalloc n al h = Some (p, h') \<and>
    (if p = 0 then h' = h
     else n \<noteq> 0 \<and> unat al dvd unat p
       \<and> unat (g_heap_start h) + 56 \<le> unat p \<and> unat p + unat n \<le> unat (g_heap_end h)
       \<and> (\<forall>(u, r) \<in> L. unat p + unat n \<le> u \<or> u + r \<le> unat p)
       \<and> (\<forall>x \<in> user_words L. words h' x = words h x))"
proof -
  obtain bs where bs: "heap_rep h bs" "live bs = L" using heap_run_rep [OF assms] by blast
  show ?thesis
  proof (cases "n = 0 \<or> \<not> is_power_of_two al")
    case True
    then have "kmalloc n al h = Some (0, h)" by (auto simp: kmalloc_def)
    then show ?thesis by simp
  next
    case False
    then have na: "n \<noteq> 0" "is_power_of_two al" by simp_all
    from bs(1) na show ?thesis
    proof (cases rule: kmalloc_cases)
      case none
      then show ?thesis by simp
    next
      case (got u h' bs')
      have "(u, unat n) \<in> live bs'" using got(3) by simp
      note b = live_bounds [OF got(2) this, unfolded got(7,8)]
      have ul: "u < 2 ^ 64" using b heap_rep_bounds(3) [OF bs(1)] by linarith
      have dis: "u + unat n \<le> v \<or> v + q \<le> u" if "(v, q) \<in> L" for v q
        using live_disjoint [OF got(2), of u "unat n" v q] that got(3,5) bs(2) by auto
      have "W u \<noteq> 0" using W_eq_0_iff [OF ul] b(1) by simp
      then show ?thesis
        using got(1,4,6) b dis na(1) bs(2) unat_W [OF ul] by (intro exI [of _ "W u"] exI [of _ h']) auto
    qed
  qed
qed

theorem kmalloc_correct_witness:
  "\<exists>p h'. kmalloc 10 64 small_heap = Some (p, h') \<and> p \<noteq> 0 \<and> 64 dvd unat p"
proof -
  obtain p h' where k: "kmalloc 10 64 small_heap = Some (p, h')" "p \<noteq> 0 \<Longrightarrow> unat (64 :: u64) dvd unat p"
    using kmalloc_correct [OF small_heap_run, of 10 64] by (metis (no_types, lifting))
  moreover have "map_option (\<lambda>r. fst r \<noteq> 0) (kmalloc 10 64 small_heap) = Some True" by code_simp
  ultimately show ?thesis by auto
qed

text \<open>
  C6.  Release.  \<open>kfree\<close> of a live allocation returns, takes exactly that allocation out of the accounts and
  leaves the data of every other one as it was; a second release of the same address is ignored.
\<close>

theorem kfree_correct:
  assumes "heap_run h L" "(unat p, r) \<in> L"
  shows "\<exists>h'. kfree p h = Some h' \<and> heap_run h' (L - {(unat p, r)})
    \<and> (\<forall>x \<in> user_words (L - {(unat p, r)}). words h' x = words h x)
    \<and> unat (used_bytes h') + r = unat (used_bytes h)
    \<and> unat (allocation_count h') + 1 = unat (allocation_count h)
    \<and> kfree p h' = Some h'"
proof -
  obtain bs where bs: "heap_rep h bs" "live bs = L" using heap_run_rep [OF assms(1)] by blast
  have pr: "(unat p, r) \<in> live bs" using assms(2) bs(2) by simp
  obtain h' bs' where f: "kfree (W (unat p)) h = Some h'" "heap_rep h' bs'" "live bs' = live bs - {(unat p, r)}"
    "\<forall>x \<in> user_words (live bs'). words h' x = words h x" "words h' (unat p - 24) = 0"
    using kfree_live [OF bs(1) pr] by metis
  have k: "kfree p h = Some h'" using f(1) by simp
  note s = live_sums [OF heap_rep_bounds(1) [OF bs(1)]] and s' = live_sums [OF heap_rep_bounds(1) [OF f(2)]]
  have "(\<Sum>(u, r) \<in> live bs. r) = r + (\<Sum>(u, r) \<in> live bs'. r)"
    using sum.remove [of "live bs" "(unat p, r)" "\<lambda>(u, r). r"] s pr f(3) by simp
  moreover have "card (live bs) = card (live bs') + 1" using card.remove [of "live bs" "(unat p, r)"] s pr f(3) by simp
  ultimately have "requested bs = r + requested bs'" "in_use bs = in_use bs' + 1" using s s' by simp_all
  then have "unat (used_bytes h') + r = unat (used_bytes h)" "unat (allocation_count h') + 1 = unat (allocation_count h)"
    using bs(1) f(2) by (simp_all add: heap_rep_def used_bytes_def allocation_count_def)
  moreover have "ALLOCATION_MAGIC \<noteq> 0" by (simp add: ALLOCATION_MAGIC_def)
  then have "kfree p h' = Some h'" using kfree_ignored [of p h'] f(5) by simp
  ultimately show ?thesis using k heap_run.free [OF assms k] f(3,4) bs(2) by auto
qed

theorem kfree_correct_witness:
  "\<exists>p h1 h2. kmalloc 10 64 small_heap = Some (p, h1) \<and> kfree p h1 = Some h2 \<and> kfree p h2 = Some h2"
proof -
  have e: "map_option (\<lambda>r. fst r \<noteq> 0) (kmalloc 10 64 small_heap) = Some True" by code_simp
  then obtain p h1 where k: "kmalloc 10 64 small_heap = Some (p, h1)" by auto
  from e have "heap_run h1 {(unat p, unat (10 :: u64))}" using heap_run.malloc [OF small_heap_run k] k by simp
  then obtain h2 where "kfree p h1 = Some h2" "kfree p h2 = Some h2"
    using kfree_correct [of h1 "{(unat p, unat (10 :: u64))}" p "unat (10 :: u64)"] by blast
  then show ?thesis using k by blast
qed

text \<open>
  C7.  Accounts and coalescing.  Live allocations do not overlap and lie in the heap; \<open>used_bytes\<close> and
  \<open>allocation_count\<close> are their total size and number.  When none is left the heap is one free block
  again, whatever happened before: \<open>free_bytes\<close> is the whole payload, and a request that fits it succeeds.
\<close>

theorem heap_accounts:
  assumes "heap_run h L"
  shows "finite L \<and> unat (used_bytes h) = (\<Sum>(u, r) \<in> L. r) \<and> unat (allocation_count h) = card L
    \<and> (\<forall>(u, r) \<in> L. unat (g_heap_start h) + 56 \<le> u \<and> u + r \<le> unat (g_heap_end h))
    \<and> (\<forall>(u, r) \<in> L. \<forall>(v, q) \<in> L. (u, r) = (v, q) \<or> u + r \<le> v \<or> v + q \<le> u)
    \<and> (L = {} \<longrightarrow> free_bytes h = Some (total_bytes h)
         \<and> (\<forall>n al. n \<noteq> 0 \<and> is_power_of_two al \<and> 24 + (effective al - 1) + unat n \<le> unat (total_bytes h)
              \<longrightarrow> (\<exists>p h'. kmalloc n al h = Some (p, h') \<and> p \<noteq> 0)))"
proof -
  obtain bs where bs: "heap_rep h bs" "live bs = L" using heap_run_rep [OF assms] by blast
  note s = live_sums [OF heap_rep_bounds(1) [OF bs(1)]]
  have 1: "finite L" "unat (used_bytes h) = (\<Sum>(u, r) \<in> L. r)" "unat (allocation_count h) = card L"
    using s bs by (simp_all add: heap_rep_def used_bytes_def allocation_count_def)
  have 2: "\<forall>(u, r) \<in> L. unat (g_heap_start h) + 56 \<le> u \<and> u + r \<le> unat (g_heap_end h)"
    using live_bounds(1,2) [OF bs(1)] unfolding bs(2) by auto
  have 3: "\<forall>(u, r) \<in> L. \<forall>(v, q) \<in> L. (u, r) = (v, q) \<or> u + r \<le> v \<or> v + q \<le> u"
    using live_disjoint [OF bs(1)] unfolding bs(2) by fast
  have 4: "free_bytes h = Some (total_bytes h)" if "L = {}"
    using empty_free_bytes [OF bs(1)] bs(2) that by simp
  have 5: "\<exists>p h'. kmalloc n al h = Some (p, h') \<and> p \<noteq> 0"
    if "L = {}" "n \<noteq> 0 \<and> is_power_of_two al \<and> 24 + (effective al - 1) + unat n \<le> unat (total_bytes h)" for n al
    by (rule empty_kmalloc [OF bs(1)]) (use bs(2) that in simp_all)
  show ?thesis by (intro conjI impI allI 1 2 3) (assumption | erule 4 | erule (1) 5)+
qed

theorem heap_accounts_witness:
  "unat (used_bytes small_heap) = 0 \<and> free_bytes small_heap = Some (total_bytes small_heap)
    \<and> (\<exists>p h'. kmalloc 900 64 small_heap = Some (p, h') \<and> p \<noteq> 0)"
proof -
  have "is_power_of_two 64" "total_bytes small_heap = 992" by code_simp+
  then show ?thesis using heap_accounts [OF small_heap_run] by (simp add: effective_def)
qed

end
