(* ===== verification/Handles.thy ===== *)
theory Handles
  imports Kurogane_Prelude
begin

text \<open>
  Generation-checked handles.  The kernel's object tables (IPC endpoints and channels, events,
  shared-memory objects, jobs, tasks) hand out 64-bit handles that pack a slot number and the
  generation the slot had at allocation; a handle resolves only while its slot is active and still
  has that generation.  The locales state this contract once: \<open>handle_codec\<close> for the bit layout and
  \<open>slot_table\<close> for a table on top of it.  The component theories interpret both.
\<close>

section \<open>Bit layouts\<close>

lemma or_push_bit_32:
  fixes low :: u64 and g :: u32
  assumes "unat low < 2 ^ 32"
  shows "(ucast (drop_bit 32 (push_bit 32 (ucast g :: u64) OR low)) :: u32) = g"
    and "unat m < 2 ^ 32 \<Longrightarrow> (push_bit 32 (ucast g) OR low) AND m = low AND m"
proof -
  note hi = not_bit_ge [OF assms]
  show "(ucast (drop_bit 32 (push_bit 32 (ucast g :: u64) OR low)) :: u32) = g"
    by (rule bit_word_eqI) (auto simp: bit_simps hi)
  show "(push_bit 32 (ucast g) OR low) AND m = low AND m" if "unat m < 2 ^ 32"
    by (rule bit_word_eqI) (auto simp: bit_simps dest: not_bit_ge [OF that])
qed

text \<open>
  The common handle layout of the kernel: generation in the upper half, an object kind in bits 16 to
  23 and the slot number plus one in the low byte.
\<close>

lemma kind_handle_fields:
  fixes g :: u32 and k :: u64
  assumes "i < 255" "unat k < 2 ^ 8"
  shows "(push_bit 32 (ucast g) OR push_bit 16 k OR of_nat (i + 1)) AND push_bit 16 0xFF = push_bit 16 k"
    and "unat ((push_bit 32 (ucast g) OR push_bit 16 k OR of_nat (i + 1) :: u64) AND 0xFF) = i + 1"
    and "(ucast (drop_bit 32 (push_bit 32 (ucast g) OR push_bit 16 k OR of_nat (i + 1) :: u64)) :: u32) = g"
proof -
  define w :: u64 where "w = of_nat (i + 1)"
  have u: "unat w = i + 1" unfolding w_def using assms(1) by (intro unat_of_nat_small) simp
  then have i8: "unat w < 2 ^ 8" using assms(1) by simp
  have ff: "(0xFF :: u64) = mask 8" by (simp add: mask_eq_exp_minus_1)
  note hi = not_bit_ge [OF i8] not_bit_ge [OF assms(2)]
  show "(push_bit 32 (ucast g) OR push_bit 16 k OR of_nat (i + 1)) AND push_bit 16 0xFF = push_bit 16 k"
    unfolding ff w_def [symmetric] by (rule bit_word_eqI) (auto simp: bit_simps hi not_le [symmetric])
  have "(push_bit 32 (ucast g) OR push_bit 16 k OR w) AND 0xFF = w"
    unfolding ff by (rule bit_word_eqI) (auto simp: bit_simps hi not_le [symmetric])
  then show "unat ((push_bit 32 (ucast g) OR push_bit 16 k OR of_nat (i + 1) :: u64) AND 0xFF) = i + 1"
    unfolding w_def [symmetric] using u by simp
  show "(ucast (drop_bit 32 (push_bit 32 (ucast g) OR push_bit 16 k OR of_nat (i + 1) :: u64)) :: u32) = g"
    unfolding w_def [symmetric] by (rule bit_word_eqI) (auto simp: bit_simps hi)
qed

lemma or_push_bit_8:
  fixes low g :: u64
  assumes "unat low < 2 ^ 8" "unat g < 2 ^ 56"
  shows "drop_bit 8 (push_bit 8 g OR low) = g"
    and "(push_bit 8 g OR low) AND 0xFF = low"
proof -
  note hi = not_bit_ge [OF assms(1)] and gh = not_bit_ge [OF assms(2)]
  show "drop_bit 8 (push_bit 8 g OR low) = g"
    by (rule bit_word_eqI) (auto simp: bit_simps hi, meson gh not_le)
  have "(push_bit 8 g OR low) AND mask 8 = low"
    by (rule bit_word_eqI) (auto simp: bit_simps, meson hi not_le)
  then show "(push_bit 8 g OR low) AND 0xFF = low" by (simp add: mask_eq_exp_minus_1)
qed

section \<open>Generations\<close>

text \<open>
  \<open>next_generation\<close> of the object tables: generations run through \<open>1, \<dots>, limit\<close> and wrap to 1.
\<close>

definition next_generation :: "'a::len word \<Rightarrow> 'a word \<Rightarrow> 'a word" where
  "next_generation kMaximumGeneration generation =
     (if generation = 0 \<or> generation \<ge> kMaximumGeneration then 1 else generation + 1)"

definition valid_generation :: "'a::len word \<Rightarrow> 'a word \<Rightarrow> bool" where
  "valid_generation limit g \<longleftrightarrow> 1 \<le> g \<and> g \<le> limit"

lemma next_generation_unat:
  assumes "1 \<le> limit"
  shows "unat (next_generation limit g) =
    (if unat g = 0 \<or> unat g \<ge> unat limit then 1 else unat g + 1)"
proof (cases "g = 0 \<or> g \<ge> limit")
  case True
  then show ?thesis by (auto simp: next_generation_def word_le_nat_alt)
next
  case False
  then have lt: "unat g < unat limit" by (auto simp: word_le_nat_alt)
  have "unat (g + 1) = unat g + 1"
  proof -
    have "unat g + 1 < 2 ^ LENGTH('a)" using lt unat_less_2p [of limit] by linarith
    then show ?thesis by (subst unat_add_no_wrap) simp_all
  qed
  with False lt show ?thesis by (auto simp: next_generation_def unat_eq_zero)
qed

lemma next_generation_valid:
  "1 \<le> limit \<Longrightarrow> valid_generation limit (next_generation limit g)"
  using next_generation_unat [of limit g]
  by (auto simp: valid_generation_def word_le_nat_alt)

lemma next_generation_iter:
  assumes "1 \<le> limit" "valid_generation limit g"
  shows "unat ((next_generation limit ^^ n) g) = (unat g - 1 + n) mod unat limit + 1"
proof (induction n)
  case 0
  with assms show ?case by (auto simp: valid_generation_def word_le_nat_alt)
next
  case (Suc n)
  let ?m = "(unat g - 1 + n) mod unat limit"
  have L: "0 < unat limit" using assms(1) by (auto simp: word_le_nat_alt)
  have m: "?m < unat limit" using L by simp
  have "unat ((next_generation limit ^^ Suc n) g) = (if ?m + 1 \<ge> unat limit then 1 else ?m + 2)"
    using Suc next_generation_unat [OF assms(1)] by simp
  also have "\<dots> = Suc ?m mod unat limit + 1"
  proof (cases "Suc ?m = unat limit")
    case True
    then show ?thesis by simp
  next
    case False
    with m have "Suc ?m < unat limit" by simp
    then show ?thesis by simp
  qed
  also have "Suc ?m mod unat limit = (unat g - 1 + Suc n) mod unat limit"
    by (simp add: mod_Suc_eq)
  finally show ?case by simp
qed

text \<open>A generation comes back only after the whole cycle of \<open>limit\<close> reuses.\<close>

lemma generation_cycle:
  assumes "1 \<le> limit" "valid_generation limit g" "0 < n" "n < unat limit"
  shows "(next_generation limit ^^ n) g \<noteq> g"
proof
  assume "(next_generation limit ^^ n) g = g"
  then have "(unat g - 1 + n) mod unat limit + 1 = unat g"
    using next_generation_iter [OF assms(1,2), of n] by metis
  moreover have "unat g - 1 < unat limit" "1 \<le> unat g"
    using assms(2) by (auto simp: valid_generation_def word_le_nat_alt)
  ultimately have "(unat g - 1 + n) mod unat limit = (unat g - 1) mod unat limit" by simp
  then have "unat limit dvd n"
    by (metis diff_add_inverse le_add1 mod_eq_dvd_iff_nat)
  with assms(3,4) show False by (auto dest: dvd_imp_le)
qed

section \<open>Handle codecs and slot tables\<close>

locale handle_codec =
  fixes encode :: "nat \<Rightarrow> 'a::len word \<Rightarrow> u64"
    and index_of :: "u64 \<Rightarrow> nat option"
    and generation_of :: "u64 \<Rightarrow> 'a word"
    and capacity :: nat
    and limit :: "'a word"
  assumes limit_pos: "1 \<le> limit"
    and index_encode: "i < capacity \<Longrightarrow> valid_generation limit g \<Longrightarrow> index_of (encode i g) = Some i"
    and generation_encode: "i < capacity \<Longrightarrow> valid_generation limit g \<Longrightarrow> generation_of (encode i g) = g"
    and index_bound: "index_of h = Some i \<Longrightarrow> i < capacity"
    and encode_nonzero: "i < capacity \<Longrightarrow> encode i g \<noteq> 0"
begin

lemma encode_inject:
  "i < capacity \<Longrightarrow> j < capacity \<Longrightarrow> valid_generation limit g \<Longrightarrow> valid_generation limit g' \<Longrightarrow>
    encode i g = encode j g' \<longleftrightarrow> i = j \<and> g = g'"
  by (metis generation_encode index_encode option.inject)

end

text \<open>
  Resolution of a handle in a table of slots: the slot number must be in range and the slot active
  with the handle's generation.
\<close>

definition resolve ::
  "(u64 \<Rightarrow> nat option) \<Rightarrow> (u64 \<Rightarrow> 'g) \<Rightarrow> ('slot \<Rightarrow> bool) \<Rightarrow> ('slot \<Rightarrow> 'g) \<Rightarrow> 'slot list \<Rightarrow> u64 \<Rightarrow> nat option"
  where
  "resolve index_of generation_of active gen slots h =
     (case index_of h of
        None \<Rightarrow> None
      | Some i \<Rightarrow> if active (slots ! i) \<and> gen (slots ! i) = generation_of h then Some i else None)"

locale slot_table = handle_codec encode index_of generation_of capacity limit
  for encode :: "nat \<Rightarrow> 'a::len word \<Rightarrow> u64"
    and index_of :: "u64 \<Rightarrow> nat option"
    and generation_of :: "u64 \<Rightarrow> 'a word"
    and capacity :: nat
    and limit :: "'a word" +
  fixes active :: "'slot \<Rightarrow> bool"
    and gen :: "'slot \<Rightarrow> 'a word"
begin

lemma resolve_encode:
  assumes "i < capacity" "valid_generation limit g"
  shows "resolve index_of generation_of active gen slots (encode i g) = Some j \<longleftrightarrow>
    j = i \<and> active (slots ! i) \<and> gen (slots ! i) = g"
  using assms by (auto simp: resolve_def index_encode generation_encode)

lemma resolve_bound:
  "resolve index_of generation_of active gen slots h = Some i \<Longrightarrow> i < capacity \<and> active (slots ! i)"
  by (auto simp: resolve_def index_bound split: option.splits if_splits)

text \<open>
  A slot that was freed and allocated again \<open>n\<close> times (its generation advanced each time) no longer
  answers to the old handle, until the generation counter has gone round.
\<close>

lemma stale_after_reuse:
  assumes "i < capacity" "valid_generation limit g" "0 < n" "n < unat limit"
    and "gen (slots ! i) = (next_generation limit ^^ n) g"
  shows "resolve index_of generation_of active gen slots (encode i g) = None"
proof -
  have "gen (slots ! i) \<noteq> g"
    using generation_cycle [OF limit_pos assms(2,3,4)] assms(5) by simp
  then show ?thesis
    using assms(1,2) by (simp add: resolve_def index_encode generation_encode)
qed

end


text \<open>
  The life of one slot.  A call either keeps the slot's generation and can only take rights away
  (\<open>shrink\<close>), or starts the next generation.  Then fewer than \<open>limit\<close> calls cannot bring a generation
  back: whenever the generation is the old one, the slot has only shrunk since.
\<close>

locale slot_history =
  fixes gen :: "'s \<Rightarrow> 'a::len word"
    and shrink :: "'s \<Rightarrow> 's \<Rightarrow> bool"
    and limit :: "'a word"
  assumes history_limit: "1 \<le> limit"
    and refl: "shrink x x"
    and trans: "shrink x y \<Longrightarrow> shrink y z \<Longrightarrow> shrink x z"
    and same_generation: "shrink x y \<Longrightarrow> gen y = gen x"
begin

lemma chain:
  assumes "\<And>j. j < n \<Longrightarrow> shrink (xs j) (xs (Suc j)) \<or> gen (xs (Suc j)) = next_generation limit (gen (xs j))"
  shows "\<exists>k \<le> n. gen (xs n) = (next_generation limit ^^ k) (gen (xs 0)) \<and> (k = 0 \<longrightarrow> shrink (xs 0) (xs n))"
  using assms
proof (induction n)
  case 0
  then show ?case by (simp add: refl)
next
  case (Suc n)
  from Suc obtain k where k: "k \<le> n" "gen (xs n) = (next_generation limit ^^ k) (gen (xs 0))"
      "k = 0 \<longrightarrow> shrink (xs 0) (xs n)" by auto
  from Suc.prems [OF lessI] show ?case
  proof (elim disjE)
    assume s: "shrink (xs n) (xs (Suc n))"
    with k same_generation [OF s] trans show ?thesis by (intro exI [of _ k]) auto
  next
    assume "gen (xs (Suc n)) = next_generation limit (gen (xs n))"
    with k show ?thesis by (intro exI [of _ "Suc k"]) simp
  qed
qed

lemma not_revived:
  assumes "\<And>j. j < n \<Longrightarrow> shrink (xs j) (xs (Suc j)) \<or> gen (xs (Suc j)) = next_generation limit (gen (xs j))"
    and "valid_generation limit (gen (xs 0))" "n < unat limit" "gen (xs n) = gen (xs 0)"
  shows "shrink (xs 0) (xs n)"
proof -
  obtain k where k: "k \<le> n" "gen (xs n) = (next_generation limit ^^ k) (gen (xs 0))"
      "k = 0 \<longrightarrow> shrink (xs 0) (xs n)"
    using chain [of n xs] assms(1) by blast
  have "k = 0"
  proof (rule ccontr)
    assume "k \<noteq> 0"
    with generation_cycle [OF history_limit assms(2), of k] k assms(3,4) show False by simp
  qed
  with k show ?thesis by simp
qed

end

end
