(* ===== verification/Ipc_Channel.thy ===== *)
theory Ipc_Channel
  imports Handles Ring_Buffer
begin

text \<open>
  \<^verbatim>\<open>kernel/ipc/channel.hpp\<close> and \<^verbatim>\<open>kernel/ipc/channel.cpp\<close>: named endpoints, connections and message
  channels between processes.  The file's static arrays are the record \<open>ipc\<close>.  Every public
  operation of the source holds one lock from entry to return, so an operation is one function from
  state to state.  Names are the bytes a caller passes with their length; output pointers are
  \<open>option\<close>s as described in the prelude.
\<close>

section \<open>Data\<close>

definition MAX_ENDPOINTS :: nat where "MAX_ENDPOINTS = 16"
definition MAX_CHANNELS :: nat where "MAX_CHANNELS = 16"
definition MAX_PENDING_CONNECTIONS :: nat where "MAX_PENDING_CONNECTIONS = 8"
definition MAX_MESSAGES_PER_DIRECTION :: nat where "MAX_MESSAGES_PER_DIRECTION = 4"
definition MAX_SERVICE_NAME :: nat where "MAX_SERVICE_NAME = 31"
definition MAX_MESSAGE_SIZE :: nat where "MAX_MESSAGE_SIZE = 256"

abbreviation INVALID_PROCESS_ID :: u64 where "INVALID_PROCESS_ID \<equiv> 0"
abbreviation INVALID_HANDLE :: u64 where "INVALID_HANDLE \<equiv> 0"

lemmas ipc_sizes = MAX_ENDPOINTS_def MAX_CHANNELS_def MAX_PENDING_CONNECTIONS_def
  MAX_MESSAGES_PER_DIRECTION_def MAX_SERVICE_NAME_def MAX_MESSAGE_SIZE_def

datatype Status =
    Ok | AlreadyInitialized | NotInitialized | InvalidArgument | InvalidName | NameTooLong
  | AlreadyExists | NotFound | StaleHandle | AccessDenied | CapacityReached | WouldBlock
  | VersionMismatch | PeerClosed

record Message =
  sender_pid :: u64
  msg_size :: nat
  msg_bytes :: "u8 list"

record ServiceMetadata =
  service_version :: u32
  minimum_client_version :: u32
  capabilities :: u64

record ServiceNegotiation =
  neg_minimum_version :: u32
  neg_maximum_version :: u32
  neg_selected_version :: u32
  neg_service_version :: u32
  neg_minimum_client_version :: u32
  neg_capabilities :: u64
  neg_owner_pid :: u64

record ServiceInfo =
  info_service_version :: u32
  info_minimum_client_version :: u32
  info_capabilities :: u64
  info_owner_pid :: u64

record MessageQueue =
  messages :: "Message list"
  mq_head :: nat
  mq_tail :: nat
  mq_count :: nat

record EndpointSlot =
  ep_generation :: u32
  ep_owner_pid :: u64
  ep_name :: string
  pending :: "nat list"
  pending_head :: nat
  pending_tail :: nat
  pending_count :: nat
  ep_metadata :: ServiceMetadata
  versioned :: bool
  ep_active :: bool

record ChannelSlot =
  ch_generation :: u32
  client_pid :: u64
  server_pid :: u64
  to_server :: MessageQueue
  to_client :: MessageQueue
  ch_active :: bool
  client_open :: bool
  server_open :: bool
  accepted :: bool

record ipc =
  g_endpoints :: "EndpointSlot list"
  g_channels :: "ChannelSlot list"
  g_initialized :: bool

text \<open>The all-zero values that \<open>clear_bytes\<close> and \<open>= {}\<close> write.\<close>

definition zero_message :: Message where
  "zero_message = \<lparr>sender_pid = 0, msg_size = 0, msg_bytes = replicate MAX_MESSAGE_SIZE 0\<rparr>"

definition zero_metadata :: ServiceMetadata where
  "zero_metadata = \<lparr>service_version = 0, minimum_client_version = 0, capabilities = 0\<rparr>"

definition zero_info :: ServiceInfo where
  "zero_info = \<lparr>info_service_version = 0, info_minimum_client_version = 0, info_capabilities = 0,
     info_owner_pid = 0\<rparr>"

definition zero_queue :: MessageQueue where
  "zero_queue = \<lparr>messages = replicate MAX_MESSAGES_PER_DIRECTION zero_message,
     mq_head = 0, mq_tail = 0, mq_count = 0\<rparr>"

definition zero_endpoint :: EndpointSlot where
  "zero_endpoint = \<lparr>ep_generation = 0, ep_owner_pid = 0,
     ep_name = replicate (MAX_SERVICE_NAME + 1) (CHR 0x00),
     pending = replicate MAX_PENDING_CONNECTIONS 0, pending_head = 0, pending_tail = 0,
     pending_count = 0, ep_metadata = zero_metadata, versioned = False, ep_active = False\<rparr>"

definition zero_channel :: ChannelSlot where
  "zero_channel = \<lparr>ch_generation = 0, client_pid = 0, server_pid = 0, to_server = zero_queue,
     to_client = zero_queue, ch_active = False, client_open = False, server_open = False,
     accepted = False\<rparr>"

definition ipc_zero :: ipc where
  "ipc_zero = \<lparr>g_endpoints = replicate MAX_ENDPOINTS zero_endpoint,
     g_channels = replicate MAX_CHANNELS zero_channel, g_initialized = False\<rparr>"

section \<open>Names and handles\<close>

definition kIndexMask :: u64 where "kIndexMask = 0xFF"
definition kKindMask :: u64 where "kKindMask = push_bit 16 0xFF"
definition kSideMask :: u64 where "kSideMask = push_bit 24 1"
definition kKindEndpoint :: u64 where "kKindEndpoint = push_bit 16 1"
definition kKindChannel :: u64 where "kKindChannel = push_bit 16 2"
definition kMaximumGeneration :: u32 where "kMaximumGeneration = 0x7FFFFFFF"

lemmas ipc_masks = kIndexMask_def kKindMask_def kSideMask_def kKindEndpoint_def kKindChannel_def

definition valid_name_character :: "char \<Rightarrow> bool" where
  "valid_name_character value \<longleftrightarrow>
     (CHR ''a'' \<le> value \<and> value \<le> CHR ''z'') \<or> (CHR ''A'' \<le> value \<and> value \<le> CHR ''Z'') \<or>
     (CHR ''0'' \<le> value \<and> value \<le> CHR ''9'') \<or>
     value = CHR ''.'' \<or> value = CHR ''_'' \<or> value = CHR ''-''"

definition validate_name :: "string option \<Rightarrow> Status" where
  "validate_name name =
     (case name of
        None \<Rightarrow> Status.InvalidArgument
      | Some n \<Rightarrow>
          if length n = 0 then Status.InvalidArgument
          else if length n > MAX_SERVICE_NAME then Status.NameTooLong
          else if \<exists>c \<in> set n. c = CHR 0x00 \<or> \<not> valid_name_character c then Status.InvalidName
          else Status.Ok)"

definition stored_length :: "string \<Rightarrow> nat" where
  "stored_length name = length (takeWhile (\<lambda>c. c \<noteq> CHR 0x00) (take (MAX_SERVICE_NAME + 1) name))"

definition name_equal :: "EndpointSlot \<Rightarrow> string \<Rightarrow> bool" where
  "name_equal endpoint name \<longleftrightarrow>
     stored_length (ep_name endpoint) = length name \<and> take (length name) (ep_name endpoint) = name"

definition encode_endpoint :: "nat \<Rightarrow> u32 \<Rightarrow> u64" where
  "encode_endpoint index generation =
     push_bit 32 (ucast generation) OR kKindEndpoint OR of_nat (index + 1)"

definition encode_channel :: "nat \<Rightarrow> u32 \<Rightarrow> bool \<Rightarrow> u64" where
  "encode_channel index generation server_side =
     push_bit 32 (ucast generation) OR kKindChannel OR (if server_side then kSideMask else 0)
       OR of_nat (index + 1)"

definition decode_index :: "u64 \<Rightarrow> nat \<Rightarrow> nat option" where
  "decode_index handle maximum =
     (let encoded = unat (handle AND kIndexMask) in
      if encoded = 0 \<or> encoded > maximum then None else Some (encoded - 1))"

definition handle_generation :: "u64 \<Rightarrow> u32" where
  "handle_generation handle = ucast (drop_bit 32 handle)"

text \<open>
  The decoders return the slot's number instead of a reference to the slot; \<open>Inl\<close> is the error.
\<close>

definition decode_endpoint :: "ipc \<Rightarrow> u64 \<Rightarrow> u64 \<Rightarrow> Status + nat" where
  "decode_endpoint s owner_pid handle =
     (if handle AND kKindMask \<noteq> kKindEndpoint \<or> handle AND kSideMask \<noteq> 0 then Inl Status.StaleHandle
      else case decode_index handle MAX_ENDPOINTS of
          None \<Rightarrow> Inl Status.StaleHandle
        | Some index \<Rightarrow>
            let slot = g_endpoints s ! index; generation = handle_generation handle in
            if \<not> ep_active slot \<or> ep_generation slot \<noteq> generation then Inl Status.StaleHandle
            else if ep_owner_pid slot \<noteq> owner_pid then Inl Status.AccessDenied
            else Inr index)"

definition decode_channel :: "ipc \<Rightarrow> u64 \<Rightarrow> u64 \<Rightarrow> Status + nat \<times> bool" where
  "decode_channel s owner_pid handle =
     (if handle AND kKindMask \<noteq> kKindChannel then Inl Status.StaleHandle
      else case decode_index handle MAX_CHANNELS of
          None \<Rightarrow> Inl Status.StaleHandle
        | Some index \<Rightarrow>
            let slot = g_channels s ! index; generation = handle_generation handle in
            if \<not> ch_active slot \<or> ch_generation slot \<noteq> generation then Inl Status.StaleHandle
            else let server = (handle AND kSideMask \<noteq> 0);
                     expected = (if server then server_pid slot else client_pid slot);
                     opened = (if server then server_open slot else client_open slot)
              in if expected \<noteq> owner_pid then Inl Status.AccessDenied
                 else if \<not> opened then Inl Status.StaleHandle
                 else Inr (index, server))"

section \<open>Helpers on slots\<close>

definition reset_channel :: "ChannelSlot \<Rightarrow> ChannelSlot" where
  "reset_channel slot = zero_channel\<lparr>ch_generation := ch_generation slot\<rparr>"

definition maybe_free_channel :: "ChannelSlot \<Rightarrow> ChannelSlot" where
  "maybe_free_channel slot =
     (if \<not> client_open slot \<and> \<not> server_open slot then reset_channel slot else slot)"

definition pending_live :: "ChannelSlot list \<Rightarrow> EndpointSlot \<Rightarrow> nat \<Rightarrow> bool" where
  "pending_live channels endpoint channel_index \<longleftrightarrow>
     (if channel_index \<ge> MAX_CHANNELS then False
      else let channel = channels ! channel_index in
        ch_active channel \<and> \<not> accepted channel \<and> client_open channel \<and> server_open channel \<and>
        server_pid channel = ep_owner_pid endpoint)"

definition pending_entries :: "EndpointSlot \<Rightarrow> nat list" where
  "pending_entries endpoint =
     map (\<lambda>offset. pending endpoint ! ((pending_head endpoint + offset) mod MAX_PENDING_CONNECTIONS))
       [0..<pending_count endpoint]"

definition compact_pending :: "ChannelSlot list \<Rightarrow> EndpointSlot \<Rightarrow> EndpointSlot" where
  "compact_pending channels endpoint =
     (let retained = filter (pending_live channels endpoint) (pending_entries endpoint);
          retained_count = length retained
      in endpoint\<lparr>
           pending := map (\<lambda>index. if index < retained_count then retained ! index else 0)
             [0..<MAX_PENDING_CONNECTIONS],
           pending_head := 0,
           pending_tail := retained_count mod MAX_PENDING_CONNECTIONS,
           pending_count := retained_count\<rparr>)"

text \<open>The loop of \<open>cancel_pending\<close>: \<open>n\<close> is \<open>pending_count\<close>, \<open>head\<close> is \<open>pending_head\<close>.\<close>

fun cancel_loop :: "nat \<Rightarrow> nat \<Rightarrow> nat list \<Rightarrow> u64 \<Rightarrow> ChannelSlot list \<Rightarrow> ChannelSlot list" where
  "cancel_loop 0 head pend owner channels = channels"
| "cancel_loop (Suc n) head pend owner channels =
     (let channel_index = pend ! head; head' = (head + 1) mod MAX_PENDING_CONNECTIONS in
      if channel_index \<ge> MAX_CHANNELS then cancel_loop n head' pend owner channels
      else let channel = channels ! channel_index in
        if \<not> ch_active channel \<or> accepted channel \<or> server_pid channel \<noteq> owner
        then cancel_loop n head' pend owner channels
        else cancel_loop n head' pend owner
               (channels[channel_index := maybe_free_channel (channel\<lparr>server_open := False\<rparr>)]))"

definition cancel_pending ::
  "ChannelSlot list \<Rightarrow> EndpointSlot \<Rightarrow> EndpointSlot \<times> ChannelSlot list" where
  "cancel_pending channels endpoint =
     (let e = compact_pending channels endpoint in
      (e\<lparr>pending_head := 0, pending_tail := 0, pending_count := 0\<rparr>,
       cancel_loop (pending_count e) (pending_head e) (pending e) (ep_owner_pid e) channels))"

definition push_message :: "MessageQueue \<Rightarrow> u64 \<Rightarrow> u8 list \<Rightarrow> Status \<times> MessageQueue" where
  "push_message queue sender data =
     (if mq_count queue \<ge> MAX_MESSAGES_PER_DIRECTION then (Status.WouldBlock, queue)
      else (Status.Ok,
        queue\<lparr>messages := (messages queue)[mq_tail queue :=
                \<lparr>sender_pid = sender, msg_size = length data,
                 msg_bytes = data @ replicate (MAX_MESSAGE_SIZE - length data) 0\<rparr>],
              mq_tail := (mq_tail queue + 1) mod MAX_MESSAGES_PER_DIRECTION,
              mq_count := mq_count queue + 1\<rparr>))"

definition pop_message :: "MessageQueue \<Rightarrow> Message \<Rightarrow> Status \<times> Message \<times> MessageQueue" where
  "pop_message queue output =
     (if mq_count queue = 0 then (Status.WouldBlock, output, queue)
      else (Status.Ok, messages queue ! mq_head queue,
        queue\<lparr>messages := (messages queue)[mq_head queue := zero_message],
              mq_head := (mq_head queue + 1) mod MAX_MESSAGES_PER_DIRECTION,
              mq_count := mq_count queue - 1\<rparr>))"

section \<open>Operations\<close>

definition ipc_initialize :: "ipc \<Rightarrow> Status \<times> ipc" where
  "ipc_initialize s =
     (if g_initialized s then (Status.AlreadyInitialized, s)
      else (Status.Ok, ipc_zero\<lparr>g_initialized := True\<rparr>))"

definition ipc_bind ::
  "u64 \<Rightarrow> string option \<Rightarrow> u64 option \<Rightarrow> ServiceMetadata option \<Rightarrow> ipc \<Rightarrow> Status \<times> u64 option \<times> ipc" where
  "ipc_bind owner_pid name endpoint metadata s =
     (let out = map_option (\<lambda>_. INVALID_HANDLE) endpoint in
      if \<not> g_initialized s then (Status.NotInitialized, out, s)
      else if owner_pid = INVALID_PROCESS_ID \<or> endpoint = None then (Status.InvalidArgument, out, s)
      else if validate_name name \<noteq> Status.Ok then (validate_name name, out, s)
      else if (case metadata of None \<Rightarrow> False
               | Some m \<Rightarrow> service_version m = 0 \<or> minimum_client_version m = 0 \<or>
                   minimum_client_version m > service_version m)
      then (Status.InvalidArgument, out, s)
      else if \<exists>slot \<in> set (g_endpoints s). ep_active slot \<and> name_equal slot (the name)
      then (Status.AlreadyExists, out, s)
      else case find_index (\<lambda>slot. \<not> ep_active slot) (g_endpoints s) of
          None \<Rightarrow> (Status.CapacityReached, out, s)
        | Some index \<Rightarrow>
            let generation = next_generation kMaximumGeneration (ep_generation (g_endpoints s ! index));
                slot = zero_endpoint\<lparr>
                  ep_generation := generation,
                  ep_owner_pid := owner_pid,
                  ep_name := the name @ replicate (MAX_SERVICE_NAME + 1 - length (the name)) (CHR 0x00),
                  ep_metadata := (case metadata of None \<Rightarrow> zero_metadata | Some m \<Rightarrow> m),
                  versioned := (metadata \<noteq> None),
                  ep_active := True\<rparr>
            in (Status.Ok, Some (encode_endpoint index generation),
                s\<lparr>g_endpoints := (g_endpoints s)[index := slot]\<rparr>))"

definition ipc_query :: "string option \<Rightarrow> ServiceInfo option \<Rightarrow> ipc \<Rightarrow> Status \<times> ServiceInfo option" where
  "ipc_query name info s =
     (let out = map_option (\<lambda>_. zero_info) info in
      if \<not> g_initialized s then (Status.NotInitialized, out)
      else if info = None then (Status.InvalidArgument, out)
      else if validate_name name \<noteq> Status.Ok then (validate_name name, out)
      else case find_index (\<lambda>slot. ep_active slot \<and> name_equal slot (the name)) (g_endpoints s) of
          None \<Rightarrow> (Status.NotFound, out)
        | Some index \<Rightarrow>
            let slot = g_endpoints s ! index in
            if \<not> versioned slot then (Status.VersionMismatch, out)
            else (Status.Ok, Some \<lparr>
              info_service_version = service_version (ep_metadata slot),
              info_minimum_client_version = minimum_client_version (ep_metadata slot),
              info_capabilities = capabilities (ep_metadata slot),
              info_owner_pid = ep_owner_pid slot\<rparr>))"

text \<open>The version checks of \<open>connect\<close>: an error, or the version selected.\<close>

definition negotiate :: "EndpointSlot \<Rightarrow> ServiceNegotiation option \<Rightarrow> Status + u32" where
  "negotiate endpoint negotiation =
     (case negotiation of
        None \<Rightarrow> Inr 0
      | Some n \<Rightarrow>
          if neg_minimum_version n = 0 \<or> neg_maximum_version n < neg_minimum_version n
          then Inl Status.InvalidArgument
          else if \<not> versioned endpoint then Inl Status.VersionMismatch
          else let lower = (if neg_minimum_version n > minimum_client_version (ep_metadata endpoint)
                            then neg_minimum_version n
                            else minimum_client_version (ep_metadata endpoint));
                   upper = (if neg_maximum_version n < service_version (ep_metadata endpoint)
                            then neg_maximum_version n
                            else service_version (ep_metadata endpoint))
            in if lower > upper then Inl Status.VersionMismatch else Inr upper)"

definition enqueue_pending :: "nat \<Rightarrow> EndpointSlot \<Rightarrow> EndpointSlot" where
  "enqueue_pending index endpoint =
     endpoint\<lparr>pending := (pending endpoint)[pending_tail endpoint := index],
       pending_tail := (pending_tail endpoint + 1) mod MAX_PENDING_CONNECTIONS,
       pending_count := pending_count endpoint + 1\<rparr>"

definition ipc_connect ::
  "u64 \<Rightarrow> string option \<Rightarrow> u64 option \<Rightarrow> ServiceNegotiation option \<Rightarrow> ipc \<Rightarrow>
    Status \<times> u64 option \<times> ServiceNegotiation option \<times> ipc" where
  "ipc_connect pid name channel negotiation s =
     (let out = map_option (\<lambda>_. INVALID_HANDLE) channel in
      if \<not> g_initialized s then (Status.NotInitialized, out, negotiation, s)
      else if pid = INVALID_PROCESS_ID \<or> channel = None
      then (Status.InvalidArgument, out, negotiation, s)
      else if validate_name name \<noteq> Status.Ok then (validate_name name, out, negotiation, s)
      else case find_index (\<lambda>slot. ep_active slot \<and> name_equal slot (the name)) (g_endpoints s) of
          None \<Rightarrow> (Status.NotFound, out, negotiation, s)
        | Some e \<Rightarrow>
            (case negotiate (g_endpoints s ! e) negotiation of
               Inl status \<Rightarrow> (status, out, negotiation, s)
             | Inr selected_version \<Rightarrow>
                 let endpoint = compact_pending (g_channels s) (g_endpoints s ! e);
                     s1 = s\<lparr>g_endpoints := (g_endpoints s)[e := endpoint]\<rparr>
                 in if pending_count endpoint \<ge> MAX_PENDING_CONNECTIONS
                    then (Status.WouldBlock, out, negotiation, s1)
                    else case find_index (\<lambda>slot. \<not> ch_active slot) (g_channels s) of
                        None \<Rightarrow> (Status.CapacityReached, out, negotiation, s1)
                      | Some index \<Rightarrow>
                          let generation = next_generation kMaximumGeneration
                                (ch_generation (g_channels s ! index));
                              slot = zero_channel\<lparr>
                                ch_generation := generation,
                                client_pid := pid,
                                server_pid := ep_owner_pid endpoint,
                                ch_active := True,
                                client_open := True,
                                server_open := True\<rparr>
                          in (Status.Ok, Some (encode_channel index generation False),
                              map_option (\<lambda>n. n\<lparr>
                                neg_selected_version := selected_version,
                                neg_service_version := service_version (ep_metadata endpoint),
                                neg_minimum_client_version := minimum_client_version (ep_metadata endpoint),
                                neg_capabilities := capabilities (ep_metadata endpoint),
                                neg_owner_pid := ep_owner_pid endpoint\<rparr>) negotiation,
                              s\<lparr>g_endpoints := (g_endpoints s)[e := enqueue_pending index endpoint],
                                g_channels := (g_channels s)[index := slot]\<rparr>)))"

text \<open>
  The loop of \<open>accept\<close> over the compacted queue: the first live entry with the queue's head and
  count after it was taken.
\<close>

fun accept_loop :: "ChannelSlot list \<Rightarrow> EndpointSlot \<Rightarrow> nat \<Rightarrow> nat \<Rightarrow> (nat \<times> nat \<times> nat) option" where
  "accept_loop channels endpoint 0 head = None"
| "accept_loop channels endpoint (Suc n) head =
     (let index = pending endpoint ! head; head' = (head + 1) mod MAX_PENDING_CONNECTIONS in
      if \<not> pending_live channels endpoint index then accept_loop channels endpoint n head'
      else Some (index, head', n))"

definition ipc_accept :: "u64 \<Rightarrow> u64 \<Rightarrow> u64 option \<Rightarrow> ipc \<Rightarrow> Status \<times> u64 option \<times> ipc" where
  "ipc_accept pid endpoint_handle channel s =
     (let out = map_option (\<lambda>_. INVALID_HANDLE) channel in
      if \<not> g_initialized s then (Status.NotInitialized, out, s)
      else if pid = INVALID_PROCESS_ID \<or> channel = None then (Status.InvalidArgument, out, s)
      else case decode_endpoint s pid endpoint_handle of
          Inl status \<Rightarrow> (status, out, s)
        | Inr e \<Rightarrow>
            let endpoint = compact_pending (g_channels s) (g_endpoints s ! e) in
            (case accept_loop (g_channels s) endpoint (pending_count endpoint) (pending_head endpoint) of
               None \<Rightarrow> (Status.WouldBlock, out,
                 s\<lparr>g_endpoints := (g_endpoints s)[e := endpoint\<lparr>pending_head := 0, pending_tail := 0,
                     pending_count := 0\<rparr>]\<rparr>)
             | Some (index, head, n) \<Rightarrow>
                 (Status.Ok,
                  Some (encode_channel index (ch_generation (g_channels s ! index)) True),
                  s\<lparr>g_endpoints := (g_endpoints s)[e := endpoint\<lparr>pending_head := head, pending_count := n\<rparr>],
                    g_channels := (g_channels s)[index := (g_channels s ! index)\<lparr>accepted := True\<rparr>]\<rparr>)))"

text \<open>\<open>data\<close> is the buffer and its size; \<open>None\<close> is a null pointer with the size given beside it.\<close>

definition ipc_send :: "u64 \<Rightarrow> u64 \<Rightarrow> u8 list option \<Rightarrow> nat \<Rightarrow> ipc \<Rightarrow> Status \<times> ipc" where
  "ipc_send pid channel_handle data null_size s =
     (let n = (case data of None \<Rightarrow> null_size | Some d \<Rightarrow> length d) in
      if \<not> g_initialized s then (Status.NotInitialized, s)
      else if pid = INVALID_PROCESS_ID \<or> n > MAX_MESSAGE_SIZE \<or> (n \<noteq> 0 \<and> data = None)
      then (Status.InvalidArgument, s)
      else case decode_channel s pid channel_handle of
          Inl status \<Rightarrow> (status, s)
        | Inr (index, server_side) \<Rightarrow>
            let channel = g_channels s ! index;
                peer_open = (if server_side then client_open channel else server_open channel)
            in if \<not> peer_open then (Status.PeerClosed, s)
               else let queue = (if server_side then to_client channel else to_server channel) in
                 case push_message queue pid (case data of None \<Rightarrow> [] | Some d \<Rightarrow> d) of
                   (status, queue') \<Rightarrow>
                     (status, s\<lparr>g_channels := (g_channels s)[index :=
                        (if server_side then channel\<lparr>to_client := queue'\<rparr>
                         else channel\<lparr>to_server := queue'\<rparr>)]\<rparr>))"

definition ipc_receive :: "u64 \<Rightarrow> u64 \<Rightarrow> Message option \<Rightarrow> ipc \<Rightarrow> Status \<times> Message option \<times> ipc" where
  "ipc_receive pid channel_handle message s =
     (let out = map_option (\<lambda>_. zero_message) message in
      if \<not> g_initialized s then (Status.NotInitialized, out, s)
      else if pid = INVALID_PROCESS_ID \<or> message = None then (Status.InvalidArgument, out, s)
      else case decode_channel s pid channel_handle of
          Inl status \<Rightarrow> (status, out, s)
        | Inr (index, server_side) \<Rightarrow>
            let channel = g_channels s ! index;
                queue = (if server_side then to_server channel else to_client channel)
            in case pop_message queue (the out) of
                 (status, m, queue') \<Rightarrow>
                   let s' = s\<lparr>g_channels := (g_channels s)[index :=
                        (if server_side then channel\<lparr>to_server := queue'\<rparr>
                         else channel\<lparr>to_client := queue'\<rparr>)]\<rparr>
                   in if status = Status.WouldBlock
                      then (if (if server_side then client_open channel else server_open channel)
                            then Status.WouldBlock else Status.PeerClosed, Some m, s')
                      else (status, Some m, s'))"

definition close_endpoint :: "nat \<Rightarrow> ipc \<Rightarrow> ipc" where
  "close_endpoint e s =
     (case cancel_pending (g_channels s) (g_endpoints s ! e) of
        (endpoint, channels) \<Rightarrow>
          s\<lparr>g_endpoints := (g_endpoints s)[e := endpoint\<lparr>ep_active := False,
               ep_owner_pid := INVALID_PROCESS_ID, ep_name := (ep_name endpoint)[0 := CHR 0x00]\<rparr>],
            g_channels := channels\<rparr>)"

definition ipc_close :: "u64 \<Rightarrow> u64 \<Rightarrow> ipc \<Rightarrow> Status \<times> ipc" where
  "ipc_close pid handle s =
     (if \<not> g_initialized s then (Status.NotInitialized, s)
      else if pid = INVALID_PROCESS_ID \<or> handle = INVALID_HANDLE then (Status.InvalidArgument, s)
      else if handle AND kKindMask = kKindEndpoint
      then (case decode_endpoint s pid handle of
              Inl status \<Rightarrow> (status, s)
            | Inr e \<Rightarrow> (Status.Ok, close_endpoint e s))
      else if handle AND kKindMask = kKindChannel
      then (case decode_channel s pid handle of
              Inl status \<Rightarrow> (status, s)
            | Inr (index, server_side) \<Rightarrow>
                let channel = g_channels s ! index;
                    channel' = (if server_side then channel\<lparr>server_open := False\<rparr>
                      else if \<not> accepted channel
                           then channel\<lparr>client_open := False, server_open := False\<rparr>
                           else channel\<lparr>client_open := False\<rparr>)
                in (Status.Ok, s\<lparr>g_channels := (g_channels s)[index := maybe_free_channel channel']\<rparr>))
      else (Status.StaleHandle, s))"

definition release_endpoint :: "u64 \<Rightarrow> nat \<Rightarrow> ipc \<Rightarrow> ipc" where
  "release_endpoint pid e s =
     (let endpoint = g_endpoints s ! e in
      if \<not> ep_active endpoint \<or> ep_owner_pid endpoint \<noteq> pid then s else close_endpoint e s)"

definition release_channel :: "u64 \<Rightarrow> ChannelSlot \<Rightarrow> ChannelSlot" where
  "release_channel pid channel =
     (if \<not> ch_active channel then channel
      else let c1 = (if client_pid channel = pid
                     then (if \<not> accepted channel
                           then channel\<lparr>client_open := False, server_open := False\<rparr>
                           else channel\<lparr>client_open := False\<rparr>)
                     else channel);
               c2 = (if server_pid c1 = pid then c1\<lparr>server_open := False\<rparr> else c1)
           in maybe_free_channel c2)"

definition ipc_release_process :: "u64 \<Rightarrow> ipc \<Rightarrow> ipc" where
  "ipc_release_process pid s =
     (if \<not> g_initialized s \<or> pid = INVALID_PROCESS_ID then s
      else let s' = fold (release_endpoint pid) [0..<MAX_ENDPOINTS] s in
        s'\<lparr>g_channels := map (release_channel pid) (g_channels s')\<rparr>)"

fun ipc_status_message :: "Status \<Rightarrow> string" where
  "ipc_status_message Ok = ''ok''"
| "ipc_status_message AlreadyInitialized = ''already initialized''"
| "ipc_status_message NotInitialized = ''not initialized''"
| "ipc_status_message InvalidArgument = ''invalid argument''"
| "ipc_status_message InvalidName = ''invalid service name''"
| "ipc_status_message NameTooLong = ''service name too long''"
| "ipc_status_message AlreadyExists = ''service already exists''"
| "ipc_status_message NotFound = ''service not found''"
| "ipc_status_message StaleHandle = ''stale IPC handle''"
| "ipc_status_message AccessDenied = ''IPC handle owner mismatch''"
| "ipc_status_message CapacityReached = ''IPC capacity reached''"
| "ipc_status_message WouldBlock = ''IPC operation would block''"
| "ipc_status_message VersionMismatch = ''service version mismatch''"
| "ipc_status_message PeerClosed = ''IPC peer closed''"

end
