(* ===== verification/Ipc_Channel_Inv.thy ===== *)
theory Ipc_Channel_Inv
  imports Ipc_Channel
begin

text \<open>
  The invariant of the IPC tables and its preservation.  Handles are instances of the generic
  handle codec and slot table, message queues instances of the bounded queue; on top of them the
  theory shows that every operation keeps the tables well formed, and closes this under every
  sequence of operations.
\<close>

section \<open>Handles\<close>

lemma below_16: "i < 16 \<Longrightarrow> list_all P [0..<16] \<Longrightarrow> P (i :: nat)"
  by (simp add: list_all_iff)

definition endpoint_low :: "nat \<Rightarrow> u64" where
  "endpoint_low i = kKindEndpoint OR of_nat (i + 1)"

definition channel_low :: "nat \<Rightarrow> bool \<Rightarrow> u64" where
  "channel_low i side = kKindChannel OR (if side then kSideMask else 0) OR of_nat (i + 1)"

lemma endpoint_low_fields:
  assumes "i < 16"
  shows "unat (endpoint_low i) < 2 ^ 32" "endpoint_low i AND kKindMask = kKindEndpoint"
    "endpoint_low i AND kSideMask = 0" "unat (endpoint_low i AND kIndexMask) = i + 1"
  by (rule below_16 [OF assms, of "\<lambda>i. unat (endpoint_low i) < 2 ^ 32"]
      below_16 [OF assms, of "\<lambda>i. endpoint_low i AND kKindMask = kKindEndpoint"]
      below_16 [OF assms, of "\<lambda>i. endpoint_low i AND kSideMask = 0"]
      below_16 [OF assms, of "\<lambda>i. unat (endpoint_low i AND kIndexMask) = i + 1"],
    simp add: endpoint_low_def ipc_masks upt_rec)+

lemma channel_low_fields:
  assumes "i < 16"
  shows "unat (channel_low i side) < 2 ^ 32" "channel_low i side AND kKindMask = kKindChannel"
    "channel_low i side AND kSideMask \<noteq> 0 \<longleftrightarrow> side" "unat (channel_low i side AND kIndexMask) = i + 1"
  by (rule below_16 [OF assms, of "\<lambda>i. unat (channel_low i side) < 2 ^ 32"]
      below_16 [OF assms, of "\<lambda>i. channel_low i side AND kKindMask = kKindChannel"]
      below_16 [OF assms, of "\<lambda>i. (channel_low i side AND kSideMask \<noteq> 0) = side"]
      below_16 [OF assms, of "\<lambda>i. unat (channel_low i side AND kIndexMask) = i + 1"],
    cases side; simp add: channel_low_def ipc_masks upt_rec)+

lemma encode_low:
  "encode_endpoint i g = push_bit 32 (ucast g) OR endpoint_low i"
  "encode_channel i g side = push_bit 32 (ucast g) OR channel_low i side"
  by (simp_all only: encode_endpoint_def encode_channel_def endpoint_low_def channel_low_def or.assoc)

lemma mask_bounds:
  "unat kKindMask < 2 ^ 32" "unat kSideMask < 2 ^ 32" "unat kIndexMask < 2 ^ 32"
  by (simp_all add: ipc_masks)

lemma low_and:
  assumes "unat low < 2 ^ 32"
  shows "(push_bit 32 (ucast (g :: u32)) OR low :: u64) AND kKindMask = low AND kKindMask"
    "(push_bit 32 (ucast (g :: u32)) OR low :: u64) AND kSideMask = low AND kSideMask"
    "(push_bit 32 (ucast (g :: u32)) OR low :: u64) AND kIndexMask = low AND kIndexMask"
  by (rule or_push_bit_32 [OF assms] mask_bounds)+

lemma encode_endpoint_fields:
  assumes "i < 16"
  shows "encode_endpoint i g AND kKindMask = kKindEndpoint" "encode_endpoint i g AND kSideMask = 0"
    "decode_index (encode_endpoint i g) MAX_ENDPOINTS = Some i"
    "handle_generation (encode_endpoint i g) = g"
  using endpoint_low_fields(2-4) [OF assms] assms
  unfolding encode_low decode_index_def handle_generation_def MAX_ENDPOINTS_def
    low_and [OF endpoint_low_fields(1) [OF assms]] or_push_bit_32(1) [OF endpoint_low_fields(1) [OF assms]]
  by simp_all

lemma encode_channel_fields:
  assumes "i < 16"
  shows "encode_channel i g side AND kKindMask = kKindChannel"
    "encode_channel i g side AND kSideMask \<noteq> 0 \<longleftrightarrow> side"
    "decode_index (encode_channel i g side) MAX_CHANNELS = Some i"
    "handle_generation (encode_channel i g side) = g"
  using channel_low_fields(2-4) [OF assms, of side] assms
  unfolding encode_low decode_index_def handle_generation_def MAX_CHANNELS_def
    low_and [OF channel_low_fields(1) [OF assms]] or_push_bit_32(1) [OF channel_low_fields(1) [OF assms]]
  by simp_all

lemma kinds_distinct: "kKindEndpoint \<noteq> kKindChannel" "kKindEndpoint \<noteq> 0" "kKindChannel \<noteq> 0"
  by (simp_all add: ipc_masks)

definition endpoint_index :: "u64 \<Rightarrow> nat option" where
  "endpoint_index h =
     (if h AND kKindMask \<noteq> kKindEndpoint \<or> h AND kSideMask \<noteq> 0 then None
      else decode_index h MAX_ENDPOINTS)"

definition channel_index :: "u64 \<Rightarrow> nat option" where
  "channel_index h = (if h AND kKindMask \<noteq> kKindChannel then None else decode_index h MAX_CHANNELS)"

lemma decode_index_bound: "decode_index h m = Some i \<Longrightarrow> i < m"
  by (auto simp: decode_index_def Let_def split: if_splits)

interpretation ep: slot_table encode_endpoint endpoint_index handle_generation MAX_ENDPOINTS
    kMaximumGeneration ep_active ep_generation
proof unfold_locales
  show "1 \<le> kMaximumGeneration" by (simp add: kMaximumGeneration_def)
  show "endpoint_index (encode_endpoint i g) = Some i" if "i < MAX_ENDPOINTS" for i g
    using that encode_endpoint_fields [of i g] by (simp add: endpoint_index_def MAX_ENDPOINTS_def)
  show "handle_generation (encode_endpoint i g) = g" if "i < MAX_ENDPOINTS" for i g
    using that encode_endpoint_fields [of i g] by (simp add: MAX_ENDPOINTS_def)
  show "i < MAX_ENDPOINTS" if "endpoint_index h = Some i" for h i
    using that by (auto simp: endpoint_index_def decode_index_bound split: if_splits)
  show "encode_endpoint i g \<noteq> 0" if "i < MAX_ENDPOINTS" for i g
    using that encode_endpoint_fields(1) [of i g] kinds_distinct by (auto simp: MAX_ENDPOINTS_def)
qed

interpretation ch: slot_table "\<lambda>i g. encode_channel i g side" channel_index handle_generation MAX_CHANNELS
    kMaximumGeneration ch_active ch_generation
  for side
proof unfold_locales
  show "1 \<le> kMaximumGeneration" by (simp add: kMaximumGeneration_def)
  show "channel_index (encode_channel i g side) = Some i" if "i < MAX_CHANNELS" for i g
    using that encode_channel_fields [of i g] by (simp add: channel_index_def MAX_CHANNELS_def)
  show "handle_generation (encode_channel i g side) = g" if "i < MAX_CHANNELS" for i g
    using that encode_channel_fields [of i g] by (simp add: MAX_CHANNELS_def)
  show "i < MAX_CHANNELS" if "channel_index h = Some i" for h i
    using that by (auto simp: channel_index_def decode_index_bound split: if_splits)
  show "encode_channel i g side \<noteq> 0" if "i < MAX_CHANNELS" for i g
    using that encode_channel_fields(1) [of i g side] kinds_distinct by (auto simp: MAX_CHANNELS_def)
qed

text \<open>The source's decoders are resolution in the slot table followed by the ownership check.\<close>

lemma decode_endpoint_resolve:
  "decode_endpoint s pid h = Inr i \<longleftrightarrow>
    resolve endpoint_index handle_generation ep_active ep_generation (g_endpoints s) h = Some i \<and>
    ep_owner_pid (g_endpoints s ! i) = pid"
  by (auto simp: decode_endpoint_def endpoint_index_def resolve_def Let_def split: option.splits if_splits)

lemma decode_channel_resolve:
  "decode_channel s pid h = Inr (i, server) \<longleftrightarrow>
    resolve channel_index handle_generation ch_active ch_generation (g_channels s) h = Some i \<and>
    server = (h AND kSideMask \<noteq> 0) \<and>
    (if server then server_pid (g_channels s ! i) = pid \<and> server_open (g_channels s ! i)
     else client_pid (g_channels s ! i) = pid \<and> client_open (g_channels s ! i))"
  by (auto simp: decode_channel_def channel_index_def resolve_def Let_def split: option.splits if_splits)

lemma decode_endpointD:
  assumes "decode_endpoint s pid h = Inr i"
  shows "i < MAX_ENDPOINTS" "ep_active (g_endpoints s ! i)" "ep_owner_pid (g_endpoints s ! i) = pid"
  using assms ep.resolve_bound [of "g_endpoints s" h i] by (auto simp: decode_endpoint_resolve)

lemma decode_channelD:
  assumes "decode_channel s pid h = Inr (i, server)"
  shows "i < MAX_CHANNELS" "ch_active (g_channels s ! i)"
    "server \<Longrightarrow> server_pid (g_channels s ! i) = pid" "server \<Longrightarrow> server_open (g_channels s ! i)"
    "\<not> server \<Longrightarrow> client_pid (g_channels s ! i) = pid" "\<not> server \<Longrightarrow> client_open (g_channels s ! i)"
  using assms ch.resolve_bound [of "g_channels s" h i] by (auto simp: decode_channel_resolve split: if_splits)

section \<open>Message queues\<close>

definition message_of :: "u64 \<Rightarrow> u8 list \<Rightarrow> Message" where
  "message_of sender data =
     \<lparr>sender_pid = sender, msg_size = length data,
      msg_bytes = data @ replicate (MAX_MESSAGE_SIZE - length data) 0\<rparr>"

definition mq_inv :: "MessageQueue \<Rightarrow> bool" where
  "mq_inv q \<longleftrightarrow> length (messages q) = MAX_MESSAGES_PER_DIRECTION \<and>
     mq_head q < MAX_MESSAGES_PER_DIRECTION \<and> mq_count q \<le> MAX_MESSAGES_PER_DIRECTION \<and>
     mq_tail q = (mq_head q + mq_count q) mod MAX_MESSAGES_PER_DIRECTION"

definition mq_list :: "MessageQueue \<Rightarrow> Message list" where
  "mq_list q = ring_contents (messages q) (mq_head q) (mq_count q)"

lemma length_mq_list [simp]: "length (mq_list q) = mq_count q"
  by (simp add: mq_list_def)

lemma zero_queue_inv [simp]: "mq_inv zero_queue" "mq_list zero_queue = []"
  by (simp_all add: mq_inv_def zero_queue_def mq_list_def MAX_MESSAGES_PER_DIRECTION_def)

lemma push_message_room:
  assumes "mq_inv q" "mq_count q < MAX_MESSAGES_PER_DIRECTION"
  shows "fst (push_message q sender data) = Status.Ok"
    "mq_list (snd (push_message q sender data)) = mq_list q @ [message_of sender data]"
    "mq_inv (snd (push_message q sender data))"
proof -
  have "mq_count q < length (messages q)" using assms by (simp add: mq_inv_def)
  from ring_contents_push [OF this, of "mq_head q" "message_of sender data"] assms
  show "mq_list (snd (push_message q sender data)) = mq_list q @ [message_of sender data]"
    by (simp add: push_message_def mq_list_def mq_inv_def message_of_def)
  show "fst (push_message q sender data) = Status.Ok" using assms(2) by (simp add: push_message_def)
  have "((mq_head q + mq_count q) mod MAX_MESSAGES_PER_DIRECTION + 1) mod MAX_MESSAGES_PER_DIRECTION
      = (mq_head q + (mq_count q + 1)) mod MAX_MESSAGES_PER_DIRECTION"
    by (simp add: mod_Suc_eq)
  with assms show "mq_inv (snd (push_message q sender data))"
    by (simp add: push_message_def mq_inv_def)
qed

lemma push_message_full:
  "mq_count q \<ge> MAX_MESSAGES_PER_DIRECTION \<Longrightarrow> push_message q sender data = (Status.WouldBlock, q)"
  by (simp add: push_message_def)

lemma pop_message_some:
  assumes "mq_inv q" "0 < mq_count q"
  shows "fst (pop_message q out) = Status.Ok"
    "fst (snd (pop_message q out)) # mq_list (snd (snd (pop_message q out))) = mq_list q"
    "mq_inv (snd (snd (pop_message q out)))"
proof -
  have q: "length (messages q) = 4" "mq_head q < 4" "mq_count q \<le> 4"
    using assms by (simp_all add: mq_inv_def MAX_MESSAGES_PER_DIRECTION_def)
  show "fst (pop_message q out) = Status.Ok" using assms(2) by (simp add: pop_message_def)
  have "mq_list q = messages q ! mq_head q # ring_contents (messages q) ((mq_head q + 1) mod 4) (mq_count q - 1)"
    using ring_contents_pop [of "mq_count q" "mq_head q" "messages q"] q assms(2) by (simp add: mq_list_def)
  moreover have "ring_contents ((messages q)[mq_head q := zero_message]) ((mq_head q + 1) mod 4) (mq_count q - 1)
      = ring_contents (messages q) ((mq_head q + 1) mod 4) (mq_count q - 1)"
    using ring_contents_update_outside [of "mq_count q - 1" "messages q" "mq_head q" zero_message] q assms(2)
    by simp
  ultimately show "fst (snd (pop_message q out)) # mq_list (snd (snd (pop_message q out))) = mq_list q"
    using assms(2) by (simp add: pop_message_def mq_list_def MAX_MESSAGES_PER_DIRECTION_def)
  have "((mq_head q + 1) mod 4 + (mq_count q - 1)) mod 4 = (mq_head q + mq_count q) mod 4"
    using assms(2) mod_add_left_eq [of "mq_head q + 1" 4 "mq_count q - 1"] by simp
  with assms q show "mq_inv (snd (snd (pop_message q out)))"
    by (simp add: pop_message_def mq_inv_def MAX_MESSAGES_PER_DIRECTION_def)
qed

lemma pop_message_none: "mq_count q = 0 \<Longrightarrow> pop_message q out = (Status.WouldBlock, out, q)"
  by (simp add: pop_message_def)

text \<open>The two calls as a bounded queue of messages of one sender.\<close>

definition mq_push_reply :: "u64 \<Rightarrow> u8 list \<Rightarrow> MessageQueue \<Rightarrow> u8 list fifo_reply \<times> MessageQueue" where
  "mq_push_reply sender data q =
     (case push_message q sender data of (st, q') \<Rightarrow> (if st = Status.Ok then Accepted else Refused, q'))"

definition mq_pop_reply :: "Message \<Rightarrow> MessageQueue \<Rightarrow> u8 list fifo_reply \<times> MessageQueue" where
  "mq_pop_reply out q =
     (case pop_message q out of (st, m, q') \<Rightarrow>
        (if st = Status.Ok then Got (take (msg_size m) (msg_bytes m)) else Empty, q'))"

definition mq_payloads :: "MessageQueue \<Rightarrow> u8 list list" where
  "mq_payloads q = map (\<lambda>m. take (msg_size m) (msg_bytes m)) (mq_list q)"

lemma message_of_payload: "take (msg_size (message_of p d)) (msg_bytes (message_of p d)) = d"
  by (simp add: message_of_def)

interpretation mq: bounded_fifo mq_inv mq_payloads MAX_MESSAGES_PER_DIRECTION "mq_push_reply sender"
    "mq_pop_reply out"
  for sender out
proof unfold_locales
  fix q :: MessageQueue and x xs
  assume inv: "mq_inv q"
  show "fst (mq_push_reply sender x q) = Accepted \<and>
      mq_payloads (snd (mq_push_reply sender x q)) = mq_payloads q @ [x]"
    if "length (mq_payloads q) < MAX_MESSAGES_PER_DIRECTION"
    using push_message_room [OF inv, of sender x] that message_of_payload [of sender x]
    by (auto simp: mq_push_reply_def mq_payloads_def split: prod.splits)
  show "fst (mq_push_reply sender x q) = Refused \<and> mq_payloads (snd (mq_push_reply sender x q)) = mq_payloads q"
    if "\<not> length (mq_payloads q) < MAX_MESSAGES_PER_DIRECTION"
    using that push_message_full [of q sender x] by (simp add: mq_push_reply_def mq_payloads_def)
  show "fst (mq_pop_reply out q) = Got x \<and> mq_payloads (snd (mq_pop_reply out q)) = xs"
    if "mq_payloads q = x # xs"
  proof -
    have "0 < mq_count q" using arg_cong [OF that, of length] by (simp add: mq_payloads_def)
    from pop_message_some [OF inv this, of out] that show ?thesis
      by (auto simp: mq_pop_reply_def mq_payloads_def split: prod.splits)
  qed
  show "mq_pop_reply out q = (Empty, q)" if "mq_payloads q = []"
    using that pop_message_none [of q out] length_mq_list [of q]
    by (simp add: mq_pop_reply_def mq_payloads_def del: length_mq_list)
  show "mq_inv (snd (mq_push_reply sender x q))"
    using push_message_room(3) [OF inv, of sender x] push_message_full [of q sender x] inv
    by (cases "mq_count q < MAX_MESSAGES_PER_DIRECTION")
       (auto simp: mq_push_reply_def split: prod.splits)
  show "mq_inv (snd (mq_pop_reply out q))"
    using pop_message_some(3) [OF inv, of out] pop_message_none [of q out] inv
    by (cases "mq_count q = 0") (auto simp: mq_pop_reply_def split: prod.splits)
qed

section \<open>The pending-connection queue of an endpoint\<close>

definition ep_ring_inv :: "EndpointSlot \<Rightarrow> bool" where
  "ep_ring_inv e \<longleftrightarrow> length (pending e) = MAX_PENDING_CONNECTIONS \<and>
     pending_head e < MAX_PENDING_CONNECTIONS \<and> pending_count e \<le> MAX_PENDING_CONNECTIONS \<and>
     pending_tail e = (pending_head e + pending_count e) mod MAX_PENDING_CONNECTIONS \<and>
     (\<forall>x \<in> set (pending e). x < MAX_CHANNELS)"

lemma pending_entries_ring:
  "ep_ring_inv e \<Longrightarrow> pending_entries e = ring_contents (pending e) (pending_head e) (pending_count e)"
  by (simp add: pending_entries_def ring_contents_def ep_ring_inv_def)

lemma length_pending_entries [simp]: "length (pending_entries e) = pending_count e"
  by (simp add: pending_entries_def)

lemma compact_pending_fields [simp]:
  "ep_generation (compact_pending chs e) = ep_generation e"
  "ep_owner_pid (compact_pending chs e) = ep_owner_pid e"
  "ep_name (compact_pending chs e) = ep_name e"
  "ep_metadata (compact_pending chs e) = ep_metadata e"
  "versioned (compact_pending chs e) = versioned e"
  "ep_active (compact_pending chs e) = ep_active e"
  "pending_head (compact_pending chs e) = 0"
  "length (pending (compact_pending chs e)) = MAX_PENDING_CONNECTIONS"
  "pending_count (compact_pending chs e) =
     length (filter (pending_live chs e) (pending_entries e))"
  by (simp_all add: compact_pending_def Let_def)

lemma pending_live_owner: "ep_owner_pid e' = ep_owner_pid e \<Longrightarrow> pending_live chs e' = pending_live chs e"
  by (simp add: pending_live_def fun_eq_iff)

lemma compacted_nth:
  "k < length (filter (pending_live chs e) (pending_entries e)) \<Longrightarrow> ep_ring_inv e \<Longrightarrow>
    pending (compact_pending chs e) ! k = filter (pending_live chs e) (pending_entries e) ! k"
  using length_filter_le [of "pending_live chs e" "pending_entries e"]
  by (simp add: compact_pending_def Let_def ep_ring_inv_def)

lemma compact_pending_entries:
  assumes "ep_ring_inv e"
  shows "pending_entries (compact_pending chs e) = filter (pending_live chs e) (pending_entries e)"
proof (rule nth_equalityI)
  fix k assume "k < length (pending_entries (compact_pending chs e))"
  then have k: "k < length (filter (pending_live chs e) (pending_entries e))" by simp
  moreover have "k < MAX_PENDING_CONNECTIONS"
    using k length_filter_le [of "pending_live chs e" "pending_entries e"] assms
    by (simp add: ep_ring_inv_def)
  ultimately show "pending_entries (compact_pending chs e) ! k
      = filter (pending_live chs e) (pending_entries e) ! k"
    using compacted_nth [OF k assms] by (simp add: pending_entries_def [of "compact_pending chs e"])
qed simp

lemma pending_live_bound: "pending_live chs e x \<Longrightarrow> x < MAX_CHANNELS"
  by (auto simp: pending_live_def split: if_splits)

lemma compact_pending_ring:
  assumes "ep_ring_inv e"
  shows "ep_ring_inv (compact_pending chs e)"
proof -
  let ?r = "filter (pending_live chs e) (pending_entries e)"
  have "length ?r \<le> MAX_PENDING_CONNECTIONS"
    using length_filter_le [of "pending_live chs e" "pending_entries e"] assms
    by (simp add: ep_ring_inv_def)
  moreover have "\<forall>x \<in> set (pending (compact_pending chs e)). x < MAX_CHANNELS"
  proof
    fix x assume "x \<in> set (pending (compact_pending chs e))"
    then have "\<exists>k. x = (if k < length ?r then ?r ! k else 0)"
      unfolding compact_pending_def Let_def by (simp add: image_iff) blast
    then obtain k where "x = (if k < length ?r then ?r ! k else 0)" ..
    then have "x = 0 \<or> x \<in> set ?r" using nth_mem [of k ?r] by (cases "k < length ?r") simp_all
    then show "x < MAX_CHANNELS"
      by (auto simp: MAX_CHANNELS_def dest: pending_live_bound)
  qed
  ultimately show ?thesis
    by (simp add: ep_ring_inv_def MAX_PENDING_CONNECTIONS_def) (simp add: compact_pending_def Let_def MAX_PENDING_CONNECTIONS_def)
qed

lemma compacted_live:
  "ep_ring_inv e \<Longrightarrow> x \<in> set (pending_entries (compact_pending chs e)) \<Longrightarrow> pending_live chs e x"
  by (simp add: compact_pending_entries)

lemma enqueue_pending_fields [simp]:
  "ep_generation (enqueue_pending i e) = ep_generation e"
  "ep_owner_pid (enqueue_pending i e) = ep_owner_pid e"
  "ep_name (enqueue_pending i e) = ep_name e"
  "ep_metadata (enqueue_pending i e) = ep_metadata e"
  "versioned (enqueue_pending i e) = versioned e"
  "ep_active (enqueue_pending i e) = ep_active e"
  by (simp_all add: enqueue_pending_def)

lemma enqueue_pending_ring:
  assumes "ep_ring_inv e" "pending_count e < MAX_PENDING_CONNECTIONS" "i < MAX_CHANNELS"
  shows "ep_ring_inv (enqueue_pending i e)"
    "pending_entries (enqueue_pending i e) = pending_entries e @ [i]"
proof -
  have tail: "((pending_head e + pending_count e) mod MAX_PENDING_CONNECTIONS + 1) mod MAX_PENDING_CONNECTIONS
      = (pending_head e + (pending_count e + 1)) mod MAX_PENDING_CONNECTIONS"
    by (simp add: mod_Suc_eq)
  have "set ((pending e)[pending_tail e := i]) \<subseteq> insert i (set (pending e))"
    by (rule set_update_subset_insert)
  with assms tail show inv: "ep_ring_inv (enqueue_pending i e)"
    by (auto simp: ep_ring_inv_def enqueue_pending_def)
  show "pending_entries (enqueue_pending i e) = pending_entries e @ [i]"
    using ring_contents_push [of "pending_count e" "pending e" "pending_head e" i] assms
    unfolding pending_entries_ring [OF inv] pending_entries_ring [OF assms(1)]
    by (simp add: ep_ring_inv_def enqueue_pending_def)
qed

lemma accept_loop_live:
  assumes "n = 0 \<or> pending_live chs e (pending e ! head)"
  shows "accept_loop chs e n head =
    (if n = 0 then None
     else Some (pending e ! head, (head + 1) mod MAX_PENDING_CONNECTIONS, n - 1))"
  using assms by (cases n) (simp_all add: Let_def)

text \<open>On a compacted queue the loop of \<open>accept\<close> takes the first entry.\<close>

lemma accept_loop_compacted:
  assumes "ep_ring_inv e"
  shows "accept_loop chs (compact_pending chs e) (pending_count (compact_pending chs e)) 0 =
    (case filter (pending_live chs e) (pending_entries e) of
       [] \<Rightarrow> None
     | x # xs \<Rightarrow> Some (x, 1, length xs))"
proof (cases "filter (pending_live chs e) (pending_entries e)")
  case Nil
  then show ?thesis by simp
next
  case (Cons x xs)
  then have x: "pending (compact_pending chs e) ! 0 = x"
    using compacted_nth [OF _ assms, of 0 chs] by simp
  have "x \<in> set (filter (pending_live chs e) (pending_entries e))" by (simp add: Cons)
  then have "pending_live chs (compact_pending chs e) x"
    by (simp add: pending_live_owner [of "compact_pending chs e" e])
  with Cons x show ?thesis
    using accept_loop_live [of "length (x # xs)" chs "compact_pending chs e" 0]
    by (simp add: MAX_PENDING_CONNECTIONS_def)
qed

lemma dequeue_pending_ring:
  assumes "ep_ring_inv e" "pending_entries e = x # xs"
  shows "ep_ring_inv (e\<lparr>pending_head := (pending_head e + 1) mod MAX_PENDING_CONNECTIONS,
      pending_count := length xs\<rparr>)" (is "ep_ring_inv ?e")
    "pending_entries (e\<lparr>pending_head := (pending_head e + 1) mod MAX_PENDING_CONNECTIONS,
      pending_count := length xs\<rparr>) = xs"
proof -
  have n: "pending_count e = Suc (length xs)"
    using arg_cong [OF assms(2), of length] by simp
  have "((pending_head e + 1) mod MAX_PENDING_CONNECTIONS + length xs) mod MAX_PENDING_CONNECTIONS
      = (pending_head e + Suc (length xs)) mod MAX_PENDING_CONNECTIONS"
    using mod_add_left_eq [of "pending_head e + 1" MAX_PENDING_CONNECTIONS "length xs"] by simp
  with assms n show inv: "ep_ring_inv ?e"
    by (simp add: ep_ring_inv_def MAX_PENDING_CONNECTIONS_def)
  show "pending_entries ?e = xs"
    using ring_contents_pop [of "pending_count e" "pending_head e" "pending e"] assms n
    unfolding pending_entries_ring [OF inv] pending_entries_ring [OF assms(1)]
    by (simp add: ep_ring_inv_def)
qed

text \<open>Cancelling: the loop visits the entries in order.\<close>

definition cancel_one :: "u64 \<Rightarrow> nat \<Rightarrow> ChannelSlot list \<Rightarrow> ChannelSlot list" where
  "cancel_one owner x chs =
     (if x \<ge> MAX_CHANNELS \<or> \<not> ch_active (chs ! x) \<or> accepted (chs ! x) \<or> server_pid (chs ! x) \<noteq> owner
      then chs else chs[x := maybe_free_channel ((chs ! x)\<lparr>server_open := False\<rparr>)])"

lemma cancel_loop_fold:
  "head < MAX_PENDING_CONNECTIONS \<Longrightarrow>
    cancel_loop n head pend owner chs =
    fold (cancel_one owner) (map (\<lambda>k. pend ! ((head + k) mod MAX_PENDING_CONNECTIONS)) [0..<n]) chs"
proof (induction n head pend owner chs rule: cancel_loop.induct)
  case (2 n head pend owner chs)
  have e: "map (\<lambda>k. pend ! ((head + k) mod MAX_PENDING_CONNECTIONS)) [0..<Suc n] =
      pend ! head # map (\<lambda>k. pend ! (((head + 1) mod MAX_PENDING_CONNECTIONS + k) mod MAX_PENDING_CONNECTIONS)) [0..<n]"
    using 2(4) by (simp add: map_upt_Suc mod_simps del: upt_Suc)
  have h: "(head + 1) mod MAX_PENDING_CONNECTIONS < MAX_PENDING_CONNECTIONS"
    by (simp add: MAX_PENDING_CONNECTIONS_def)
  show ?case
    using 2(1) [OF refl refl _ h] 2(2) [OF refl refl _ refl _ h] 2(3) [OF refl refl _ refl _ h]
    unfolding e by (auto simp: Let_def cancel_one_def not_le)
qed simp

definition cancelled :: "nat list \<Rightarrow> ChannelSlot list \<Rightarrow> ChannelSlot list" where
  "cancelled xs chs =
     map (\<lambda>j. if j \<in> set xs then (chs ! j)\<lparr>server_open := False\<rparr> else chs ! j) [0..<length chs]"

lemma fold_cancel_one:
  assumes "\<forall>x \<in> set xs. x < MAX_CHANNELS \<and> ch_active (chs ! x) \<and> \<not> accepted (chs ! x) \<and>
      client_open (chs ! x) \<and> server_pid (chs ! x) = owner" "length chs = MAX_CHANNELS"
  shows "fold (cancel_one owner) xs chs = cancelled xs chs"
  using assms
proof (induction xs arbitrary: chs)
  case Nil
  show ?case by (simp add: cancelled_def map_nth)
next
  case (Cons x xs)
  let ?chs = "chs[x := (chs ! x)\<lparr>server_open := False\<rparr>]"
  have one: "cancel_one owner x chs = ?chs"
    using Cons.prems by (simp add: cancel_one_def maybe_free_channel_def)
  have "fold (cancel_one owner) xs ?chs = cancelled xs ?chs"
    using Cons.prems by (intro Cons.IH) (auto simp: nth_list_update)
  also have "\<dots> = cancelled (x # xs) chs"
    using Cons.prems by (auto simp: cancelled_def nth_list_update)
  finally show ?case by (simp add: one)
qed

lemma cancel_pending_eq:
  assumes "ep_ring_inv e" "length chs = MAX_CHANNELS"
  shows "cancel_pending chs e =
    ((compact_pending chs e)\<lparr>pending_tail := 0, pending_count := 0\<rparr>,
     cancelled (filter (pending_live chs e) (pending_entries e)) chs)"
proof -
  let ?r = "filter (pending_live chs e) (pending_entries e)"
  have "map (\<lambda>k. pending (compact_pending chs e) ! ((0 + k) mod MAX_PENDING_CONNECTIONS))
      [0..<pending_count (compact_pending chs e)] = ?r"
    using compact_pending_entries [OF assms(1), of chs] by (simp add: pending_entries_def)
  moreover have "\<forall>x \<in> set ?r. x < MAX_CHANNELS \<and> ch_active (chs ! x) \<and> \<not> accepted (chs ! x) \<and>
      client_open (chs ! x) \<and> server_pid (chs ! x) = ep_owner_pid e"
    by (auto simp: pending_live_def Let_def split: if_splits)
  ultimately have "cancel_loop (pending_count (compact_pending chs e)) 0 (pending (compact_pending chs e))
      (ep_owner_pid e) chs = cancelled ?r chs"
    using cancel_loop_fold [of 0] fold_cancel_one [OF _ assms(2)] by (simp add: MAX_PENDING_CONNECTIONS_def)
  then show ?thesis by (simp add: cancel_pending_def Let_def)
qed

end
