(* ===== verification/Ipc_Channel_Safety.thy ===== *)
theory Ipc_Channel_Safety
  imports Ipc_Channel_Inv
begin

text \<open>
  Safety of the IPC service: the invariant of the endpoint and channel tables, its preservation by
  every public operation, and the properties of the operations that follow from it.
\<close>

section \<open>The invariant\<close>

definition pad_name :: "string \<Rightarrow> string" where
  "pad_name n = n @ replicate (MAX_SERVICE_NAME + 1 - length n) (CHR 0x00)"

definition valid_name :: "string \<Rightarrow> bool" where
  "valid_name n \<longleftrightarrow> n \<noteq> [] \<and> length n \<le> MAX_SERVICE_NAME \<and> (\<forall>c \<in> set n. valid_name_character c)"

lemma valid_name_character_nonzero: "\<not> valid_name_character (CHR 0x00)"
  by code_simp

lemma validate_name_Ok: "validate_name nm = Status.Ok \<longleftrightarrow> (\<exists>n. nm = Some n \<and> valid_name n)"
  using valid_name_character_nonzero
  by (cases nm) (auto simp: validate_name_def valid_name_def)

lemma stored_length_pad:
  assumes "valid_name n"
  shows "stored_length (pad_name n) = length n"
proof -
  have nz: "c \<noteq> CHR 0x00" if "c \<in> set n" for c
    using that assms valid_name_character_nonzero by (auto simp: valid_name_def)
  have "take (MAX_SERVICE_NAME + 1) (pad_name n) = pad_name n"
    using assms by (simp add: pad_name_def valid_name_def)
  moreover have "takeWhile (\<lambda>c. c \<noteq> CHR 0x00) (pad_name n) = n"
    using nz by (cases "MAX_SERVICE_NAME + 1 - length n") (simp_all add: pad_name_def takeWhile_append2)
  ultimately show ?thesis by (simp add: stored_length_def)
qed

lemma name_equal_pad:
  assumes "valid_name n" "ep_name e = pad_name n"
  shows "name_equal e m \<longleftrightarrow> m = n"
  using stored_length_pad [OF assms(1)] assms(2)
  by (auto simp: name_equal_def pad_name_def)

lemma pad_name_inject: "valid_name n \<Longrightarrow> valid_name m \<Longrightarrow> pad_name n = pad_name m \<longleftrightarrow> n = m"
  by (metis append_eq_append_conv pad_name_def stored_length_pad)

definition valid_metadata :: "ServiceMetadata \<Rightarrow> bool" where
  "valid_metadata m \<longleftrightarrow>
     1 \<le> minimum_client_version m \<and> minimum_client_version m \<le> service_version m"

definition ep_inv :: "EndpointSlot \<Rightarrow> bool" where
  "ep_inv e \<longleftrightarrow> ep_ring_inv e \<and> distinct (pending_entries e) \<and> length (ep_name e) = MAX_SERVICE_NAME + 1 \<and>
     (if ep_active e
      then ep_owner_pid e \<noteq> INVALID_PROCESS_ID \<and>
        valid_generation kMaximumGeneration (ep_generation e) \<and>
        (\<exists>n. valid_name n \<and> ep_name e = pad_name n) \<and>
        (versioned e \<longrightarrow> valid_metadata (ep_metadata e))
      else ep_owner_pid e = INVALID_PROCESS_ID \<and> ep_name e ! 0 = CHR 0x00 \<and> pending_count e = 0)"

lemma pending_count_0: "pending_count e = 0 \<Longrightarrow> pending_entries e = []"
  by (simp add: pending_entries_def)

text \<open>
  \<open>authentic pid q\<close>: what waits in \<open>q\<close> carries the sender identity \<open>pid\<close>, and is the payload
  that was passed, zero padded.
\<close>

definition authentic :: "u64 \<Rightarrow> MessageQueue \<Rightarrow> bool" where
  "authentic pid q \<longleftrightarrow>
     (\<forall>m \<in> set (mq_list q). \<exists>d. length d \<le> MAX_MESSAGE_SIZE \<and> m = message_of pid d)"

definition ch_inv :: "ChannelSlot \<Rightarrow> bool" where
  "ch_inv c \<longleftrightarrow>
     mq_inv (to_server c) \<and> mq_inv (to_client c) \<and>
     authentic (client_pid c) (to_server c) \<and> authentic (server_pid c) (to_client c) \<and>
     (if ch_active c
      then client_pid c \<noteq> INVALID_PROCESS_ID \<and> server_pid c \<noteq> INVALID_PROCESS_ID \<and>
        valid_generation kMaximumGeneration (ch_generation c) \<and>
        (client_open c \<or> server_open c) \<and> (\<not> accepted c \<longrightarrow> client_open c)
      else c = zero_channel\<lparr>ch_generation := ch_generation c\<rparr>)"

definition unique_names :: "EndpointSlot list \<Rightarrow> bool" where
  "unique_names eps \<longleftrightarrow>
     (\<forall>i < length eps. \<forall>j < length eps. ep_active (eps ! i) \<and> ep_active (eps ! j) \<and>
        ep_name (eps ! i) = ep_name (eps ! j) \<longrightarrow> i = j)"

definition ipc_inv :: "ipc \<Rightarrow> bool" where
  "ipc_inv s \<longleftrightarrow>
     length (g_endpoints s) = MAX_ENDPOINTS \<and> length (g_channels s) = MAX_CHANNELS \<and>
     (\<forall>e \<in> set (g_endpoints s). ep_inv e) \<and> (\<forall>c \<in> set (g_channels s). ch_inv c) \<and>
     unique_names (g_endpoints s)"

lemma ipc_inv_nth:
  assumes "ipc_inv s"
  shows "i < MAX_ENDPOINTS \<Longrightarrow> ep_inv (g_endpoints s ! i)" "j < MAX_CHANNELS \<Longrightarrow> ch_inv (g_channels s ! j)"
  using assms by (auto simp: ipc_inv_def)

lemma ipc_inv_channels:
  "ipc_inv s \<Longrightarrow> length chs = MAX_CHANNELS \<Longrightarrow> \<forall>c \<in> set chs. ch_inv c \<Longrightarrow> ipc_inv (s\<lparr>g_channels := chs\<rparr>)"
  by (simp add: ipc_inv_def)

lemma ipc_inv_channel:
  "ipc_inv s \<Longrightarrow> ch_inv c \<Longrightarrow> ipc_inv (s\<lparr>g_channels := (g_channels s)[i := c]\<rparr>)"
  using set_update_subset_insert [of "g_channels s" i c] by (auto simp: ipc_inv_def)

lemma unique_names_update:
  assumes "unique_names eps" "i < length eps"
    and "ep_active e \<Longrightarrow> ep_active (eps ! i) \<and> ep_name e = ep_name (eps ! i) \<or>
      (\<forall>x \<in> set eps. ep_active x \<longrightarrow> ep_name x \<noteq> ep_name e)"
  shows "unique_names (eps[i := e])"
  using assms unfolding unique_names_def
  by (auto simp: nth_list_update all_set_conv_all_nth split: if_splits)

lemma ipc_inv_endpoint:
  assumes "ipc_inv s" "i < MAX_ENDPOINTS" "ep_inv e"
    and "ep_active e \<Longrightarrow> ep_active (g_endpoints s ! i) \<and> ep_name e = ep_name (g_endpoints s ! i) \<or>
      (\<forall>x \<in> set (g_endpoints s). ep_active x \<longrightarrow> ep_name x \<noteq> ep_name e)"
  shows "ipc_inv (s\<lparr>g_endpoints := (g_endpoints s)[i := e]\<rparr>)"
  using assms set_update_subset_insert [of "g_endpoints s" i e] unique_names_update [of "g_endpoints s" i e]
  by (auto simp: ipc_inv_def)

lemma zero_slots_inv:
  "ch_inv (zero_channel\<lparr>ch_generation := g\<rparr>)" "ep_ring_inv zero_endpoint" "ep_inv zero_endpoint"
  by (simp_all add: ch_inv_def zero_channel_def authentic_def ep_inv_def ep_ring_inv_def
      zero_endpoint_def ipc_sizes pending_count_0)

lemma ipc_zero_inv: "ipc_inv ipc_zero" "ipc_inv (ipc_zero\<lparr>g_initialized := b\<rparr>)"
  using zero_slots_inv(1) [of 0] zero_slots_inv(3)
  by (simp_all add: ipc_inv_def ipc_zero_def unique_names_def zero_endpoint_def)
     (simp_all add: zero_channel_def)

lemma compact_pending_inv: "ep_inv e \<Longrightarrow> ep_inv (compact_pending chs e)"
  by (auto simp: ep_inv_def compact_pending_ring compact_pending_entries pending_count_0)

lemma maybe_free_channel_inv:
  assumes "ch_inv c" "ch_active c" "client_open d \<or> server_open d \<longrightarrow> (\<not> accepted c \<longrightarrow> client_open d)"
    and "d = c\<lparr>client_open := client_open d, server_open := server_open d\<rparr>"
  shows "ch_inv (maybe_free_channel d)"
proof (cases "client_open d \<or> server_open d")
  case True
  have "ch_inv (c\<lparr>client_open := client_open d, server_open := server_open d\<rparr>)"
    using assms(1,2,3) True by (auto simp: ch_inv_def)
  with True assms(4) show ?thesis by (auto simp: maybe_free_channel_def)
next
  case False
  then show ?thesis using zero_slots_inv(1) by (simp add: maybe_free_channel_def reset_channel_def)
qed

section \<open>Preservation\<close>

text \<open>\<open>bind\<close>: the guards it passes, and the slot it fills.\<close>

definition bound_slot :: "u64 \<Rightarrow> string \<Rightarrow> ServiceMetadata option \<Rightarrow> u32 \<Rightarrow> EndpointSlot" where
  "bound_slot pid n metadata g = zero_endpoint\<lparr>
     ep_generation := g, ep_owner_pid := pid, ep_name := pad_name n,
     ep_metadata := (case metadata of None \<Rightarrow> zero_metadata | Some m \<Rightarrow> m),
     versioned := (metadata \<noteq> None), ep_active := True\<rparr>"

definition metadata_ok :: "ServiceMetadata option \<Rightarrow> bool" where
  "metadata_ok metadata \<longleftrightarrow> (\<forall>m. metadata = Some m \<longrightarrow> valid_metadata m)"

lemma metadata_guard:
  "(case metadata of None \<Rightarrow> False
    | Some m \<Rightarrow> service_version m = 0 \<or> minimum_client_version m = 0 \<or>
        minimum_client_version m > service_version m) \<longleftrightarrow> \<not> metadata_ok metadata"
proof (cases metadata)
  case (Some m)
  have one: "1 \<le> v \<longleftrightarrow> v \<noteq> 0" for v :: u32 by (auto simp: word_le_nat_alt word_neq_0_unat)
  show ?thesis unfolding Some metadata_ok_def valid_metadata_def option.case one
    by (auto simp: not_le not_less)
qed (simp add: metadata_ok_def)

definition find_service :: "ipc \<Rightarrow> string \<Rightarrow> nat option" where
  "find_service s n = find_index (\<lambda>slot. ep_active slot \<and> name_equal slot n) (g_endpoints s)"

lemma ipc_bind_cases:
  assumes "ipc_bind pid name endpoint metadata s = (st, out, s')"
  obtains (error) "st \<noteq> Status.Ok" "s' = s" "out \<in> {None, Some INVALID_HANDLE}"
  | (ok) n i where "st = Status.Ok" "name = Some n" "valid_name n" "pid \<noteq> INVALID_PROCESS_ID"
      "metadata_ok metadata" "find_service s n = None"
      "find_index (\<lambda>slot. \<not> ep_active slot) (g_endpoints s) = Some i"
      "out = Some (encode_endpoint i (next_generation kMaximumGeneration (ep_generation (g_endpoints s ! i))))"
      "s' = s\<lparr>g_endpoints := (g_endpoints s)[i := bound_slot pid n metadata
         (next_generation kMaximumGeneration (ep_generation (g_endpoints s ! i)))]\<rparr>"
proof -
  note b = assms [unfolded ipc_bind_def Let_def metadata_guard]
  show ?thesis
  proof (cases "g_initialized s \<and> pid \<noteq> INVALID_PROCESS_ID \<and> endpoint \<noteq> None \<and>
      validate_name name = Status.Ok \<and> metadata_ok metadata")
    case False
    with b show ?thesis by (intro error) (auto split: if_splits)
  next
    case True
    then obtain n where n: "name = Some n" "valid_name n" by (auto simp: validate_name_Ok)
    have dup: "(\<exists>slot \<in> set (g_endpoints s). ep_active slot \<and> name_equal slot n) \<longleftrightarrow> find_service s n \<noteq> None"
      using find_index_None_iff [of "\<lambda>slot. ep_active slot \<and> name_equal slot n" "g_endpoints s"]
      by (auto simp: find_service_def)
    show ?thesis
    proof (cases "find_service s n")
      case None
      show ?thesis
      proof (cases "find_index (\<lambda>slot. \<not> ep_active slot) (g_endpoints s)")
        case None': None
        with b True n None show ?thesis by (intro error) (auto simp: dup)
      next
        case (Some i)
        with b True n None show ?thesis
          by (intro ok [of n i]) (auto simp: dup bound_slot_def pad_name_def)
      qed
    next
      case (Some e)
      with b True n show ?thesis by (intro error) (auto simp: dup)
    qed
  qed
qed

lemma bound_slot_inv:
  assumes "valid_name n" "pid \<noteq> INVALID_PROCESS_ID" "metadata_ok metadata"
    "valid_generation kMaximumGeneration g"
  shows "ep_inv (bound_slot pid n metadata g)"
proof -
  have "ep_ring_inv (bound_slot pid n metadata g)"
    using zero_slots_inv(2) by (simp add: bound_slot_def ep_ring_inv_def)
  moreover have "length (pad_name n) = MAX_SERVICE_NAME + 1"
    using assms(1) by (simp add: pad_name_def valid_name_def)
  ultimately show ?thesis
    using assms by (auto simp: ep_inv_def bound_slot_def metadata_ok_def zero_endpoint_def pending_count_0)
qed

lemma kMaximumGeneration_pos: "1 \<le> kMaximumGeneration"
  by (simp add: kMaximumGeneration_def)

lemmas next_generation_kMax = next_generation_valid [OF kMaximumGeneration_pos]

lemma find_service_None:
  assumes "ipc_inv s" "valid_name n"
  shows "find_service s n = None \<longleftrightarrow> (\<forall>e \<in> set (g_endpoints s). ep_active e \<longrightarrow> ep_name e \<noteq> pad_name n)"
  using assms name_equal_pad
  by (fastforce simp: find_service_def find_index_None_iff ipc_inv_def ep_inv_def pad_name_inject)

lemma find_service_Some:
  assumes "ipc_inv s" "find_service s n = Some i"
  shows "i < MAX_ENDPOINTS" "ep_active (g_endpoints s ! i)" "ep_name (g_endpoints s ! i) = pad_name n" "valid_name n"
proof -
  note f = find_index_SomeD [OF assms(2) [unfolded find_service_def]]
  then show i: "i < MAX_ENDPOINTS" "ep_active (g_endpoints s ! i)"
    using assms(1) by (simp_all add: ipc_inv_def)
  obtain m where m: "valid_name m" "ep_name (g_endpoints s ! i) = pad_name m"
    using ipc_inv_nth(1) [OF assms(1) i(1)] i(2) by (auto simp: ep_inv_def)
  with f show "ep_name (g_endpoints s ! i) = pad_name n" "valid_name n"
    using name_equal_pad [OF m, of n] by simp_all
qed

lemma ipc_bind_inv:
  assumes "ipc_inv s"
  shows "ipc_inv (snd (snd (ipc_bind pid name endpoint metadata s)))"
proof -
  obtain st out s' where b: "ipc_bind pid name endpoint metadata s = (st, out, s')" by (metis prod_cases3)
  then show ?thesis
  proof (cases rule: ipc_bind_cases)
    case error
    with assms b show ?thesis by simp
  next
    case (ok n i)
    have "i < MAX_ENDPOINTS" using find_index_Some_lessD [OF ok(7)] assms by (simp add: ipc_inv_def)
    then have "ipc_inv s'"
      unfolding ok(9) using ok(3-6) assms find_service_None [OF assms ok(3)]
      by (intro ipc_inv_endpoint bound_slot_inv next_generation_kMax) (auto simp: bound_slot_def)
    with b show ?thesis by simp
  qed
qed

lemma compact_endpoint_inv:
  "ipc_inv s \<Longrightarrow> i < MAX_ENDPOINTS \<Longrightarrow>
    ipc_inv (s\<lparr>g_endpoints := (g_endpoints s)[i := compact_pending chs (g_endpoints s ! i)]\<rparr>)"
  by (rule ipc_inv_endpoint) (simp_all add: compact_pending_inv ipc_inv_nth)

definition connected_slot :: "u64 \<Rightarrow> u64 \<Rightarrow> u32 \<Rightarrow> ChannelSlot" where
  "connected_slot client server g = zero_channel\<lparr>
     ch_generation := g, client_pid := client, server_pid := server, ch_active := True,
     client_open := True, server_open := True\<rparr>"

lemma connected_slot_inv:
  "client \<noteq> INVALID_PROCESS_ID \<Longrightarrow> server \<noteq> INVALID_PROCESS_ID \<Longrightarrow>
    valid_generation kMaximumGeneration g \<Longrightarrow> ch_inv (connected_slot client server g)"
  by (simp add: ch_inv_def connected_slot_def zero_channel_def authentic_def)

lemma ipc_connect_cases:
  assumes "ipc_connect pid name channel neg s = (st, out, neg', s')"
  obtains (error) "st \<noteq> Status.Ok" "s' = s" "neg' = neg" "out \<in> {None, Some INVALID_HANDLE}"
  | (full) e where "st \<noteq> Status.Ok" "find_service s (the name) = Some e" "neg' = neg" "out = Some INVALID_HANDLE"
      "s' = s\<lparr>g_endpoints := (g_endpoints s)[e := compact_pending (g_channels s) (g_endpoints s ! e)]\<rparr>"
  | (ok) n e i v where "st = Status.Ok" "name = Some n" "valid_name n" "pid \<noteq> INVALID_PROCESS_ID"
      "find_service s n = Some e" "negotiate (g_endpoints s ! e) neg = Inr v"
      "pending_count (compact_pending (g_channels s) (g_endpoints s ! e)) < MAX_PENDING_CONNECTIONS"
      "find_index (\<lambda>slot. \<not> ch_active slot) (g_channels s) = Some i"
      "out = Some (encode_channel i (next_generation kMaximumGeneration (ch_generation (g_channels s ! i))) False)"
      "neg' = map_option (\<lambda>n. n\<lparr>neg_selected_version := v,
         neg_service_version := service_version (ep_metadata (g_endpoints s ! e)),
         neg_minimum_client_version := minimum_client_version (ep_metadata (g_endpoints s ! e)),
         neg_capabilities := capabilities (ep_metadata (g_endpoints s ! e)),
         neg_owner_pid := ep_owner_pid (g_endpoints s ! e)\<rparr>) neg"
      "s' = s\<lparr>g_endpoints := (g_endpoints s)[e := enqueue_pending i (compact_pending (g_channels s) (g_endpoints s ! e))],
         g_channels := (g_channels s)[i := connected_slot pid (ep_owner_pid (g_endpoints s ! e))
           (next_generation kMaximumGeneration (ch_generation (g_channels s ! i)))]\<rparr>"
proof -
  note c = assms [unfolded ipc_connect_def Let_def, folded find_service_def connected_slot_def]
  show ?thesis
  proof (cases "g_initialized s \<and> pid \<noteq> INVALID_PROCESS_ID \<and> channel \<noteq> None \<and> validate_name name = Status.Ok")
    case False
    with c show ?thesis by (intro error) (auto split: if_splits)
  next
    case True
    then obtain n where n: "name = Some n" "valid_name n" by (auto simp: validate_name_Ok)
    show ?thesis
    proof (cases "find_service s n")
      case None
      with c True n show ?thesis by (intro error) auto
    next
      case e: (Some e)
      show ?thesis
      proof (cases "negotiate (g_endpoints s ! e) neg")
        case (Inl err)
        moreover from Inl have "err \<noteq> Status.Ok"
          by (auto simp: negotiate_def Let_def split: option.splits if_splits)
        ultimately show ?thesis using c True n e by (intro error) auto
      next
        case v: (Inr v)
        show ?thesis
        proof (cases "pending_count (compact_pending (g_channels s) (g_endpoints s ! e)) < MAX_PENDING_CONNECTIONS")
          case False
          with c True n e v show ?thesis by (intro full [of e]) auto
        next
          case room: True
          show ?thesis
          proof (cases "find_index (\<lambda>slot. \<not> ch_active slot) (g_channels s)")
            case None
            with c True n e v room show ?thesis by (intro full [of e]) auto
          next
            case (Some i)
            with c True n e v room show ?thesis
              by (intro ok [of n e v i]) simp_all
          qed
        qed
      qed
    qed
  qed
qed

definition live_pending :: "ipc \<Rightarrow> nat \<Rightarrow> nat list" where
  "live_pending s e = filter (pending_live (g_channels s) (g_endpoints s ! e)) (pending_entries (g_endpoints s ! e))"

lemma ipc_connect_inv:
  assumes "ipc_inv s"
  shows "ipc_inv (snd (snd (snd (ipc_connect pid name channel neg s))))"
proof -
  obtain st out neg' s' where c: "ipc_connect pid name channel neg s = (st, out, neg', s')"
    by (metis prod_cases4)
  then show ?thesis
  proof (cases rule: ipc_connect_cases)
    case error
    with assms c show ?thesis by simp
  next
    case (full e)
    with assms c find_service_Some(1) [OF assms full(2)] show ?thesis
      by (simp add: compact_endpoint_inv)
  next
    case (ok n e i v)
    note f = find_service_Some [OF assms ok(5)]
    have e: "ep_inv (g_endpoints s ! e)" by (rule ipc_inv_nth(1) [OF assms f(1)])
    have i: "i < MAX_CHANNELS" using find_index_Some_lessD [OF ok(8)] assms by (simp add: ipc_inv_def)
    let ?c = "compact_pending (g_channels s) (g_endpoints s ! e)"
    let ?e = "enqueue_pending i ?c"
    have cp: "ep_inv ?c" by (rule compact_pending_inv [OF e])
    then have ring: "ep_ring_inv ?c" "ep_ring_inv (g_endpoints s ! e)" using e by (simp_all add: ep_inv_def)
    have "\<not> pending_live (g_channels s) (g_endpoints s ! e) i"
      using find_index_SomeD [OF ok(8)] by (simp add: pending_live_def Let_def)
    then have "i \<notin> set (pending_entries ?c)" using compacted_live [OF ring(2)] by blast
    then have "ep_inv ?e"
      using cp enqueue_pending_ring [OF ring(1) ok(7) i] f(2) by (simp add: ep_inv_def)
    then have "ipc_inv (s\<lparr>g_endpoints := (g_endpoints s)[e := ?e]\<rparr>)"
      using f by (intro ipc_inv_endpoint assms) simp_all
    moreover have "ch_inv (connected_slot pid (ep_owner_pid (g_endpoints s ! e))
        (next_generation kMaximumGeneration (ch_generation (g_channels s ! i))))"
      using e f ok(4) by (intro connected_slot_inv next_generation_kMax) (simp_all add: ep_inv_def)
    ultimately show ?thesis using ipc_inv_channel by (fastforce simp: c ok(11))
  qed
qed

lemma decode_endpoint_error: "decode_endpoint s pid h = Inl st \<Longrightarrow> st = Status.StaleHandle \<or> st = Status.AccessDenied"
  by (auto simp: decode_endpoint_def Let_def split: if_splits option.splits)

lemma decode_channel_error: "decode_channel s pid h = Inl st \<Longrightarrow> st = Status.StaleHandle \<or> st = Status.AccessDenied"
  by (auto simp: decode_channel_def Let_def split: if_splits option.splits)

lemma decode_endpoint_ring:
  "ipc_inv s \<Longrightarrow> decode_endpoint s pid h = Inr e \<Longrightarrow> ep_ring_inv (g_endpoints s ! e)"
  using ipc_inv_nth(1) decode_endpointD(1) by (simp add: ep_inv_def)

lemma ipc_accept_cases:
  assumes "ipc_accept pid h channel s = (st, out, s')" "ipc_inv s"
  obtains (error) "st \<noteq> Status.Ok" "s' = s" "out \<in> {None, Some INVALID_HANDLE}"
  | (empty) e where "st = Status.WouldBlock" "decode_endpoint s pid h = Inr e" "live_pending s e = []"
      "out = Some INVALID_HANDLE"
      "s' = s\<lparr>g_endpoints := (g_endpoints s)[e := compact_pending (g_channels s) (g_endpoints s ! e)]\<rparr>"
  | (ok) e x xs where "st = Status.Ok" "decode_endpoint s pid h = Inr e" "live_pending s e = x # xs"
      "out = Some (encode_channel x (ch_generation (g_channels s ! x)) True)"
      "s' = s\<lparr>g_endpoints := (g_endpoints s)[e := (compact_pending (g_channels s) (g_endpoints s ! e))
           \<lparr>pending_head := 1, pending_count := length xs\<rparr>],
         g_channels := (g_channels s)[x := (g_channels s ! x)\<lparr>accepted := True\<rparr>]\<rparr>"
proof -
  note a = assms(1) [unfolded ipc_accept_def Let_def]
  show ?thesis
  proof (cases "g_initialized s \<and> pid \<noteq> INVALID_PROCESS_ID \<and> channel \<noteq> None")
    case False
    with a show ?thesis by (intro error) (auto split: if_splits)
  next
    case True
    show ?thesis
    proof (cases "decode_endpoint s pid h")
      case (Inl er)
      with a True decode_endpoint_error [OF Inl] show ?thesis by (intro error) auto
    next
      case e: (Inr e)
      note loop = accept_loop_compacted [OF decode_endpoint_ring [OF assms(2) e], of "g_channels s",
          folded live_pending_def]
      show ?thesis
      proof (cases "live_pending s e")
        case Nil
        have "(compact_pending (g_channels s) (g_endpoints s ! e))\<lparr>pending_head := 0, pending_tail := 0,
            pending_count := 0\<rparr> = compact_pending (g_channels s) (g_endpoints s ! e)"
          using Nil by (simp add: live_pending_def compact_pending_def Let_def)
        with Nil a True e loop show ?thesis by (intro empty [of e]) auto
      next
        case (Cons x xs)
        with a True e loop show ?thesis by (intro ok [of e x xs]) auto
      qed
    qed
  qed
qed

lemma live_pendingD:
  assumes "x \<in> set (live_pending s e)"
  shows "x < MAX_CHANNELS" "ch_active (g_channels s ! x)" "\<not> accepted (g_channels s ! x)"
    "client_open (g_channels s ! x)" "server_open (g_channels s ! x)"
    "server_pid (g_channels s ! x) = ep_owner_pid (g_endpoints s ! e)"
  using assms by (auto simp: live_pending_def pending_live_def Let_def split: if_splits)

lemma ipc_accept_inv:
  assumes "ipc_inv s"
  shows "ipc_inv (snd (snd (ipc_accept pid h channel s)))"
proof -
  obtain st out s' where a: "ipc_accept pid h channel s = (st, out, s')" by (metis prod_cases3)
  then show ?thesis using assms
  proof (cases rule: ipc_accept_cases)
    case error
    with assms a show ?thesis by simp
  next
    case (empty e)
    with assms a decode_endpointD(1) [OF empty(2)] show ?thesis by (simp add: compact_endpoint_inv)
  next
    case (ok e x xs)
    note e = decode_endpointD(1) [OF ok(2)]
    let ?c = "compact_pending (g_channels s) (g_endpoints s ! e)"
    have c: "ep_inv ?c" using compact_pending_inv ipc_inv_nth(1) [OF assms e] by simp
    have "pending_entries ?c = x # xs"
      using compact_pending_entries [OF decode_endpoint_ring [OF assms ok(2)]] ok(3)
      by (simp add: live_pending_def)
    from dequeue_pending_ring [OF _ this] this c decode_endpointD(2) [OF ok(2)]
    have "ep_inv (?c\<lparr>pending_head := 1, pending_count := length xs\<rparr>)"
      by (simp add: ep_inv_def MAX_PENDING_CONNECTIONS_def)
    then have "ipc_inv (s\<lparr>g_endpoints := (g_endpoints s)[e := ?c\<lparr>pending_head := 1, pending_count := length xs\<rparr>]\<rparr>)"
      using e decode_endpointD(2) [OF ok(2)] by (intro ipc_inv_endpoint assms) simp_all
    moreover have "ch_inv ((g_channels s ! x)\<lparr>accepted := True\<rparr>)"
      using ipc_inv_nth(2) [OF assms, of x] live_pendingD [of x s e] ok(3) by (simp add: ch_inv_def)
    ultimately show ?thesis using ipc_inv_channel by (fastforce simp: a ok(5))
  qed
qed

text \<open>
  \<open>send\<close> and \<open>receive\<close> seen from a handle: \<open>out_queue\<close> is the direction the handle's holder writes,
  \<open>in_queue\<close> the one it reads.
\<close>

definition out_queue :: "bool \<Rightarrow> ChannelSlot \<Rightarrow> MessageQueue" where
  "out_queue server c = (if server then to_client c else to_server c)"

definition in_queue :: "bool \<Rightarrow> ChannelSlot \<Rightarrow> MessageQueue" where
  "in_queue server c = (if server then to_server c else to_client c)"

definition set_out_queue :: "bool \<Rightarrow> MessageQueue \<Rightarrow> ChannelSlot \<Rightarrow> ChannelSlot" where
  "set_out_queue server q c = (if server then c\<lparr>to_client := q\<rparr> else c\<lparr>to_server := q\<rparr>)"

definition set_in_queue :: "bool \<Rightarrow> MessageQueue \<Rightarrow> ChannelSlot \<Rightarrow> ChannelSlot" where
  "set_in_queue server q c = (if server then c\<lparr>to_server := q\<rparr> else c\<lparr>to_client := q\<rparr>)"

definition side_pid :: "bool \<Rightarrow> ChannelSlot \<Rightarrow> u64" where
  "side_pid server c = (if server then server_pid c else client_pid c)"

definition side_open :: "bool \<Rightarrow> ChannelSlot \<Rightarrow> bool" where
  "side_open server c = (if server then server_open c else client_open c)"

lemmas side_defs = out_queue_def in_queue_def set_out_queue_def set_in_queue_def side_pid_def side_open_def

lemma in_out_queue: "in_queue (\<not> server) c = out_queue server c"
  by (simp add: side_defs)

lemma queue_inv:
  assumes "ch_inv c"
  shows "mq_inv (out_queue server c)" "mq_inv (in_queue server c)"
    "authentic (side_pid server c) (out_queue server c)"
    "authentic (side_pid (\<not> server) c) (in_queue server c)"
  using assms by (auto simp: ch_inv_def side_defs)

lemma set_queue_inv:
  assumes "ch_inv c" "ch_active c" "mq_inv q"
  shows "authentic (side_pid server c) q \<Longrightarrow> ch_inv (set_out_queue server q c)"
    "authentic (side_pid (\<not> server) c) q \<Longrightarrow> ch_inv (set_in_queue server q c)"
  using assms by (auto simp: ch_inv_def side_defs)

lemma set_queue_same: "set_out_queue server (out_queue server c) c = c" "set_in_queue server (in_queue server c) c = c"
  by (simp_all add: side_defs)

lemma decode_channel_side:
  assumes "decode_channel s pid h = Inr (i, server)"
  shows "side_pid server (g_channels s ! i) = pid" "side_open server (g_channels s ! i)"
  using decode_channelD [OF assms] by (auto simp: side_defs)

lemma ipc_send_cases:
  assumes "ipc_send pid h data n s = (st, s')" "ipc_inv s"
  obtains (error) "st \<noteq> Status.Ok" "s' = s"
  | (ok) i server d where "st = Status.Ok" "decode_channel s pid h = Inr (i, server)"
      "d = (case data of None \<Rightarrow> [] | Some d \<Rightarrow> d)" "length d \<le> MAX_MESSAGE_SIZE"
      "side_open (\<not> server) (g_channels s ! i)"
      "mq_count (out_queue server (g_channels s ! i)) < MAX_MESSAGES_PER_DIRECTION"
      "s' = s\<lparr>g_channels := (g_channels s)[i :=
         set_out_queue server (snd (push_message (out_queue server (g_channels s ! i)) pid d)) (g_channels s ! i)]\<rparr>"
proof -
  note a = assms(1) [unfolded ipc_send_def Let_def]
  let ?d = "case data of None \<Rightarrow> [] | Some d \<Rightarrow> d"
  let ?n = "case data of None \<Rightarrow> n | Some d \<Rightarrow> length d"
  show ?thesis
  proof (cases "g_initialized s \<and> pid \<noteq> INVALID_PROCESS_ID \<and> ?n \<le> MAX_MESSAGE_SIZE \<and> (?n = 0 \<or> data \<noteq> None)")
    case False
    with a show ?thesis by (intro error) (auto split: if_splits)
  next
    case True
    then have d: "length ?d \<le> MAX_MESSAGE_SIZE" by (cases data) simp_all
    show ?thesis
    proof (cases "decode_channel s pid h")
      case (Inl er)
      with a True decode_channel_error [OF Inl] show ?thesis by (intro error) auto
    next
      case (Inr p)
      then obtain i server where i: "decode_channel s pid h = Inr (i, server)" by (metis surj_pair)
      let ?c = "g_channels s ! i"
      let ?q = "out_queue server ?c"
      from a True i have b: "(st, s') =
         (if \<not> side_open (\<not> server) ?c then (Status.PeerClosed, s)
          else case push_message ?q pid ?d of
            (status, q') \<Rightarrow> (status, s\<lparr>g_channels := (g_channels s)[i := set_out_queue server q' ?c]\<rparr>))"
        by (auto simp: side_defs split: prod.splits)
      show ?thesis
      proof (cases "side_open (\<not> server) ?c \<and> mq_count ?q < MAX_MESSAGES_PER_DIRECTION")
        case True
        have "mq_inv ?q" using queue_inv(1) ipc_inv_nth(2) [OF assms(2) decode_channelD(1) [OF i]] .
        then have "fst (push_message ?q pid ?d) = Status.Ok" using True by (intro push_message_room) simp_all
        with b True i d show ?thesis
          by (intro ok [of i server ?d]) (simp_all add: case_prod_unfold)
      next
        case False
        moreover have "push_message ?q pid ?d = (Status.WouldBlock, ?q)"
          if "\<not> mq_count ?q < MAX_MESSAGES_PER_DIRECTION"
          using that by (intro push_message_full) simp
        ultimately show ?thesis using b set_queue_same(1) [of server ?c]
          by (intro error) (auto split: if_splits)
      qed
    qed
  qed
qed

lemma authentic_push:
  assumes "mq_inv q" "authentic pid q" "length d \<le> MAX_MESSAGE_SIZE" "mq_count q < MAX_MESSAGES_PER_DIRECTION"
  shows "authentic pid (snd (push_message q pid d))"
  using assms push_message_room(2) [OF assms(1,4), of pid d] by (auto simp: authentic_def)

lemma ipc_send_inv:
  assumes "ipc_inv s"
  shows "ipc_inv (snd (ipc_send pid h data n s))"
proof -
  obtain st s' where a: "ipc_send pid h data n s = (st, s')" by fastforce
  then show ?thesis using assms
  proof (cases rule: ipc_send_cases)
    case error
    with assms a show ?thesis by simp
  next
    case (ok i server d)
    have c: "ch_inv (g_channels s ! i)" using ipc_inv_nth(2) [OF assms decode_channelD(1) [OF ok(2)]] .
    have "ch_inv (set_out_queue server (snd (push_message (out_queue server (g_channels s ! i)) pid d)) (g_channels s ! i))"
      using authentic_push [OF queue_inv(1,3) [OF c] ok(4) ok(6)] push_message_room(3) [OF queue_inv(1) [OF c] ok(6)]
        decode_channelD(2) [OF ok(2)] decode_channel_side(1) [OF ok(2)]
      by (intro set_queue_inv c) simp_all
    with assms a ok(7) show ?thesis by (simp add: ipc_inv_channel)
  qed
qed

lemma ipc_receive_cases:
  assumes "ipc_receive pid h out s = (st, out', s')" "ipc_inv s"
  obtains (error) "st \<noteq> Status.Ok" "s' = s" "out' \<in> {None, Some zero_message}"
  | (ok) i server m ms where "st = Status.Ok" "decode_channel s pid h = Inr (i, server)"
      "mq_list (in_queue server (g_channels s ! i)) = m # ms" "out' = Some m"
      "mq_list (snd (snd (pop_message (in_queue server (g_channels s ! i)) zero_message))) = ms"
      "s' = s\<lparr>g_channels := (g_channels s)[i :=
         set_in_queue server (snd (snd (pop_message (in_queue server (g_channels s ! i)) zero_message)))
           (g_channels s ! i)]\<rparr>"
proof -
  note a = assms(1) [unfolded ipc_receive_def Let_def]
  show ?thesis
  proof (cases "g_initialized s \<and> pid \<noteq> INVALID_PROCESS_ID \<and> out \<noteq> None")
    case False
    with a show ?thesis by (intro error) (auto split: if_splits)
  next
    case True
    show ?thesis
    proof (cases "decode_channel s pid h")
      case (Inl er)
      with a True decode_channel_error [OF Inl] show ?thesis by (intro error) auto
    next
      case (Inr p)
      then obtain i server where i: "decode_channel s pid h = Inr (i, server)" by (metis surj_pair)
      let ?c = "g_channels s ! i"
      let ?q = "in_queue server ?c"
      from a True i have b: "(st, out', s') =
         (case pop_message ?q zero_message of
            (status, m, q') \<Rightarrow>
              (if status = Status.WouldBlock
               then (if side_open (\<not> server) ?c then Status.WouldBlock else Status.PeerClosed) else status,
               Some m, s\<lparr>g_channels := (g_channels s)[i := set_in_queue server q' ?c]\<rparr>))"
        by (auto simp: side_defs split: prod.splits)
      have inv: "mq_inv ?q" using queue_inv(2) ipc_inv_nth(2) [OF assms(2) decode_channelD(1) [OF i]] .
      show ?thesis
      proof (cases "mq_count ?q = 0")
        case True
        with b set_queue_same(2) [of server ?c] pop_message_none [OF True] show ?thesis
          by (intro error) (auto split: if_splits)
      next
        case False
        note p = pop_message_some [OF inv, of zero_message]
        from False b p show ?thesis
          by (intro ok [of i server "fst (snd (pop_message ?q zero_message))"
                "mq_list (snd (snd (pop_message ?q zero_message)))"] i)
             (simp_all add: case_prod_unfold)
      qed
    qed
  qed
qed

lemma ipc_receive_inv:
  assumes "ipc_inv s"
  shows "ipc_inv (snd (snd (ipc_receive pid h out s)))"
proof -
  obtain st out' s' where a: "ipc_receive pid h out s = (st, out', s')" by (metis prod_cases3)
  then show ?thesis using assms
  proof (cases rule: ipc_receive_cases)
    case error
    with assms a show ?thesis by simp
  next
    case (ok i server m ms)
    let ?c = "g_channels s ! i"
    let ?q = "snd (snd (pop_message (in_queue server ?c) zero_message))"
    have c: "ch_inv ?c" using ipc_inv_nth(2) [OF assms decode_channelD(1) [OF ok(2)]] .
    have "0 < mq_count (in_queue server ?c)" using arg_cong [OF ok(3), of length] by simp
    then have "mq_inv ?q" by (rule pop_message_some(3) [OF queue_inv(2) [OF c]])
    moreover have "authentic (side_pid (\<not> server) ?c) ?q"
      using queue_inv(4) [OF c, of server] ok(3,5) by (auto simp: authentic_def)
    ultimately have "ch_inv (set_in_queue server ?q ?c)"
      using decode_channelD(2) [OF ok(2)] by (intro set_queue_inv c)
    with assms a ok(6) show ?thesis by (simp add: ipc_inv_channel)
  qed
qed

definition closed_slot :: "ipc \<Rightarrow> nat \<Rightarrow> EndpointSlot" where
  "closed_slot s e =
     (let c = compact_pending (g_channels s) (g_endpoints s ! e) in
      c\<lparr>pending_tail := 0, pending_count := 0, ep_active := False, ep_owner_pid := INVALID_PROCESS_ID,
        ep_name := (ep_name c)[0 := CHR 0x00]\<rparr>)"

lemma close_endpoint_eq:
  assumes "ipc_inv s" "e < MAX_ENDPOINTS"
  shows "close_endpoint e s = s\<lparr>g_endpoints := (g_endpoints s)[e := closed_slot s e],
    g_channels := cancelled (live_pending s e) (g_channels s)\<rparr>"
proof -
  have "ep_ring_inv (g_endpoints s ! e)" "length (g_channels s) = MAX_CHANNELS"
    using ipc_inv_nth(1) [OF assms] assms(1) by (simp_all add: ep_inv_def ipc_inv_def)
  from cancel_pending_eq [OF this] show ?thesis
    by (simp add: close_endpoint_def closed_slot_def live_pending_def Let_def)
qed

lemma cancelled_simps [simp]:
  "length (cancelled xs chs) = length chs"
  "j < length chs \<Longrightarrow> cancelled xs chs ! j =
     (if j \<in> set xs then (chs ! j)\<lparr>server_open := False\<rparr> else chs ! j)"
  by (simp_all add: cancelled_def)

lemma close_endpoint_inv:
  assumes "ipc_inv s" "e < MAX_ENDPOINTS"
  shows "ipc_inv (close_endpoint e s)"
proof -
  have "ep_inv (compact_pending (g_channels s) (g_endpoints s ! e))"
    using compact_pending_inv ipc_inv_nth(1) [OF assms] .
  then have "ep_inv (closed_slot s e)"
    by (auto simp: ep_inv_def ep_ring_inv_def closed_slot_def Let_def pending_count_0)
  then have "ipc_inv (s\<lparr>g_endpoints := (g_endpoints s)[e := closed_slot s e]\<rparr>)"
    using assms by (intro ipc_inv_endpoint) (simp_all add: closed_slot_def Let_def)
  moreover have "ch_inv c" if "c \<in> set (cancelled (live_pending s e) (g_channels s))" for c
  proof -
    obtain j where j: "j < MAX_CHANNELS" "c = cancelled (live_pending s e) (g_channels s) ! j"
      using \<open>c \<in> _\<close> assms(1) by (auto simp: in_set_conv_nth ipc_inv_def)
    have "ch_inv (g_channels s ! j)" using ipc_inv_nth(2) [OF assms(1) j(1)] .
    moreover have "length (g_channels s) = MAX_CHANNELS" using assms(1) by (simp add: ipc_inv_def)
    ultimately show ?thesis using j live_pendingD(2-4) [of j s e] by (auto simp: ch_inv_def)
  qed
  moreover have "length (cancelled (live_pending s e) (g_channels s)) = MAX_CHANNELS"
    using assms(1) by (simp add: ipc_inv_def)
  ultimately show ?thesis
    using ipc_inv_channels by (fastforce simp: close_endpoint_eq [OF assms])
qed

text \<open>What closing the given sides does to a channel.\<close>

definition closed_channel :: "bool \<Rightarrow> ChannelSlot \<Rightarrow> ChannelSlot" where
  "closed_channel server c =
     (if server then c\<lparr>server_open := False\<rparr>
      else if \<not> accepted c then c\<lparr>client_open := False, server_open := False\<rparr>
      else c\<lparr>client_open := False\<rparr>)"

lemma ipc_close_cases:
  assumes "ipc_close pid h s = (st, s')"
  obtains (error) "st \<noteq> Status.Ok" "s' = s"
  | (ep) e where "st = Status.Ok" "decode_endpoint s pid h = Inr e" "s' = close_endpoint e s"
  | (ch) i server where "st = Status.Ok" "decode_channel s pid h = Inr (i, server)"
      "s' = s\<lparr>g_channels := (g_channels s)[i := maybe_free_channel (closed_channel server (g_channels s ! i))]\<rparr>"
proof -
  note a = assms [unfolded ipc_close_def Let_def]
  show ?thesis
  proof (cases "g_initialized s \<and> pid \<noteq> INVALID_PROCESS_ID \<and> h \<noteq> INVALID_HANDLE")
    case False
    with a show ?thesis by (intro error) (auto split: if_splits)
  next
    case init: True
    consider (e) "h AND kKindMask = kKindEndpoint" | (c) "h AND kKindMask = kKindChannel"
      | (none) "h AND kKindMask \<noteq> kKindEndpoint" "h AND kKindMask \<noteq> kKindChannel" by blast
    then show ?thesis
    proof cases
      case e
      show ?thesis
      proof (cases "decode_endpoint s pid h")
        case (Inl er)
        with a init e decode_endpoint_error [OF Inl] show ?thesis by (intro error) auto
      next
        case (Inr i)
        with a init e show ?thesis by (intro ep [of i]) auto
      qed
    next
      case c
      with kinds_distinct have ne: "h AND kKindMask \<noteq> kKindEndpoint" by auto
      show ?thesis
      proof (cases "decode_channel s pid h")
        case (Inl er)
        with a init c ne decode_channel_error [OF Inl] show ?thesis by (intro error) auto
      next
        case (Inr p)
        then obtain i server where "decode_channel s pid h = Inr (i, server)" by (metis surj_pair)
        with a init c ne show ?thesis by (intro ch [of i server]) (auto simp: closed_channel_def)
      qed
    next
      case none
      with a init show ?thesis by (intro error) auto
    qed
  qed
qed

lemma closed_channel_inv:
  "ch_inv c \<Longrightarrow> ch_active c \<Longrightarrow> ch_inv (maybe_free_channel (closed_channel server c))"
  by (rule maybe_free_channel_inv) (auto simp: closed_channel_def ch_inv_def)

lemma ipc_close_inv:
  assumes "ipc_inv s"
  shows "ipc_inv (snd (ipc_close pid h s))"
proof -
  obtain st s' where a: "ipc_close pid h s = (st, s')" by fastforce
  then show ?thesis
  proof (cases rule: ipc_close_cases)
    case error
    with assms a show ?thesis by simp
  next
    case (ep e)
    with assms a close_endpoint_inv decode_endpointD(1) show ?thesis by fastforce
  next
    case (ch i server)
    with assms a closed_channel_inv [OF ipc_inv_nth(2) [OF assms decode_channelD(1) [OF ch(2)]]
        decode_channelD(2) [OF ch(2)]]
    show ?thesis by (simp add: ipc_inv_channel)
  qed
qed

lemma release_channel_inv:
  assumes "ch_inv c"
  shows "ch_inv (release_channel pid c)"
proof (cases "ch_active c")
  case True
  with assms show ?thesis
    unfolding release_channel_def Let_def
    by (simp only: not_not if_True if_False simp_thms)
       (rule maybe_free_channel_inv [OF assms True]; auto simp: ch_inv_def)
next
  case False
  with assms show ?thesis by (simp add: release_channel_def)
qed

lemma release_endpoint_inv: "ipc_inv s \<Longrightarrow> e < MAX_ENDPOINTS \<Longrightarrow> ipc_inv (release_endpoint pid e s)"
  by (simp add: release_endpoint_def Let_def close_endpoint_inv)

lemma release_endpoints_inv:
  "ipc_inv s \<Longrightarrow> \<forall>e \<in> set es. e < MAX_ENDPOINTS \<Longrightarrow> ipc_inv (fold (release_endpoint pid) es s)"
  by (induction es arbitrary: s) (simp_all add: release_endpoint_inv)

lemma ipc_release_process_inv:
  assumes "ipc_inv s"
  shows "ipc_inv (ipc_release_process pid s)"
proof -
  let ?s = "fold (release_endpoint pid) [0..<MAX_ENDPOINTS] s"
  have "ipc_inv ?s" by (rule release_endpoints_inv [OF assms]) simp
  then have "ipc_inv (?s\<lparr>g_channels := map (release_channel pid) (g_channels ?s)\<rparr>)"
    by (intro ipc_inv_channels) (auto simp: ipc_inv_def release_channel_inv)
  with assms show ?thesis by (simp add: ipc_release_process_def Let_def)
qed

section \<open>Reachable states\<close>

datatype ipc_call =
    Initialize
  | Bind u64 "string option" "u64 option" "ServiceMetadata option"
  | Connect u64 "string option" "u64 option" "ServiceNegotiation option"
  | Accept u64 u64 "u64 option"
  | Send u64 u64 "u8 list option" nat
  | Receive u64 u64 "Message option"
  | Close u64 u64
  | ReleaseProcess u64

fun ipc_exec :: "ipc_call \<Rightarrow> ipc \<Rightarrow> ipc" where
  "ipc_exec Initialize s = snd (ipc_initialize s)"
| "ipc_exec (Bind pid name out m) s = snd (snd (ipc_bind pid name out m s))"
| "ipc_exec (Connect pid name out n) s = snd (snd (snd (ipc_connect pid name out n s)))"
| "ipc_exec (Accept pid h out) s = snd (snd (ipc_accept pid h out s))"
| "ipc_exec (Send pid h d n) s = snd (ipc_send pid h d n s)"
| "ipc_exec (Receive pid h out) s = snd (snd (ipc_receive pid h out s))"
| "ipc_exec (Close pid h) s = snd (ipc_close pid h s)"
| "ipc_exec (ReleaseProcess pid) s = ipc_release_process pid s"

inductive ipc_step :: "ipc \<Rightarrow> ipc \<Rightarrow> bool" where
  call: "ipc_step s (ipc_exec c s)"

inductive ipc_reachable :: "ipc \<Rightarrow> bool" where
  start: "ipc_reachable ipc_zero"
| step: "ipc_reachable s \<Longrightarrow> ipc_step s s' \<Longrightarrow> ipc_reachable s'"

inductive_cases ipc_stepE: "ipc_step s s'"

lemma ipc_exec_inv: "ipc_inv s \<Longrightarrow> ipc_inv (ipc_exec c s)"
  by (cases c)
     (simp_all add: ipc_bind_inv ipc_connect_inv ipc_accept_inv ipc_send_inv ipc_receive_inv
        ipc_close_inv ipc_release_process_inv ipc_initialize_def ipc_zero_inv)

lemma ipc_reachable_invI: "ipc_reachable s \<Longrightarrow> ipc_inv s"
  by (induction rule: ipc_reachable.induct) (auto simp: ipc_zero_inv ipc_exec_inv elim: ipc_stepE)

end
