(* ===== verification/Ipc_Channel_Theorems.thy ===== *)
theory Ipc_Channel_Theorems
  imports Ipc_Channel_Safety
begin

text \<open>
  What a process may rely on when it uses the IPC service: names are unique, messages keep their
  order and their sender, handles name one incarnation of a slot and work for their holder only,
  and a process that does not take part in a connection cannot change it.
\<close>

section \<open>A concrete service with one client\<close>

definition example_server :: ipc where
  "example_server = snd (snd (ipc_bind 7 (Some ''svc.a'') (Some 0)
     (Some \<lparr>service_version = 3, minimum_client_version = 2, capabilities = 5\<rparr>) (snd (ipc_initialize ipc_zero))))"

definition example_endpoint :: u64 where "example_endpoint = encode_endpoint 0 1"
definition example_client :: u64 where "example_client = encode_channel 0 1 False"
definition example_accepted :: u64 where "example_accepted = encode_channel 0 1 True"

definition example_connected :: ipc where
  "example_connected = snd (snd (snd (ipc_connect 9 (Some ''svc.a'') (Some 0) None example_server)))"

definition example_channel :: ipc where
  "example_channel = snd (snd (ipc_accept 7 example_endpoint (Some 0) example_connected))"

lemma example_inv: "ipc_inv example_server" "ipc_inv example_connected" "ipc_inv example_channel"
proof -
  show a: "ipc_inv example_server"
    unfolding example_server_def by (intro ipc_bind_inv) (simp add: ipc_initialize_def ipc_zero_inv)
  show b: "ipc_inv example_connected"
    unfolding example_connected_def by (intro ipc_connect_inv a)
  show "ipc_inv example_channel"
    unfolding example_channel_def by (intro ipc_accept_inv b)
qed

section \<open>Every reachable state is well formed\<close>

text \<open>
  C8.  In every state that any sequence of IPC calls by any processes can reach, the tables are
  well formed: no two active endpoints have the same name, every active endpoint has an owner, a
  valid name and valid versions, every queue is a proper ring, no endpoint has a channel waiting
  twice, every message waiting in a channel carries the process identity of the end that sent it, and an
  active channel has an open end.  An inactive endpoint slot has no owner, an empty name and no waiting
  connection (the rest of its name and its metadata stay until the slot is reused); an inactive channel slot
  holds nothing but its generation.
\<close>

theorem ipc_reachable_inv:
  assumes "ipc_reachable s"
  shows "ipc_inv s"
  using assms by (rule ipc_reachable_invI)

theorem ipc_reachable_inv_witness:
  "ipc_inv (ipc_exec (Bind 7 (Some ''svc.a'') (Some 0) None) (ipc_exec Initialize ipc_zero))"
  by (rule ipc_reachable_inv
      [OF ipc_reachable.step [OF ipc_reachable.step [OF ipc_reachable.start ipc_step.call] ipc_step.call]])

section \<open>Non-interference\<close>

fun call_pid :: "ipc_call \<Rightarrow> u64" where
  "call_pid Initialize = INVALID_PROCESS_ID"
| "call_pid (Bind pid _ _ _) = pid"
| "call_pid (Connect pid _ _ _) = pid"
| "call_pid (Accept pid _ _) = pid"
| "call_pid (Send pid _ _ _) = pid"
| "call_pid (Receive pid _ _) = pid"
| "call_pid (Close pid _) = pid"
| "call_pid (ReleaseProcess pid) = pid"

definition bystander :: "u64 \<Rightarrow> ChannelSlot \<Rightarrow> bool" where
  "bystander pid c \<longleftrightarrow> ch_active c \<and> client_pid c \<noteq> pid \<and> server_pid c \<noteq> pid"

definition same_endpoint :: "EndpointSlot \<Rightarrow> EndpointSlot \<Rightarrow> bool" where
  "same_endpoint e e' \<longleftrightarrow> ep_active e' = ep_active e \<and> ep_generation e' = ep_generation e \<and>
     ep_owner_pid e' = ep_owner_pid e \<and> ep_name e' = ep_name e \<and>
     ep_metadata e' = ep_metadata e \<and> versioned e' = versioned e"

lemma same_endpoint_refl [simp]: "same_endpoint e e"
  "same_endpoint e (compact_pending chs e)" "same_endpoint e (enqueue_pending i (compact_pending chs e))"
  by (simp_all add: same_endpoint_def)

lemma nth_update_cases: "(xs[i := x]) ! j = (if i = j \<and> j < length xs then x else xs ! j)"
  by (cases "i = j"; cases "j < length xs") (simp_all add: list_update_beyond not_less)

text \<open>
  \<open>untouched pid s s'\<close>: a step of \<open>pid\<close> leaves alone every channel it is not an end of and the
  identity of every endpoint it does not own.
\<close>

definition untouched :: "u64 \<Rightarrow> ipc \<Rightarrow> ipc \<Rightarrow> bool" where
  "untouched pid s s' \<longleftrightarrow>
     (\<forall>i < MAX_CHANNELS. bystander pid (g_channels s ! i) \<longrightarrow> g_channels s' ! i = g_channels s ! i) \<and>
     (\<forall>e < MAX_ENDPOINTS. ep_active (g_endpoints s ! e) \<and> ep_owner_pid (g_endpoints s ! e) \<noteq> pid \<longrightarrow>
        same_endpoint (g_endpoints s ! e) (g_endpoints s' ! e))"

lemma untouched_refl [simp]: "untouched pid s s"
  by (simp add: untouched_def)

lemma untouched_trans:
  assumes "untouched pid s t" "untouched pid t u"
  shows "untouched pid s u"
  using assms by (auto simp: untouched_def same_endpoint_def bystander_def)

lemma untouched_channel:
  "\<not> bystander pid (g_channels s ! i) \<Longrightarrow> untouched pid s (s\<lparr>g_channels := (g_channels s)[i := c]\<rparr>)"
  by (auto simp: untouched_def nth_update_cases)

lemma untouched_endpoint:
  "\<not> ep_active (g_endpoints s ! i) \<or> ep_owner_pid (g_endpoints s ! i) = pid \<or> same_endpoint (g_endpoints s ! i) e \<Longrightarrow>
    untouched pid s (s\<lparr>g_endpoints := (g_endpoints s)[i := e]\<rparr>)"
  by (auto simp: untouched_def nth_update_cases)

lemma untouched_both:
  assumes "\<not> bystander pid (g_channels s ! i)"
    "\<not> ep_active (g_endpoints s ! k) \<or> ep_owner_pid (g_endpoints s ! k) = pid \<or> same_endpoint (g_endpoints s ! k) e"
  shows "untouched pid s (s\<lparr>g_endpoints := (g_endpoints s)[k := e], g_channels := (g_channels s)[i := c]\<rparr>)"
  using assms by (auto simp: untouched_def nth_update_cases)

lemma untouched_close_endpoint:
  assumes "ipc_inv s" "e < MAX_ENDPOINTS" "ep_owner_pid (g_endpoints s ! e) = pid"
  shows "untouched pid s (close_endpoint e s)"
proof -
  have "length (g_channels s) = MAX_CHANNELS" using assms(1) by (simp add: ipc_inv_def)
  with assms(3) live_pendingD(6) [of _ s e] show ?thesis
    by (auto simp: untouched_def nth_update_cases close_endpoint_eq [OF assms(1,2)] bystander_def)
qed

lemma untouched_release_endpoints:
  "ipc_inv s \<Longrightarrow> \<forall>e \<in> set es. e < MAX_ENDPOINTS \<Longrightarrow> untouched pid s (fold (release_endpoint pid) es s)"
proof (induction es arbitrary: s)
  case (Cons e es)
  have "untouched pid s (release_endpoint pid e s)"
    using Cons.prems untouched_close_endpoint [of s e pid] by (simp add: release_endpoint_def Let_def)
  with Cons release_endpoint_inv [of s e pid] show ?case
    by (auto intro: untouched_trans)
qed simp

lemma release_channel_bystander: "ch_inv c \<Longrightarrow> bystander pid c \<Longrightarrow> release_channel pid c = c"
  by (auto simp: release_channel_def bystander_def maybe_free_channel_def ch_inv_def)

lemma untouched_release:
  assumes "ipc_inv s"
  shows "untouched pid s (ipc_release_process pid s)"
proof -
  let ?t = "fold (release_endpoint pid) [0..<MAX_ENDPOINTS] s"
  have inv: "ipc_inv ?t" by (rule release_endpoints_inv [OF assms]) simp
  have "untouched pid ?t (?t\<lparr>g_channels := map (release_channel pid) (g_channels ?t)\<rparr>)"
    using inv release_channel_bystander ipc_inv_nth(2) [OF inv] by (auto simp: untouched_def ipc_inv_def)
  with untouched_release_endpoints [OF assms, of "[0..<MAX_ENDPOINTS]" pid] show ?thesis
    by (auto simp: ipc_release_process_def Let_def intro: untouched_trans)
qed

lemma untouched_exec:
  assumes "ipc_inv s" "c \<noteq> Initialize" "call_pid c = pid"
  shows "untouched pid s (ipc_exec c s)"
proof (cases c)
  case Initialize
  with assms(2) show ?thesis by simp
next
  case (Bind p name out m)
  obtain st o' s' where r: "ipc_bind p name out m s = (st, o', s')" by (metis prod_cases3)
  from r show ?thesis
  proof (cases rule: ipc_bind_cases)
    case (ok n i)
    with r Bind find_index_Some_nthD [OF ok(7)] show ?thesis by (auto intro: untouched_endpoint)
  qed (simp add: Bind r)
next
  case (Connect p name out neg)
  obtain st o' neg' s' where r: "ipc_connect p name out neg s = (st, o', neg', s')" by (metis prod_cases4)
  from r show ?thesis
  proof (cases rule: ipc_connect_cases)
    case (full e)
    with r Connect show ?thesis by (auto intro: untouched_endpoint)
  next
    case (ok n e i v)
    with r Connect find_index_Some_nthD [OF ok(8)] show ?thesis
      by (auto intro!: untouched_both simp: bystander_def)
  qed (simp add: Connect r)
next
  case (Accept p h out)
  obtain st o' s' where r: "ipc_accept p h out s = (st, o', s')" by (metis prod_cases3)
  from r assms(1) show ?thesis
  proof (cases rule: ipc_accept_cases)
    case (empty e)
    with r Accept show ?thesis by (auto intro: untouched_endpoint)
  next
    case (ok e x xs)
    with r Accept assms(3) decode_endpointD(3) [OF ok(2)] live_pendingD(6) [of x s e] show ?thesis
      by (auto intro!: untouched_both simp: bystander_def)
  qed (simp add: Accept r)
next
  case (Send p h d n)
  obtain st s' where r: "ipc_send p h d n s = (st, s')" by fastforce
  from r assms(1) show ?thesis
  proof (cases rule: ipc_send_cases)
    case (ok i server d)
    with r Send assms(3) decode_channel_side(1) [OF ok(2)] show ?thesis
      by (auto intro!: untouched_channel simp: bystander_def side_pid_def split: if_splits)
  qed (simp add: Send r)
next
  case (Receive p h out)
  obtain st o' s' where r: "ipc_receive p h out s = (st, o', s')" by (metis prod_cases3)
  from r assms(1) show ?thesis
  proof (cases rule: ipc_receive_cases)
    case (ok i server m ms)
    with r Receive assms(3) decode_channel_side(1) [OF ok(2)] show ?thesis
      by (auto intro!: untouched_channel simp: bystander_def side_pid_def split: if_splits)
  qed (simp add: Receive r)
next
  case (Close p h)
  obtain st s' where r: "ipc_close p h s = (st, s')" by fastforce
  from r show ?thesis
  proof (cases rule: ipc_close_cases)
    case (ep e)
    with r Close assms(3) untouched_close_endpoint [OF assms(1)] decode_endpointD(1,3) [OF ep(2)]
    show ?thesis by auto
  next
    case (ch i server)
    with r Close assms(3) decode_channel_side(1) [OF ch(2)] show ?thesis
      by (auto intro!: untouched_channel simp: bystander_def side_pid_def split: if_splits)
  qed (simp add: Close r)
next
  case (ReleaseProcess p)
  with assms untouched_release [OF assms(1)] show ?thesis by simp
qed

text \<open>
  C9.  Non-interference.  Whatever call a process makes, with whatever handle, name or buffer, a
  channel of which it is neither client nor server is left exactly as it was, and an endpoint it
  does not own keeps its name, owner, generation, metadata and activity.
\<close>

theorem ipc_noninterference:
  assumes "ipc_reachable s" "c \<noteq> Initialize" "call_pid c = pid"
  shows "(\<forall>i < MAX_CHANNELS. bystander pid (g_channels s ! i) \<longrightarrow>
      g_channels (ipc_exec c s) ! i = g_channels s ! i) \<and>
    (\<forall>e < MAX_ENDPOINTS. ep_active (g_endpoints s ! e) \<and> ep_owner_pid (g_endpoints s ! e) \<noteq> pid \<longrightarrow>
      same_endpoint (g_endpoints s ! e) (g_endpoints (ipc_exec c s) ! e))"
  using untouched_exec [OF ipc_reachable_invI [OF assms(1)] assms(2,3)] by (simp add: untouched_def)

lemma ipc_reachable_exec: "ipc_reachable s \<Longrightarrow> ipc_reachable (ipc_exec c s)"
  by (rule ipc_reachable.step [OF _ ipc_step.call])

lemma example_reachable:
  "ipc_reachable example_server" "ipc_reachable example_connected" "ipc_reachable example_channel"
  using ipc_reachable_exec [OF ipc_reachable_exec [OF ipc_reachable.start, of Initialize],
      of "Bind 7 (Some ''svc.a'') (Some 0)
        (Some \<lparr>service_version = 3, minimum_client_version = 2, capabilities = 5\<rparr>)"]
    ipc_reachable_exec [of example_server "Connect 9 (Some ''svc.a'') (Some 0) None"]
    ipc_reachable_exec [of example_connected "Accept 7 example_endpoint (Some 0)"]
  unfolding example_server_def [symmetric] ipc_exec.simps example_connected_def [symmetric]
    example_channel_def [symmetric]
  by blast+

theorem ipc_noninterference_witness:
  "bystander 8 (g_channels example_channel ! 0) \<and>
   g_channels (ipc_exec (Close 8 example_client) example_channel) ! 0 = g_channels example_channel ! 0"
proof -
  have b: "bystander 8 (g_channels example_channel ! 0)" by code_simp
  with ipc_noninterference [OF example_reachable(3), of "Close 8 example_client" 8] show ?thesis
    by (simp add: MAX_CHANNELS_def)
qed

section \<open>Sending and receiving\<close>

text \<open>Receive up to \<open>n\<close> messages, until a receive does not succeed.\<close>

fun drain :: "nat \<Rightarrow> u64 \<Rightarrow> u64 \<Rightarrow> ipc \<Rightarrow> Message list \<times> Status" where
  "drain 0 pid h s = ([], Status.Ok)"
| "drain (Suc n) pid h s =
     (case ipc_receive pid h (Some zero_message) s of (st, out, s') \<Rightarrow>
        if st = Status.Ok then let (ms, st') = drain n pid h s' in (the out # ms, st') else ([], st))"

lemma decode_channel_cong:
  assumes "length (g_channels s') = length (g_channels s)"
    "\<And>i. i < MAX_CHANNELS \<Longrightarrow> ch_active (g_channels s' ! i) = ch_active (g_channels s ! i) \<and>
       ch_generation (g_channels s' ! i) = ch_generation (g_channels s ! i) \<and>
       client_pid (g_channels s' ! i) = client_pid (g_channels s ! i) \<and>
       server_pid (g_channels s' ! i) = server_pid (g_channels s ! i) \<and>
       client_open (g_channels s' ! i) = client_open (g_channels s ! i) \<and>
       server_open (g_channels s' ! i) = server_open (g_channels s ! i)"
  shows "decode_channel s' pid h = decode_channel s pid h"
proof (cases "decode_index h MAX_CHANNELS")
  case (Some i)
  with assms(2) [OF decode_index_bound [OF Some]] show ?thesis by (simp add: decode_channel_def Let_def)
qed (simp add: decode_channel_def)

lemma decode_channel_set_queue [simp]:
  "decode_channel (s\<lparr>g_channels := (g_channels s)[i := set_out_queue server q (g_channels s ! i)]\<rparr>) pid h
     = decode_channel s pid h"
  "decode_channel (s\<lparr>g_channels := (g_channels s)[i := set_in_queue server q (g_channels s ! i)]\<rparr>) pid h
     = decode_channel s pid h"
  by (rule decode_channel_cong; auto simp: nth_update_cases side_defs)+

lemma side_set_queue [simp]:
  "side_pid b (set_in_queue server q c) = side_pid b c" "side_open b (set_in_queue server q c) = side_open b c"
  "side_pid b (set_out_queue server q c) = side_pid b c" "side_open b (set_out_queue server q c) = side_open b c"
  "in_queue server (set_in_queue server q c) = q" "out_queue server (set_out_queue server q c) = q"
  "in_queue (\<not> server) (set_out_queue server q c) = q"
  "in_queue server (set_out_queue server q c) = in_queue server c"
  "out_queue server (set_in_queue server q c) = out_queue server c"
  by (simp_all add: side_defs)

lemma decode_channel_pid:
  assumes "ipc_inv s" "decode_channel s pid h = Inr (i, server)"
  shows "pid \<noteq> INVALID_PROCESS_ID"
  using ipc_inv_nth(2) [OF assms(1) decode_channelD(1) [OF assms(2)]] decode_channelD(2) [OF assms(2)]
    decode_channel_side(1) [OF assms(2)]
  by (auto simp: ch_inv_def side_pid_def split: if_splits)

lemma ipc_receive_eq:
  assumes "ipc_inv s" "g_initialized s" "decode_channel s pid h = Inr (i, server)"
  shows "ipc_receive pid h (Some m0) s =
    (if mq_list (in_queue server (g_channels s ! i)) = []
     then (if side_open (\<not> server) (g_channels s ! i) then Status.WouldBlock else Status.PeerClosed, Some zero_message, s)
     else (Status.Ok, Some (hd (mq_list (in_queue server (g_channels s ! i)))),
       s\<lparr>g_channels := (g_channels s)[i :=
         set_in_queue server (snd (snd (pop_message (in_queue server (g_channels s ! i)) zero_message))) (g_channels s ! i)]\<rparr>))"
    (is "_ = (if mq_list ?q = [] then _ else _)")
proof -
  let ?c = "g_channels s ! i"
  note pid = decode_channel_pid [OF assms(1,3)]
  have e: "ipc_receive pid h (Some m0) s =
         (case pop_message ?q zero_message of
            (status, m, q') \<Rightarrow>
              (if status = Status.WouldBlock
               then (if side_open (\<not> server) ?c then Status.WouldBlock else Status.PeerClosed) else status,
               Some m, s\<lparr>g_channels := (g_channels s)[i := set_in_queue server q' ?c]\<rparr>))"
    using assms(2,3) pid by (auto simp: ipc_receive_def Let_def side_defs split: prod.splits)
  have inv: "mq_inv ?q" using queue_inv(2) ipc_inv_nth(2) [OF assms(1) decode_channelD(1) [OF assms(3)]] .
  show ?thesis
  proof (cases "mq_list ?q")
    case Nil
    then have "mq_count ?q = 0" by (metis length_0_conv length_mq_list)
    with Nil e set_queue_same(2) [of server ?c] pop_message_none [OF this] show ?thesis by auto
  next
    case (Cons m ms)
    have "0 < mq_count ?q" using arg_cong [OF Cons, of length] by simp
    from pop_message_some [OF inv this, of zero_message] Cons e show ?thesis
      by (auto simp: case_prod_unfold)
  qed
qed

lemma drain_all:
  assumes "ipc_inv s" "g_initialized s" "decode_channel s pid h = Inr (i, server)"
    "length (mq_list (in_queue server (g_channels s ! i))) < n"
  shows "drain n pid h s = (mq_list (in_queue server (g_channels s ! i)),
    if side_open (\<not> server) (g_channels s ! i) then Status.WouldBlock else Status.PeerClosed)"
  using assms
proof (induction n arbitrary: s)
  case (Suc n)
  let ?c = "g_channels s ! i"
  let ?q = "in_queue server ?c"
  note r = ipc_receive_eq [OF Suc.prems(1-3), of zero_message]
  show ?case
  proof (cases "mq_list ?q")
    case Nil
    with r show ?thesis by simp
  next
    case (Cons m ms)
    let ?q' = "snd (snd (pop_message ?q zero_message))"
    let ?s = "s\<lparr>g_channels := (g_channels s)[i := set_in_queue server ?q' ?c]\<rparr>"
    have inv: "ipc_inv ?s" using ipc_receive_inv [OF Suc.prems(1), of pid h "Some zero_message"] r Cons by simp
    have c: "ch_inv ?c" using ipc_inv_nth(2) [OF Suc.prems(1) decode_channelD(1) [OF Suc.prems(3)]] .
    have "0 < mq_count ?q" using arg_cong [OF Cons, of length] by simp
    from pop_message_some(2) [OF queue_inv(2) [OF c] this, of zero_message] Cons
    have q': "mq_list ?q' = ms" by simp
    have i: "g_channels ?s ! i = set_in_queue server ?q' ?c"
      using Suc.prems(1) decode_channelD(1) [OF Suc.prems(3)] by (simp add: ipc_inv_def)
    have "drain n pid h ?s = (ms, if side_open (\<not> server) ?c then Status.WouldBlock else Status.PeerClosed)"
      using Suc.IH [OF inv] Suc.prems Cons q' unfolding i by simp
    with r Cons show ?thesis by simp
  qed
qed simp

text \<open>
  C10.  Ordered, authenticated delivery.  Let \<open>h\<close> and \<open>h'\<close> be the two open ends of a channel.  A send
  of at most 256 bytes on \<open>h\<close> is accepted exactly when fewer than four messages wait in that
  direction; a refused send reports \<open>WouldBlock\<close> and changes nothing.  After an accepted send
  the peer receives on \<open>h'\<close> first everything that was waiting, in order, and then this message, with
  exactly the bytes sent and the sender's process identity, and then \<open>WouldBlock\<close>.
\<close>

theorem ipc_send_receive:
  assumes "ipc_reachable s" "g_initialized s"
    and "decode_channel s p h = Inr (i, server)" "decode_channel s q h' = Inr (i, \<not> server)"
    and "length d \<le> MAX_MESSAGE_SIZE"
  shows "if mq_count (out_queue server (g_channels s ! i)) < MAX_MESSAGES_PER_DIRECTION
     then \<exists>s'. ipc_send p h (Some d) 0 s = (Status.Ok, s') \<and>
       drain 5 q h' s' = (mq_list (in_queue (\<not> server) (g_channels s ! i)) @ [message_of p d], Status.WouldBlock)
     else ipc_send p h (Some d) 0 s = (Status.WouldBlock, s)"
proof -
  let ?c = "g_channels s ! i"
  let ?o = "out_queue server ?c"
  note inv = ipc_reachable_invI [OF assms(1)]
  note i = decode_channelD(1) [OF assms(3)]
  note pid = decode_channel_pid [OF inv assms(3)]
  have c: "ch_inv ?c" using ipc_inv_nth(2) [OF inv i] .
  have open2: "side_open (\<not> server) ?c" "side_open server ?c"
    using decode_channel_side(2) [OF assms(4)] decode_channel_side(2) [OF assms(3)] .
  have e: "ipc_send p h (Some d) 0 s = (case push_message ?o p d of
      (status, q') \<Rightarrow> (status, s\<lparr>g_channels := (g_channels s)[i := set_out_queue server q' ?c]\<rparr>))"
    using assms(2,3,5) pid open2(1)
    by (auto simp: ipc_send_def Let_def side_defs split: prod.splits if_splits)
  show ?thesis
  proof (cases "mq_count ?o < MAX_MESSAGES_PER_DIRECTION")
    case True
    note pm = push_message_room [OF queue_inv(1) [OF c] True, of p d]
    let ?s = "s\<lparr>g_channels := (g_channels s)[i := set_out_queue server (snd (push_message ?o p d)) ?c]\<rparr>"
    have s: "ipc_send p h (Some d) 0 s = (Status.Ok, ?s)" using e pm(1) by (simp add: case_prod_unfold)
    have i': "g_channels ?s ! i = set_out_queue server (snd (push_message ?o p d)) ?c"
      using inv i by (simp add: ipc_inv_def)
    have inv': "ipc_inv ?s" using ipc_send_inv [OF inv, of p h "Some d" 0] s by simp
    have "drain 5 q h' ?s = (mq_list (in_queue (\<not> server) ?c) @ [message_of p d], Status.WouldBlock)"
      using drain_all [OF inv' _ _ , of q h' i "\<not> server" 5] assms(2,4) pm(2) True open2
      unfolding i' in_out_queue by (simp add: MAX_MESSAGES_PER_DIRECTION_def)
    with s True show ?thesis by auto
  next
    case False
    with push_message_full [of ?o p d] e set_queue_same(1) [of server ?c] show ?thesis by simp
  qed
qed

theorem ipc_send_receive_witness:
  "\<exists>s'. ipc_send 9 example_client (Some [1, 2, 3]) 0 example_channel = (Status.Ok, s') \<and>
     drain 5 7 example_accepted s' = ([message_of 9 [1, 2, 3]], Status.WouldBlock)"
proof -
  have "g_initialized example_channel" "decode_channel example_channel 9 example_client = Inr (0, False)"
    "decode_channel example_channel 7 example_accepted = Inr (0, \<not> False)"
    "mq_count (out_queue False (g_channels example_channel ! 0)) < MAX_MESSAGES_PER_DIRECTION"
    "mq_list (in_queue (\<not> False) (g_channels example_channel ! 0)) = []"
    by code_simp+
  then show ?thesis
    using ipc_send_receive [OF example_reachable(3), of 9 example_client 0 False 7 example_accepted "[1, 2, 3]"]
    by (simp add: MAX_MESSAGE_SIZE_def)
qed

section \<open>Names\<close>

lemma decode_encode_endpoint:
  assumes "i < MAX_ENDPOINTS"
  shows "decode_endpoint s p (encode_endpoint i g) =
    (let slot = g_endpoints s ! i in
     if \<not> ep_active slot \<or> ep_generation slot \<noteq> g then Inl Status.StaleHandle
     else if ep_owner_pid slot \<noteq> p then Inl Status.AccessDenied else Inr i)"
  using encode_endpoint_fields [of i g] assms
  by (simp add: decode_endpoint_def MAX_ENDPOINTS_def)

lemma decode_encode_channel:
  assumes "i < MAX_CHANNELS"
  shows "decode_channel s p (encode_channel i g server) =
    (let slot = g_channels s ! i in
     if \<not> ch_active slot \<or> ch_generation slot \<noteq> g then Inl Status.StaleHandle
     else if side_pid server slot \<noteq> p then Inl Status.AccessDenied
     else if \<not> side_open server slot then Inl Status.StaleHandle else Inr (i, server))"
  using encode_channel_fields [of i g server] assms
  by (auto simp: decode_channel_def MAX_CHANNELS_def side_defs Let_def)

lemma find_service_eqI:
  assumes "ipc_inv s" "i < MAX_ENDPOINTS" "ep_active (g_endpoints s ! i)"
    "ep_name (g_endpoints s ! i) = pad_name n" "valid_name n"
  shows "find_service s n = Some i"
proof -
  have "find_service s n \<noteq> None"
    using assms find_service_None [OF assms(1,5)] by (auto simp: ipc_inv_def)
  then obtain j where j: "find_service s n = Some j" by blast
  from find_service_Some [OF assms(1) j] assms have "j = i"
    by (auto simp: ipc_inv_def unique_names_def)
  with j show ?thesis by simp
qed

lemma ipc_bind_ok_iff:
  "fst (ipc_bind pid (Some n) (Some out) m s) = Status.Ok \<longleftrightarrow>
    g_initialized s \<and> pid \<noteq> INVALID_PROCESS_ID \<and> valid_name n \<and> metadata_ok m \<and>
    find_service s n = None \<and> (\<exists>e \<in> set (g_endpoints s). \<not> ep_active e)"
proof -
  have dup: "(\<exists>slot \<in> set (g_endpoints s). ep_active slot \<and> name_equal slot n) \<longleftrightarrow> find_service s n \<noteq> None"
    using find_index_None_iff [of "\<lambda>slot. ep_active slot \<and> name_equal slot n" "g_endpoints s"]
    by (auto simp: find_service_def)
  have free: "(\<exists>e \<in> set (g_endpoints s). \<not> ep_active e) \<longleftrightarrow>
      find_index (\<lambda>slot. \<not> ep_active slot) (g_endpoints s) \<noteq> None"
    by (auto simp: find_index_None_iff)
  show ?thesis
    using validate_name_Ok [of "Some n"]
    unfolding ipc_bind_def Let_def metadata_guard option.sel dup free
    by (auto split: option.splits)
qed

text \<open>
  C11.  \<open>bind\<close>.  It succeeds exactly when the service is initialised, the caller is a process, the
  name and the metadata are valid, no active endpoint has the name and a slot is free.  Then the
  name resolves to the new endpoint, the returned handle works for the caller and for nobody else,
  and until the endpoint is closed a second \<open>bind\<close> of the name by anyone is refused without effect.
\<close>

theorem ipc_bind_correct:
  assumes "ipc_reachable s"
  shows "(fst (ipc_bind pid (Some n) (Some out) m s) = Status.Ok \<longleftrightarrow>
      g_initialized s \<and> pid \<noteq> INVALID_PROCESS_ID \<and> valid_name n \<and> metadata_ok m \<and>
      find_service s n = None \<and> (\<exists>e \<in> set (g_endpoints s). \<not> ep_active e)) \<and>
    (\<forall>h s'. ipc_bind pid (Some n) (Some out) m s = (Status.Ok, h, s') \<longrightarrow>
      (\<exists>i. find_service s' n = Some i \<and> decode_endpoint s' pid (the h) = Inr i) \<and>
      (\<forall>q. q \<noteq> pid \<longrightarrow> decode_endpoint s' q (the h) = Inl Status.AccessDenied) \<and>
      (\<forall>q m'. q \<noteq> INVALID_PROCESS_ID \<and> metadata_ok m' \<longrightarrow>
         ipc_bind q (Some n) (Some out) m' s' = (Status.AlreadyExists, Some INVALID_HANDLE, s')))"
proof (intro conjI ipc_bind_ok_iff allI impI)
  fix h s'
  assume b: "ipc_bind pid (Some n) (Some out) m s = (Status.Ok, h, s')"
  have inv: "ipc_inv s" "ipc_inv s'"
    using ipc_reachable_invI [OF assms] ipc_bind_inv [of s pid "Some n" "Some out" m] b by simp_all
  have init: "g_initialized s" using b ipc_bind_ok_iff [of pid n out m s] by simp
  from b obtain i where i: "valid_name n" "i < MAX_ENDPOINTS"
      "g_initialized s'" "ep_active (g_endpoints s' ! i)" "ep_name (g_endpoints s' ! i) = pad_name n"
      "ep_owner_pid (g_endpoints s' ! i) = pid" "h = Some (encode_endpoint i (ep_generation (g_endpoints s' ! i)))"
  proof (cases rule: ipc_bind_cases)
    case (ok k i)
    have "i < length (g_endpoints s)" using find_index_Some_lessD [OF ok(7)] .
    with ok inv(1) init show thesis
      by (intro that [of i]) (auto simp: bound_slot_def ipc_inv_def)
  qed simp
  have f: "find_service s' n = Some i" by (rule find_service_eqI [OF inv(2) i(2,4,5,1)])
  show "\<exists>i. find_service s' n = Some i \<and> decode_endpoint s' pid (the h) = Inr i"
    using f i by (simp add: decode_encode_endpoint Let_def)
  show "decode_endpoint s' q (the h) = Inl Status.AccessDenied" if "q \<noteq> pid" for q
    using that i by (simp add: decode_encode_endpoint Let_def)
  show "ipc_bind q (Some n) (Some out) m' s' = (Status.AlreadyExists, Some INVALID_HANDLE, s')"
    if q: "q \<noteq> INVALID_PROCESS_ID \<and> metadata_ok m'" for q m'
  proof -
    have "(\<exists>slot \<in> set (g_endpoints s'). ep_active slot \<and> name_equal slot n) \<longleftrightarrow> True"
      using find_index_SomeD [OF f [unfolded find_service_def]] nth_mem by blast
    with q i(1,3) validate_name_Ok [of "Some n"] show ?thesis
      unfolding ipc_bind_def Let_def metadata_guard by simp
  qed
qed

theorem ipc_bind_correct_witness:
  "fst (ipc_bind 9 (Some ''svc.b'') (Some 0) None example_server) = Status.Ok \<and>
   ipc_bind 9 (Some ''svc.b'') (Some 0) None (snd (snd (ipc_bind 9 (Some ''svc.b'') (Some 0) None example_server)))
     = (Status.AlreadyExists, Some INVALID_HANDLE,
        snd (snd (ipc_bind 9 (Some ''svc.b'') (Some 0) None example_server)))"
proof -
  obtain st h s' where b: "ipc_bind 9 (Some ''svc.b'') (Some 0) None example_server = (st, h, s')"
    by (metis prod_cases3)
  have "fst (ipc_bind 9 (Some ''svc.b'') (Some 0) None example_server) = Status.Ok" by code_simp
  with b ipc_bind_correct [OF example_reachable(1), of 9 "''svc.b''" 0 None] show ?thesis
    by (auto simp: metadata_ok_def)
qed

section \<open>Connecting\<close>

text \<open>
  The version a client and a service agree on: \<open>speaks\<close> are the versions both ranges contain.
\<close>

definition speaks :: "ServiceNegotiation \<Rightarrow> ServiceMetadata \<Rightarrow> u32 \<Rightarrow> bool" where
  "speaks neg m v \<longleftrightarrow> neg_minimum_version neg \<le> v \<and> v \<le> neg_maximum_version neg \<and>
     minimum_client_version m \<le> v \<and> v \<le> service_version m"

lemma negotiate_speaks:
  assumes "versioned e" "1 \<le> neg_minimum_version neg" "neg_minimum_version neg \<le> neg_maximum_version neg"
    "valid_metadata (ep_metadata e)"
  shows "negotiate e (Some neg) =
    (if \<exists>v. speaks neg (ep_metadata e) v
     then Inr (min (neg_maximum_version neg) (service_version (ep_metadata e)))
     else Inl Status.VersionMismatch)"
    "(\<exists>v. speaks neg (ep_metadata e) v) \<Longrightarrow>
      speaks neg (ep_metadata e) (min (neg_maximum_version neg) (service_version (ep_metadata e)))"
    "speaks neg (ep_metadata e) v \<Longrightarrow> v \<le> min (neg_maximum_version neg) (service_version (ep_metadata e))"
proof -
  let ?u = "min (neg_maximum_version neg) (service_version (ep_metadata e))"
  let ?l = "max (neg_minimum_version neg) (minimum_client_version (ep_metadata e))"
  have ne: "neg_minimum_version neg \<noteq> 0" using assms(2) by auto
  have iff: "(\<exists>v. speaks neg (ep_metadata e) v) \<longleftrightarrow> ?l \<le> ?u"
  proof
    assume "\<exists>v. speaks neg (ep_metadata e) v"
    then obtain v where "?l \<le> v" "v \<le> ?u" by (auto simp: speaks_def)
    then show "?l \<le> ?u" by (rule order_trans)
  next
    assume "?l \<le> ?u"
    then show "\<exists>v. speaks neg (ep_metadata e) v" by (intro exI [of _ ?u]) (simp add: speaks_def)
  qed
  have lu: "(if neg_minimum_version neg > minimum_client_version (ep_metadata e) then neg_minimum_version neg
        else minimum_client_version (ep_metadata e)) = ?l"
      "(if neg_maximum_version neg < service_version (ep_metadata e) then neg_maximum_version neg
        else service_version (ep_metadata e)) = ?u"
    by (auto simp: max_def min_def)
  have g: "neg_maximum_version neg < neg_minimum_version neg \<longleftrightarrow> False" using assms(3) by simp
  define l where "l = ?l"
  define u where "u = ?u"
  have "negotiate e (Some neg) = (if u < l then Inl Status.VersionMismatch else Inr u)"
    unfolding negotiate_def option.case Let_def lu g l_def [symmetric] u_def [symmetric]
    using assms(1) ne by simp
  then show "negotiate e (Some neg) =
    (if \<exists>v. speaks neg (ep_metadata e) v then Inr ?u else Inl Status.VersionMismatch)"
    unfolding iff l_def [symmetric] u_def [symmetric] by (simp add: not_le)
  show "speaks neg (ep_metadata e) ?u" if "\<exists>v. speaks neg (ep_metadata e) v"
    using that unfolding iff by (simp add: speaks_def)
  show "v \<le> ?u" if "speaks neg (ep_metadata e) v"
    using that by (simp add: speaks_def)
qed

text \<open>
  Version negotiation.  A connection that asks for a version range agrees on the greatest
  version that lies in the client's range and in the range the service supports, and reports the
  service's own range, capabilities and owner; if the ranges have no version in common the
  connection is refused with \<open>VersionMismatch\<close> and nothing changes.
\<close>

theorem ipc_connect_negotiates:
  assumes "ipc_reachable s" "find_service s n = Some e" "versioned (g_endpoints s ! e)"
    and "1 \<le> neg_minimum_version neg" "neg_minimum_version neg \<le> neg_maximum_version neg"
    and "ipc_connect pid (Some n) (Some out) (Some neg) s = (st, h, neg', s')"
  shows "(st = Status.Ok \<longrightarrow>
      speaks neg (ep_metadata (g_endpoints s ! e)) (neg_selected_version (the neg')) \<and>
      (\<forall>v. speaks neg (ep_metadata (g_endpoints s ! e)) v \<longrightarrow> v \<le> neg_selected_version (the neg')) \<and>
      neg_service_version (the neg') = service_version (ep_metadata (g_endpoints s ! e)) \<and>
      neg_owner_pid (the neg') = ep_owner_pid (g_endpoints s ! e)) \<and>
    ((\<nexists>v. speaks neg (ep_metadata (g_endpoints s ! e)) v) \<and> g_initialized s \<and> pid \<noteq> INVALID_PROCESS_ID \<longrightarrow>
      st = Status.VersionMismatch \<and> s' = s)"
proof -
  note inv = ipc_reachable_invI [OF assms(1)]
  note f = find_service_Some [OF inv assms(2)]
  have m: "valid_metadata (ep_metadata (g_endpoints s ! e))"
    using ipc_inv_nth(1) [OF inv f(1)] f(2) assms(3) by (simp add: ep_inv_def)
  note neg = negotiate_speaks [OF assms(3-5) m]
  have A: "speaks neg (ep_metadata (g_endpoints s ! e)) (neg_selected_version (the neg')) \<and>
      (\<forall>v. speaks neg (ep_metadata (g_endpoints s ! e)) v \<longrightarrow> v \<le> neg_selected_version (the neg')) \<and>
      neg_service_version (the neg') = service_version (ep_metadata (g_endpoints s ! e)) \<and>
      neg_owner_pid (the neg') = ep_owner_pid (g_endpoints s ! e)" if "st = Status.Ok"
    using assms(6)
  proof (cases rule: ipc_connect_cases)
    case (ok k e' i v)
    have e': "k = n" "e' = e" using ok(2,5) assms(2) by simp_all
    have ex: "\<exists>v. speaks neg (ep_metadata (g_endpoints s ! e)) v"
      using ok(6) unfolding e' neg(1) by (auto split: if_splits)
    then have "v = min (neg_maximum_version neg) (service_version (ep_metadata (g_endpoints s ! e)))"
      using ok(6) unfolding e' neg(1) by (auto split: if_splits)
    with ok(10) neg(2) [OF ex] neg(3) show ?thesis by (simp add: e')
  qed (use that in simp_all)
  have B: "st = Status.VersionMismatch \<and> s' = s"
    if "\<nexists>v. speaks neg (ep_metadata (g_endpoints s ! e)) v" "g_initialized s" "pid \<noteq> INVALID_PROCESS_ID"
  proof -
    have "negotiate (g_endpoints s ! e) (Some neg) = Inl Status.VersionMismatch"
      using that(1) unfolding neg(1) by simp
    with assms(6) that(2,3) f(4) assms(2) validate_name_Ok [of "Some n"] show ?thesis
      by (simp add: ipc_connect_def Let_def find_service_def)
  qed
  from A B show ?thesis by blast
qed

theorem ipc_connect_negotiates_witness:
  "neg_selected_version (the (fst (snd (snd (ipc_connect 9 (Some ''svc.a'') (Some 0)
      (Some \<lparr>neg_minimum_version = 1, neg_maximum_version = 9, neg_selected_version = 0,
        neg_service_version = 0, neg_minimum_client_version = 0, neg_capabilities = 0, neg_owner_pid = 0\<rparr>)
      example_server))))) = 3"
proof -
  let ?neg = "\<lparr>neg_minimum_version = 1, neg_maximum_version = 9, neg_selected_version = 0,
        neg_service_version = 0, neg_minimum_client_version = 0, neg_capabilities = 0, neg_owner_pid = 0\<rparr>"
  obtain st h neg' s' where c: "ipc_connect 9 (Some ''svc.a'') (Some 0) (Some ?neg) example_server = (st, h, neg', s')"
    by (metis prod_cases4)
  have ok: "fst (ipc_connect 9 (Some ''svc.a'') (Some 0) (Some ?neg) example_server) = Status.Ok"
    and f: "find_service example_server ''svc.a'' = Some 0" "versioned (g_endpoints example_server ! 0)"
    and m: "ep_metadata (g_endpoints example_server ! 0) =
      \<lparr>service_version = 3, minimum_client_version = 2, capabilities = 5\<rparr>"
    by code_simp+
  have "speaks ?neg (ep_metadata (g_endpoints example_server ! 0)) 3" unfolding m by code_simp
  moreover have "speaks ?neg (ep_metadata (g_endpoints example_server ! 0)) v \<Longrightarrow> v \<le> 3" for v
    by (simp add: speaks_def m)
  ultimately show ?thesis
    using ipc_connect_negotiates [OF example_reachable(1) f _ _ c] ok c by (auto intro: antisym)
qed

lemma connect_live_pending:
  assumes "ipc_inv s" "e < MAX_ENDPOINTS" "i < MAX_CHANNELS" "\<not> ch_active (g_channels s ! i)"
    "pending_count (compact_pending (g_channels s) (g_endpoints s ! e)) < MAX_PENDING_CONNECTIONS"
    "s' = s\<lparr>g_endpoints := (g_endpoints s)[e := enqueue_pending i (compact_pending (g_channels s) (g_endpoints s ! e))],
         g_channels := (g_channels s)[i := connected_slot pid (ep_owner_pid (g_endpoints s ! e)) g]\<rparr>"
  shows "live_pending s' e = live_pending s e @ [i]"
proof -
  let ?c = "compact_pending (g_channels s) (g_endpoints s ! e)"
  have len: "length (g_endpoints s) = MAX_ENDPOINTS" "length (g_channels s) = MAX_CHANNELS"
    using assms(1) by (simp_all add: ipc_inv_def)
  have ring: "ep_ring_inv (g_endpoints s ! e)" using ipc_inv_nth(1) [OF assms(1,2)] by (simp add: ep_inv_def)
  have e': "g_endpoints s' ! e = enqueue_pending i ?c" using assms(2,6) len by simp
  have entries: "pending_entries (g_endpoints s' ! e) = live_pending s e @ [i]"
    unfolding e' enqueue_pending_ring(2) [OF compact_pending_ring [OF ring] assms(5,3)]
    by (simp add: compact_pending_entries [OF ring] live_pending_def)
  have old: "pending_live (g_channels s') (g_endpoints s' ! e) x" if "x \<in> set (live_pending s e)" for x
  proof -
    have "x \<noteq> i" using live_pendingD(2) [OF that] assms(4) by auto
    then have "g_channels s' ! x = g_channels s ! x" using assms(6) by simp
    with live_pendingD [OF that] e' show ?thesis by (simp add: pending_live_def)
  qed
  have new: "pending_live (g_channels s') (g_endpoints s' ! e) i"
    using assms(3,6) len e' by (simp add: pending_live_def connected_slot_def zero_channel_def)
  have "filter (pending_live (g_channels s') (g_endpoints s' ! e)) (live_pending s e) = live_pending s e"
    using old by simp
  then show ?thesis unfolding live_pending_def [of s'] entries using new by simp
qed

lemma ipc_accept_eq:
  assumes "ipc_inv s" "g_initialized s" "decode_endpoint s pid h = Inr e" "live_pending s e = x # xs"
  shows "ipc_accept pid h (Some out) s =
    (Status.Ok, Some (encode_channel x (ch_generation (g_channels s ! x)) True),
     s\<lparr>g_endpoints := (g_endpoints s)[e := (compact_pending (g_channels s) (g_endpoints s ! e))
         \<lparr>pending_head := 1, pending_count := length xs\<rparr>],
       g_channels := (g_channels s)[x := (g_channels s ! x)\<lparr>accepted := True\<rparr>]\<rparr>)"
proof -
  note loop = accept_loop_compacted [OF decode_endpoint_ring [OF assms(1,3)], of "g_channels s",
      folded live_pending_def]
  have "pid \<noteq> INVALID_PROCESS_ID"
    using ipc_inv_nth(1) [OF assms(1) decode_endpointD(1) [OF assms(3)]] decode_endpointD(2,3) [OF assms(3)]
    by (auto simp: ep_inv_def)
  with assms loop show ?thesis by (simp add: ipc_accept_def Let_def)
qed

text \<open>Consecutive calls of \<open>accept\<close> with the statuses and handles they return.\<close>

fun accept_many :: "nat \<Rightarrow> u64 \<Rightarrow> u64 \<Rightarrow> u64 \<Rightarrow> ipc \<Rightarrow> (Status \<times> u64 option) list \<times> ipc" where
  "accept_many 0 pid h out s = ([], s)"
| "accept_many (Suc n) pid h out s =
     (case ipc_accept pid h (Some out) s of (status, result, s1) \<Rightarrow>
        case accept_many n pid h out s1 of (rs, s2) \<Rightarrow> ((status, result) # rs, s2))"

lemma live_pending_distinct: "ipc_inv s \<Longrightarrow> e < MAX_ENDPOINTS \<Longrightarrow> distinct (live_pending s e)"
  using ipc_inv_nth(1) [of s e] by (simp add: ep_inv_def live_pending_def)

text \<open>An \<open>accept\<close> takes the oldest waiting connection and leaves the others waiting.\<close>

lemma ipc_accept_step:
  assumes "ipc_inv s" "g_initialized s" "decode_endpoint s pid h = Inr e" "live_pending s e = x # xs"
  obtains s' where
    "ipc_accept pid h (Some out) s = (Status.Ok, Some (encode_channel x (ch_generation (g_channels s ! x)) True), s')"
    "ipc_inv s'" "g_initialized s'" "decode_endpoint s' pid h = Inr e" "live_pending s' e = xs"
    "g_channels s' = (g_channels s)[x := (g_channels s ! x)\<lparr>accepted := True\<rparr>]"
proof -
  let ?c = "compact_pending (g_channels s) (g_endpoints s ! e)"
  let ?e = "?c\<lparr>pending_head := 1, pending_count := length xs\<rparr>"
  define s' where "s' = s\<lparr>g_endpoints := (g_endpoints s)[e := ?e],
       g_channels := (g_channels s)[x := (g_channels s ! x)\<lparr>accepted := True\<rparr>]\<rparr>"
  note acc = ipc_accept_eq [OF assms, of out, folded s'_def]
  note e = decode_endpointD [OF assms(3)]
  have len: "length (g_endpoints s) = MAX_ENDPOINTS" "length (g_channels s) = MAX_CHANNELS"
    using assms(1) by (simp_all add: ipc_inv_def)
  note ring = decode_endpoint_ring [OF assms(1,3)]
  have "pending_entries ?c = x # xs"
    using compact_pending_entries [OF ring] assms(4) by (simp add: live_pending_def)
  from dequeue_pending_ring(2) [OF compact_pending_ring [OF ring] this]
  have entries: "pending_entries ?e = xs" by (simp add: MAX_PENDING_CONNECTIONS_def)
  have e': "g_endpoints s' ! e = ?e" using e(1) len by (simp add: s'_def)
  have "pending_live (g_channels s') ?e y" if "y \<in> set xs" for y
  proof -
    have "y \<noteq> x" using live_pending_distinct [OF assms(1) e(1)] that by (auto simp: assms(4))
    then have "g_channels s' ! y = g_channels s ! y" by (simp add: s'_def)
    with live_pendingD [of y s e] that show ?thesis by (simp add: assms(4) pending_live_def)
  qed
  then have "live_pending s' e = xs" unfolding live_pending_def e' entries by simp
  moreover have "decode_endpoint s' pid h = Inr e"
    using assms(3) e(1) len
    by (auto simp: s'_def decode_endpoint_def Let_def nth_update_cases split: if_splits option.splits)
  moreover have "ipc_inv s'" using ipc_accept_inv [OF assms(1), of pid h "Some out"] acc by simp
  moreover have "g_initialized s'" "g_channels s' = (g_channels s)[x := (g_channels s ! x)\<lparr>accepted := True\<rparr>]"
    using assms(2) by (simp_all add: s'_def)
  ultimately show thesis using that acc by blast
qed

lemma accept_many_drains:
  assumes "ipc_inv s" "g_initialized s" "decode_endpoint s pid h = Inr e" "live_pending s e = xs"
  shows "\<exists>s'. accept_many (length xs) pid h out s =
      (map (\<lambda>x. (Status.Ok, Some (encode_channel x (ch_generation (g_channels s ! x)) True))) xs, s') \<and>
    length (g_channels s') = MAX_CHANNELS \<and>
    (\<forall>x \<in> set xs. g_channels s' ! x = (g_channels s ! x)\<lparr>accepted := True\<rparr>) \<and>
    (\<forall>x. x \<notin> set xs \<longrightarrow> g_channels s' ! x = g_channels s ! x)"
  using assms
proof (induction xs arbitrary: s)
  case Nil
  then show ?case by (simp add: ipc_inv_def)
next
  case (Cons x xs)
  obtain s1 where s1: "ipc_accept pid h (Some out) s = (Status.Ok, Some (encode_channel x (ch_generation (g_channels s ! x)) True), s1)"
    "ipc_inv s1" "g_initialized s1" "decode_endpoint s1 pid h = Inr e" "live_pending s1 e = xs"
    "g_channels s1 = (g_channels s)[x := (g_channels s ! x)\<lparr>accepted := True\<rparr>]"
    using Cons.prems by (rule ipc_accept_step)
  obtain s2 where s2: "accept_many (length xs) pid h out s1 =
      (map (\<lambda>x. (Status.Ok, Some (encode_channel x (ch_generation (g_channels s1 ! x)) True))) xs, s2)"
    "length (g_channels s2) = MAX_CHANNELS"
    "\<forall>x \<in> set xs. g_channels s2 ! x = (g_channels s1 ! x)\<lparr>accepted := True\<rparr>"
    "\<forall>x. x \<notin> set xs \<longrightarrow> g_channels s2 ! x = g_channels s1 ! x"
    using Cons.IH [OF s1(2-5)] by blast
  have x: "x \<notin> set xs" "x < length (g_channels s)"
    using live_pending_distinct [OF Cons.prems(1) decode_endpointD(1) [OF Cons.prems(3)]] live_pendingD(1) [of x s e]
      Cons.prems(1,4) by (simp_all add: ipc_inv_def)
  then have same: "g_channels s1 ! y = g_channels s ! y" if "y \<noteq> x" for y using that s1(6) by simp
  have "map (\<lambda>y. (Status.Ok, Some (encode_channel y (ch_generation (g_channels s1 ! y)) True))) xs =
      map (\<lambda>y. (Status.Ok, Some (encode_channel y (ch_generation (g_channels s ! y)) True))) xs"
    using same x(1) by (intro map_cong refl) metis
  moreover have "g_channels s2 ! y = (g_channels s ! y)\<lparr>accepted := True\<rparr>" if "y \<in> set (x # xs)" for y
    using that s2(3,4) same [of y] s1(6) x by (cases "y = x") auto
  moreover have "g_channels s2 ! y = g_channels s ! y" if "y \<notin> set (x # xs)" for y
    using that s2(4) same [of y] by auto
  ultimately show ?case using s1(1) s2(1,2) by auto
qed

text \<open>
  C12.  The handshake.  A successful \<open>connect\<close> appends its channel to the connections waiting at the
  named endpoint.  When the owner then calls \<open>accept\<close> on that endpoint, once for every connection that waited
  before and once more, every call succeeds; the calls return the server's ends of the connections that
  waited before, in their order, and then the other end of exactly this channel: the client's handle and the
  server's handle resolve to the same slot, with opposite sides, for these two processes.
\<close>

theorem ipc_handshake:
  assumes "ipc_reachable s" "ipc_connect client (Some n) (Some out) neg s = (Status.Ok, Some h, neg', s1)"
    and "find_service s n = Some e" "decode_endpoint s server eh = Inr e"
  shows "\<exists>i hs s2. decode_channel s1 client h = Inr (i, False) \<and> live_pending s1 e = live_pending s e @ [i] \<and>
    accept_many (length (live_pending s e) + 1) server eh out s1 = (map (\<lambda>h. (Status.Ok, Some h)) hs, s2) \<and>
    map (decode_channel s2 server) hs = map (\<lambda>j. Inr (j, True)) (live_pending s e @ [i]) \<and>
    decode_channel s2 client h = Inr (i, False) \<and> accepted (g_channels s2 ! i)"
  using assms(2)
proof (cases rule: ipc_connect_cases)
  case (ok n' e' i v)
  have e': "n' = n" "e' = e" using ok(2,5) assms(3) by simp_all
  note inv = ipc_reachable_invI [OF assms(1)]
  have inv1: "ipc_inv s1" using ipc_connect_inv [OF inv, of client "Some n" "Some out" neg] assms(2) by simp
  have len: "length (g_endpoints s) = MAX_ENDPOINTS" "length (g_channels s) = MAX_CHANNELS"
    using inv by (simp_all add: ipc_inv_def)
  have i: "i < MAX_CHANNELS" "\<not> ch_active (g_channels s ! i)"
    using find_index_SomeD [OF ok(8)] len by simp_all
  note e = decode_endpointD [OF assms(4)]
  let ?g = "next_generation kMaximumGeneration (ch_generation (g_channels s ! i))"
  let ?w = "live_pending s e @ [i]"
  have c1: "g_channels s1 ! i = connected_slot client server ?g"
    using ok(11) i len e(3) e' by simp
  have live: "live_pending s1 e = ?w"
    by (rule connect_live_pending [OF inv e(1) i ok(7) [unfolded e'] ok(11) [unfolded e']])
  have d1: "decode_channel s1 client h = Inr (i, False)"
    using ok(9) i c1 by (simp add: decode_encode_channel Let_def connected_slot_def side_defs zero_channel_def)
  have init: "g_initialized s1" using assms(2) ok(11) by (auto simp: ipc_connect_def Let_def split: if_splits)
  have de: "decode_endpoint s1 server eh = Inr e"
    using assms(4) ok(11) e(1) len e'
    by (auto simp: decode_endpoint_def Let_def nth_update_cases split: if_splits option.splits)
  let ?h = "\<lambda>x. encode_channel x (ch_generation (g_channels s1 ! x)) True"
  obtain s2 where s2: "accept_many (length ?w) server eh out s1 = (map (\<lambda>x. (Status.Ok, Some (?h x))) ?w, s2)"
      "\<forall>x \<in> set ?w. g_channels s2 ! x = (g_channels s1 ! x)\<lparr>accepted := True\<rparr>"
    using accept_many_drains [OF inv1 init de live, of out] by (elim exE conjE)
  have own: "ep_owner_pid (g_endpoints s1 ! e) = server" using decode_endpointD(3) [OF de] .
  have ds: "decode_channel s2 server (?h x) = Inr (x, True)" if "x \<in> set ?w" for x
  proof -
    have x: "x \<in> set (live_pending s1 e)" using that unfolding live .
    have "g_channels s2 ! x = (g_channels s1 ! x)\<lparr>accepted := True\<rparr>" using s2(2) that by blast
    with live_pendingD [OF x] own show ?thesis by (simp add: decode_encode_channel Let_def side_defs)
  qed
  have dc: "decode_channel s2 client h = Inr (i, False)" "accepted (g_channels s2 ! i)"
  proof -
    have "g_channels s2 ! i = (connected_slot client server ?g)\<lparr>accepted := True\<rparr>" using s2(2) c1 by simp
    with ok(9) i show "decode_channel s2 client h = Inr (i, False)" "accepted (g_channels s2 ! i)"
      by (simp_all add: decode_encode_channel Let_def connected_slot_def side_defs zero_channel_def)
  qed
  show ?thesis
  proof (intro exI conjI)
    show "accept_many (length (live_pending s e) + 1) server eh out s1 = (map (\<lambda>h. (Status.Ok, Some h)) (map ?h ?w), s2)"
      using s2(1) by (simp add: comp_def)
    show "map (decode_channel s2 server) (map ?h ?w) = map (\<lambda>j. Inr (j, True)) ?w"
      unfolding map_map comp_def by (rule map_cong [OF refl ds])
  qed (fact d1 live dc)+
qed simp_all

theorem ipc_handshake_witness:
  "\<exists>h1 h2 s1 s2. snd (snd (snd (ipc_connect 11 (Some ''svc.a'') (Some 0) None example_connected))) = s1 \<and>
     accept_many 2 7 example_endpoint 0 s1 = ([(Status.Ok, Some h1), (Status.Ok, Some h2)], s2) \<and>
     decode_channel s2 7 h1 = Inr (0, True) \<and> decode_channel s2 7 h2 = Inr (1, True)"
proof -
  let ?r = "ipc_connect 11 (Some ''svc.a'') (Some 0) None example_connected"
  obtain st h neg' s1 where c: "?r = (st, h, neg', s1)" by (metis prod_cases4)
  have "fst ?r = Status.Ok" "fst (snd ?r) \<noteq> None" "live_pending (snd (snd (snd ?r))) 0 = [0, 1]"
    and f: "find_service example_connected ''svc.a'' = Some 0"
    "decode_endpoint example_connected 7 example_endpoint = Inr 0"
    and l: "live_pending example_connected 0 = [0]"
    by code_simp+
  then obtain k where "?r = (Status.Ok, Some k, neg', s1)" "live_pending s1 0 = [0, 1]" using c by auto
  from ipc_handshake [OF example_reachable(2) this(1) f] this(2) l c show ?thesis
    by (auto simp: map_eq_Cons_conv numeral_2_eq_2 simp del: accept_many.simps)
qed

section \<open>Process exit\<close>

lemma close_endpoint_nth:
  assumes "ipc_inv s" "e < MAX_ENDPOINTS"
  shows "\<not> ep_active (g_endpoints (close_endpoint e s) ! e)"
    "j \<noteq> e \<Longrightarrow> g_endpoints (close_endpoint e s) ! j = g_endpoints s ! j"
  using assms by (simp_all add: close_endpoint_eq closed_slot_def Let_def ipc_inv_def)

lemma release_endpoints_gone:
  assumes "ipc_inv s" "\<forall>e \<in> set es. e < MAX_ENDPOINTS" "j \<in> set es \<or> \<not> (ep_active (g_endpoints s ! j) \<and> ep_owner_pid (g_endpoints s ! j) = pid)"
  shows "\<not> (ep_active (g_endpoints (fold (release_endpoint pid) es s) ! j) \<and>
    ep_owner_pid (g_endpoints (fold (release_endpoint pid) es s) ! j) = pid)"
  using assms
proof (induction es arbitrary: s)
  case (Cons e es)
  let ?s = "release_endpoint pid e s"
  have "j \<in> set es \<or> \<not> (ep_active (g_endpoints ?s ! j) \<and> ep_owner_pid (g_endpoints ?s ! j) = pid)"
    using Cons.prems close_endpoint_nth(1) [of s e] close_endpoint_nth(2) [of s e j] by (cases "j = e") (auto simp: release_endpoint_def Let_def)
  with Cons show ?case by (simp add: release_endpoint_inv)
qed simp

lemma release_channel_gone:
  "ch_active (release_channel pid c) \<Longrightarrow> side_open b (release_channel pid c) \<Longrightarrow> side_pid b (release_channel pid c) \<noteq> pid"
  by (auto simp: release_channel_def maybe_free_channel_def reset_channel_def zero_channel_def side_defs Let_def
      split: if_splits)

text \<open>
  C13.  Process exit.  After \<open>release_process pid\<close> no active endpoint belongs to \<open>pid\<close>, it holds no
  open end of any channel, and no handle value whatsoever is accepted from it; so a later process
  with the same identity inherits nothing.
\<close>

theorem ipc_release_process_revokes:
  assumes "ipc_reachable s" "g_initialized s" "pid \<noteq> INVALID_PROCESS_ID"
  shows "(\<forall>e < MAX_ENDPOINTS. \<not> (ep_active (g_endpoints (ipc_release_process pid s) ! e) \<and>
      ep_owner_pid (g_endpoints (ipc_release_process pid s) ! e) = pid)) \<and>
    (\<forall>i < MAX_CHANNELS. \<forall>b. ch_active (g_channels (ipc_release_process pid s) ! i) \<and>
      side_open b (g_channels (ipc_release_process pid s) ! i) \<longrightarrow>
      side_pid b (g_channels (ipc_release_process pid s) ! i) \<noteq> pid) \<and>
    (\<forall>h. isl (decode_endpoint (ipc_release_process pid s) pid h) \<and>
      isl (decode_channel (ipc_release_process pid s) pid h))"
proof -
  note inv = ipc_reachable_invI [OF assms(1)]
  let ?s = "ipc_release_process pid s"
  let ?t = "fold (release_endpoint pid) [0..<MAX_ENDPOINTS] s"
  have s: "?s = ?t\<lparr>g_channels := map (release_channel pid) (g_channels ?t)\<rparr>"
    using assms(2,3) by (simp add: ipc_release_process_def Let_def)
  have t: "ipc_inv ?t" by (rule release_endpoints_inv [OF inv]) simp
  have E: "\<not> (ep_active (g_endpoints ?s ! e) \<and> ep_owner_pid (g_endpoints ?s ! e) = pid)" if "e < MAX_ENDPOINTS" for e
    using release_endpoints_gone [OF inv, of "[0..<MAX_ENDPOINTS]" e pid] that by (simp add: s)
  have C: "side_pid b (g_channels ?s ! i) \<noteq> pid"
    if "i < MAX_CHANNELS" "ch_active (g_channels ?s ! i)" "side_open b (g_channels ?s ! i)" for i b
    using that t release_channel_gone by (simp add: s ipc_inv_def)
  have "isl (decode_endpoint ?s pid h)" for h
    using E decode_endpointD [of ?s pid h] by (cases "decode_endpoint ?s pid h") auto
  moreover have "isl (decode_channel ?s pid h)" for h
  proof (cases "decode_channel ?s pid h")
    case (Inr p)
    then obtain i b where d: "decode_channel ?s pid h = Inr (i, b)" by (metis surj_pair)
    with C [OF decode_channelD(1,2) [OF d] decode_channel_side(2) [OF d]] decode_channel_side(1) [OF d]
    show ?thesis by simp
  qed simp
  ultimately show ?thesis using E C by blast
qed

theorem ipc_release_process_revokes_witness:
  "decode_endpoint example_channel 7 example_endpoint = Inr 0 \<and>
   isl (decode_endpoint (ipc_release_process 7 example_channel) 7 example_endpoint)"
proof -
  have "decode_endpoint example_channel 7 example_endpoint = Inr 0" "g_initialized example_channel"
    by code_simp+
  with ipc_release_process_revokes [OF example_reachable(3), of 7] show ?thesis by simp
qed

section \<open>Closed handles stay closed\<close>

text \<open>
  What one call does to the incarnation of a slot: it keeps the generation and can only take rights
  away, or it starts the next generation.
\<close>

definition ch_shrink :: "ChannelSlot \<Rightarrow> ChannelSlot \<Rightarrow> bool" where
  "ch_shrink c c' \<longleftrightarrow> ch_generation c' = ch_generation c \<and>
     (\<forall>b. ch_active c' \<and> side_open b c' \<longrightarrow> ch_active c \<and> side_open b c)"

definition ep_shrink :: "EndpointSlot \<Rightarrow> EndpointSlot \<Rightarrow> bool" where
  "ep_shrink e e' \<longleftrightarrow> ep_generation e' = ep_generation e \<and> (ep_active e' \<longrightarrow> ep_active e)"

definition ch_advance :: "ChannelSlot \<Rightarrow> ChannelSlot \<Rightarrow> bool" where
  "ch_advance c c' \<longleftrightarrow> ch_shrink c c' \<or> ch_generation c' = next_generation kMaximumGeneration (ch_generation c)"

definition ep_advance :: "EndpointSlot \<Rightarrow> EndpointSlot \<Rightarrow> bool" where
  "ep_advance e e' \<longleftrightarrow> ep_shrink e e' \<or> ep_generation e' = next_generation kMaximumGeneration (ep_generation e)"

definition advances :: "ipc \<Rightarrow> ipc \<Rightarrow> bool" where
  "advances s s' \<longleftrightarrow> (\<forall>i < MAX_CHANNELS. ch_advance (g_channels s ! i) (g_channels s' ! i)) \<and>
     (\<forall>e < MAX_ENDPOINTS. ep_advance (g_endpoints s ! e) (g_endpoints s' ! e))"

definition shrinks :: "ipc \<Rightarrow> ipc \<Rightarrow> bool" where
  "shrinks s s' \<longleftrightarrow> (\<forall>i < MAX_CHANNELS. ch_shrink (g_channels s ! i) (g_channels s' ! i)) \<and>
     (\<forall>e < MAX_ENDPOINTS. ep_shrink (g_endpoints s ! e) (g_endpoints s' ! e))"

lemma shrink_refl [simp]: "ch_shrink c c" "ep_shrink e e" "shrinks s s" "ch_advance c c" "ep_advance e e"
  "advances s s" "ep_shrink e (compact_pending chs e)" "ep_shrink e (enqueue_pending i (compact_pending chs e))"
  "ch_shrink c (set_in_queue server q c)" "ch_shrink c (set_out_queue server q c)" "ch_shrink c (c\<lparr>accepted := True\<rparr>)"
  by (auto simp: ch_shrink_def ep_shrink_def ch_advance_def ep_advance_def advances_def shrinks_def side_defs)

lemma ch_shrink_trans: "ch_shrink a b \<Longrightarrow> ch_shrink b c \<Longrightarrow> ch_shrink a c"
  unfolding ch_shrink_def by metis

lemma ep_shrink_trans: "ep_shrink a b \<Longrightarrow> ep_shrink b c \<Longrightarrow> ep_shrink a c"
  by (simp add: ep_shrink_def)

lemma shrinks_trans: "shrinks s t \<Longrightarrow> shrinks t u \<Longrightarrow> shrinks s u"
  unfolding shrinks_def by (meson ch_shrink_trans ep_shrink_trans)

lemma shrinks_advances: "shrinks s t \<Longrightarrow> advances s t"
  by (simp add: shrinks_def advances_def ch_advance_def ep_advance_def)

lemma shrink_close:
  "ch_active c \<Longrightarrow> ch_shrink c (maybe_free_channel (closed_channel server c))"
  "ch_shrink c (release_channel pid c)" "ch_shrink c (c\<lparr>server_open := False\<rparr>)"
  by (auto simp: ch_shrink_def maybe_free_channel_def closed_channel_def reset_channel_def zero_channel_def
      release_channel_def side_defs Let_def split: if_splits)

lemma shrinks_close_endpoint:
  assumes "ipc_inv s" "e < MAX_ENDPOINTS"
  shows "shrinks s (close_endpoint e s)"
  using assms shrink_close(3)
  by (auto simp: close_endpoint_eq [OF assms] shrinks_def nth_update_cases ipc_inv_def closed_slot_def Let_def
      ep_shrink_def)

lemma shrinks_release:
  assumes "ipc_inv s"
  shows "shrinks s (ipc_release_process pid s)"
proof -
  have fold: "shrinks s (fold (release_endpoint pid) es s)" if "ipc_inv s" "\<forall>e \<in> set es. e < MAX_ENDPOINTS" for es s
    using that
  proof (induction es arbitrary: s)
    case (Cons e es)
    have "shrinks s (release_endpoint pid e s)"
      using Cons.prems shrinks_close_endpoint [of s e] by (simp add: release_endpoint_def Let_def)
    with Cons release_endpoint_inv [of s e pid] show ?case by (auto intro: shrinks_trans)
  qed simp
  let ?t = "fold (release_endpoint pid) [0..<MAX_ENDPOINTS] s"
  have "ipc_inv ?t" by (rule release_endpoints_inv [OF assms]) simp
  then have "shrinks ?t (?t\<lparr>g_channels := map (release_channel pid) (g_channels ?t)\<rparr>)"
    by (simp add: shrinks_def shrink_close(2) ipc_inv_def)
  with fold [OF assms, of "[0..<MAX_ENDPOINTS]"] show ?thesis
    by (auto simp: ipc_release_process_def Let_def intro: shrinks_trans)
qed

lemma advances_update:
  "ep_advance (g_endpoints s ! k) e \<Longrightarrow> advances s (s\<lparr>g_endpoints := (g_endpoints s)[k := e]\<rparr>)"
  "ch_advance (g_channels s ! i) c \<Longrightarrow> advances s (s\<lparr>g_channels := (g_channels s)[i := c]\<rparr>)"
  "ep_advance (g_endpoints s ! k) e \<Longrightarrow> ch_advance (g_channels s ! i) c \<Longrightarrow>
    advances s (s\<lparr>g_endpoints := (g_endpoints s)[k := e], g_channels := (g_channels s)[i := c]\<rparr>)"
  by (auto simp: advances_def nth_update_cases)

lemma advances_exec:
  assumes "ipc_inv s" "g_initialized s"
  shows "advances s (ipc_exec c s)"
proof (cases c)
  case Initialize
  with assms(2) show ?thesis by (simp add: ipc_initialize_def)
next
  case (Bind p name out m)
  obtain st o' s' where r: "ipc_bind p name out m s = (st, o', s')" by (metis prod_cases3)
  from r show ?thesis
  proof (cases rule: ipc_bind_cases)
    case (ok n i)
    with r Bind show ?thesis by (auto intro!: advances_update simp: ep_advance_def bound_slot_def)
  qed (simp add: Bind r)
next
  case (Connect p name out neg)
  obtain st o' neg' s' where r: "ipc_connect p name out neg s = (st, o', neg', s')" by (metis prod_cases4)
  from r show ?thesis
  proof (cases rule: ipc_connect_cases)
    case (ok n e i v)
    with r Connect show ?thesis
      by (auto intro!: advances_update simp: ep_advance_def ch_advance_def connected_slot_def)
  qed (use r Connect in \<open>auto intro!: advances_update simp: ep_advance_def\<close>)
next
  case (Accept p h out)
  obtain st o' s' where r: "ipc_accept p h out s = (st, o', s')" by (metis prod_cases3)
  from r assms(1) show ?thesis
  proof (cases rule: ipc_accept_cases)
    case (ok e x xs)
    with r Accept show ?thesis
      by (auto intro!: advances_update simp: ep_advance_def ch_advance_def ep_shrink_def)
  qed (use r Accept in \<open>auto intro!: advances_update simp: ep_advance_def\<close>)
next
  case (Send p h d n)
  obtain st s' where r: "ipc_send p h d n s = (st, s')" by fastforce
  from r assms(1) show ?thesis
    by (cases rule: ipc_send_cases)
       (use r Send in \<open>auto intro!: advances_update simp: ch_advance_def\<close>)
next
  case (Receive p h out)
  obtain st o' s' where r: "ipc_receive p h out s = (st, o', s')" by (metis prod_cases3)
  from r assms(1) show ?thesis
    by (cases rule: ipc_receive_cases)
       (use r Receive in \<open>auto intro!: advances_update simp: ch_advance_def\<close>)
next
  case (Close p h)
  obtain st s' where r: "ipc_close p h s = (st, s')" by fastforce
  from r show ?thesis
  proof (cases rule: ipc_close_cases)
    case (ep e)
    with r Close shrinks_advances shrinks_close_endpoint [OF assms(1) decode_endpointD(1) [OF ep(2)]]
    show ?thesis by simp
  next
    case (ch i server)
    with r Close decode_channelD(2) [OF ch(2)] show ?thesis
      by (auto intro!: advances_update simp: ch_advance_def shrink_close)
  qed (simp add: Close r)
next
  case (ReleaseProcess p)
  with shrinks_advances shrinks_release [OF assms(1)] show ?thesis by simp
qed

interpretation ch_life: slot_history ch_generation ch_shrink kMaximumGeneration
  by unfold_locales (auto simp: kMaximumGeneration_pos intro: ch_shrink_trans, simp add: ch_shrink_def)

interpretation ep_life: slot_history ep_generation ep_shrink kMaximumGeneration
  by unfold_locales (auto simp: kMaximumGeneration_pos intro: ep_shrink_trans, simp add: ep_shrink_def)

lemma ipc_exec_initialized:
  assumes "ipc_inv s" "g_initialized s"
  shows "g_initialized (ipc_exec c s)"
proof (cases c)
  case (Bind p name out m)
  obtain st o' s' where r: "ipc_bind p name out m s = (st, o', s')" by (metis prod_cases3)
  from r show ?thesis by (cases rule: ipc_bind_cases) (use r Bind assms in simp_all)
next
  case (Connect p name out neg)
  obtain st o' neg' s' where r: "ipc_connect p name out neg s = (st, o', neg', s')" by (metis prod_cases4)
  from r show ?thesis by (cases rule: ipc_connect_cases) (use r Connect assms in simp_all)
next
  case (Accept p h out)
  obtain st o' s' where r: "ipc_accept p h out s = (st, o', s')" by (metis prod_cases3)
  from r assms(1) show ?thesis by (cases rule: ipc_accept_cases) (use r Accept assms in simp_all)
next
  case (Send p h d n)
  obtain st s' where r: "ipc_send p h d n s = (st, s')" by fastforce
  from r assms(1) show ?thesis by (cases rule: ipc_send_cases) (use r Send assms in simp_all)
next
  case (Receive p h out)
  obtain st o' s' where r: "ipc_receive p h out s = (st, o', s')" by (metis prod_cases3)
  from r assms(1) show ?thesis by (cases rule: ipc_receive_cases) (use r Receive assms in simp_all)
next
  case (Close p h)
  obtain st s' where r: "ipc_close p h s = (st, s')" by fastforce
  from r show ?thesis
    by (cases rule: ipc_close_cases) (use r Close assms in \<open>simp_all add: close_endpoint_def split: prod.splits\<close>)
next
  case (ReleaseProcess p)
  have "g_initialized (fold (release_endpoint p) es s)" for es
    using assms(2)
    by (induction es arbitrary: s) (auto simp: release_endpoint_def close_endpoint_def Let_def split: prod.splits)
  with ReleaseProcess assms show ?thesis by (simp add: ipc_release_process_def Let_def)
qed (use assms in \<open>simp add: ipc_initialize_def\<close>)

lemma fold_exec:
  assumes "ipc_inv s" "g_initialized s"
  shows "ipc_inv (fold ipc_exec cs s) \<and> g_initialized (fold ipc_exec cs s)"
  using assms by (induction cs arbitrary: s) (simp_all add: ipc_exec_inv ipc_exec_initialized)

lemma fold_exec_advances:
  assumes "ipc_inv s" "g_initialized s" "j < length cs"
  shows "advances (fold ipc_exec (take j cs) s) (fold ipc_exec (take (Suc j) cs) s)"
  using advances_exec [of "fold ipc_exec (take j cs) s" "cs ! j"] fold_exec [OF assms(1,2)] assms(3)
  by (simp add: take_Suc_conv_app_nth)

lemma decode_endpoint_slot:
  assumes "decode_endpoint s p h = Inr e"
  shows "endpoint_index h = Some e" "ep_generation (g_endpoints s ! e) = handle_generation h" "isl (decode_channel t q h)"
  using assms kinds_distinct
  by (auto simp: decode_endpoint_def endpoint_index_def decode_channel_def Let_def split: if_splits option.splits)

lemma decode_channel_slot:
  assumes "decode_channel s p h = Inr (i, b)"
  shows "channel_index h = Some i" "ch_generation (g_channels s ! i) = handle_generation h" "isl (decode_endpoint t q h)"
    "b = (h AND kSideMask \<noteq> 0)"
  using assms kinds_distinct
  by (auto simp: decode_channel_def channel_index_def decode_endpoint_def Let_def split: if_splits option.splits)

lemma closed_endpoint_stale:
  assumes "ipc_inv s" "g_initialized s" "decode_endpoint s p h = Inr e" "length cs < unat kMaximumGeneration"
  shows "isl (decode_endpoint (fold ipc_exec cs (close_endpoint e s)) q h)"
proof (rule ccontr)
  let ?s = "close_endpoint e s"
  let ?t = "\<lambda>j. fold ipc_exec (take j cs) ?s"
  note e = decode_endpointD [OF assms(3)] decode_endpoint_slot [OF assms(3)]
  have inv: "ipc_inv ?s" by (rule close_endpoint_inv [OF assms(1) e(1)])
  have init: "g_initialized ?s" using assms(2) by (simp add: close_endpoint_def split: prod.splits)
  assume "\<not> isl (decode_endpoint (fold ipc_exec cs ?s) q h)"
  then obtain e' where d: "decode_endpoint (?t (length cs)) q h = Inr e'" by (auto simp: isl_def) (metis sum.exhaust)
  have e': "e' = e" using decode_endpoint_slot(1) [OF d] e(4) by simp
  have gen0: "ep_generation (g_endpoints (?t 0) ! e) = handle_generation h"
    using e(1,5) assms(1) by (simp add: close_endpoint_eq ipc_inv_def closed_slot_def Let_def)
  have "ep_shrink (g_endpoints (?t 0) ! e) (g_endpoints (?t (length cs)) ! e)"
  proof (rule ep_life.not_revived [of "length cs" "\<lambda>j. g_endpoints (?t j) ! e"])
    show "ep_shrink (g_endpoints (?t j) ! e) (g_endpoints (?t (Suc j)) ! e) \<or>
        ep_generation (g_endpoints (?t (Suc j)) ! e) = next_generation kMaximumGeneration (ep_generation (g_endpoints (?t j) ! e))"
      if "j < length cs" for j
      using fold_exec_advances [OF inv init that] e(1) by (simp add: advances_def ep_advance_def)
    show "valid_generation kMaximumGeneration (ep_generation (g_endpoints (?t 0) ! e))"
      unfolding gen0 using ipc_inv_nth(1) [OF assms(1) e(1)] e(2,5) by (simp add: ep_inv_def)
    show "ep_generation (g_endpoints (?t (length cs)) ! e) = ep_generation (g_endpoints (?t 0) ! e)"
      unfolding gen0 using decode_endpoint_slot(2) [OF d] e' by simp
  qed (rule assms(4))
  then show False
    using decode_endpointD(2) [OF d] e' close_endpoint_nth(1) [OF assms(1) e(1)] by (simp add: ep_shrink_def)
qed

lemma closed_channel_dead:
  "ch_generation (maybe_free_channel (closed_channel b c)) = ch_generation c"
  "\<not> (ch_active (maybe_free_channel (closed_channel b c)) \<and> side_open b (maybe_free_channel (closed_channel b c)))"
  by (auto simp: maybe_free_channel_def closed_channel_def reset_channel_def zero_channel_def side_defs)

lemma closed_channel_stale:
  assumes "ipc_inv s" "g_initialized s" "decode_channel s p h = Inr (i, b)" "length cs < unat kMaximumGeneration"
    and s': "s' = s\<lparr>g_channels := (g_channels s)[i := maybe_free_channel (closed_channel b (g_channels s ! i))]\<rparr>"
  shows "isl (decode_channel (fold ipc_exec cs s') q h)"
proof (rule ccontr)
  let ?t = "\<lambda>j. fold ipc_exec (take j cs) s'"
  note i = decode_channelD(1,2) [OF assms(3)] decode_channel_slot [OF assms(3)]
  have c: "ch_inv (g_channels s ! i)" using ipc_inv_nth(2) [OF assms(1) i(1)] .
  have inv: "ipc_inv s'" unfolding s' by (intro ipc_inv_channel assms(1) closed_channel_inv c i(2))
  have init: "g_initialized s'" using assms(2) by (simp add: s')
  have c0: "g_channels (?t 0) ! i = maybe_free_channel (closed_channel b (g_channels s ! i))"
    using i(1) assms(1) by (simp add: s' ipc_inv_def)
  assume "\<not> isl (decode_channel (fold ipc_exec cs s') q h)"
  then obtain i' b' where d: "decode_channel (?t (length cs)) q h = Inr (i', b')"
    by (auto simp: isl_def) (metis sum.exhaust surj_pair)
  have eq: "i' = i" "b' = b" using decode_channel_slot(1,4) [OF d] i(3,6) by simp_all
  have gen0: "ch_generation (g_channels (?t 0) ! i) = handle_generation h"
    unfolding c0 closed_channel_dead(1) by (rule i(4))
  have "ch_shrink (g_channels (?t 0) ! i) (g_channels (?t (length cs)) ! i)"
  proof (rule ch_life.not_revived [of "length cs" "\<lambda>j. g_channels (?t j) ! i"])
    show "ch_shrink (g_channels (?t j) ! i) (g_channels (?t (Suc j)) ! i) \<or>
        ch_generation (g_channels (?t (Suc j)) ! i) = next_generation kMaximumGeneration (ch_generation (g_channels (?t j) ! i))"
      if "j < length cs" for j
      using fold_exec_advances [OF inv init that] i(1) by (simp add: advances_def ch_advance_def)
    show "valid_generation kMaximumGeneration (ch_generation (g_channels (?t 0) ! i))"
      unfolding gen0 using c i(2,4) by (simp add: ch_inv_def)
    show "ch_generation (g_channels (?t (length cs)) ! i) = ch_generation (g_channels (?t 0) ! i)"
      unfolding gen0 using decode_channel_slot(2) [OF d] eq by simp
  qed (rule assms(4))
  then show False
    using decode_channelD(2) [OF d] decode_channel_side(2) [OF d] closed_channel_dead(2) [of b "g_channels s ! i"] eq
    unfolding c0 ch_shrink_def by blast
qed

text \<open>
  C14.  A closed handle stays closed.  Once \<open>close\<close> succeeded on a handle, the handle is rejected for
  every process through any sequence of fewer than 2147483647 further calls by anyone, although its slot may
  be reused many times; the bound is the number of generations a slot goes through before it repeats.
\<close>

theorem ipc_closed_handle_stale:
  assumes "ipc_reachable s" "ipc_close p h s = (Status.Ok, s')" "length cs < unat kMaximumGeneration"
  shows "isl (decode_endpoint (fold ipc_exec cs s') q h) \<and> isl (decode_channel (fold ipc_exec cs s') q h)"
proof -
  note inv = ipc_reachable_invI [OF assms(1)]
  have init: "g_initialized s" using assms(2) by (auto simp: ipc_close_def split: if_splits)
  from assms(2) show ?thesis
  proof (cases rule: ipc_close_cases)
    case (ep e)
    then show ?thesis
      using closed_endpoint_stale [OF inv init ep(2) assms(3)] decode_endpoint_slot(3) [OF ep(2)] by simp
  next
    case (ch i b)
    then show ?thesis
      using closed_channel_stale [OF inv init ch(2) assms(3) ch(3)] decode_channel_slot(3) [OF ch(2)] by simp
  qed simp
qed

theorem ipc_closed_handle_stale_witness:
  "decode_channel example_channel 9 example_client = Inr (0, False) \<and>
   isl (decode_channel (fold ipc_exec [Close 7 example_accepted, Connect 9 (Some ''svc.a'') (Some 0) None]
     (snd (ipc_close 9 example_client example_channel))) 9 example_client)"
proof -
  have "fst (ipc_close 9 example_client example_channel) = Status.Ok"
    and d: "decode_channel example_channel 9 example_client = Inr (0, False)" by code_simp+
  then have "ipc_close 9 example_client example_channel =
      (Status.Ok, snd (ipc_close 9 example_client example_channel))" by (metis prod.collapse)
  from ipc_closed_handle_stale [OF example_reachable(3) this,
      of "[Close 7 example_accepted, Connect 9 (Some ''svc.a'') (Some 0) None]" 9] d show ?thesis
    by (simp add: kMaximumGeneration_def)
qed

section \<open>A connection taken by the wrong endpoint\<close>

text \<open>
  A process with two endpoints: a client connects to the first, gives up, and connects to the
  second; the new connection reuses the channel slot of the abandoned one.
\<close>

definition misrouted :: ipc where
  "misrouted = fold ipc_exec
     [Initialize, Bind 7 (Some ''svc.a'') (Some 0) None, Bind 7 (Some ''svc.b'') (Some 0) None,
      Connect 9 (Some ''svc.a'') (Some 0) None, Close 9 (encode_channel 0 1 False),
      Connect 9 (Some ''svc.b'') (Some 0) None] ipc_zero"

text \<open>
  C15.  An entry of the pending queue is only a slot number, without the generation of the
  connection it stands for.  So in a reachable state where one connection waits, requested at
  \<open>svc.b\<close>, \<open>accept\<close> on the endpoint \<open>svc.a\<close> of the same owner returns it, and \<open>accept\<close> on \<open>svc.b\<close> then
  finds nothing: the server takes the client for one that asked for the other service.
\<close>

theorem ipc_accept_misroutes:
  "ipc_reachable misrouted \<and>
   find_service misrouted ''svc.a'' = Some 0 \<and> find_service misrouted ''svc.b'' = Some 1 \<and>
   fst (ipc_accept 7 (encode_endpoint 0 1) (Some 0) misrouted) = Status.Ok \<and>
   fst (snd (ipc_accept 7 (encode_endpoint 0 1) (Some 0) misrouted)) = Some (encode_channel 0 2 True) \<and>
   fst (ipc_accept 7 (encode_endpoint 1 1) (Some 0)
     (snd (snd (ipc_accept 7 (encode_endpoint 0 1) (Some 0) misrouted)))) = Status.WouldBlock"
proof -
  have "ipc_reachable (fold ipc_exec cs s)" if "ipc_reachable s" for cs s
    using that by (induction cs arbitrary: s) (simp_all add: ipc_reachable_exec)
  from this [OF ipc_reachable.start] have "ipc_reachable misrouted" by (simp only: misrouted_def)
  moreover have "find_service misrouted ''svc.a'' = Some 0" "find_service misrouted ''svc.b'' = Some 1"
    "fst (ipc_accept 7 (encode_endpoint 0 1) (Some 0) misrouted) = Status.Ok"
    "fst (snd (ipc_accept 7 (encode_endpoint 0 1) (Some 0) misrouted)) = Some (encode_channel 0 2 True)"
    "fst (ipc_accept 7 (encode_endpoint 1 1) (Some 0)
       (snd (snd (ipc_accept 7 (encode_endpoint 0 1) (Some 0) misrouted)))) = Status.WouldBlock"
    by code_simp+
  ultimately show ?thesis by blast
qed

end
