(* ===== verification/Ipc_Event.thy ===== *)
theory Ipc_Event
  imports Handles
begin

text \<open>
  \<^verbatim>\<open>kernel/ipc/event.hpp\<close> and \<^verbatim>\<open>kernel/ipc/event.cpp\<close>: events that processes signal and poll.  The
  operations hold one lock throughout and are functions of the table.  The theory ends with a
  simulation: the table of slots, generations and grant arrays implements a set of live event
  objects, each with the processes that may use it.
\<close>

section \<open>Data\<close>

definition MAX_EVENTS :: nat where "MAX_EVENTS = 32"
definition MAX_GRANTS_PER_EVENT :: nat where "MAX_GRANTS_PER_EVENT = 8"

abbreviation INVALID_PROCESS_ID :: u64 where "INVALID_PROCESS_ID \<equiv> 0"
abbreviation INVALID_HANDLE :: u64 where "INVALID_HANDLE \<equiv> 0"

datatype ResetMode = Auto | Manual

datatype Status =
    Ok | AlreadyInitialized | NotInitialized | InvalidArgument | CapacityReached | StaleHandle
  | AccessDenied | AlreadyGranted | WouldBlock

record GrantSlot =
  gr_pid :: u64
  gr_open :: bool

record EventSlot =
  ev_generation :: u32
  ev_owner_pid :: u64
  ev_mode :: ResetMode
  ev_signaled :: bool
  owner_open :: bool
  ev_active :: bool
  grants :: "GrantSlot list"

record events =
  g_events :: "EventSlot list"
  ev_initialized :: bool

definition zero_grant :: GrantSlot where
  "zero_grant = \<lparr>gr_pid = 0, gr_open = False\<rparr>"

definition zero_event :: EventSlot where
  "zero_event = \<lparr>ev_generation = 0, ev_owner_pid = 0, ev_mode = Auto, ev_signaled = False,
     owner_open = False, ev_active = False, grants = replicate MAX_GRANTS_PER_EVENT zero_grant\<rparr>"

definition events_zero :: events where
  "events_zero = \<lparr>g_events = replicate MAX_EVENTS zero_event, ev_initialized = False\<rparr>"

section \<open>Handles and references\<close>

definition ev_kIndexMask :: u64 where "ev_kIndexMask = 0xFF"
definition ev_kKindMask :: u64 where "ev_kKindMask = push_bit 16 0xFF"
definition kKindEvent :: u64 where "kKindEvent = push_bit 16 4"
definition ev_kMaximumGeneration :: u32 where "ev_kMaximumGeneration = 0x7FFFFFFF"

definition event_encode :: "nat \<Rightarrow> u32 \<Rightarrow> u64" where
  "event_encode index generation = push_bit 32 (ucast generation) OR kKindEvent OR of_nat (index + 1)"

text \<open>The index part of \<open>decode\<close>, and \<open>decode\<close> itself; the slot is returned by its number.\<close>

definition event_index :: "u64 \<Rightarrow> nat option" where
  "event_index handle =
     (if handle AND ev_kKindMask \<noteq> kKindEvent then None
      else let encoded = unat (handle AND ev_kIndexMask) in
        if encoded = 0 \<or> encoded > MAX_EVENTS then None else Some (encoded - 1))"

definition event_generation :: "u64 \<Rightarrow> u32" where
  "event_generation handle = ucast (drop_bit 32 handle)"

definition event_decode :: "events \<Rightarrow> u64 \<Rightarrow> Status + nat" where
  "event_decode s handle =
     (case event_index handle of
        None \<Rightarrow> Inl Status.StaleHandle
      | Some index \<Rightarrow>
          let slot = g_events s ! index in
          if \<not> ev_active slot \<or> ev_generation slot \<noteq> event_generation handle then Inl Status.StaleHandle
          else Inr index)"

definition find_grant :: "EventSlot \<Rightarrow> u64 \<Rightarrow> nat option" where
  "find_grant slot pid = find_index (\<lambda>grant. gr_open grant \<and> gr_pid grant = pid) (grants slot)"

definition can_access :: "EventSlot \<Rightarrow> u64 \<Rightarrow> bool" where
  "can_access slot pid \<longleftrightarrow> (ev_owner_pid slot = pid \<and> owner_open slot) \<or> find_grant slot pid \<noteq> None"

definition has_open_reference :: "EventSlot \<Rightarrow> bool" where
  "has_open_reference slot \<longleftrightarrow> owner_open slot \<or> (\<exists>grant \<in> set (grants slot). gr_open grant)"

definition event_reclaim :: "EventSlot \<Rightarrow> EventSlot" where
  "event_reclaim slot = zero_event\<lparr>ev_generation := ev_generation slot\<rparr>"

definition maybe_reclaim :: "EventSlot \<Rightarrow> EventSlot" where
  "maybe_reclaim slot = (if ev_active slot \<and> \<not> has_open_reference slot then event_reclaim slot else slot)"

section \<open>Operations\<close>

definition event_initialize :: "events \<Rightarrow> Status \<times> events" where
  "event_initialize s =
     (if ev_initialized s then (Status.AlreadyInitialized, s)
      else (Status.Ok, events_zero\<lparr>ev_initialized := True\<rparr>))"

text \<open>\<open>mode = None\<close> is a value of the parameter that is neither \<open>Auto\<close> nor \<open>Manual\<close>.\<close>

definition event_create ::
  "u64 \<Rightarrow> ResetMode option \<Rightarrow> bool \<Rightarrow> u64 option \<Rightarrow> events \<Rightarrow> Status \<times> u64 option \<times> events" where
  "event_create owner_pid mode signaled handle s =
     (let out = map_option (\<lambda>_. INVALID_HANDLE) handle in
      if \<not> ev_initialized s then (Status.NotInitialized, out, s)
      else if owner_pid = INVALID_PROCESS_ID \<or> handle = None \<or> mode = None
      then (Status.InvalidArgument, out, s)
      else case find_index (\<lambda>slot. \<not> ev_active slot) (g_events s) of
          None \<Rightarrow> (Status.CapacityReached, out, s)
        | Some index \<Rightarrow>
            let generation = next_generation ev_kMaximumGeneration (ev_generation (g_events s ! index));
                slot = zero_event\<lparr>ev_generation := generation, ev_owner_pid := owner_pid,
                  ev_mode := the mode, ev_signaled := signaled, owner_open := True, ev_active := True\<rparr>
            in (Status.Ok, Some (event_encode index generation),
                s\<lparr>g_events := (g_events s)[index := slot]\<rparr>))"

definition event_grant :: "u64 \<Rightarrow> u64 \<Rightarrow> u64 \<Rightarrow> events \<Rightarrow> Status \<times> events" where
  "event_grant owner_pid handle target_pid s =
     (if \<not> ev_initialized s then (Status.NotInitialized, s)
      else if owner_pid = INVALID_PROCESS_ID \<or> target_pid = INVALID_PROCESS_ID \<or> owner_pid = target_pid
      then (Status.InvalidArgument, s)
      else case event_decode s handle of
          Inl status \<Rightarrow> (status, s)
        | Inr index \<Rightarrow>
            let slot = g_events s ! index in
            if ev_owner_pid slot \<noteq> owner_pid \<or> \<not> owner_open slot then (Status.AccessDenied, s)
            else if \<exists>grant \<in> set (grants slot). gr_open grant \<and> gr_pid grant = target_pid
            then (Status.AlreadyGranted, s)
            else case find_index (\<lambda>grant. \<not> gr_open grant) (grants slot) of
                None \<Rightarrow> (Status.CapacityReached, s)
              | Some k \<Rightarrow>
                  (Status.Ok, s\<lparr>g_events := (g_events s)[index :=
                     slot\<lparr>grants := (grants slot)[k := \<lparr>gr_pid = target_pid, gr_open = True\<rparr>]\<rparr>]\<rparr>))"

text \<open>
  \<open>signal\<close>, \<open>reset\<close> and \<open>poll\<close> begin alike; \<open>event_with\<close> is that beginning, with the rest as its last
  argument.
\<close>

definition event_with ::
  "u64 \<Rightarrow> u64 \<Rightarrow> events \<Rightarrow> (nat \<Rightarrow> EventSlot \<Rightarrow> Status \<times> events) \<Rightarrow> Status \<times> events" where
  "event_with pid handle s body =
     (if \<not> ev_initialized s then (Status.NotInitialized, s)
      else if pid = INVALID_PROCESS_ID then (Status.InvalidArgument, s)
      else case event_decode s handle of
          Inl status \<Rightarrow> (status, s)
        | Inr index \<Rightarrow>
            let slot = g_events s ! index in
            if \<not> can_access slot pid then (Status.AccessDenied, s) else body index slot)"

definition event_signal :: "u64 \<Rightarrow> u64 \<Rightarrow> events \<Rightarrow> Status \<times> events" where
  "event_signal pid handle s = event_with pid handle s (\<lambda>index slot.
     (Status.Ok, s\<lparr>g_events := (g_events s)[index := slot\<lparr>ev_signaled := True\<rparr>]\<rparr>))"

definition event_reset :: "u64 \<Rightarrow> u64 \<Rightarrow> events \<Rightarrow> Status \<times> events" where
  "event_reset pid handle s = event_with pid handle s (\<lambda>index slot.
     (Status.Ok, s\<lparr>g_events := (g_events s)[index := slot\<lparr>ev_signaled := False\<rparr>]\<rparr>))"

definition event_poll :: "u64 \<Rightarrow> u64 \<Rightarrow> events \<Rightarrow> Status \<times> events" where
  "event_poll pid handle s = event_with pid handle s (\<lambda>index slot.
     if \<not> ev_signaled slot then (Status.WouldBlock, s)
     else (Status.Ok, s\<lparr>g_events := (g_events s)[index :=
        (if ev_mode slot = Auto then slot\<lparr>ev_signaled := False\<rparr> else slot)]\<rparr>))"

definition event_close :: "u64 \<Rightarrow> u64 \<Rightarrow> events \<Rightarrow> Status \<times> events" where
  "event_close pid handle s =
     (if \<not> ev_initialized s then (Status.NotInitialized, s)
      else if pid = INVALID_PROCESS_ID then (Status.InvalidArgument, s)
      else case event_decode s handle of
          Inl status \<Rightarrow> (status, s)
        | Inr index \<Rightarrow>
            let slot = g_events s ! index in
            if ev_owner_pid slot = pid \<and> owner_open slot
            then (Status.Ok, s\<lparr>g_events := (g_events s)[index := maybe_reclaim (slot\<lparr>owner_open := False\<rparr>)]\<rparr>)
            else case find_grant slot pid of
                None \<Rightarrow> (Status.AccessDenied, s)
              | Some k \<Rightarrow>
                  (Status.Ok, s\<lparr>g_events := (g_events s)[index :=
                     maybe_reclaim (slot\<lparr>grants := (grants slot)[k := zero_grant]\<rparr>)]\<rparr>))"

definition event_release_slot :: "u64 \<Rightarrow> EventSlot \<Rightarrow> EventSlot" where
  "event_release_slot pid slot =
     (if \<not> ev_active slot then slot
      else let s1 = (if ev_owner_pid slot = pid then slot\<lparr>owner_open := False\<rparr> else slot);
               s2 = s1\<lparr>grants := map (\<lambda>grant. if gr_open grant \<and> gr_pid grant = pid then zero_grant else grant) (grants s1)\<rparr>
           in maybe_reclaim s2)"

definition event_release_process :: "u64 \<Rightarrow> events \<Rightarrow> events" where
  "event_release_process pid s =
     (if \<not> ev_initialized s \<or> pid = INVALID_PROCESS_ID then s
      else s\<lparr>g_events := map (event_release_slot pid) (g_events s)\<rparr>)"

fun event_status_message :: "Status \<Rightarrow> string" where
  "event_status_message Ok = ''ok''"
| "event_status_message AlreadyInitialized = ''already initialized''"
| "event_status_message NotInitialized = ''not initialized''"
| "event_status_message InvalidArgument = ''invalid argument''"
| "event_status_message CapacityReached = ''capacity reached''"
| "event_status_message StaleHandle = ''stale handle''"
| "event_status_message AccessDenied = ''access denied''"
| "event_status_message AlreadyGranted = ''already granted''"
| "event_status_message WouldBlock = ''would block''"

section \<open>Handles\<close>

lemma event_encode_fields:
  assumes "i < MAX_EVENTS"
  shows "event_index (event_encode i g) = Some i" "event_generation (event_encode i g) = g"
    "event_encode i g \<noteq> 0"
proof -
  have i: "i < 255" using assms by (simp add: MAX_EVENTS_def)
  have k: "unat (4 :: u64) < 2 ^ 8" by simp
  have f: "event_encode i g AND ev_kKindMask = kKindEvent" "unat (event_encode i g AND ev_kIndexMask) = i + 1"
      "event_generation (event_encode i g) = g"
    unfolding event_encode_def ev_kKindMask_def kKindEvent_def ev_kIndexMask_def event_generation_def
    by (rule kind_handle_fields [OF i k])+
  show "event_index (event_encode i g) = Some i"
    unfolding event_index_def f using assms by simp
  show "event_generation (event_encode i g) = g" by (rule f(3))
  show "event_encode i g \<noteq> 0" using f(2) by auto
qed

lemma event_index_bound: "event_index h = Some i \<Longrightarrow> i < MAX_EVENTS"
  by (auto simp: event_index_def Let_def split: if_splits)

lemma ev_kMaximumGeneration_pos: "1 \<le> ev_kMaximumGeneration"
  by (simp add: ev_kMaximumGeneration_def)

interpretation ev: slot_table event_encode event_index event_generation MAX_EVENTS ev_kMaximumGeneration
    ev_active ev_generation
  by unfold_locales (simp_all add: event_encode_fields event_index_bound ev_kMaximumGeneration_pos)

lemma event_decode_resolve:
  "event_decode s h = Inr i \<longleftrightarrow>
    resolve event_index event_generation ev_active ev_generation (g_events s) h = Some i"
  by (auto simp: event_decode_def resolve_def Let_def split: option.splits if_splits)

lemma event_decodeD:
  assumes "event_decode s h = Inr i"
  shows "i < MAX_EVENTS" "ev_active (g_events s ! i)" "event_index h = Some i"
    "ev_generation (g_events s ! i) = event_generation h"
  using assms event_index_bound by (auto simp: event_decode_def Let_def split: option.splits if_splits)

lemma event_decode_error: "event_decode s h = Inl st \<Longrightarrow> st = Status.StaleHandle"
  by (auto simp: event_decode_def Let_def split: option.splits if_splits)

section \<open>Invariant\<close>

definition open_pids :: "GrantSlot list \<Rightarrow> u64 set" where
  "open_pids gs = gr_pid ` {g \<in> set gs. gr_open g}"

definition event_slot_inv :: "EventSlot \<Rightarrow> bool" where
  "event_slot_inv e \<longleftrightarrow> length (grants e) = MAX_GRANTS_PER_EVENT \<and>
     (if ev_active e
      then ev_owner_pid e \<noteq> INVALID_PROCESS_ID \<and> valid_generation ev_kMaximumGeneration (ev_generation e) \<and>
        has_open_reference e \<and> distinct (map gr_pid (filter gr_open (grants e))) \<and>
        INVALID_PROCESS_ID \<notin> open_pids (grants e) \<and> ev_owner_pid e \<notin> open_pids (grants e)
      else e = zero_event\<lparr>ev_generation := ev_generation e\<rparr>)"

definition events_inv :: "events \<Rightarrow> bool" where
  "events_inv s \<longleftrightarrow> length (g_events s) = MAX_EVENTS \<and> (\<forall>e \<in> set (g_events s). event_slot_inv e)"

lemma events_inv_nth: "events_inv s \<Longrightarrow> i < MAX_EVENTS \<Longrightarrow> event_slot_inv (g_events s ! i)"
  by (simp add: events_inv_def)

lemma events_inv_update:
  "events_inv s \<Longrightarrow> event_slot_inv e \<Longrightarrow> events_inv (s\<lparr>g_events := (g_events s)[i := e]\<rparr>)"
  using set_update_subset_insert [of "g_events s" i e] by (auto simp: events_inv_def)

lemma open_pids_simps [simp]:
  "open_pids [] = {}"
  "open_pids (g # gs) = (if gr_open g then insert (gr_pid g) (open_pids gs) else open_pids gs)"
  by (auto simp: open_pids_def)

lemma open_pids_append: "open_pids (xs @ ys) = open_pids xs \<union> open_pids ys"
  by (auto simp: open_pids_def)

lemma open_pids_set: "open_pids gs = set (map gr_pid (filter gr_open gs))"
  by (auto simp: open_pids_def)

lemma zero_grants [simp]: "filter gr_open (replicate n zero_grant) = []" "open_pids (replicate n zero_grant) = {}"
proof -
  show "filter gr_open (replicate n zero_grant) = []" by (simp add: zero_grant_def)
  then show "open_pids (replicate n zero_grant) = {}" unfolding open_pids_set by simp
qed

lemma find_grant_None: "find_grant e p = None \<longleftrightarrow> p \<notin> open_pids (grants e)"
  by (auto simp: find_grant_def find_index_None_iff open_pids_def)

lemma grants_split:
  assumes "k < length gs"
  shows "\<exists>xs ys. gs = xs @ gs ! k # ys \<and> (\<forall>g. gs[k := g] = xs @ g # ys)"
  using id_take_nth_drop [OF assms] upd_conv_take_nth_drop [OF assms] by blast

text \<open>Opening a closed grant slot, and closing an open one.\<close>

lemma open_grant:
  assumes "k < length gs" "\<not> gr_open (gs ! k)" "distinct (map gr_pid (filter gr_open gs))" "p \<notin> open_pids gs"
  shows "distinct (map gr_pid (filter gr_open (gs[k := \<lparr>gr_pid = p, gr_open = True\<rparr>])))"
    "open_pids (gs[k := \<lparr>gr_pid = p, gr_open = True\<rparr>]) = insert p (open_pids gs)"
proof -
  obtain xs ys where s: "gs = xs @ gs ! k # ys" "\<And>g. gs[k := g] = xs @ g # ys" using grants_split [OF assms(1)] by blast
  have d: "distinct (map gr_pid (filter gr_open (xs @ ys)))"
    using assms(2,3) by (subst (asm) s(1)) simp
  have o: "open_pids gs = open_pids (xs @ ys)"
    using assms(2) by (subst s(1)) (simp add: open_pids_append)
  show "open_pids (gs[k := \<lparr>gr_pid = p, gr_open = True\<rparr>]) = insert p (open_pids gs)"
    unfolding s(2) o by (simp add: open_pids_append)
  show "distinct (map gr_pid (filter gr_open (gs[k := \<lparr>gr_pid = p, gr_open = True\<rparr>])))"
    unfolding s(2) using d assms(4) o by (auto simp: open_pids_append open_pids_set)
qed

lemma close_grant:
  assumes "k < length gs" "gr_open (gs ! k)" "distinct (map gr_pid (filter gr_open gs))"
  shows "distinct (map gr_pid (filter gr_open (gs[k := zero_grant])))"
    "open_pids (gs[k := zero_grant]) = open_pids gs - {gr_pid (gs ! k)}"
proof -
  obtain xs ys where s: "gs = xs @ gs ! k # ys" "\<And>g. gs[k := g] = xs @ g # ys" using grants_split [OF assms(1)] by blast
  have d: "distinct (map gr_pid (filter gr_open xs) @ gr_pid (gs ! k) # map gr_pid (filter gr_open ys))"
    using assms(2,3) by (subst (asm) s(1)) simp
  then show "distinct (map gr_pid (filter gr_open (gs[k := zero_grant])))"
    unfolding s(2) by (auto simp: zero_grant_def)
  have o: "open_pids gs = insert (gr_pid (gs ! k)) (open_pids (xs @ ys))"
    using assms(2) by (subst s(1)) (simp add: open_pids_append)
  have "gr_pid (gs ! k) \<notin> open_pids (xs @ ys)" using d by (auto simp: open_pids_append open_pids_set)
  then show "open_pids (gs[k := zero_grant]) = open_pids gs - {gr_pid (gs ! k)}"
    unfolding s(2) o by (auto simp: open_pids_append zero_grant_def)
qed

lemma revoke_grants:
  "open_pids (map (\<lambda>g. if gr_open g \<and> gr_pid g = p then zero_grant else g) gs) = open_pids gs - {p}"
  "distinct (map gr_pid (filter gr_open gs)) \<Longrightarrow>
    distinct (map gr_pid (filter gr_open (map (\<lambda>g. if gr_open g \<and> gr_pid g = p then zero_grant else g) gs)))"
proof -
  have "filter gr_open (map (\<lambda>g. if gr_open g \<and> gr_pid g = p then zero_grant else g) gs)
      = filter (\<lambda>g. gr_pid g \<noteq> p) (filter gr_open gs)" for gs
    by (induction gs) (auto simp: zero_grant_def)
  note f = this
  show "open_pids (map (\<lambda>g. if gr_open g \<and> gr_pid g = p then zero_grant else g) gs) = open_pids gs - {p}"
    "distinct (map gr_pid (filter gr_open gs)) \<Longrightarrow>
      distinct (map gr_pid (filter gr_open (map (\<lambda>g. if gr_open g \<and> gr_pid g = p then zero_grant else g) gs)))"
    unfolding open_pids_set f by (auto simp del: filter_filter intro: distinct_map_filter)
qed

definition users :: "EventSlot \<Rightarrow> u64 set" where
  "users e = (if owner_open e then {ev_owner_pid e} else {}) \<union> open_pids (grants e)"

lemma can_access_users: "can_access e p \<longleftrightarrow> p \<in> users e"
  using find_grant_None [of e p] by (auto simp: can_access_def users_def)

lemma users_signaled [simp]: "users (e\<lparr>ev_signaled := b\<rparr>) = users e"
  by (simp add: users_def)

lemma has_open_reference_users: "has_open_reference e \<longleftrightarrow> users e \<noteq> {}"
  by (auto simp: has_open_reference_def users_def open_pids_def)

text \<open>
  \<open>shrunk e d p\<close>: \<open>d\<close> is the slot \<open>e\<close> after the references of \<open>p\<close> were dropped.  Reclaiming it keeps the
  invariant, and it is reclaimed exactly if nobody else had a reference.
\<close>

lemma maybe_reclaim_inv:
  assumes "event_slot_inv e" "ev_active e"
    and "d = e\<lparr>owner_open := owner_open d, grants := grants d\<rparr>" "length (grants d) = MAX_GRANTS_PER_EVENT"
      "distinct (map gr_pid (filter gr_open (grants d)))" "open_pids (grants d) \<subseteq> open_pids (grants e)"
  shows "event_slot_inv (maybe_reclaim d)"
    "ev_generation (maybe_reclaim d) = ev_generation e"
    "ev_active (maybe_reclaim d) \<longleftrightarrow> users d \<noteq> {}"
    "users d \<noteq> {} \<Longrightarrow> maybe_reclaim d = d"
proof -
  have f: "ev_active d" "ev_generation d = ev_generation e" "ev_owner_pid d = ev_owner_pid e"
    by (subst assms(3), simp add: assms(2))+
  show "ev_generation (maybe_reclaim d) = ev_generation e"
    "ev_active (maybe_reclaim d) \<longleftrightarrow> users d \<noteq> {}"
    using f by (simp_all add: maybe_reclaim_def has_open_reference_users event_reclaim_def zero_event_def)
  show keep: "users d \<noteq> {} \<Longrightarrow> maybe_reclaim d = d"
    by (simp add: maybe_reclaim_def has_open_reference_users)
  show "event_slot_inv (maybe_reclaim d)"
  proof (cases "users d = {}")
    case True
    with f show ?thesis
      by (simp add: maybe_reclaim_def has_open_reference_users event_reclaim_def event_slot_inv_def zero_event_def)
  next
    case False
    with keep f assms show ?thesis
      by (auto simp: event_slot_inv_def has_open_reference_users)
  qed
qed

section \<open>Abstract event objects\<close>

record event_object =
  obj_mode :: ResetMode
  obj_signaled :: bool
  obj_owner :: u64
  obj_users :: "u64 set"

type_synonym event_objects = "nat \<times> u32 \<rightharpoonup> event_object"

text \<open>The name of the object a handle denotes, and the live objects of a table.\<close>

definition event_key :: "u64 \<Rightarrow> nat \<times> u32" where
  "event_key h = (the (event_index h), event_generation h)"

definition event_abs :: "EventSlot \<Rightarrow> event_object" where
  "event_abs e = \<lparr>obj_mode = ev_mode e, obj_signaled = ev_signaled e, obj_owner = ev_owner_pid e, obj_users = users e\<rparr>"

definition objects :: "events \<Rightarrow> event_objects" where
  "objects s = (\<lambda>(i, g). if i < MAX_EVENTS \<and> ev_active (g_events s ! i) \<and> ev_generation (g_events s ! i) = g
     then Some (event_abs (g_events s ! i)) else None)"

definition denotes :: "event_objects \<Rightarrow> u64 \<Rightarrow> event_object option" where
  "denotes m h = (if event_index h = None then None else m (event_key h))"

definition spec_with ::
  "u64 \<Rightarrow> u64 \<Rightarrow> event_objects \<Rightarrow> (event_object \<Rightarrow> Status \<times> event_objects) \<Rightarrow> Status \<times> event_objects" where
  "spec_with p h m body = (case denotes m h of
     None \<Rightarrow> (Status.StaleHandle, m)
   | Some e \<Rightarrow> if p \<in> obj_users e then body e else (Status.AccessDenied, m))"

definition spec_signal :: "bool \<Rightarrow> u64 \<Rightarrow> u64 \<Rightarrow> event_objects \<Rightarrow> Status \<times> event_objects" where
  "spec_signal b p h m = spec_with p h m (\<lambda>e. (Status.Ok, m(event_key h \<mapsto> e\<lparr>obj_signaled := b\<rparr>)))"

definition spec_poll :: "u64 \<Rightarrow> u64 \<Rightarrow> event_objects \<Rightarrow> Status \<times> event_objects" where
  "spec_poll p h m = spec_with p h m (\<lambda>e.
     if \<not> obj_signaled e then (Status.WouldBlock, m)
     else (Status.Ok, m(event_key h \<mapsto> e\<lparr>obj_signaled := (obj_mode e \<noteq> Auto)\<rparr>)))"

definition drop_user :: "u64 \<Rightarrow> event_object \<Rightarrow> event_object option" where
  "drop_user p e = (if obj_users e \<subseteq> {p} then None else Some (e\<lparr>obj_users := obj_users e - {p}\<rparr>))"

definition spec_close :: "u64 \<Rightarrow> u64 \<Rightarrow> event_objects \<Rightarrow> Status \<times> event_objects" where
  "spec_close p h m = spec_with p h m (\<lambda>e. (Status.Ok, m(event_key h := drop_user p e)))"

definition spec_grant :: "u64 \<Rightarrow> u64 \<Rightarrow> u64 \<Rightarrow> event_objects \<Rightarrow> Status \<times> event_objects" where
  "spec_grant p h q m = (case denotes m h of
     None \<Rightarrow> (Status.StaleHandle, m)
   | Some e \<Rightarrow>
       if p \<noteq> obj_owner e \<or> p \<notin> obj_users e then (Status.AccessDenied, m)
       else if q \<in> obj_users e then (Status.AlreadyGranted, m)
       else if card (obj_users e - {p}) \<ge> MAX_GRANTS_PER_EVENT then (Status.CapacityReached, m)
       else (Status.Ok, m(event_key h \<mapsto> e\<lparr>obj_users := insert q (obj_users e)\<rparr>)))"

definition spec_release :: "u64 \<Rightarrow> event_objects \<Rightarrow> event_objects" where
  "spec_release p m = (\<lambda>k. Option.bind (m k) (drop_user p))"

lemma event_decode_denotes:
  assumes "events_inv s"
  shows "(case event_decode s h of Inl st \<Rightarrow> st = Status.StaleHandle \<and> denotes (objects s) h = None
     | Inr i \<Rightarrow> i < MAX_EVENTS \<and> ev_active (g_events s ! i) \<and> event_key h = (i, ev_generation (g_events s ! i)) \<and>
         denotes (objects s) h = Some (event_abs (g_events s ! i)))"
  using event_index_bound
  by (auto simp: event_decode_def denotes_def objects_def event_key_def Let_def split: option.splits if_splits)

text \<open>Updating a live slot in place is updating its object.\<close>

lemma objects_update:
  assumes "events_inv s" "i < MAX_EVENTS" "ev_active (g_events s ! i)"
    "ev_generation e = ev_generation (g_events s ! i)"
  shows "objects (s\<lparr>g_events := (g_events s)[i := e]\<rparr>) =
    (objects s)((i, ev_generation (g_events s ! i)) := (if ev_active e then Some (event_abs e) else None))"
proof
  fix k :: "nat \<times> u32"
  obtain j g where k: "k = (j, g)" by (cases k)
  have "length (g_events s) = MAX_EVENTS" using assms(1) by (simp add: events_inv_def)
  with assms show "objects (s\<lparr>g_events := (g_events s)[i := e]\<rparr>) k =
    ((objects s)((i, ev_generation (g_events s ! i)) := (if ev_active e then Some (event_abs e) else None))) k"
    by (cases "j = i") (auto simp: k objects_def)
qed

lemma objects_self: "i < MAX_EVENTS \<Longrightarrow> ev_active (g_events s ! i) \<Longrightarrow>
    objects s (i, ev_generation (g_events s ! i)) = Some (event_abs (g_events s ! i))"
  by (simp add: objects_def)

text \<open>
  \<open>implements s m (st, s') (st', m')\<close>: a step of the table and a step of the objects agree.
\<close>

definition implements :: "Status \<times> events \<Rightarrow> Status \<times> event_objects \<Rightarrow> bool" where
  "implements r r' \<longleftrightarrow> fst r = fst r' \<and> objects (snd r) = snd r' \<and> events_inv (snd r)"

lemma event_with_implements:
  assumes "events_inv s" "ev_initialized s" "p \<noteq> INVALID_PROCESS_ID"
    and "\<And>i. i < MAX_EVENTS \<Longrightarrow> ev_active (g_events s ! i) \<Longrightarrow> can_access (g_events s ! i) p \<Longrightarrow>
      event_key h = (i, ev_generation (g_events s ! i)) \<Longrightarrow>
      implements (body i (g_events s ! i)) (spec (event_abs (g_events s ! i)))"
  shows "implements (event_with p h s body) (spec_with p h (objects s) spec)"
  using event_decode_denotes [OF assms(1), of h] assms
  by (auto simp: event_with_def spec_with_def implements_def can_access_users event_abs_def Let_def split: sum.splits)

lemma same_users_inv:
  assumes "event_slot_inv e" "ev_active e" "d = e\<lparr>ev_signaled := b\<rparr>"
  shows "event_slot_inv d" "ev_generation d = ev_generation e" "ev_active d"
    "event_abs d = (event_abs e)\<lparr>obj_signaled := b\<rparr>"
  using assms by (auto simp: event_slot_inv_def has_open_reference_def event_abs_def users_def)

lemma set_signal_implements:
  assumes "events_inv s" "i < MAX_EVENTS" "ev_active (g_events s ! i)" "event_key h = (i, ev_generation (g_events s ! i))"
  shows "implements (Status.Ok, s\<lparr>g_events := (g_events s)[i := (g_events s ! i)\<lparr>ev_signaled := b\<rparr>]\<rparr>)
    (Status.Ok, (objects s)(event_key h \<mapsto> (event_abs (g_events s ! i))\<lparr>obj_signaled := b\<rparr>))"
proof -
  note d = same_users_inv [OF events_inv_nth [OF assms(1,2)] assms(3) refl, of b]
  show ?thesis
    using objects_update [OF assms(1-3) d(2)] d(3,4) assms(4) events_inv_update [OF assms(1) d(1), of i]
    by (simp add: implements_def)
qed

lemma event_signal_implements:
  assumes "events_inv s" "ev_initialized s" "p \<noteq> INVALID_PROCESS_ID"
  shows "implements (event_signal p h s) (spec_signal True p h (objects s))"
    "implements (event_reset p h s) (spec_signal False p h (objects s))"
  unfolding event_signal_def event_reset_def spec_signal_def
  by (rule event_with_implements [OF assms], erule (2) set_signal_implements [OF assms(1)])+

lemma event_poll_implements:
  assumes "events_inv s" "ev_initialized s" "p \<noteq> INVALID_PROCESS_ID"
  shows "implements (event_poll p h s) (spec_poll p h (objects s))"
  unfolding event_poll_def spec_poll_def
proof (rule event_with_implements [OF assms])
  fix i
  let ?e = "g_events s ! i"
  assume i: "i < MAX_EVENTS" "ev_active ?e" "event_key h = (i, ev_generation ?e)"
  show "implements (if \<not> ev_signaled ?e then (Status.WouldBlock, s)
      else (Status.Ok, s\<lparr>g_events := (g_events s)[i := (if ev_mode ?e = Auto then ?e\<lparr>ev_signaled := False\<rparr> else ?e)]\<rparr>))
    (if \<not> obj_signaled (event_abs ?e) then (Status.WouldBlock, objects s)
      else (Status.Ok, (objects s)(event_key h \<mapsto> (event_abs ?e)\<lparr>obj_signaled := (obj_mode (event_abs ?e) \<noteq> Auto)\<rparr>)))"
  proof (cases "ev_signaled ?e")
    case True
    then have eq: "(if ev_mode ?e = Auto then ?e\<lparr>ev_signaled := False\<rparr> else ?e) = ?e\<lparr>ev_signaled := (ev_mode ?e \<noteq> Auto)\<rparr>"
      by simp
    show ?thesis
      unfolding eq using set_signal_implements [OF assms(1) i, of "ev_mode ?e \<noteq> Auto"] True
      by (simp add: event_abs_def)
  next
    case False
    with assms(1) show ?thesis by (simp add: implements_def event_abs_def)
  qed
qed

lemma drop_user_abs:
  assumes "d = e\<lparr>owner_open := owner_open d, grants := grants d\<rparr>" "users d = users e - {p}" "users e \<noteq> {}"
    "users d \<noteq> {} \<Longrightarrow> maybe_reclaim d = d" "ev_active (maybe_reclaim d) \<longleftrightarrow> users d \<noteq> {}"
  shows "(if ev_active (maybe_reclaim d) then Some (event_abs (maybe_reclaim d)) else None) = drop_user p (event_abs e)"
proof (cases "users d = {}")
  case True
  with assms(2,3,5) show ?thesis by (auto simp: drop_user_def event_abs_def)
next
  case False
  have "event_abs d = (event_abs e)\<lparr>obj_users := users e - {p}\<rparr>"
    by (subst assms(1)) (simp add: event_abs_def assms(2) [symmetric], simp add: users_def, subst assms(1), simp)
  with False assms(2,4,5) show ?thesis by (auto simp: drop_user_def event_abs_def)
qed

text \<open>Dropping the references of \<open>p\<close> from a live slot, as \<open>close\<close> and \<open>release_process\<close> do.\<close>

lemma drop_references:
  assumes "event_slot_inv e" "ev_active e" "d = e\<lparr>owner_open := owner_open d, grants := grants d\<rparr>"
    "length (grants d) = MAX_GRANTS_PER_EVENT" "distinct (map gr_pid (filter gr_open (grants d)))"
    "users d = users e - {p}" "open_pids (grants d) \<subseteq> open_pids (grants e)"
  shows "event_slot_inv (maybe_reclaim d)" "ev_generation (maybe_reclaim d) = ev_generation e"
    "(if ev_active (maybe_reclaim d) then Some (event_abs (maybe_reclaim d)) else None) = drop_user p (event_abs e)"
proof -
  note m = maybe_reclaim_inv [OF assms(1-5,7)]
  show "event_slot_inv (maybe_reclaim d)" "ev_generation (maybe_reclaim d) = ev_generation e" by (rule m)+
  have "users e \<noteq> {}" using assms(1,2) by (simp add: event_slot_inv_def has_open_reference_users)
  then show "(if ev_active (maybe_reclaim d) then Some (event_abs (maybe_reclaim d)) else None) = drop_user p (event_abs e)"
    by (rule drop_user_abs [OF assms(3,6) _ m(4,3)])
qed

lemma close_slot:
  assumes "event_slot_inv e" "ev_active e"
  shows "ev_owner_pid e = p \<Longrightarrow> owner_open e \<Longrightarrow> users (e\<lparr>owner_open := False\<rparr>) = users e - {p}"
    "find_grant e p = Some k \<Longrightarrow> k < length (grants e) \<and> gr_open (grants e ! k) \<and> gr_pid (grants e ! k) = p"
    "find_grant e p = Some k \<Longrightarrow> users (e\<lparr>grants := (grants e)[k := zero_grant]\<rparr>) = users e - {p}"
proof -
  show "users (e\<lparr>owner_open := False\<rparr>) = users e - {p}" if "ev_owner_pid e = p" "owner_open e"
    using that assms by (auto simp: users_def event_slot_inv_def)
  show k: "k < length (grants e) \<and> gr_open (grants e ! k) \<and> gr_pid (grants e ! k) = p" if "find_grant e p = Some k"
    using find_index_SomeD [OF that [unfolded find_grant_def]] by blast
  show "users (e\<lparr>grants := (grants e)[k := zero_grant]\<rparr>) = users e - {p}" if f: "find_grant e p = Some k"
  proof -
    have "p \<in> open_pids (grants e)" using f find_grant_None [of e p] by auto
    then have "ev_owner_pid e \<noteq> p" using assms by (auto simp: event_slot_inv_def)
    then show ?thesis
      using close_grant(2) [of k "grants e"] k [OF f] assms by (auto simp: users_def event_slot_inv_def)
  qed
qed

lemma event_close_implements:
  assumes "events_inv s" "ev_initialized s" "p \<noteq> INVALID_PROCESS_ID"
  shows "implements (event_close p h s) (spec_close p h (objects s))"
proof (cases "event_decode s h")
  case (Inl st)
  with event_decode_denotes [OF assms(1), of h] assms show ?thesis
    by (simp add: event_close_def spec_close_def spec_with_def implements_def)
next
  case (Inr i)
  let ?e = "g_events s ! i"
  have i: "i < MAX_EVENTS" "ev_active ?e" "event_key h = (i, ev_generation ?e)"
      "denotes (objects s) h = Some (event_abs ?e)"
    using event_decode_denotes [OF assms(1), of h] Inr by simp_all
  note e = events_inv_nth [OF assms(1) i(1)]
  have drop: "implements (Status.Ok, s\<lparr>g_events := (g_events s)[i := maybe_reclaim d]\<rparr>)
      (Status.Ok, (objects s)(event_key h := drop_user p (event_abs ?e)))"
    if "d = ?e\<lparr>owner_open := owner_open d, grants := grants d\<rparr>" "length (grants d) = MAX_GRANTS_PER_EVENT"
      "distinct (map gr_pid (filter gr_open (grants d)))" "users d = users ?e - {p}"
      "open_pids (grants d) \<subseteq> open_pids (grants ?e)" for d
    using drop_references [OF e i(2) that] objects_update [OF assms(1) i(1,2), of "maybe_reclaim d"]
      events_inv_update [OF assms(1), of "maybe_reclaim d" i] i(3)
    by (simp add: implements_def)
  consider (owner) "ev_owner_pid ?e = p" "owner_open ?e"
    | (grant) k where "\<not> (ev_owner_pid ?e = p \<and> owner_open ?e)" "find_grant ?e p = Some k"
    | (none) "\<not> can_access ?e p"
    by (cases "find_grant ?e p") (auto simp: can_access_def)
  then show ?thesis
  proof cases
    case owner
    have "implements (Status.Ok, s\<lparr>g_events := (g_events s)[i := maybe_reclaim (?e\<lparr>owner_open := False\<rparr>)]\<rparr>)
        (Status.Ok, (objects s)(event_key h := drop_user p (event_abs ?e)))"
      using e i(2) close_slot(1) [OF e i(2) owner] by (intro drop) (simp_all add: event_slot_inv_def)
    moreover have "p \<in> users ?e" using owner by (simp add: users_def)
    ultimately show ?thesis using assms(2,3) Inr owner i(4)
      by (simp add: event_close_def spec_close_def spec_with_def event_abs_def Let_def)
  next
    case (grant k)
    note c = close_grant [of k "grants ?e"] close_slot(2,3) [OF e i(2) grant(2)]
    have "implements (Status.Ok, s\<lparr>g_events := (g_events s)[i := maybe_reclaim (?e\<lparr>grants := (grants ?e)[k := zero_grant]\<rparr>)]\<rparr>)
        (Status.Ok, (objects s)(event_key h := drop_user p (event_abs ?e)))"
      using e i(2) c by (intro drop) (auto simp: event_slot_inv_def)
    moreover have "p \<in> users ?e" using grant(2) can_access_users by (auto simp: can_access_def)
    ultimately show ?thesis using assms(2,3) Inr grant i(4)
      by (auto simp: event_close_def spec_close_def spec_with_def event_abs_def Let_def)
  next
    case none
    then have "p \<notin> users ?e" "find_grant ?e p = None" by (auto simp: can_access_users [symmetric] can_access_def)
    with none assms Inr i(4) show ?thesis
      by (auto simp: event_close_def spec_close_def spec_with_def event_abs_def Let_def implements_def can_access_def)
  qed
qed

lemma open_pids_card:
  "distinct (map gr_pid (filter gr_open gs)) \<Longrightarrow> card (open_pids gs) = length (filter gr_open gs)"
  unfolding open_pids_set by (simp only: distinct_card length_map)

lemma grants_full:
  assumes "length gs = n" "distinct (map gr_pid (filter gr_open gs))"
  shows "find_index (\<lambda>g. \<not> gr_open g) gs = None \<longleftrightarrow> n \<le> card (open_pids gs)"
proof -
  have "find_index (\<lambda>g. \<not> gr_open g) gs = None \<longleftrightarrow> filter gr_open gs = gs"
    by (auto simp: find_index_None_iff filter_id_conv)
  also have "\<dots> \<longleftrightarrow> length gs \<le> length (filter gr_open gs)"
    by (metis filter_id_conv length_filter_less linorder_not_less order_refl)
  finally show ?thesis using open_pids_card [OF assms(2)] assms(1) by simp
qed

lemma event_grant_implements:
  assumes "events_inv s" "ev_initialized s" "p \<noteq> INVALID_PROCESS_ID" "q \<noteq> INVALID_PROCESS_ID" "p \<noteq> q"
  shows "implements (event_grant p h q s) (spec_grant p h q (objects s))"
proof (cases "event_decode s h")
  case (Inl st)
  with event_decode_denotes [OF assms(1), of h] assms show ?thesis
    by (simp add: event_grant_def spec_grant_def implements_def)
next
  case (Inr i)
  let ?e = "g_events s ! i"
  have i: "i < MAX_EVENTS" "ev_active ?e" "event_key h = (i, ev_generation ?e)"
      "denotes (objects s) h = Some (event_abs ?e)"
    using event_decode_denotes [OF assms(1), of h] Inr by simp_all
  have e: "length (grants ?e) = MAX_GRANTS_PER_EVENT" "distinct (map gr_pid (filter gr_open (grants ?e)))"
      "ev_owner_pid ?e \<notin> open_pids (grants ?e)" "INVALID_PROCESS_ID \<notin> open_pids (grants ?e)"
    using events_inv_nth [OF assms(1) i(1)] i(2) by (simp_all add: event_slot_inv_def)
  show ?thesis
  proof (cases "ev_owner_pid ?e = p \<and> owner_open ?e")
    case False
    then have "p \<noteq> ev_owner_pid ?e \<or> p \<notin> users ?e" using e(3) by (auto simp: users_def)
    with False assms Inr i(4) show ?thesis
      by (auto simp: event_grant_def spec_grant_def implements_def event_abs_def Let_def)
  next
    case owner: True
    have us: "p \<in> users ?e" "q \<in> users ?e \<longleftrightarrow> q \<in> open_pids (grants ?e)" "users ?e - {p} = open_pids (grants ?e)"
      using owner e(3) assms(5) by (auto simp: users_def)
    have dup: "(\<exists>g \<in> set (grants ?e). gr_open g \<and> gr_pid g = q) \<longleftrightarrow> q \<in> open_pids (grants ?e)"
      by (auto simp: open_pids_def)
    note full = grants_full [OF e(1,2)]
    show ?thesis
    proof (cases "q \<notin> open_pids (grants ?e) \<and> \<not> MAX_GRANTS_PER_EVENT \<le> card (open_pids (grants ?e))")
      case True
      then obtain k where k: "find_index (\<lambda>g. \<not> gr_open g) (grants ?e) = Some k" using full by blast
      let ?d = "?e\<lparr>grants := (grants ?e)[k := \<lparr>gr_pid = q, gr_open = True\<rparr>]\<rparr>"
      have kk: "k < length (grants ?e)" "\<not> gr_open (grants ?e ! k)" using find_index_SomeD [OF k] by auto
      have q: "q \<notin> open_pids (grants ?e)" using True by simp
      note g = open_grant [OF kk e(2) q]
      have d: "event_slot_inv ?d"
        using events_inv_nth [OF assms(1) i(1)] i(2) g owner assms(4,5)
        by (auto simp: event_slot_inv_def has_open_reference_def)
      have abs: "event_abs ?d = (event_abs ?e)\<lparr>obj_users := insert q (users ?e)\<rparr>"
        using g(2) by (auto simp: event_abs_def users_def)
      have "implements (Status.Ok, s\<lparr>g_events := (g_events s)[i := ?d]\<rparr>)
          (Status.Ok, (objects s)(event_key h \<mapsto> (event_abs ?e)\<lparr>obj_users := insert q (users ?e)\<rparr>))"
        using objects_update [OF assms(1) i(1,2), of ?d] events_inv_update [OF assms(1) d, of i] i(2,3) abs
        by (simp add: implements_def)
      moreover have "event_grant p h q s = (Status.Ok, s\<lparr>g_events := (g_events s)[i := ?d]\<rparr>)"
        using assms Inr owner True k unfolding event_grant_def Let_def by (simp add: dup)
      moreover have "spec_grant p h q (objects s) =
          (Status.Ok, (objects s)(event_key h \<mapsto> (event_abs ?e)\<lparr>obj_users := insert q (users ?e)\<rparr>))"
        using i(4) owner us True by (simp add: spec_grant_def event_abs_def)
      ultimately show ?thesis by simp
    next
      case False
      have "event_grant p h q s = (if q \<in> open_pids (grants ?e) then Status.AlreadyGranted else Status.CapacityReached, s)"
        using assms Inr owner full False unfolding event_grant_def Let_def
        by (cases "q \<in> open_pids (grants ?e)") (simp_all add: dup)
      moreover have "spec_grant p h q (objects s) =
          (if q \<in> open_pids (grants ?e) then Status.AlreadyGranted else Status.CapacityReached, objects s)"
        using i(4) owner us False by (cases "q \<in> open_pids (grants ?e)") (simp_all add: spec_grant_def event_abs_def)
      ultimately show ?thesis using assms(1) by (simp add: implements_def)
    qed
  qed
qed

lemma event_release_slot_drop:
  assumes "event_slot_inv e" "ev_active e"
  shows "event_slot_inv (event_release_slot p e)" "ev_generation (event_release_slot p e) = ev_generation e"
    "(if ev_active (event_release_slot p e) then Some (event_abs (event_release_slot p e)) else None)
      = drop_user p (event_abs e)"
proof -
  let ?d = "e\<lparr>owner_open := (owner_open e \<and> ev_owner_pid e \<noteq> p),
    grants := map (\<lambda>g. if gr_open g \<and> gr_pid g = p then zero_grant else g) (grants e)\<rparr>"
  have r: "event_release_slot p e = maybe_reclaim ?d"
    using assms(2) by (cases "ev_owner_pid e = p") (simp_all add: event_release_slot_def Let_def)
  have d: "?d = e\<lparr>owner_open := owner_open ?d, grants := grants ?d\<rparr>"
      "length (grants ?d) = MAX_GRANTS_PER_EVENT" "distinct (map gr_pid (filter gr_open (grants ?d)))"
      "users ?d = users e - {p}" "open_pids (grants ?d) \<subseteq> open_pids (grants e)"
    using assms revoke_grants(1) [of p "grants e"] revoke_grants(2) [of "grants e" p]
    by (simp_all add: event_slot_inv_def) (auto simp: users_def)
  show "event_slot_inv (event_release_slot p e)" "ev_generation (event_release_slot p e) = ev_generation e"
    "(if ev_active (event_release_slot p e) then Some (event_abs (event_release_slot p e)) else None)
      = drop_user p (event_abs e)"
    unfolding r by (rule drop_references [OF assms d])+
qed

lemma event_release_slot_inv: "event_slot_inv e \<Longrightarrow> event_slot_inv (event_release_slot p e)"
  by (cases "ev_active e") (simp add: event_release_slot_drop, simp add: event_release_slot_def)

lemma event_release_implements:
  assumes "events_inv s" "ev_initialized s" "p \<noteq> INVALID_PROCESS_ID"
  shows "objects (event_release_process p s) = spec_release p (objects s)" "events_inv (event_release_process p s)"
proof -
  have r: "event_release_process p s = s\<lparr>g_events := map (event_release_slot p) (g_events s)\<rparr>"
    using assms by (simp add: event_release_process_def)
  have len: "length (g_events s) = MAX_EVENTS" using assms(1) by (simp add: events_inv_def)
  show "events_inv (event_release_process p s)"
    unfolding r using assms(1) by (auto simp: events_inv_def event_release_slot_inv)
  show "objects (event_release_process p s) = spec_release p (objects s)"
  proof
    fix k :: "nat \<times> u32"
    obtain i g where k: "k = (i, g)" by (cases k)
    show "objects (event_release_process p s) k = spec_release p (objects s) k"
    proof (cases "i < MAX_EVENTS \<and> ev_active (g_events s ! i)")
      case True
      note d = event_release_slot_drop [OF events_inv_nth [OF assms(1)], of i p]
      from True d show ?thesis
        by (auto simp: k r objects_def spec_release_def len)
    next
      case False
      then show ?thesis by (auto simp: k r objects_def spec_release_def len event_release_slot_def)
    qed
  qed
qed

definition created_event :: "u64 \<Rightarrow> ResetMode \<Rightarrow> bool \<Rightarrow> event_object" where
  "created_event p mode b = \<lparr>obj_mode = mode, obj_signaled = b, obj_owner = p, obj_users = {p}\<rparr>"

text \<open>What \<open>create\<close> answers: it refuses a mode that does not exist or no place for the handle, and a full table.\<close>

definition spec_create_status :: "ResetMode option \<Rightarrow> u64 option \<Rightarrow> event_objects \<Rightarrow> Status" where
  "spec_create_status mode out m =
     (if mode = None \<or> out = None then Status.InvalidArgument
      else if card (dom m) = MAX_EVENTS then Status.CapacityReached
      else Status.Ok)"

lemma event_table_full_card:
  assumes "events_inv s"
  shows "(\<exists>e \<in> set (g_events s). \<not> ev_active e) \<longleftrightarrow> card (dom (objects s)) \<noteq> MAX_EVENTS"
proof -
  define A where "A = {i. i < MAX_EVENTS \<and> ev_active (g_events s ! i)}"
  have len: "length (g_events s) = MAX_EVENTS" using assms by (simp add: events_inv_def)
  have "dom (objects s) = (\<lambda>i. (i, ev_generation (g_events s ! i))) ` A"
    by (auto simp: objects_def A_def split: if_splits)
  moreover have "inj_on (\<lambda>i. (i, ev_generation (g_events s ! i))) A" by (auto simp: inj_on_def)
  ultimately have c: "card (dom (objects s)) = card A" by (simp add: card_image)
  have "A \<subseteq> {..<MAX_EVENTS}" by (auto simp: A_def)
  then have "card A = MAX_EVENTS \<longleftrightarrow> A = {..<MAX_EVENTS}"
    using card_subset_eq [of "{..<MAX_EVENTS}" A] by auto
  also have "\<dots> \<longleftrightarrow> (\<forall>i < MAX_EVENTS. ev_active (g_events s ! i))" by (auto simp: A_def)
  finally show ?thesis unfolding c by (auto simp: all_set_conv_all_nth Bex_def in_set_conv_nth len)
qed

lemma event_create_implements:
  assumes "events_inv s" "ev_initialized s" "p \<noteq> INVALID_PROCESS_ID"
  shows "case event_create p (Some mode) b (Some out) s of (st, h, s') \<Rightarrow>
    events_inv s' \<and>
    (if \<exists>e \<in> set (g_events s). \<not> ev_active e
     then st = Status.Ok \<and> h \<noteq> None \<and> the h \<noteq> INVALID_HANDLE \<and> denotes (objects s) (the h) = None \<and>
       objects s' = (objects s)(event_key (the h) \<mapsto> created_event p mode b)
     else st = Status.CapacityReached \<and> h = Some INVALID_HANDLE \<and> s' = s)"
proof (cases "find_index (\<lambda>slot. \<not> ev_active slot) (g_events s)")
  case None
  moreover from None have "\<forall>e \<in> set (g_events s). ev_active e" by (simp add: find_index_None_iff)
  ultimately show ?thesis using assms by (simp add: event_create_def)
next
  case (Some i)
  have len: "length (g_events s) = MAX_EVENTS" using assms(1) by (simp add: events_inv_def)
  have i: "i < MAX_EVENTS" "\<not> ev_active (g_events s ! i)" using find_index_SomeD [OF Some] len by auto
  have ex: "\<exists>e \<in> set (g_events s). \<not> ev_active e" using i len by (metis nth_mem)
  let ?g = "next_generation ev_kMaximumGeneration (ev_generation (g_events s ! i))"
  let ?e = "zero_event\<lparr>ev_generation := ?g, ev_owner_pid := p, ev_mode := mode, ev_signaled := b,
      owner_open := True, ev_active := True\<rparr>"
  have c: "event_create p (Some mode) b (Some out) s =
      (Status.Ok, Some (event_encode i ?g), s\<lparr>g_events := (g_events s)[i := ?e]\<rparr>)"
    using Some assms by (simp add: event_create_def Let_def)
  have key: "event_key (event_encode i ?g) = (i, ?g)"
    using event_encode_fields [OF i(1), of ?g] by (simp add: event_key_def)
  have e: "event_slot_inv ?e" "event_abs ?e = created_event p mode b"
    using next_generation_valid [OF ev_kMaximumGeneration_pos] assms(3)
    by (simp_all add: event_slot_inv_def zero_event_def has_open_reference_def event_abs_def users_def created_event_def)
  have none: "denotes (objects s) (event_encode i ?g) = None"
    using event_encode_fields [OF i(1), of ?g] i by (simp add: denotes_def key objects_def)
  have "objects (s\<lparr>g_events := (g_events s)[i := ?e]\<rparr>) k = ((objects s)((i, ?g) \<mapsto> created_event p mode b)) k" for k
    using i len e(2) by (cases k; cases "fst k = i") (auto simp: objects_def)
  then have "objects (s\<lparr>g_events := (g_events s)[i := ?e]\<rparr>) = (objects s)((i, ?g) \<mapsto> created_event p mode b)" ..
  with c key none ex event_encode_fields(3) [OF i(1)] events_inv_update [OF assms(1) e(1), of i] show ?thesis by simp
qed

section \<open>Reachable tables\<close>

datatype event_call =
    Initialize
  | Create u64 "ResetMode option" bool "u64 option"
  | Grant u64 u64 u64
  | Signal u64 u64
  | Reset u64 u64
  | Poll u64 u64
  | Close u64 u64
  | ReleaseProcess u64

fun event_exec :: "event_call \<Rightarrow> events \<Rightarrow> events" where
  "event_exec Initialize s = snd (event_initialize s)"
| "event_exec (Create p m b out) s = snd (snd (event_create p m b out s))"
| "event_exec (Grant p h q) s = snd (event_grant p h q s)"
| "event_exec (Signal p h) s = snd (event_signal p h s)"
| "event_exec (Reset p h) s = snd (event_reset p h s)"
| "event_exec (Poll p h) s = snd (event_poll p h s)"
| "event_exec (Close p h) s = snd (event_close p h s)"
| "event_exec (ReleaseProcess p) s = event_release_process p s"

inductive event_reachable :: "events \<Rightarrow> bool" where
  start: "event_reachable events_zero"
| call: "event_reachable s \<Longrightarrow> event_reachable (event_exec c s)"

lemma events_zero_inv: "events_inv events_zero" "events_inv (events_zero\<lparr>ev_initialized := b\<rparr>)"
  by (simp_all add: events_inv_def events_zero_def event_slot_inv_def zero_event_def)

lemma event_exec_inv:
  assumes "events_inv s"
  shows "events_inv (event_exec c s)"
proof (cases "ev_initialized s")
  case False
  with assms show ?thesis
    by (cases c) (simp_all add: event_initialize_def events_zero_inv event_create_def event_grant_def event_signal_def
        event_reset_def event_poll_def event_with_def event_close_def event_release_process_def Let_def)
next
  case init: True
  show ?thesis
  proof (cases c)
    case (Create p m b out)
    show ?thesis
    proof (cases "p = INVALID_PROCESS_ID \<or> out = None \<or> m = None")
      case True
      with Create assms init show ?thesis by (auto simp: event_create_def Let_def)
    next
      case False
      with Create event_create_implements [OF assms init, of p "the m" b "the out"] show ?thesis
        by (auto split: prod.splits)
    qed
  next
    case (Grant p h q)
    with assms init event_grant_implements [OF assms init, of p q h] show ?thesis
      by (cases "p = 0 \<or> q = 0 \<or> p = q") (auto simp: event_grant_def implements_def)
  next
    case (Signal p h)
    with assms init event_signal_implements(1) [OF assms init, of p h] show ?thesis
      by (cases "p = 0") (auto simp: event_signal_def event_with_def implements_def)
  next
    case (Reset p h)
    with assms init event_signal_implements(2) [OF assms init, of p h] show ?thesis
      by (cases "p = 0") (auto simp: event_reset_def event_with_def implements_def)
  next
    case (Poll p h)
    with assms init event_poll_implements [OF assms init, of p h] show ?thesis
      by (cases "p = 0") (auto simp: event_poll_def event_with_def implements_def)
  next
    case (Close p h)
    with assms init event_close_implements [OF assms init, of p h] show ?thesis
      by (cases "p = 0") (auto simp: event_close_def implements_def)
  next
    case (ReleaseProcess p)
    with assms init event_release_implements(2) [OF assms init, of p] show ?thesis
      by (cases "p = 0") (auto simp: event_release_process_def)
  qed (use assms init in \<open>simp add: event_initialize_def\<close>)
qed

lemma event_reachable_inv: "event_reachable s \<Longrightarrow> events_inv s"
  by (induction rule: event_reachable.induct) (simp_all add: events_zero_inv event_exec_inv)

lemma event_create_refines:
  assumes "events_inv s" "ev_initialized s" "p \<noteq> INVALID_PROCESS_ID"
  shows "case event_create p mode b out s of (status, result, s') \<Rightarrow>
    status = spec_create_status mode out (objects s) \<and>
    (if status = Status.Ok
     then \<exists>h'. result = Some h' \<and> h' \<noteq> INVALID_HANDLE \<and> denotes (objects s) h' = None \<and>
       objects s' = (objects s)(event_key h' \<mapsto> created_event p (the mode) b)
     else result = map_option (\<lambda>_. INVALID_HANDLE) out \<and> s' = s)"
proof (cases "mode = None \<or> out = None")
  case True
  with assms(2) show ?thesis by (auto simp: event_create_def spec_create_status_def Let_def)
next
  case False
  then obtain d k where "mode = Some d" "out = Some k" by auto
  with event_create_implements [OF assms, of d b k] event_table_full_card [OF assms(1)] show ?thesis
    by (cases "event_create p (Some d) b (Some k) s") (auto simp: spec_create_status_def split: if_splits)
qed

text \<open>
  C18.  The event table refines a set of event objects.  In every reachable, initialised table, each
  operation of a process with a valid identity has the status and the effect of the operation on
  objects: a handle denotes a live object or nothing; only a process the object lists may signal,
  reset, poll or close it; only its owner may grant, to at most eight others; closing and process exit
  remove the process, and the object disappears exactly when no process is left; \<open>create\<close> fails only on
  invalid arguments or when all objects are in use, without any effect, and otherwise adds an object for
  the caller alone under a handle that denoted nothing.
\<close>

theorem event_table_refines_objects:
  assumes "event_reachable s" "ev_initialized s" "p \<noteq> INVALID_PROCESS_ID"
  shows "map_prod id objects (event_signal p h s) = spec_signal True p h (objects s) \<and>
    map_prod id objects (event_reset p h s) = spec_signal False p h (objects s) \<and>
    map_prod id objects (event_poll p h s) = spec_poll p h (objects s) \<and>
    map_prod id objects (event_close p h s) = spec_close p h (objects s) \<and>
    map_prod id objects (event_grant p h q s) =
      (if q = INVALID_PROCESS_ID \<or> p = q then (Status.InvalidArgument, objects s) else spec_grant p h q (objects s)) \<and>
    objects (event_release_process p s) = spec_release p (objects s) \<and>
    (case event_create p mode b out s of (status, result, s') \<Rightarrow>
       status = spec_create_status mode out (objects s) \<and>
       (if status = Status.Ok
        then \<exists>h'. result = Some h' \<and> h' \<noteq> INVALID_HANDLE \<and> denotes (objects s) h' = None \<and>
          objects s' = (objects s)(event_key h' \<mapsto> created_event p (the mode) b)
        else result = map_option (\<lambda>_. INVALID_HANDLE) out \<and> s' = s))"
proof -
  note inv = event_reachable_inv [OF assms(1)]
  have im: "implements r r' \<Longrightarrow> map_prod id objects r = r'" for r r'
    by (cases r; cases r') (simp add: implements_def)
  have gr: "map_prod id objects (event_grant p h q s) =
      (if q = INVALID_PROCESS_ID \<or> p = q then (Status.InvalidArgument, objects s) else spec_grant p h q (objects s))"
  proof (cases "q = INVALID_PROCESS_ID \<or> p = q")
    case True
    then show ?thesis using assms(2) by (auto simp: event_grant_def)
  next
    case False
    then show ?thesis using im [OF event_grant_implements [OF inv assms(2,3)]] by simp
  qed
  show ?thesis
    by (intro conjI im [OF event_signal_implements(1)] im [OF event_signal_implements(2)] im [OF event_poll_implements]
        im [OF event_close_implements] event_release_implements(1) gr event_create_refines inv assms(2,3))
qed

definition example_events :: events where
  "example_events = fold event_exec [Initialize, Create 7 (Some Auto) False (Some 0), Grant 7 (event_encode 0 1) 9] events_zero"

lemma event_reachable_fold: "event_reachable s \<Longrightarrow> event_reachable (fold event_exec cs s)"
  by (induction cs arbitrary: s) (simp_all add: event_reachable.call)

lemma example_events_facts:
  "event_reachable example_events" "ev_initialized example_events"
  "event_decode example_events (event_encode 0 1) = Inr 0"
  "can_access (g_events example_events ! 0) 7" "can_access (g_events example_events ! 0) 9"
  "ev_mode (g_events example_events ! 0) = Auto"
proof -
  show "event_reachable example_events"
    unfolding example_events_def by (rule event_reachable_fold [OF event_reachable.start])
qed code_simp+

theorem event_table_refines_objects_witness:
  "map_prod id objects (event_close 9 (event_encode 0 1) example_events) =
     spec_close 9 (event_encode 0 1) (objects example_events) \<and>
   fst (event_create 9 (Some Manual) True (Some 0) example_events) =
     spec_create_status (Some Manual) (Some 0) (objects example_events)"
  using event_table_refines_objects [OF example_events_facts(1,2), where p = 9 and h = "event_encode 0 1"
      and mode = "Some Manual" and b = True and out = "Some 0"]
  by (cases "event_create 9 (Some Manual) True (Some 0) example_events") simp

text \<open>A sequence of polls, by any processes, with the statuses they return.\<close>

fun poll_all :: "u64 list \<Rightarrow> u64 \<Rightarrow> events \<Rightarrow> Status list" where
  "poll_all [] h s = []"
| "poll_all (p # ps) h s = (case event_poll p h s of (st, s') \<Rightarrow> st # poll_all ps h s')"

lemma event_poll_eq:
  assumes "events_inv s" "ev_initialized s" "event_decode s h = Inr i" "can_access (g_events s ! i) p"
  shows "event_poll p h s =
    (if \<not> ev_signaled (g_events s ! i) then (Status.WouldBlock, s)
     else (Status.Ok, s\<lparr>g_events := (g_events s)[i := (g_events s ! i)\<lparr>ev_signaled := (ev_mode (g_events s ! i) \<noteq> Auto)\<rparr>]\<rparr>))"
proof -
  have "p \<noteq> INVALID_PROCESS_ID"
    using events_inv_nth [OF assms(1) event_decodeD(1) [OF assms(3)]] event_decodeD(2) [OF assms(3)] assms(4)
    by (auto simp: event_slot_inv_def can_access_users users_def split: if_splits)
  moreover have "s\<lparr>g_events := (g_events s)[i := (g_events s ! i)\<lparr>ev_signaled := True\<rparr>]\<rparr> = s"
    if "ev_signaled (g_events s ! i)"
  proof -
    have "(g_events s ! i)\<lparr>ev_signaled := True\<rparr> = g_events s ! i" using that by (cases "g_events s ! i") simp
    then show ?thesis by simp
  qed
  ultimately show ?thesis using assms unfolding event_poll_def event_with_def Let_def by simp
qed

lemma event_signal_step:
  assumes "events_inv s" "event_decode s h = Inr i" "s' = s\<lparr>g_events := (g_events s)[i := (g_events s ! i)\<lparr>ev_signaled := b\<rparr>]\<rparr>"
  shows "g_events s' ! i = (g_events s ! i)\<lparr>ev_signaled := b\<rparr>" "event_decode s' h = Inr i" "events_inv s'"
    "ev_initialized s' = ev_initialized s"
proof -
  note i = event_decodeD [OF assms(2)]
  have len: "length (g_events s) = MAX_EVENTS" using assms(1) by (simp add: events_inv_def)
  show e: "g_events s' ! i = (g_events s ! i)\<lparr>ev_signaled := b\<rparr>" using assms(3) i(1) len by simp
  show "event_decode s' h = Inr i" using i e by (simp add: event_decode_def Let_def)
  show "events_inv s'"
    unfolding assms(3) by (rule events_inv_update [OF assms(1) same_users_inv(1) [OF events_inv_nth [OF assms(1) i(1)] i(2) refl]])
  show "ev_initialized s' = ev_initialized s" by (simp add: assms(3))
qed

lemma poll_all_statuses:
  assumes "events_inv s" "ev_initialized s" "event_decode s h = Inr i" "\<forall>p \<in> set ps. can_access (g_events s ! i) p"
  shows "poll_all ps h s =
    (if \<not> ev_signaled (g_events s ! i) then replicate (length ps) Status.WouldBlock
     else if ev_mode (g_events s ! i) = Auto
     then (case ps of [] \<Rightarrow> [] | _ # qs \<Rightarrow> Status.Ok # replicate (length qs) Status.WouldBlock)
     else replicate (length ps) Status.Ok)"
  using assms
proof (induction ps arbitrary: s)
  case (Cons p ps)
  let ?e = "g_events s ! i"
  note poll = event_poll_eq [OF Cons.prems(1-3), of p]
  show ?case
  proof (cases "ev_signaled ?e")
    case False
    with poll Cons show ?thesis by simp
  next
    case True
    let ?s = "s\<lparr>g_events := (g_events s)[i := ?e\<lparr>ev_signaled := (ev_mode ?e \<noteq> Auto)\<rparr>]\<rparr>"
    note st = event_signal_step [OF Cons.prems(1,3) refl, of "ev_mode ?e \<noteq> Auto"]
    have acc: "\<forall>p \<in> set ps. can_access (g_events ?s ! i) p"
      unfolding st(1) using Cons.prems(4) by (simp add: can_access_users)
    have "poll_all ps h ?s = (if ev_mode ?e = Auto then replicate (length ps) Status.WouldBlock
        else replicate (length ps) Status.Ok)"
      using Cons.IH [OF st(3) _ st(2) acc] st(4) Cons.prems(2) unfolding st(1) by simp
    with poll Cons.prems(4) True show ?thesis by simp
  qed
qed simp

text \<open>
  Wake-ups.  After a signal, among any number of polls by processes that may use the event,
  exactly the first succeeds if the event resets automatically, and all succeed if it is reset
  manually; so a signal of an automatic event is consumed once and never lost.
\<close>

theorem event_signal_wakes:
  assumes "event_reachable s" "ev_initialized s" "event_decode s h = Inr i"
    and "can_access (g_events s ! i) p" "\<forall>q \<in> set ps. can_access (g_events s ! i) q"
  shows "fst (event_signal p h s) = Status.Ok \<and>
    poll_all ps h (snd (event_signal p h s)) =
      (if ev_mode (g_events s ! i) = Auto
       then (case ps of [] \<Rightarrow> [] | _ # qs \<Rightarrow> Status.Ok # replicate (length qs) Status.WouldBlock)
       else replicate (length ps) Status.Ok)"
proof -
  note inv = event_reachable_inv [OF assms(1)]
  note st = event_signal_step [OF inv assms(3) refl, of True]
  have "p \<noteq> INVALID_PROCESS_ID"
    using events_inv_nth [OF inv event_decodeD(1) [OF assms(3)]] event_decodeD(2) [OF assms(3)] assms(4)
    by (auto simp: event_slot_inv_def can_access_users users_def split: if_splits)
  with assms have e: "event_signal p h s =
      (Status.Ok, s\<lparr>g_events := (g_events s)[i := (g_events s ! i)\<lparr>ev_signaled := True\<rparr>]\<rparr>)"
    by (simp add: event_signal_def event_with_def Let_def)
  have acc: "\<forall>q \<in> set ps. can_access (g_events (s\<lparr>g_events := (g_events s)[i := (g_events s ! i)\<lparr>ev_signaled := True\<rparr>]\<rparr>) ! i) q"
    unfolding st(1) using assms(5) by (simp add: can_access_users)
  show ?thesis
    unfolding e fst_conv snd_conv using poll_all_statuses [OF st(3) _ st(2) acc] st(4) assms(2)
    unfolding st(1) by simp
qed

theorem event_signal_wakes_witness:
  "poll_all [9, 7, 9] (event_encode 0 1) (snd (event_signal 7 (event_encode 0 1) example_events)) =
    [Status.Ok, Status.WouldBlock, Status.WouldBlock]"
  using event_signal_wakes [OF example_events_facts(1-4), of "[9, 7, 9]"] example_events_facts(4-6) by simp

end
