(* ===== verification/Ipc_Shared_Memory.thy ===== *)
theory Ipc_Shared_Memory
  imports Handles Physical_Memory
begin

text \<open>
  \<^verbatim>\<open>kernel/ipc/shared_memory.hpp\<close> and \<^verbatim>\<open>kernel/ipc/shared_memory.cpp\<close>: memory objects that processes
  share.  The component takes its pages from the frame allocator, so its state carries the
  allocator's state; it also carries the bytes of memory, because the code clears every page it hands
  out.  The client proofs use the allocator only through the interface \<open>frame_provider\<close>.
\<close>

section \<open>Data\<close>

definition MAX_OBJECTS :: nat where "MAX_OBJECTS = 16"
definition MAX_PAGES_PER_OBJECT :: nat where "MAX_PAGES_PER_OBJECT = 16"
definition MAX_GRANTS_PER_OBJECT :: nat where "MAX_GRANTS_PER_OBJECT = 8"
definition PAGE_SIZE :: nat where "PAGE_SIZE = 4096"

abbreviation INVALID_PROCESS_ID :: u64 where "INVALID_PROCESS_ID \<equiv> 0"
abbreviation INVALID_HANDLE :: u64 where "INVALID_HANDLE \<equiv> 0"

datatype Status =
    Ok | AlreadyInitialized | NotInitialized | InvalidArgument | OutOfRange | OutOfMemory
  | CapacityReached | StaleHandle | AccessDenied | AlreadyGranted | NotFound | Busy

record View =
  view_frames :: "u64 list"
  view_page_count :: nat
  view_size :: nat

record AccessSlot =
  as_pid :: u64
  as_mappings :: u16
  as_open :: bool

record ObjectSlot =
  ob_generation :: u32
  ob_owner_pid :: u64
  ob_frames :: "u64 list"
  ob_page_count :: nat
  ob_size :: nat
  owner_mappings :: u16
  ob_active :: bool
  ob_owner_open :: bool
  ob_grants :: "AccessSlot list"

record shm =
  g_objects :: "ObjectSlot list"
  shm_initialized :: bool
  pm :: pmm
  ram :: "u64 \<Rightarrow> u8"

definition zero_view :: View where
  "zero_view = \<lparr>view_frames = replicate MAX_PAGES_PER_OBJECT 0, view_page_count = 0, view_size = 0\<rparr>"

definition zero_access :: AccessSlot where
  "zero_access = \<lparr>as_pid = 0, as_mappings = 0, as_open = False\<rparr>"

definition zero_object :: ObjectSlot where
  "zero_object = \<lparr>ob_generation = 0, ob_owner_pid = 0, ob_frames = replicate MAX_PAGES_PER_OBJECT 0,
     ob_page_count = 0, ob_size = 0, owner_mappings = 0, ob_active = False, ob_owner_open = False,
     ob_grants = replicate MAX_GRANTS_PER_OBJECT zero_access\<rparr>"

text \<open>The component's static data before \<open>initialize\<close>, beside an allocator and a memory.\<close>

definition shm_zero :: "pmm \<Rightarrow> (u64 \<Rightarrow> u8) \<Rightarrow> shm" where
  "shm_zero p r = \<lparr>g_objects = replicate MAX_OBJECTS zero_object, shm_initialized = False, pm = p, ram = r\<rparr>"

section \<open>Helpers\<close>

definition sm_kIndexMask :: u64 where "sm_kIndexMask = 0xFF"
definition sm_kKindMask :: u64 where "sm_kKindMask = push_bit 16 0xFF"
definition kKindSharedMemory :: u64 where "kKindSharedMemory = push_bit 16 3"
definition sm_kMaximumGeneration :: u32 where "sm_kMaximumGeneration = 0x7FFFFFFF"

definition zero_frame :: "u64 \<Rightarrow> (u64 \<Rightarrow> u8) \<Rightarrow> u64 \<Rightarrow> u8" where
  "zero_frame frame r = (\<lambda>a. if unat frame \<le> unat a \<and> unat a < unat frame + PAGE_SIZE then 0 else r a)"

definition shm_encode :: "nat \<Rightarrow> u32 \<Rightarrow> u64" where
  "shm_encode index generation = push_bit 32 (ucast generation) OR kKindSharedMemory OR of_nat (index + 1)"

definition shm_index :: "u64 \<Rightarrow> nat option" where
  "shm_index handle =
     (if handle AND sm_kKindMask \<noteq> kKindSharedMemory then None
      else let encoded = unat (handle AND sm_kIndexMask) in
        if encoded = 0 \<or> encoded > MAX_OBJECTS then None else Some (encoded - 1))"

definition shm_generation :: "u64 \<Rightarrow> u32" where
  "shm_generation handle = ucast (drop_bit 32 handle)"

definition shm_decode :: "shm \<Rightarrow> u64 \<Rightarrow> Status + nat" where
  "shm_decode s handle =
     (case shm_index handle of
        None \<Rightarrow> Inl Status.StaleHandle
      | Some index \<Rightarrow>
          let slot = g_objects s ! index in
          if \<not> ob_active slot \<or> ob_generation slot \<noteq> shm_generation handle then Inl Status.StaleHandle
          else Inr index)"

definition shm_find_grant :: "ObjectSlot \<Rightarrow> u64 \<Rightarrow> nat option" where
  "shm_find_grant slot pid =
     find_index (\<lambda>grant. as_pid grant = pid \<and> (as_open grant \<or> as_mappings grant \<noteq> 0)) (ob_grants slot)"

definition has_live_access :: "ObjectSlot \<Rightarrow> bool" where
  "has_live_access slot \<longleftrightarrow> ob_owner_open slot \<or> owner_mappings slot \<noteq> 0 \<or>
     (\<exists>grant \<in> set (ob_grants slot). as_open grant \<or> as_mappings grant \<noteq> 0)"

text \<open>\<open>reclaim\<close> frees the pages of the slot, in order, and clears it.\<close>

definition shm_reclaim :: "ObjectSlot \<Rightarrow> pmm \<Rightarrow> ObjectSlot \<times> pmm" where
  "shm_reclaim slot p =
     (zero_object\<lparr>ob_generation := ob_generation slot\<rparr>,
      fold free_frame (filter (\<lambda>f. f \<noteq> 0) (take (ob_page_count slot) (ob_frames slot))) p)"

definition shm_maybe_reclaim :: "ObjectSlot \<Rightarrow> pmm \<Rightarrow> ObjectSlot \<times> pmm" where
  "shm_maybe_reclaim slot p =
     (if ob_active slot \<and> \<not> has_live_access slot then shm_reclaim slot p else (slot, p))"

text \<open>
  \<open>access_slot\<close> returns pointers to the counter and the flag of the caller's reference; here it says
  which reference that is.
\<close>

datatype access_ref = OwnerRef | GrantRef nat

definition access_slot :: "ObjectSlot \<Rightarrow> u64 \<Rightarrow> Status + access_ref" where
  "access_slot slot pid =
     (if pid = ob_owner_pid slot
      then (if ob_owner_open slot \<or> owner_mappings slot \<noteq> 0 then Inr OwnerRef else Inl Status.AccessDenied)
      else case shm_find_grant slot pid of
          None \<Rightarrow> Inl Status.AccessDenied
        | Some k \<Rightarrow> Inr (GrantRef k))"

fun ref_mappings :: "access_ref \<Rightarrow> ObjectSlot \<Rightarrow> u16" where
  "ref_mappings OwnerRef slot = owner_mappings slot"
| "ref_mappings (GrantRef k) slot = as_mappings (ob_grants slot ! k)"

fun ref_open :: "access_ref \<Rightarrow> ObjectSlot \<Rightarrow> bool" where
  "ref_open OwnerRef slot = ob_owner_open slot"
| "ref_open (GrantRef k) slot = as_open (ob_grants slot ! k)"

fun set_mappings :: "access_ref \<Rightarrow> u16 \<Rightarrow> ObjectSlot \<Rightarrow> ObjectSlot" where
  "set_mappings OwnerRef m slot = slot\<lparr>owner_mappings := m\<rparr>"
| "set_mappings (GrantRef k) m slot =
     slot\<lparr>ob_grants := (ob_grants slot)[k := (ob_grants slot ! k)\<lparr>as_mappings := m\<rparr>]\<rparr>"

fun set_open :: "access_ref \<Rightarrow> bool \<Rightarrow> ObjectSlot \<Rightarrow> ObjectSlot" where
  "set_open OwnerRef b slot = slot\<lparr>ob_owner_open := b\<rparr>"
| "set_open (GrantRef k) b slot =
     slot\<lparr>ob_grants := (ob_grants slot)[k := (ob_grants slot ! k)\<lparr>as_open := b\<rparr>]\<rparr>"

section \<open>Operations\<close>

definition shm_initialize :: "shm \<Rightarrow> Status \<times> shm" where
  "shm_initialize s =
     (if shm_initialized s then (Status.AlreadyInitialized, s)
      else (Status.Ok, s\<lparr>g_objects := replicate MAX_OBJECTS zero_object, shm_initialized := True\<rparr>))"

text \<open>
  The page loop of \<open>create\<close>: \<open>acc\<close> are the pages taken so far.  If the allocator has no frame left,
  they are freed again, in order.
\<close>

fun alloc_pages :: "nat \<Rightarrow> u64 list \<Rightarrow> pmm \<Rightarrow> (u64 \<Rightarrow> u8) \<Rightarrow> u64 list option \<times> pmm \<times> (u64 \<Rightarrow> u8)" where
  "alloc_pages 0 acc p r = (Some acc, p, r)"
| "alloc_pages (Suc n) acc p r =
     (case alloc_frame p of (frame, p') \<Rightarrow>
        if frame = 0 then (None, fold free_frame acc p', r)
        else alloc_pages n (acc @ [frame]) p' (zero_frame frame r))"

definition shm_create :: "u64 \<Rightarrow> nat \<Rightarrow> u64 option \<Rightarrow> shm \<Rightarrow> Status \<times> u64 option \<times> shm" where
  "shm_create owner_pid sz handle s =
     (let out = map_option (\<lambda>_. INVALID_HANDLE) handle in
      if \<not> shm_initialized s then (Status.NotInitialized, out, s)
      else if owner_pid = INVALID_PROCESS_ID \<or> handle = None \<or> sz = 0 then (Status.InvalidArgument, out, s)
      else if sz > MAX_PAGES_PER_OBJECT * PAGE_SIZE then (Status.OutOfRange, out, s)
      else let page_count = (sz + PAGE_SIZE - 1) div PAGE_SIZE in
        case find_index (\<lambda>slot. \<not> ob_active slot) (g_objects s) of
          None \<Rightarrow> (Status.CapacityReached, out, s)
        | Some index \<Rightarrow>
            let generation = next_generation sm_kMaximumGeneration (ob_generation (g_objects s ! index)) in
            (case alloc_pages page_count [] (pm s) (ram s) of
               (None, p, r) \<Rightarrow>
                 (Status.OutOfMemory, out,
                  s\<lparr>g_objects := (g_objects s)[index := zero_object\<lparr>ob_generation := generation\<rparr>], pm := p, ram := r\<rparr>)
             | (Some frames, p, r) \<Rightarrow>
                 (Status.Ok, Some (shm_encode index generation),
                  s\<lparr>g_objects := (g_objects s)[index := zero_object\<lparr>
                      ob_generation := generation,
                      ob_owner_pid := owner_pid,
                      ob_frames := frames @ replicate (MAX_PAGES_PER_OBJECT - page_count) 0,
                      ob_page_count := page_count,
                      ob_size := sz,
                      ob_owner_open := True,
                      ob_active := True\<rparr>], pm := p, ram := r\<rparr>)))"

text \<open>
  The first loop of \<open>grant\<close> stops at the first grant slot of the target that is open or mapped.
\<close>

definition shm_grant :: "u64 \<Rightarrow> u64 \<Rightarrow> u64 \<Rightarrow> shm \<Rightarrow> Status \<times> shm" where
  "shm_grant owner_pid handle target_pid s =
     (if \<not> shm_initialized s then (Status.NotInitialized, s)
      else if owner_pid = INVALID_PROCESS_ID \<or> target_pid = INVALID_PROCESS_ID \<or> owner_pid = target_pid
      then (Status.InvalidArgument, s)
      else case shm_decode s handle of
          Inl status \<Rightarrow> (status, s)
        | Inr index \<Rightarrow>
            let slot = g_objects s ! index in
            if ob_owner_pid slot \<noteq> owner_pid \<or> \<not> ob_owner_open slot then (Status.AccessDenied, s)
            else case shm_find_grant slot target_pid of
                Some k \<Rightarrow>
                  (if as_open (ob_grants slot ! k) then (Status.AlreadyGranted, s)
                   else (Status.Ok, s\<lparr>g_objects := (g_objects s)[index := slot\<lparr>ob_grants :=
                      (ob_grants slot)[k := (ob_grants slot ! k)\<lparr>as_open := True\<rparr>]\<rparr>]\<rparr>))
              | None \<Rightarrow>
                  (case find_index (\<lambda>g. as_pid g = INVALID_PROCESS_ID \<and> as_mappings g = 0) (ob_grants slot) of
                     None \<Rightarrow> (Status.CapacityReached, s)
                   | Some k \<Rightarrow>
                       (Status.Ok, s\<lparr>g_objects := (g_objects s)[index := slot\<lparr>ob_grants :=
                          (ob_grants slot)[k := (ob_grants slot ! k)\<lparr>as_pid := target_pid, as_open := True\<rparr>]\<rparr>]\<rparr>)))"

definition shm_acquire :: "u64 \<Rightarrow> u64 \<Rightarrow> View option \<Rightarrow> shm \<Rightarrow> Status \<times> View option \<times> shm" where
  "shm_acquire pid handle view s =
     (let out = map_option (\<lambda>_. zero_view) view in
      if \<not> shm_initialized s then (Status.NotInitialized, out, s)
      else if pid = INVALID_PROCESS_ID \<or> view = None then (Status.InvalidArgument, out, s)
      else case shm_decode s handle of
          Inl status \<Rightarrow> (status, out, s)
        | Inr index \<Rightarrow>
            let slot = g_objects s ! index in
            (case access_slot slot pid of
               Inl _ \<Rightarrow> (Status.AccessDenied, out, s)
             | Inr ref \<Rightarrow>
                 if \<not> ref_open ref slot then (Status.AccessDenied, out, s)
                 else if ref_mappings ref slot = 0xFFFF then (Status.Busy, out, s)
                 else (Status.Ok,
                   Some \<lparr>view_frames = take (ob_page_count slot) (ob_frames slot) @
                           replicate (MAX_PAGES_PER_OBJECT - ob_page_count slot) 0,
                         view_page_count = ob_page_count slot, view_size = ob_size slot\<rparr>,
                   s\<lparr>g_objects := (g_objects s)[index := set_mappings ref (ref_mappings ref slot + 1) slot]\<rparr>)))"

text \<open>Storing a slot after \<open>maybe_reclaim\<close>.\<close>

definition put_reclaimed :: "nat \<Rightarrow> ObjectSlot \<Rightarrow> shm \<Rightarrow> shm" where
  "put_reclaimed index slot s =
     (case shm_maybe_reclaim slot (pm s) of (slot', p) \<Rightarrow>
        s\<lparr>g_objects := (g_objects s)[index := slot'], pm := p\<rparr>)"

definition shm_release :: "u64 \<Rightarrow> u64 \<Rightarrow> shm \<Rightarrow> Status \<times> shm" where
  "shm_release pid handle s =
     (if \<not> shm_initialized s then (Status.NotInitialized, s)
      else if pid = INVALID_PROCESS_ID then (Status.InvalidArgument, s)
      else case shm_decode s handle of
          Inl status \<Rightarrow> (status, s)
        | Inr index \<Rightarrow>
            let slot = g_objects s ! index in
            (case access_slot slot pid of
               Inl _ \<Rightarrow> (Status.NotFound, s)
             | Inr ref \<Rightarrow>
                 if ref_mappings ref slot = 0 then (Status.NotFound, s)
                 else (Status.Ok, put_reclaimed index (set_mappings ref (ref_mappings ref slot - 1) slot) s)))"

definition shm_close :: "u64 \<Rightarrow> u64 \<Rightarrow> shm \<Rightarrow> Status \<times> shm" where
  "shm_close pid handle s =
     (if \<not> shm_initialized s then (Status.NotInitialized, s)
      else if pid = INVALID_PROCESS_ID then (Status.InvalidArgument, s)
      else case shm_decode s handle of
          Inl status \<Rightarrow> (status, s)
        | Inr index \<Rightarrow>
            let slot = g_objects s ! index in
            (case access_slot slot pid of
               Inl _ \<Rightarrow> (Status.AccessDenied, s)
             | Inr ref \<Rightarrow>
                 if \<not> ref_open ref slot then (Status.AccessDenied, s)
                 else (Status.Ok, put_reclaimed index (set_open ref False slot) s)))"

definition shm_revoke :: "u64 \<Rightarrow> ObjectSlot \<Rightarrow> ObjectSlot" where
  "shm_revoke pid slot =
     (let s1 = (if ob_owner_pid slot = pid then slot\<lparr>ob_owner_open := False, owner_mappings := 0\<rparr> else slot) in
      s1\<lparr>ob_grants := map (\<lambda>g. if as_pid g \<noteq> pid then g else g\<lparr>as_open := False, as_mappings := 0\<rparr>) (ob_grants s1)\<rparr>)"

definition shm_release_slot :: "u64 \<Rightarrow> nat \<Rightarrow> shm \<Rightarrow> shm" where
  "shm_release_slot pid index s =
     (if \<not> ob_active (g_objects s ! index) then s
      else put_reclaimed index (shm_revoke pid (g_objects s ! index)) s)"

definition shm_release_process :: "u64 \<Rightarrow> shm \<Rightarrow> shm" where
  "shm_release_process pid s =
     (if \<not> shm_initialized s \<or> pid = INVALID_PROCESS_ID then s
      else fold (shm_release_slot pid) [0..<MAX_OBJECTS] s)"

fun shm_status_message :: "Status \<Rightarrow> string" where
  "shm_status_message Ok = ''ok''"
| "shm_status_message AlreadyInitialized = ''already initialized''"
| "shm_status_message NotInitialized = ''not initialized''"
| "shm_status_message InvalidArgument = ''invalid argument''"
| "shm_status_message OutOfRange = ''out of range''"
| "shm_status_message OutOfMemory = ''out of memory''"
| "shm_status_message CapacityReached = ''capacity reached''"
| "shm_status_message StaleHandle = ''stale handle''"
| "shm_status_message AccessDenied = ''access denied''"
| "shm_status_message AlreadyGranted = ''already granted''"
| "shm_status_message NotFound = ''not found''"
| "shm_status_message Busy = ''busy''"

section \<open>Handles\<close>

lemma shm_encode_fields:
  assumes "i < MAX_OBJECTS"
  shows "shm_index (shm_encode i g) = Some i" "shm_generation (shm_encode i g) = g" "shm_encode i g \<noteq> 0"
proof -
  have i: "i < 255" using assms by (simp add: MAX_OBJECTS_def)
  have k: "unat (3 :: u64) < 2 ^ 8" by simp
  have f: "shm_encode i g AND sm_kKindMask = kKindSharedMemory" "unat (shm_encode i g AND sm_kIndexMask) = i + 1"
      "shm_generation (shm_encode i g) = g"
    unfolding shm_encode_def sm_kKindMask_def kKindSharedMemory_def sm_kIndexMask_def shm_generation_def
    by (rule kind_handle_fields [OF i k])+
  show "shm_index (shm_encode i g) = Some i" unfolding shm_index_def f using assms by simp
  show "shm_generation (shm_encode i g) = g" by (rule f(3))
  show "shm_encode i g \<noteq> 0" using f(2) by auto
qed

lemma shm_index_bound: "shm_index h = Some i \<Longrightarrow> i < MAX_OBJECTS"
  by (auto simp: shm_index_def Let_def split: if_splits)

lemma sm_kMaximumGeneration_pos: "1 \<le> sm_kMaximumGeneration"
  by (simp add: sm_kMaximumGeneration_def)

interpretation sm: slot_table shm_encode shm_index shm_generation MAX_OBJECTS sm_kMaximumGeneration
    ob_active ob_generation
  by unfold_locales (simp_all add: shm_encode_fields shm_index_bound sm_kMaximumGeneration_pos)

lemma shm_decodeD:
  assumes "shm_decode s h = Inr i"
  shows "i < MAX_OBJECTS" "ob_active (g_objects s ! i)"
  using assms shm_index_bound by (auto simp: shm_decode_def Let_def split: option.splits if_splits)

section \<open>Taking and returning pages\<close>

definition in_page :: "u64 \<Rightarrow> u64 \<Rightarrow> bool" where
  "in_page f a \<longleftrightarrow> unat f \<le> unat a \<and> unat a < unat f + PAGE_SIZE"

lemma alloc_pages_correct:
  assumes "pmm_inv p" "set acc \<subseteq> allocated p - reserved p" "distinct acc" "0 \<notin> set acc"
    and "alloc_pages n acc p r = (res, p', r')"
  shows "pmm_inv p' \<and> reserved p' = reserved p \<and>
    (case res of
       None \<Rightarrow> allocated p' = allocated p - set acc
     | Some fs \<Rightarrow> \<exists>gs. fs = acc @ gs \<and> length gs = n \<and> distinct fs \<and> 0 \<notin> set fs \<and> set gs \<inter> allocated p = {} \<and>
         allocated p' = allocated p \<union> set gs \<and> set fs \<subseteq> allocated p' - reserved p' \<and>
         r' = (\<lambda>a. if \<exists>f \<in> set gs. in_page f a then 0 else r a))"
  using assms
proof (induction n arbitrary: acc p r)
  case 0
  then show ?case by auto
next
  case (Suc n)
  obtain f p1 where f: "alloc_frame p = (f, p1)" by fastforce
  show ?case
  proof (cases "f = 0")
    case True
    with f pmm.alloc_fail [OF Suc.prems(1)] have "p1 = p" by simp
    with Suc.prems f True show ?thesis
      using pmm.free_list_invar [of p acc] pmm.free_list_pinned [of p acc] pmm.free_list_held [of p acc] by auto
  next
    case False
    note a = pmm.alloc_fresh [OF Suc.prems(1)] pmm.alloc_held [OF Suc.prems(1)] pmm.alloc_pinned [OF Suc.prems(1)]
      pmm.alloc_invar [OF Suc.prems(1)]
    have p1: "f \<notin> allocated p" "allocated p1 = insert f (allocated p)" "reserved p1 = reserved p" "pmm_inv p1"
      using a f False by simp_all
    have nr: "f \<notin> reserved p" using p1(1) pmm.pinned_held [OF Suc.prems(1)] by blast
    have rec: "alloc_pages n (acc @ [f]) p1 (zero_frame f r) = (res, p', r')" using Suc.prems(5) f False by simp
    have "pmm_inv p' \<and> reserved p' = reserved p1 \<and>
      (case res of None \<Rightarrow> allocated p' = allocated p1 - set (acc @ [f])
       | Some fs \<Rightarrow> \<exists>gs. fs = (acc @ [f]) @ gs \<and> length gs = n \<and> distinct fs \<and> 0 \<notin> set fs \<and> set gs \<inter> allocated p1 = {} \<and>
           allocated p' = allocated p1 \<union> set gs \<and> set fs \<subseteq> allocated p' - reserved p' \<and>
           r' = (\<lambda>a. if \<exists>f \<in> set gs. in_page f a then 0 else zero_frame f r a))"
      using Suc.prems p1 nr False by (intro Suc.IH [OF _ _ _ _ rec]) auto
    then show ?thesis
    proof (cases res)
      case None
      with \<open>_ \<and> _\<close> p1 show ?thesis by auto
    next
      case (Some fs)
      with \<open>_ \<and> _\<close> obtain gs where gs: "fs = (acc @ [f]) @ gs" "length gs = n" "distinct fs" "0 \<notin> set fs"
          "set gs \<inter> allocated p1 = {}" "allocated p' = allocated p1 \<union> set gs" "set fs \<subseteq> allocated p' - reserved p'"
          "r' = (\<lambda>a. if \<exists>f \<in> set gs. in_page f a then 0 else zero_frame f r a)" "pmm_inv p'" "reserved p' = reserved p1"
        by auto
      have "r' = (\<lambda>a. if \<exists>g \<in> set (f # gs). in_page g a then 0 else r a)"
        unfolding gs(8) by (auto simp: zero_frame_def in_page_def fun_eq_iff)
      with gs p1 Some show ?thesis by (auto intro!: exI [of _ "f # gs"])
    qed
  qed
qed

section \<open>Invariant\<close>

definition pages :: "ObjectSlot \<Rightarrow> u64 list" where
  "pages ob = take (ob_page_count ob) (ob_frames ob)"

definition object_inv :: "ObjectSlot \<Rightarrow> bool" where
  "object_inv ob \<longleftrightarrow> length (ob_grants ob) = MAX_GRANTS_PER_OBJECT \<and>
     (if ob_active ob
      then ob_owner_pid ob \<noteq> INVALID_PROCESS_ID \<and> valid_generation sm_kMaximumGeneration (ob_generation ob) \<and>
        has_live_access ob \<and> 0 < ob_size ob \<and> ob_size ob \<le> MAX_PAGES_PER_OBJECT * PAGE_SIZE \<and>
        ob_page_count ob = (ob_size ob + PAGE_SIZE - 1) div PAGE_SIZE \<and>
        length (pages ob) = ob_page_count ob \<and> distinct (pages ob) \<and> 0 \<notin> set (pages ob)
      else ob = zero_object\<lparr>ob_generation := ob_generation ob\<rparr>)"

text \<open>\<open>owned s\<close> are the frames the objects hold; every frame belongs to at most one object.\<close>

definition owned :: "shm \<Rightarrow> u64 set" where
  "owned s = (\<Union>ob \<in> set (g_objects s). set (pages ob))"

definition shm_inv :: "shm \<Rightarrow> bool" where
  "shm_inv s \<longleftrightarrow> length (g_objects s) = MAX_OBJECTS \<and> (\<forall>ob \<in> set (g_objects s). object_inv ob) \<and>
     pmm_inv (pm s) \<and> owned s \<subseteq> allocated (pm s) - reserved (pm s) \<and>
     (\<forall>i < MAX_OBJECTS. \<forall>j < MAX_OBJECTS. i \<noteq> j \<longrightarrow>
        set (pages (g_objects s ! i)) \<inter> set (pages (g_objects s ! j)) = {})"

lemma pages_inactive: "object_inv ob \<Longrightarrow> \<not> ob_active ob \<Longrightarrow> pages ob = []"
proof -
  assume "object_inv ob" "\<not> ob_active ob"
  then have "ob = zero_object\<lparr>ob_generation := ob_generation ob\<rparr>" by (simp add: object_inv_def)
  from arg_cong [OF this, of ob_page_count] have "ob_page_count ob = 0" by (simp add: zero_object_def)
  then show "pages ob = []" by (simp add: pages_def)
qed

lemma pages_distinct:
  assumes "object_inv ob"
  shows "distinct (pages ob)"
proof (cases "ob_active ob")
  case True
  with assms show ?thesis by (simp add: object_inv_def)
qed (simp add: pages_inactive [OF assms])

lemma zero_object_facts [simp]:
  "pages (zero_object\<lparr>ob_generation := g\<rparr>) = []" "object_inv (zero_object\<lparr>ob_generation := g\<rparr>)"
  "\<not> ob_active (zero_object\<lparr>ob_generation := g\<rparr>)"
  by (simp_all add: pages_def object_inv_def zero_object_def)

lemma shm_inv_nth: "shm_inv s \<Longrightarrow> i < MAX_OBJECTS \<Longrightarrow> object_inv (g_objects s ! i)"
  by (simp add: shm_inv_def)

lemma owned_nth: "length (g_objects s) = MAX_OBJECTS \<Longrightarrow> owned s = (\<Union>i < MAX_OBJECTS. set (pages (g_objects s ! i)))"
  unfolding owned_def set_conv_nth [of "g_objects s"] by auto

lemma pages_owned: "shm_inv s \<Longrightarrow> i < MAX_OBJECTS \<Longrightarrow> set (pages (g_objects s ! i)) \<subseteq> owned s"
  using owned_nth [of s] by (auto simp: shm_inv_def)

text \<open>
  Replacing the slot \<open>i\<close> by \<open>ob\<close> and the allocator by \<open>p\<close>, when the new slot's pages were not owned by
  another object.
\<close>

lemma shm_inv_update:
  assumes "shm_inv s" "i < MAX_OBJECTS" "object_inv ob" "pmm_inv p"
    and others: "\<And>j. j < MAX_OBJECTS \<Longrightarrow> j \<noteq> i \<Longrightarrow> set (pages ob) \<inter> set (pages (g_objects s ! j)) = {}"
    and held: "(owned s - set (pages (g_objects s ! i))) \<union> set (pages ob) \<subseteq> allocated p - reserved p"
  shows "shm_inv (s\<lparr>g_objects := (g_objects s)[i := ob], pm := p, ram := r\<rparr>)"
    "owned (s\<lparr>g_objects := (g_objects s)[i := ob], pm := p, ram := r\<rparr>) = (owned s - set (pages (g_objects s ! i))) \<union> set (pages ob)"
proof -
  let ?s = "s\<lparr>g_objects := (g_objects s)[i := ob], pm := p, ram := r\<rparr>"
  have len: "length (g_objects s) = MAX_OBJECTS" using assms(1) by (simp add: shm_inv_def)
  have dis: "set (pages (g_objects s ! j)) \<inter> set (pages (g_objects s ! k)) = {}"
    if "j < MAX_OBJECTS" "k < MAX_OBJECTS" "j \<noteq> k" for j k
    using assms(1) that by (simp add: shm_inv_def)
  have nth: "g_objects ?s ! j = (if j = i then ob else g_objects s ! j)" if "j < MAX_OBJECTS" for j
    using that assms(2) len by simp
  show ow: "owned ?s = (owned s - set (pages (g_objects s ! i))) \<union> set (pages ob)"
  proof -
    have "length (g_objects ?s) = MAX_OBJECTS" using len by simp
    from owned_nth [OF this] nth
    have o: "owned ?s = (\<Union>j < MAX_OBJECTS. set (pages (if j = i then ob else g_objects s ! j)))" by simp
    have o': "owned s = (\<Union>j < MAX_OBJECTS. set (pages (g_objects s ! j)))" by (rule owned_nth [OF len])
    have "x \<in> owned ?s \<longleftrightarrow> x \<in> set (pages ob) \<or> (\<exists>j < MAX_OBJECTS. j \<noteq> i \<and> x \<in> set (pages (g_objects s ! j)))" for x
      unfolding o using assms(2) by (auto split: if_splits)
    moreover have "x \<in> owned s - set (pages (g_objects s ! i)) \<longleftrightarrow>
        (\<exists>j < MAX_OBJECTS. j \<noteq> i \<and> x \<in> set (pages (g_objects s ! j)))" for x
      unfolding o' using dis [OF _ assms(2)] assms(2) by blast
    ultimately show ?thesis by blast
  qed
  have "\<forall>ob \<in> set (g_objects ?s). object_inv ob"
    using assms(1,3) set_update_subset_insert [of "g_objects s" i ob] by (auto simp: shm_inv_def)
  moreover have "set (pages (g_objects ?s ! j)) \<inter> set (pages (g_objects ?s ! k)) = {}"
    if "j < MAX_OBJECTS" "k < MAX_OBJECTS" "j \<noteq> k" for j k
    using that dis [OF that] others [of j] others [of k] unfolding nth [OF that(1)] nth [OF that(2)] by auto
  moreover have "owned ?s \<subseteq> allocated p - reserved p" using ow held by simp
  ultimately show "shm_inv ?s" using assms(4) len by (simp add: shm_inv_def)
qed

text \<open>A slot that keeps its pages: the allocator is not involved.\<close>

lemma shm_inv_same_pages:
  assumes "shm_inv s" "i < MAX_OBJECTS" "object_inv ob" "pages ob = pages (g_objects s ! i)"
  shows "shm_inv (s\<lparr>g_objects := (g_objects s)[i := ob]\<rparr>)" "owned (s\<lparr>g_objects := (g_objects s)[i := ob]\<rparr>) = owned s"
proof -
  note sub = pages_owned [OF assms(1,2)]
  have inv: "pmm_inv (pm s)" "owned s \<subseteq> allocated (pm s) - reserved (pm s)" using assms(1) by (simp_all add: shm_inv_def)
  have dis: "set (pages ob) \<inter> set (pages (g_objects s ! j)) = {}" if "j < MAX_OBJECTS" "j \<noteq> i" for j
    using assms(1,2,4) that by (simp add: shm_inv_def)
  have held: "(owned s - set (pages (g_objects s ! i))) \<union> set (pages ob) \<subseteq> allocated (pm s) - reserved (pm s)"
    using inv(2) sub assms(4) by auto
  have own: "(owned s - set (pages (g_objects s ! i))) \<union> set (pages ob) = owned s" using sub assms(4) by auto
  have eq: "s\<lparr>g_objects := (g_objects s)[i := ob], pm := pm s, ram := ram s\<rparr> = s\<lparr>g_objects := (g_objects s)[i := ob]\<rparr>"
    by simp
  show "shm_inv (s\<lparr>g_objects := (g_objects s)[i := ob]\<rparr>)" "owned (s\<lparr>g_objects := (g_objects s)[i := ob]\<rparr>) = owned s"
    using shm_inv_update [OF assms(1-3) inv(1) dis held, of "ram s"] unfolding eq own by blast+
qed

text \<open>Dropping a reference: the slot keeps its pages, or it is reclaimed and they are free again.\<close>

lemma put_reclaimed_inv:
  assumes "shm_inv s" "i < MAX_OBJECTS" "ob_active (g_objects s ! i)"
    and ob: "pages ob = pages (g_objects s ! i)" "ob_active ob" "has_live_access ob \<Longrightarrow> object_inv ob"
  shows "shm_inv (put_reclaimed i ob s)"
    "reserved (pm (put_reclaimed i ob s)) = reserved (pm s)"
    "has_live_access ob \<Longrightarrow> put_reclaimed i ob s = s\<lparr>g_objects := (g_objects s)[i := ob]\<rparr>"
    "\<not> has_live_access ob \<Longrightarrow> owned (put_reclaimed i ob s) = owned s - set (pages ob)"
    "\<not> has_live_access ob \<Longrightarrow> allocated (pm (put_reclaimed i ob s)) = allocated (pm s) - set (pages ob)"
    "has_live_access ob \<Longrightarrow> owned (put_reclaimed i ob s) = owned s"
proof -
  show live: "put_reclaimed i ob s = s\<lparr>g_objects := (g_objects s)[i := ob]\<rparr>" if "has_live_access ob"
    using that by (simp add: put_reclaimed_def shm_maybe_reclaim_def)
  have inv: "object_inv (g_objects s ! i)" using shm_inv_nth [OF assms(1,2)] .
  then have pg: "distinct (pages ob)" "0 \<notin> set (pages ob)" using assms(3) ob(1) by (simp_all add: object_inv_def)
  have pm: "pmm_inv (pm s)" "owned s \<subseteq> allocated (pm s) - reserved (pm s)" using assms(1) by (simp_all add: shm_inv_def)
  have sub: "set (pages ob) \<subseteq> owned s" using pages_owned [OF assms(1,2)] ob(1) by simp
  let ?p = "fold free_frame (pages ob) (pm s)"
  let ?ob = "zero_object\<lparr>ob_generation := ob_generation ob\<rparr>"
  have filter: "filter (\<lambda>f. f \<noteq> 0) (pages ob) = pages ob" using pg(2) by (auto simp: filter_id_conv)
  have dead: "put_reclaimed i ob s = s\<lparr>g_objects := (g_objects s)[i := ?ob], pm := ?p, ram := ram s\<rparr>"
    if "\<not> has_live_access ob"
    using that ob(2) filter by (simp add: put_reclaimed_def shm_maybe_reclaim_def shm_reclaim_def pages_def)
  have p: "pmm_inv ?p" "reserved ?p = reserved (pm s)" "allocated ?p = allocated (pm s) - set (pages ob)"
    using pmm.free_list_invar [OF pm(1)] pmm.free_list_pinned [OF pm(1)] pmm.free_list_held [OF pm(1) pg(1)] sub pm(2)
    by auto
  have upd: "shm_inv (s\<lparr>g_objects := (g_objects s)[i := ?ob], pm := ?p, ram := ram s\<rparr>) \<and>
      owned (s\<lparr>g_objects := (g_objects s)[i := ?ob], pm := ?p, ram := ram s\<rparr>) = owned s - set (pages ob)"
    using shm_inv_update [OF assms(1,2) _ p(1), of ?ob "ram s"] pm(2) p ob(1) by auto
  show "shm_inv (put_reclaimed i ob s)"
    using upd dead live shm_inv_same_pages(1) [OF assms(1,2) ob(3,1)] by (cases "has_live_access ob") simp_all
  show "reserved (pm (put_reclaimed i ob s)) = reserved (pm s)"
    using p(2) dead live by (cases "has_live_access ob") simp_all
  show "owned (put_reclaimed i ob s) = owned s - set (pages ob)" if "\<not> has_live_access ob"
    using upd dead [OF that] by simp
  show "allocated (pm (put_reclaimed i ob s)) = allocated (pm s) - set (pages ob)" if "\<not> has_live_access ob"
    using p(3) dead [OF that] by simp
  show "owned (put_reclaimed i ob s) = owned s" if "has_live_access ob"
    using live [OF that] shm_inv_same_pages(2) [OF assms(1,2) ob(3) [OF that] ob(1)] by simp
qed

text \<open>
  \<open>accounted s s'\<close>: a step keeps the invariant, and the frames that are taken and do not belong to
  objects stay the same.
\<close>

definition accounted :: "shm \<Rightarrow> shm \<Rightarrow> bool" where
  "accounted s s' \<longleftrightarrow> shm_inv s' \<and> reserved (pm s') = reserved (pm s) \<and>
     allocated (pm s') - owned s' = allocated (pm s) - owned s"

lemma accounted_refl: "shm_inv s \<Longrightarrow> accounted s s"
  by (simp add: accounted_def)

lemma accounted_trans: "accounted s t \<Longrightarrow> accounted t u \<Longrightarrow> accounted s u"
  by (simp add: accounted_def)

lemma put_reclaimed_accounted:
  assumes "shm_inv s" "i < MAX_OBJECTS" "ob_active (g_objects s ! i)"
    and ob: "pages ob = pages (g_objects s ! i)" "ob_active ob" "has_live_access ob \<Longrightarrow> object_inv ob"
  shows "accounted s (put_reclaimed i ob s)"
  using put_reclaimed_inv [OF assms] pages_owned [OF assms(1,2)] ob(1)
  by (cases "has_live_access ob") (auto simp: accounted_def)

lemma same_pages_accounted:
  assumes "shm_inv s" "i < MAX_OBJECTS" "object_inv ob" "pages ob = pages (g_objects s ! i)"
  shows "accounted s (s\<lparr>g_objects := (g_objects s)[i := ob]\<rparr>)"
  using shm_inv_same_pages [OF assms] by (simp add: accounted_def)

text \<open>Changing only who refers to an object keeps everything else of its invariant.\<close>

definition same_object :: "ObjectSlot \<Rightarrow> ObjectSlot \<Rightarrow> bool" where
  "same_object ob ob' \<longleftrightarrow>
     ob' = ob\<lparr>owner_mappings := owner_mappings ob', ob_owner_open := ob_owner_open ob', ob_grants := ob_grants ob'\<rparr> \<and>
     length (ob_grants ob') = length (ob_grants ob)"

lemma same_object_facts:
  assumes "same_object ob ob'"
  shows "pages ob' = pages ob" "ob_active ob' = ob_active ob"
    "object_inv ob \<Longrightarrow> ob_active ob \<Longrightarrow> has_live_access ob' \<Longrightarrow> object_inv ob'"
proof -
  let ?o = "ob\<lparr>owner_mappings := owner_mappings ob', ob_owner_open := ob_owner_open ob', ob_grants := ob_grants ob'\<rparr>"
  have eq: "ob' = ?o" and len: "length (ob_grants ob') = length (ob_grants ob)"
    using assms unfolding same_object_def by blast+
  show pg: "pages ob' = pages ob" "ob_active ob' = ob_active ob" by (subst eq, simp add: pages_def)+
  have f: "ob_owner_pid ob' = ob_owner_pid ob" "ob_generation ob' = ob_generation ob" "ob_size ob' = ob_size ob"
      "ob_page_count ob' = ob_page_count ob"
    by (subst eq, simp)+
  show "object_inv ob'" if "object_inv ob" "ob_active ob" "has_live_access ob'"
    using that len pg f by (simp add: object_inv_def)
qed

lemma same_object_refs [simp]:
  "same_object ob (set_mappings ref m ob)" "same_object ob (set_open ref b ob)" "same_object ob (shm_revoke pid ob)"
  "length gs = length (ob_grants ob) \<Longrightarrow> same_object ob (ob\<lparr>ob_grants := gs\<rparr>)"
proof -
  show "same_object ob (set_mappings ref m ob)" by (cases ref) (simp_all add: same_object_def)
  show "same_object ob (set_open ref b ob)" by (cases ref) (simp_all add: same_object_def)
  show "same_object ob (shm_revoke pid ob)"
    by (cases "ob_owner_pid ob = pid") (simp_all add: same_object_def shm_revoke_def Let_def)
  show "same_object ob (ob\<lparr>ob_grants := gs\<rparr>)" if "length gs = length (ob_grants ob)"
    using that by (simp add: same_object_def)
qed

section \<open>Operations\<close>

lemma put_reclaimed_step:
  assumes "shm_inv s" "i < MAX_OBJECTS" "ob_active (g_objects s ! i)" "same_object (g_objects s ! i) ob"
  shows "accounted s (put_reclaimed i ob s)"
  using same_object_facts [OF assms(4)] shm_inv_nth [OF assms(1,2)] assms
  by (intro put_reclaimed_accounted) simp_all

lemma live_step:
  assumes "shm_inv s" "i < MAX_OBJECTS" "ob_active (g_objects s ! i)" "same_object (g_objects s ! i) ob" "has_live_access ob"
  shows "accounted s (s\<lparr>g_objects := (g_objects s)[i := ob]\<rparr>)"
  using same_object_facts [OF assms(4)] shm_inv_nth [OF assms(1,2)] assms
  by (intro same_pages_accounted) simp_all

lemma shm_grant_accounted:
  assumes "shm_inv s"
  shows "accounted s (snd (shm_grant p h q s))"
proof (cases "shm_decode s h")
  case (Inr i)
  note i = shm_decodeD [OF Inr]
  have "accounted s (s\<lparr>g_objects := (g_objects s)[i := (g_objects s ! i)\<lparr>ob_grants := (ob_grants (g_objects s ! i))[k := g]\<rparr>]\<rparr>)"
    if "ob_owner_open (g_objects s ! i)" for k g
    using that by (intro live_step [OF assms i]) (simp_all add: has_live_access_def)
  with Inr accounted_refl [OF assms] show ?thesis
    by (auto simp: shm_grant_def Let_def split: option.splits)
qed (use accounted_refl [OF assms] in \<open>simp add: shm_grant_def\<close>)

lemma access_slot_live: "access_slot ob p = Inr ref \<Longrightarrow> ref_open ref ob \<Longrightarrow> has_live_access (set_mappings ref m ob)"
  using find_index_SomeD [of "\<lambda>g. as_pid g = p \<and> (as_open g \<or> as_mappings g \<noteq> 0)" "ob_grants ob"]
  by (cases ref) (auto simp: access_slot_def has_live_access_def shm_find_grant_def set_update_memI
      split: if_splits option.splits intro!: bexI [OF _ set_update_memI])

lemma shm_acquire_accounted:
  assumes "shm_inv s"
  shows "accounted s (snd (snd (shm_acquire p h v s)))"
proof (cases "shm_decode s h")
  case (Inr i)
  note i = shm_decodeD [OF Inr]
  have "accounted s (s\<lparr>g_objects := (g_objects s)[i := set_mappings ref m (g_objects s ! i)]\<rparr>)"
    if "access_slot (g_objects s ! i) p = Inr ref" "ref_open ref (g_objects s ! i)" for ref m
    using access_slot_live [OF that] by (intro live_step [OF assms i]) simp_all
  with Inr accounted_refl [OF assms] show ?thesis
    by (auto simp: shm_acquire_def Let_def split: sum.splits)
qed (use accounted_refl [OF assms] in \<open>simp add: shm_acquire_def Let_def\<close>)

lemma shm_release_accounted:
  assumes "shm_inv s"
  shows "accounted s (snd (shm_release p h s))" "accounted s (snd (shm_close p h s))"
proof -
  show "accounted s (snd (shm_release p h s))"
  proof (cases "shm_decode s h")
    case (Inr i)
    with put_reclaimed_step [OF assms shm_decodeD [OF Inr]] accounted_refl [OF assms] show ?thesis
      by (auto simp: shm_release_def Let_def split: sum.splits)
  qed (use accounted_refl [OF assms] in \<open>simp add: shm_release_def\<close>)
  show "accounted s (snd (shm_close p h s))"
  proof (cases "shm_decode s h")
    case (Inr i)
    with put_reclaimed_step [OF assms shm_decodeD [OF Inr]] accounted_refl [OF assms] show ?thesis
      by (auto simp: shm_close_def Let_def split: sum.splits)
  qed (use accounted_refl [OF assms] in \<open>simp add: shm_close_def\<close>)
qed

lemma shm_release_slot_accounted: "shm_inv s \<Longrightarrow> i < MAX_OBJECTS \<Longrightarrow> accounted s (shm_release_slot p i s)"
  by (simp add: shm_release_slot_def put_reclaimed_step accounted_refl)

lemma shm_release_process_accounted:
  assumes "shm_inv s"
  shows "accounted s (shm_release_process p s)"
proof -
  have "accounted s (fold (shm_release_slot p) is s)" if "shm_inv s" "\<forall>i \<in> set is. i < MAX_OBJECTS" for "is" s
    using that
  proof (induction "is" arbitrary: s)
    case (Cons i "is")
    have a: "accounted s (shm_release_slot p i s)" using Cons.prems by (simp add: shm_release_slot_accounted)
    then have "accounted (shm_release_slot p i s) (fold (shm_release_slot p) is (shm_release_slot p i s))"
      using Cons by (simp add: accounted_def)
    with a show ?case by (simp add: accounted_trans)
  qed (simp add: accounted_refl)
  from this [OF assms, of "[0..<MAX_OBJECTS]"] assms show ?thesis
    by (simp add: shm_release_process_def accounted_refl)
qed

definition created_object :: "u64 \<Rightarrow> nat \<Rightarrow> u32 \<Rightarrow> u64 list \<Rightarrow> ObjectSlot" where
  "created_object p sz g fs = zero_object\<lparr>ob_generation := g, ob_owner_pid := p,
     ob_frames := fs @ replicate (MAX_PAGES_PER_OBJECT - length fs) 0, ob_page_count := length fs, ob_size := sz,
     ob_owner_open := True, ob_active := True\<rparr>"

lemma page_count_bound: "sz \<le> MAX_PAGES_PER_OBJECT * PAGE_SIZE \<Longrightarrow> (sz + PAGE_SIZE - 1) div PAGE_SIZE \<le> MAX_PAGES_PER_OBJECT"
  by (simp add: MAX_PAGES_PER_OBJECT_def PAGE_SIZE_def)

lemma created_object_inv:
  assumes "p \<noteq> INVALID_PROCESS_ID" "0 < sz" "sz \<le> MAX_PAGES_PER_OBJECT * PAGE_SIZE"
    "valid_generation sm_kMaximumGeneration g" "length fs = (sz + PAGE_SIZE - 1) div PAGE_SIZE" "distinct fs" "0 \<notin> set fs"
  shows "object_inv (created_object p sz g fs)" "pages (created_object p sz g fs) = fs"
proof -
  show "pages (created_object p sz g fs) = fs" by (simp add: pages_def created_object_def)
  with assms show "object_inv (created_object p sz g fs)"
    by (simp add: object_inv_def) (simp add: created_object_def zero_object_def has_live_access_def)
qed

lemma shm_create_cases:
  assumes "shm_create p sz handle s = (st, out, s')" "shm_inv s"
  obtains (error) "st \<noteq> Status.Ok" "st \<noteq> Status.OutOfMemory" "s' = s"
  | (memory) i where "st = Status.OutOfMemory" "i < MAX_OBJECTS" "\<not> ob_active (g_objects s ! i)"
      "g_objects s' = (g_objects s)[i := zero_object\<lparr>ob_generation :=
         next_generation sm_kMaximumGeneration (ob_generation (g_objects s ! i))\<rparr>]"
      "shm_initialized s' = shm_initialized s"
      "pmm_inv (pm s')" "reserved (pm s') = reserved (pm s)" "allocated (pm s') = allocated (pm s)"
  | (ok) i g fs where "st = Status.Ok" "i < MAX_OBJECTS" "\<not> ob_active (g_objects s ! i)"
      "g = next_generation sm_kMaximumGeneration (ob_generation (g_objects s ! i))"
      "out = Some (shm_encode i g)" "p \<noteq> INVALID_PROCESS_ID" "0 < sz" "sz \<le> MAX_PAGES_PER_OBJECT * PAGE_SIZE"
      "g_objects s' = (g_objects s)[i := created_object p sz g fs]" "shm_initialized s' = shm_initialized s"
      "length fs = (sz + PAGE_SIZE - 1) div PAGE_SIZE" "distinct fs" "0 \<notin> set fs"
      "pmm_inv (pm s')" "reserved (pm s') = reserved (pm s)"
      "set fs \<inter> allocated (pm s) = {}" "allocated (pm s') = allocated (pm s) \<union> set fs"
      "set fs \<inter> reserved (pm s) = {}" "ram s' = (\<lambda>a. if \<exists>f \<in> set fs. in_page f a then 0 else ram s a)"
proof -
  note c = assms(1) [unfolded shm_create_def Let_def]
  let ?n = "(sz + PAGE_SIZE - 1) div PAGE_SIZE"
  show ?thesis
  proof (cases "shm_initialized s \<and> p \<noteq> INVALID_PROCESS_ID \<and> handle \<noteq> None \<and> sz \<noteq> 0 \<and>
      sz \<le> MAX_PAGES_PER_OBJECT * PAGE_SIZE")
    case False
    with c show ?thesis by (intro error) (auto split: if_splits)
  next
    case args: True
    show ?thesis
    proof (cases "find_index (\<lambda>slot. \<not> ob_active slot) (g_objects s)")
      case None
      with c args show ?thesis by (intro error) auto
    next
      case (Some i)
      have i: "i < MAX_OBJECTS" "\<not> ob_active (g_objects s ! i)"
        using find_index_SomeD [OF Some] assms(2) by (auto simp: shm_inv_def)
      obtain res p' r' where a: "alloc_pages ?n [] (pm s) (ram s) = (res, p', r')" by (metis prod_cases3)
      have pm: "pmm_inv (pm s)" using assms(2) by (simp add: shm_inv_def)
      note spec = alloc_pages_correct [OF pm _ _ _ a, simplified]
      show ?thesis
      proof (cases res)
        case None
        with c args Some a spec i show ?thesis by (intro memory [of i]) auto
      next
        case (Some fs)
        with spec have fs: "pmm_inv p'" "reserved p' = reserved (pm s)" "length fs = ?n" "distinct fs" "0 \<notin> set fs"
            "set fs \<inter> allocated (pm s) = {}" "allocated p' = allocated (pm s) \<union> set fs"
            "set fs \<subseteq> allocated p' - reserved p'" "r' = (\<lambda>a. if \<exists>f \<in> set fs. in_page f a then 0 else ram s a)"
          by auto
        let ?g = "next_generation sm_kMaximumGeneration (ob_generation (g_objects s ! i))"
        have s': "st = Status.Ok" "out = Some (shm_encode i ?g)"
            "s' = s\<lparr>g_objects := (g_objects s)[i := created_object p sz ?g fs], pm := p', ram := r'\<rparr>"
          using c args \<open>find_index _ _ = Some i\<close> a Some fs(3) by (auto simp: created_object_def)
        show ?thesis
          by (rule ok [of i ?g fs]) (use s' i args fs in auto)
      qed
    qed
  qed
qed

lemma shm_create_accounted:
  assumes "shm_inv s"
  shows "accounted s (snd (snd (shm_create p sz handle s)))"
proof -
  obtain st out s' where c: "shm_create p sz handle s = (st, out, s')" by (metis prod_cases3)
  have own: "owned s \<subseteq> allocated (pm s) - reserved (pm s)" using assms by (simp add: shm_inv_def)
  have upd: "s' = s\<lparr>g_objects := g_objects s', pm := pm s', ram := ram s'\<rparr>"
    if "shm_initialized s' = shm_initialized s" using that by simp
  from c assms have "accounted s s'"
  proof (cases rule: shm_create_cases)
    case error
    then show ?thesis using accounted_refl [OF assms] by simp
  next
    case (memory i)
    have none: "pages (g_objects s ! i) = []" using pages_inactive shm_inv_nth [OF assms memory(2)] memory(3) by blast
    let ?ob = "zero_object\<lparr>ob_generation := next_generation sm_kMaximumGeneration (ob_generation (g_objects s ! i))\<rparr>"
    have "shm_inv s' \<and> owned s' = owned s"
      using shm_inv_update [OF assms memory(2) _ memory(6), of ?ob "ram s'"] own memory(4,7,8) none upd [OF memory(5)]
      by simp
    with memory show ?thesis by (simp add: accounted_def)
  next
    case (ok i g fs)
    have none: "pages (g_objects s ! i) = []" using pages_inactive shm_inv_nth [OF assms ok(2)] ok(3) by blast
    note ob = created_object_inv [OF ok(6-8) next_generation_valid [OF sm_kMaximumGeneration_pos] ok(11-13),
        of "ob_generation (g_objects s ! i)", folded ok(4)]
    have dis: "set (pages (created_object p sz g fs)) \<inter> set (pages (g_objects s ! j)) = {}" if "j < MAX_OBJECTS" for j
      using pages_owned [OF assms that] own ok(16) ob(2) by auto
    have held: "(owned s - set (pages (g_objects s ! i))) \<union> set (pages (created_object p sz g fs))
        \<subseteq> allocated (pm s') - reserved (pm s')"
      using own ok(15-18) ob(2) none by auto
    have "shm_inv s' \<and> owned s' = owned s \<union> set fs"
      using shm_inv_update [OF assms ok(2) ob(1) ok(14) dis held, of "ram s'"] upd [OF ok(10)] ok(9) none ob(2) by simp
    with ok(15-17) own show ?thesis by (auto simp: accounted_def)
  qed
  with c show ?thesis by simp
qed

section \<open>Runs\<close>

datatype shm_call =
    Initialize
  | Create u64 nat "u64 option"
  | Grant u64 u64 u64
  | Acquire u64 u64 "View option"
  | Release u64 u64
  | Close u64 u64
  | ReleaseProcess u64

fun shm_exec :: "shm_call \<Rightarrow> shm \<Rightarrow> shm" where
  "shm_exec Initialize s = snd (shm_initialize s)"
| "shm_exec (Create p sz out) s = snd (snd (shm_create p sz out s))"
| "shm_exec (Grant p h q) s = snd (shm_grant p h q s)"
| "shm_exec (Acquire p h v) s = snd (snd (shm_acquire p h v s))"
| "shm_exec (Release p h) s = snd (shm_release p h s)"
| "shm_exec (Close p h) s = snd (shm_close p h s)"
| "shm_exec (ReleaseProcess p) s = shm_release_process p s"

text \<open>
  \<open>shm_run others s\<close>: calls of the component interleave with the rest of the kernel, which takes frames
  from the same allocator, returns frames it has, and writes memory; \<open>others\<close> are the frames it has.
\<close>

inductive shm_run :: "u64 set \<Rightarrow> shm \<Rightarrow> bool" where
  start: "pmm_inv p \<Longrightarrow> shm_run (allocated p) (shm_zero p r)"
| call: "shm_run others s \<Longrightarrow> shm_run others (shm_exec c s)"
| take: "shm_run others s \<Longrightarrow> alloc_frame (pm s) = (f, p') \<Longrightarrow> f \<noteq> 0 \<Longrightarrow> shm_run (insert f others) (s\<lparr>pm := p'\<rparr>)"
| give: "shm_run others s \<Longrightarrow> f \<in> others \<Longrightarrow> f \<notin> reserved (pm s) \<Longrightarrow>
    shm_run (others - {f}) (s\<lparr>pm := free_frame f (pm s)\<rparr>)"
| store: "shm_run others s \<Longrightarrow> shm_run others (s\<lparr>ram := r\<rparr>)"

lemma shm_zero_objects: "object_inv zero_object" "pages zero_object = []"
  by (simp_all add: object_inv_def pages_def zero_object_def)

lemma shm_zero_inv:
  "pmm_inv p \<Longrightarrow> shm_inv (shm_zero p r)" "owned (shm_zero p r) = {}"
  by (auto simp: shm_inv_def shm_zero_def owned_def shm_zero_objects)

lemma shm_uninitialized_exec: "\<not> shm_initialized s \<Longrightarrow> c \<noteq> Initialize \<Longrightarrow> shm_exec c s = s"
  by (cases c) (simp_all add: shm_create_def shm_grant_def shm_acquire_def shm_release_def shm_close_def
      shm_release_process_def Let_def)

lemma shm_exec_accounted:
  assumes "shm_inv s" "\<not> shm_initialized s \<longrightarrow> owned s = {}"
  shows "accounted s (shm_exec c s)"
proof (cases c)
  case Initialize
  show ?thesis
  proof (cases "shm_initialized s")
    case False
    have "shm_inv (s\<lparr>g_objects := replicate MAX_OBJECTS zero_object, shm_initialized := True\<rparr>)"
      "owned (s\<lparr>g_objects := replicate MAX_OBJECTS zero_object, shm_initialized := True\<rparr>) = {}"
      using assms(1) by (auto simp: shm_inv_def owned_def shm_zero_objects)
    with False assms Initialize show ?thesis by (simp add: shm_initialize_def accounted_def)
  qed (use Initialize accounted_refl [OF assms(1)] in \<open>simp add: shm_initialize_def\<close>)
qed (use assms(1) in \<open>simp_all add: shm_create_accounted shm_grant_accounted shm_acquire_accounted
      shm_release_accounted shm_release_process_accounted\<close>)

lemma put_reclaimed_initialized: "shm_initialized (put_reclaimed i ob s) = shm_initialized s"
  by (simp add: put_reclaimed_def split: prod.splits)

lemma shm_exec_initialized:
  assumes "shm_initialized s" "shm_inv s"
  shows "shm_initialized (shm_exec c s)"
proof (cases c)
  case (Create p sz out)
  obtain st o' s' where r: "shm_create p sz out s = (st, o', s')" by (metis prod_cases3)
  from r assms(2) show ?thesis by (cases rule: shm_create_cases) (use r Create assms(1) in simp_all)
next
  case (ReleaseProcess p)
  have "shm_initialized (fold (shm_release_slot p) js s)" for js
    using assms(1) by (induction js arbitrary: s) (simp_all add: shm_release_slot_def put_reclaimed_initialized)
  with ReleaseProcess assms show ?thesis by (simp add: shm_release_process_def)
qed (use assms(1) in \<open>auto simp: shm_initialize_def shm_grant_def shm_acquire_def shm_release_def shm_close_def
      Let_def put_reclaimed_initialized split: option.splits sum.splits\<close>)

lemma owned_other_fields [simp]: "owned (s\<lparr>pm := p\<rparr>) = owned s" "owned (s\<lparr>ram := r\<rparr>) = owned s"
  by (simp_all add: owned_def)

lemma shm_inv_pm:
  assumes "shm_inv s" "pmm_inv p" "owned s \<subseteq> allocated p" "reserved p = reserved (pm s)"
  shows "shm_inv (s\<lparr>pm := p\<rparr>)"
proof -
  have "owned s \<subseteq> allocated p - reserved p" using assms(1,3,4) by (auto simp: shm_inv_def)
  with assms(1,2) show ?thesis by (simp add: shm_inv_def)
qed

definition shm_run_inv :: "u64 set \<Rightarrow> shm \<Rightarrow> bool" where
  "shm_run_inv others s \<longleftrightarrow> shm_inv s \<and> (shm_initialized s \<or> owned s = {}) \<and>
     allocated (pm s) = others \<union> owned s \<and> others \<inter> owned s = {}"

lemma shm_run_inv_exec:
  assumes "shm_run_inv others s"
  shows "shm_run_inv others (shm_exec c s)"
proof -
  have pre: "shm_inv s" "\<not> shm_initialized s \<longrightarrow> owned s = {}" using assms by (auto simp: shm_run_inv_def)
  have acc: "accounted s (shm_exec c s)" by (rule shm_exec_accounted [OF pre])
  then have inv: "shm_inv (shm_exec c s)"
    and eq: "allocated (pm (shm_exec c s)) - owned (shm_exec c s) = allocated (pm s) - owned s"
    by (simp_all add: accounted_def)
  have others: "allocated (pm s) - owned s = others" using assms unfolding shm_run_inv_def by blast
  have "owned (shm_exec c s) \<subseteq> allocated (pm (shm_exec c s))" using inv by (auto simp: shm_inv_def)
  with eq others have "allocated (pm (shm_exec c s)) = others \<union> owned (shm_exec c s)" "others \<inter> owned (shm_exec c s) = {}"
    by blast+
  moreover have "shm_initialized (shm_exec c s) \<or> owned (shm_exec c s) = {}"
  proof (cases "shm_initialized s")
    case False
    with shm_uninitialized_exec [OF False, of c] pre(2) show ?thesis
      by (cases "c = Initialize") (simp_all add: shm_initialize_def)
  qed (use shm_exec_initialized pre(1) in blast)
  ultimately show ?thesis using inv by (simp add: shm_run_inv_def)
qed

lemma shm_run_facts: "shm_run others s \<Longrightarrow> shm_run_inv others s"
proof (induction rule: shm_run.induct)
  case (start p r)
  then show ?case using shm_zero_inv [of p r] by (simp add: shm_run_inv_def shm_zero_def)
next
  case (call others s c)
  show ?case by (rule shm_run_inv_exec [OF call.IH])
next
  case (take others s f p')
  then have s: "shm_inv s" by (simp add: shm_run_inv_def)
  then have inv: "pmm_inv (pm s)" by (simp add: shm_inv_def)
  have p': "f \<notin> allocated (pm s)" "allocated p' = insert f (allocated (pm s))" "reserved p' = reserved (pm s)" "pmm_inv p'"
    using pmm.alloc_fresh [OF inv] pmm.alloc_held [OF inv] pmm.alloc_pinned [OF inv] pmm.alloc_invar [OF inv]
      take.hyps by auto
  have own: "allocated (pm s) = others \<union> owned s" "others \<inter> owned s = {}" using take.IH by (simp_all add: shm_run_inv_def)
  have "shm_inv (s\<lparr>pm := p'\<rparr>)" using p' own by (intro shm_inv_pm [OF s]) auto
  moreover have "allocated p' = insert f others \<union> owned s" "insert f others \<inter> owned s = {}" using p' own by auto
  ultimately show ?case using take.IH by (simp add: shm_run_inv_def)
next
  case (give others s f)
  then have s: "shm_inv s" by (simp add: shm_run_inv_def)
  then have inv: "pmm_inv (pm s)" by (simp add: shm_inv_def)
  have own: "allocated (pm s) = others \<union> owned s" "others \<inter> owned s = {}" using give.IH by (simp_all add: shm_run_inv_def)
  have f: "f \<in> allocated (pm s) - reserved (pm s)" "f \<notin> owned s" using give.hyps own by auto
  note p' = pmm.free_held [OF inv f(1)] pmm.free_pinned [OF inv, of f] pmm.free_invar [OF inv, of f]
  have "shm_inv (s\<lparr>pm := free_frame f (pm s)\<rparr>)" using p' own f by (intro shm_inv_pm [OF s]) auto
  moreover have "allocated (free_frame f (pm s)) = (others - {f}) \<union> owned s" "(others - {f}) \<inter> owned s = {}"
    using p' own f by auto
  ultimately show ?case using give.IH by (simp add: shm_run_inv_def)
next
  case (store others s r)
  have "shm_inv (s\<lparr>ram := r\<rparr>) = shm_inv s" by (simp add: shm_inv_def)
  with store.IH show ?case by (simp add: shm_run_inv_def)
qed

text \<open>
  C19.  Ownership of frames.  However calls of processes interleave with the rest of the kernel, the
  frames the allocator has handed out are exactly those of the rest of the kernel and those of live
  shared-memory objects; the two sets are disjoint, no frame belongs to two objects or twice to one,
  and no object holds a reserved frame.  So no page is leaked, freed twice, or freed while an object
  still uses it.
\<close>

theorem shm_frames_accounted:
  assumes "shm_run others s"
  shows "allocated (pm s) = others \<union> owned s \<and> others \<inter> owned s = {} \<and> owned s \<inter> reserved (pm s) = {} \<and>
    (\<forall>i < MAX_OBJECTS. distinct (pages (g_objects s ! i)) \<and>
      (\<forall>j < MAX_OBJECTS. i \<noteq> j \<longrightarrow> set (pages (g_objects s ! i)) \<inter> set (pages (g_objects s ! j)) = {}))"
proof -
  have inv: "shm_inv s" and own: "allocated (pm s) = others \<union> owned s" "others \<inter> owned s = {}"
    using shm_run_facts [OF assms] by (simp_all add: shm_run_inv_def)
  have "distinct (pages (g_objects s ! i))" if "i < MAX_OBJECTS" for i
    using pages_distinct [OF shm_inv_nth [OF inv that]] .
  moreover have "set (pages (g_objects s ! i)) \<inter> set (pages (g_objects s ! j)) = {}"
    if "i < MAX_OBJECTS" "j < MAX_OBJECTS" "i \<noteq> j" for i j
    using inv that unfolding shm_inv_def by blast
  moreover have "owned s \<inter> reserved (pm s) = {}" using inv unfolding shm_inv_def by blast
  ultimately show ?thesis using own by simp
qed

definition shm_example :: shm where
  "shm_example = shm_exec (Create 7 5000 (Some 0)) (shm_exec Initialize (shm_zero pmm_example (\<lambda>_. 1)))"

lemma shm_example_run: "shm_run (allocated pmm_example) shm_example"
  unfolding shm_example_def by (intro shm_run.call shm_run.start pmm_example_inv)

lemma alloc_example:
  "fst (alloc_frame pmm_example) = 0x100000" "fst (alloc_frame (snd (alloc_frame pmm_example))) = 0x102000"
  unfolding pmm_example_def by code_simp+

lemma alloc_pages_example:
  "fst (alloc_pages 2 [] pmm_example r) = Some [0x100000, 0x102000]"
proof -
  have two: "(2::nat) = Suc (Suc 0)" by simp
  show ?thesis unfolding two alloc_pages.simps by (simp add: alloc_example case_prod_beta)
qed

lemma shm_example_created:
  "\<exists>s. shm_create 7 5000 (Some 0) (shm_exec Initialize (shm_zero pmm_example (\<lambda>_. 1))) =
     (Status.Ok, Some 0x100030001, s) \<and> shm_example = s \<and>
     g_objects s = created_object 7 5000 1 [0x100000, 0x102000] # replicate 15 zero_object \<and> shm_initialized s"
proof -
  let ?s = "shm_exec Initialize (shm_zero pmm_example (\<lambda>_. 1))"
  obtain p r where al: "alloc_pages 2 [] pmm_example (\<lambda>_. 1) = (Some [0x100000, 0x102000], p, r)"
    using alloc_pages_example [of "\<lambda>_. 1"] by (metis fst_conv surj_pair)
  have s: "?s = \<lparr>g_objects = replicate MAX_OBJECTS zero_object, shm_initialized = True, pm = pmm_example, ram = \<lambda>_. 1\<rparr>"
    by (simp add: shm_initialize_def shm_zero_def)
  have g: "next_generation sm_kMaximumGeneration (ob_generation zero_object) = 1" "shm_encode 0 1 = 0x100030001" by code_simp+
  have ix: "find_index (\<lambda>slot. \<not> ob_active slot) (replicate MAX_OBJECTS zero_object) = Some 0"
    by (simp add: MAX_OBJECTS_def zero_object_def numeral_eq_Suc)
  have repl: "replicate MAX_OBJECTS zero_object = zero_object # replicate 15 zero_object"
    unfolding MAX_OBJECTS_def by (simp flip: replicate_Suc)
  have n: "(5000 + PAGE_SIZE - 1) div PAGE_SIZE = 2" "\<not> 5000 > MAX_PAGES_PER_OBJECT * PAGE_SIZE"
    by (simp_all add: PAGE_SIZE_def MAX_PAGES_PER_OBJECT_def)
  have "shm_create 7 5000 (Some 0) ?s = (Status.Ok, Some 0x100030001,
      \<lparr>g_objects = (replicate MAX_OBJECTS zero_object)[0 := created_object 7 5000 1 [0x100000, 0x102000]],
       shm_initialized = True, pm = p, ram = r\<rparr>)"
    unfolding s using al g ix n by (simp add: shm_create_def Let_def created_object_def repl)
  then show ?thesis unfolding shm_example_def by (simp add: repl)
qed

theorem shm_frames_accounted_witness:
  "shm_run (allocated pmm_example) shm_example \<and>
   allocated (pm shm_example) = allocated pmm_example \<union> owned shm_example \<and>
   allocated pmm_example \<inter> owned shm_example = {} \<and> pages (g_objects shm_example ! 0) = [0x100000, 0x102000]"
proof -
  have "pages (g_objects shm_example ! 0) = [0x100000, 0x102000]"
    using shm_example_created by (auto simp: pages_def created_object_def)
  with shm_example_run shm_frames_accounted [OF shm_example_run] show ?thesis by simp
qed

section \<open>Creation\<close>

lemma access_created_other: "p \<noteq> q \<Longrightarrow> access_slot (created_object p sz g fs) q = Inl Status.AccessDenied"
  by (auto simp: access_slot_def created_object_def shm_find_grant_def zero_object_def zero_access_def
      find_index_None_iff split: option.splits dest!: find_index_SomeD)

lemma shm_decode_created:
  assumes "g_objects s' = (g_objects s)[i := created_object p sz g fs]" "shm_inv s" "i < MAX_OBJECTS"
  shows "shm_decode s' (shm_encode i g) = Inr i" "g_objects s' ! i = created_object p sz g fs"
proof -
  show nth: "g_objects s' ! i = created_object p sz g fs" using assms by (simp add: shm_inv_def)
  then have "ob_active (g_objects s' ! i)" "ob_generation (g_objects s' ! i) = g" by (simp_all add: created_object_def)
  with shm_encode_fields [OF assms(3)] show "shm_decode s' (shm_encode i g) = Inr i" by (simp add: shm_decode_def)
qed

text \<open>
  C20.  \<open>create\<close>.  If it succeeds, the handle it returns resolves to an object that only the creator
  can access, whose pages are as many as the size needs, were free before, and read as zero; every
  other object is unchanged.  If memory runs out half way, every page taken so far is free again and
  no object has changed its pages; any other failure changes nothing.
\<close>

theorem shm_create_correct:
  assumes "shm_run others s" "shm_create p sz handle s = (st, out, s')"
  shows "(if st = Status.Ok then \<exists>h i. out = Some h \<and> shm_decode s' h = Inr i \<and>
            access_slot (g_objects s' ! i) p = Inr OwnerRef \<and>
            (\<forall>q. q \<noteq> p \<longrightarrow> access_slot (g_objects s' ! i) q = Inl Status.AccessDenied) \<and>
            ob_size (g_objects s' ! i) = sz \<and> sz \<le> PAGE_SIZE * length (pages (g_objects s' ! i)) \<and>
            PAGE_SIZE * length (pages (g_objects s' ! i)) < sz + PAGE_SIZE \<and>
            set (pages (g_objects s' ! i)) \<inter> allocated (pm s) = {} \<and>
            (\<forall>f \<in> set (pages (g_objects s' ! i)). \<forall>a. in_page f a \<longrightarrow> ram s' a = 0) \<and>
            (\<forall>j < MAX_OBJECTS. j \<noteq> i \<longrightarrow> g_objects s' ! j = g_objects s ! j)
          else if st = Status.OutOfMemory then allocated (pm s') = allocated (pm s) \<and> owned s' = owned s
          else s' = s)"
proof -
  have inv: "shm_inv s" using shm_run_facts [OF assms(1)] by (simp add: shm_run_inv_def)
  then have len: "length (g_objects s) = MAX_OBJECTS" by (simp add: shm_inv_def)
  from assms(2) inv show ?thesis
  proof (cases rule: shm_create_cases)
    case (memory i)
    have "accounted s s'" using shm_create_accounted [OF inv, of p sz handle] assms(2) by simp
    moreover have "owned s' \<subseteq> allocated (pm s')" "owned s \<subseteq> allocated (pm s)"
      using inv calculation unfolding accounted_def shm_inv_def by blast+
    ultimately have "owned s' = owned s" using memory(8) unfolding accounted_def by blast
    with memory show ?thesis by simp
  next
    case (ok i g fs)
    note d = shm_decode_created [OF ok(9) inv ok(2)]
    have pg: "pages (g_objects s' ! i) = fs" unfolding d(2) by (simp add: pages_def created_object_def)
    have size: "sz \<le> PAGE_SIZE * length fs" "PAGE_SIZE * length fs < sz + PAGE_SIZE"
      unfolding ok(11) by (simp_all add: PAGE_SIZE_def)
    have own: "access_slot (g_objects s' ! i) p = Inr OwnerRef" "ob_size (g_objects s' ! i) = sz"
      unfolding d(2) by (simp_all add: access_slot_def created_object_def)
    have others: "access_slot (g_objects s' ! i) q = Inl Status.AccessDenied" if "q \<noteq> p" for q
      unfolding d(2) using that by (intro access_created_other) simp
    have zero: "ram s' a = 0" if "f \<in> set fs" "in_page f a" for f a using that unfolding ok(19) by auto
    have rest: "g_objects s' ! j = g_objects s ! j" if "j \<noteq> i" for j using that unfolding ok(9) by simp
    show ?thesis
      using d(1) pg size own others zero rest ok(1,5,16) by (auto intro!: exI [of _ "shm_encode i g"] exI [of _ i])
  qed simp
qed

theorem shm_create_correct_witness:
  "shm_run (allocated pmm_example) (shm_exec Initialize (shm_zero pmm_example (\<lambda>_. 1))) \<and>
   (\<exists>s i. shm_create 7 5000 (Some 0) (shm_exec Initialize (shm_zero pmm_example (\<lambda>_. 1))) = (Status.Ok, Some 0x100030001, s) \<and>
      shm_decode s 0x100030001 = Inr i \<and> access_slot (g_objects s ! i) 7 = Inr OwnerRef)"
proof -
  have run: "shm_run (allocated pmm_example) (shm_exec Initialize (shm_zero pmm_example (\<lambda>_. 1)))"
    by (intro shm_run.call shm_run.start pmm_example_inv)
  obtain s where c: "shm_create 7 5000 (Some 0) (shm_exec Initialize (shm_zero pmm_example (\<lambda>_. 1))) =
      (Status.Ok, Some 0x100030001, s)"
    using shm_example_created by blast
  from run shm_create_correct [OF run c] c show ?thesis by auto
qed

section \<open>Reclamation\<close>

lemma put_reclaimed_stale:
  assumes "shm_decode s h = Inr i" "i < length (g_objects s)" "ob_active ob" "\<not> has_live_access ob"
  shows "shm_decode (put_reclaimed i ob s) h = Inl Status.StaleHandle"
proof -
  have "\<not> ob_active (g_objects (put_reclaimed i ob s) ! i)"
    using assms(2-4) by (simp add: put_reclaimed_def shm_maybe_reclaim_def shm_reclaim_def)
  moreover have "shm_index h = Some i" using assms(1) by (auto simp: shm_decode_def Let_def split: option.splits if_splits)
  ultimately show ?thesis by (simp add: shm_decode_def)
qed

text \<open>What dropping one reference of the object \<open>i\<close> does, the slot being \<open>ob\<close> without it.\<close>

lemma drop_reference:
  assumes "shm_inv s" "shm_decode s h = Inr i" "same_object (g_objects s ! i) ob"
  defines "s' \<equiv> put_reclaimed i ob s"
  shows "if has_live_access ob
    then pm s' = pm s \<and> g_objects s' ! i = ob \<and> shm_decode s' h = Inr i \<and> pages (g_objects s' ! i) = pages (g_objects s ! i)
    else allocated (pm s') = allocated (pm s) - set (pages (g_objects s ! i)) \<and> shm_decode s' h = Inl Status.StaleHandle"
proof -
  note i = shm_decodeD [OF assms(2)]
  note ob = same_object_facts [OF assms(3)]
  have len: "i < length (g_objects s)" using assms(1) i(1) by (simp add: shm_inv_def)
  have gen: "ob_generation ob = ob_generation (g_objects s ! i)"
    using arg_cong [OF assms(3) [unfolded same_object_def, THEN conjunct1], of ob_generation] by simp
  note r = put_reclaimed_inv [OF assms(1) i ob(1) _ ob(3)]
  show ?thesis
  proof (cases "has_live_access ob")
    case True
    have s': "s' = s\<lparr>g_objects := (g_objects s)[i := ob]\<rparr>" unfolding s'_def using True by (simp add: put_reclaimed_def shm_maybe_reclaim_def)
    have "shm_decode s' h = Inr i"
      using assms(2) len ob(2) gen unfolding s' by (auto simp: shm_decode_def Let_def split: option.splits if_splits)
    with True len ob(1) show ?thesis by (simp add: s')
  next
    case False
    have act: "ob_active ob" using ob(2) i(2) by simp
    have "allocated (pm s') = allocated (pm s) - set (pages ob)" unfolding s'_def
      using put_reclaimed_inv(5) [OF assms(1) i ob(1) act _ False] False by blast
    with False put_reclaimed_stale [OF assms(2) len act False] ob(1) show ?thesis by (simp add: s'_def)
  qed
qed

text \<open>
  C21.  The last reference.  A successful \<open>close\<close> ends the caller's open reference and a successful
  \<open>release\<close> ends one of its mappings.  While any reference or mapping of anyone is left, the object and
  its pages stay; with the last one its pages, and nothing else, go back to the allocator, and the
  handle is stale from then on.
\<close>

theorem shm_last_reference_frees:
  assumes "shm_run others s" "shm_decode s h = Inr i" "access_slot (g_objects s ! i) p = Inr ref"
    and "(shm_close p h s = (Status.Ok, s') \<and> ob = set_open ref False (g_objects s ! i)) \<or>
         (shm_release p h s = (Status.Ok, s') \<and> ob = set_mappings ref (ref_mappings ref (g_objects s ! i) - 1) (g_objects s ! i))"
  shows "if has_live_access ob
    then pm s' = pm s \<and> g_objects s' ! i = ob \<and> shm_decode s' h = Inr i \<and> pages (g_objects s' ! i) = pages (g_objects s ! i)
    else allocated (pm s') = allocated (pm s) - set (pages (g_objects s ! i)) \<and> shm_decode s' h = Inl Status.StaleHandle"
proof -
  have inv: "shm_inv s" using shm_run_facts [OF assms(1)] by (simp add: shm_run_inv_def)
  have "s' = put_reclaimed i ob s \<and> same_object (g_objects s ! i) ob"
    using assms(4)
  proof
    assume c: "shm_close p h s = (Status.Ok, s') \<and> ob = set_open ref False (g_objects s ! i)"
    then show ?thesis using assms(2,3) by (auto simp: shm_close_def Let_def split: if_splits)
  next
    assume c: "shm_release p h s = (Status.Ok, s') \<and> ob = set_mappings ref (ref_mappings ref (g_objects s ! i) - 1) (g_objects s ! i)"
    then show ?thesis using assms(2,3) by (auto simp: shm_release_def Let_def split: if_splits)
  qed
  with drop_reference [OF inv assms(2)] show ?thesis by blast
qed

lemma shm_example_object:
  "shm_decode shm_example 0x100030001 = Inr 0" "g_objects shm_example ! 0 = created_object 7 5000 1 [0x100000, 0x102000]"
  "shm_initialized shm_example"
proof -
  obtain s where s: "shm_example = s" "g_objects s = created_object 7 5000 1 [0x100000, 0x102000] # replicate 15 zero_object"
      "shm_initialized s"
    using shm_example_created by blast
  have "shm_index 0x100030001 = Some 0" "shm_generation 0x100030001 = 1" by code_simp+
  then show "shm_decode shm_example 0x100030001 = Inr 0" unfolding s(1) by (simp add: shm_decode_def s(2) created_object_def)
  show "g_objects shm_example ! 0 = created_object 7 5000 1 [0x100000, 0x102000]" "shm_initialized shm_example"
    unfolding s(1) by (simp_all add: s)
qed

theorem shm_last_reference_frees_witness:
  "\<exists>s'. shm_close 7 0x100030001 shm_example = (Status.Ok, s') \<and>
     allocated (pm s') = allocated (pm shm_example) - {0x100000, 0x102000} \<and>
     shm_decode s' 0x100030001 = Inl Status.StaleHandle"
proof -
  let ?ob = "created_object 7 5000 1 [0x100000, 0x102000]"
  have acc: "access_slot ?ob 7 = Inr OwnerRef" by (simp add: access_slot_def created_object_def)
  have dead: "\<not> has_live_access (set_open OwnerRef False ?ob)"
    by (simp add: has_live_access_def created_object_def zero_object_def zero_access_def)
  have pg: "pages ?ob = [0x100000, 0x102000]" by (simp add: pages_def created_object_def)
  obtain s' where c: "shm_close 7 0x100030001 shm_example = (Status.Ok, s')"
    using acc by (simp add: shm_close_def shm_example_object Let_def) (simp add: created_object_def)
  show ?thesis
    using shm_last_reference_frees [OF shm_example_run shm_example_object(1), of 7 OwnerRef s' "set_open OwnerRef False ?ob"] c acc dead pg
    by (simp add: shm_example_object)
qed

section \<open>Grant slots are never reused\<close>

definition spent :: "u64 \<Rightarrow> AccessSlot" where
  "spent q = \<lparr>as_pid = q, as_mappings = 0, as_open = False\<rparr>"

definition grant_close :: "u64 \<Rightarrow> u64 \<Rightarrow> u64 \<Rightarrow> shm \<Rightarrow> shm" where
  "grant_close p h q s = shm_exec (Close q h) (shm_exec (Grant p h q) s)"

definition spent_object :: "ObjectSlot \<Rightarrow> u64 \<Rightarrow> nat \<Rightarrow> ObjectSlot" where
  "spent_object ob q n = ob\<lparr>ob_grants := replicate n (spent q) @ replicate (MAX_GRANTS_PER_OBJECT - n) zero_access\<rparr>"

lemma spent_object_find:
  assumes "r \<noteq> INVALID_PROCESS_ID" "q \<noteq> INVALID_PROCESS_ID"
  shows "shm_find_grant (spent_object ob q n) r = None"
    "n < MAX_GRANTS_PER_OBJECT \<Longrightarrow>
      find_index (\<lambda>g. as_pid g = INVALID_PROCESS_ID \<and> as_mappings g = 0) (ob_grants (spent_object ob q n)) = Some n"
    "find_index (\<lambda>g. as_pid g = INVALID_PROCESS_ID \<and> as_mappings g = 0)
       (ob_grants (spent_object ob q MAX_GRANTS_PER_OBJECT)) = None"
proof -
  show "shm_find_grant (spent_object ob q n) r = None"
    using assms by (auto simp: shm_find_grant_def find_index_None_iff spent_object_def spent_def zero_access_def)
  show "find_index (\<lambda>g. as_pid g = INVALID_PROCESS_ID \<and> as_mappings g = 0) (ob_grants (spent_object ob q n)) = Some n"
    if "n < MAX_GRANTS_PER_OBJECT"
    using that assms by (intro find_index_eq_SomeI) (simp_all add: spent_object_def spent_def zero_access_def nth_append)
  show "find_index (\<lambda>g. as_pid g = INVALID_PROCESS_ID \<and> as_mappings g = 0)
       (ob_grants (spent_object ob q MAX_GRANTS_PER_OBJECT)) = None"
    using assms by (simp add: find_index_None_iff spent_object_def spent_def)
qed

lemma list_update_spent: "n < m \<Longrightarrow> (replicate n x @ replicate (m - n) y)[n := x] = replicate (Suc n) x @ replicate (m - Suc n) y"
  by (rule nth_equalityI) (auto simp: nth_append nth_list_update less_Suc_eq nth_Cons' simp del: replicate_Suc)

lemma grant_close_spends:
  assumes "shm_initialized s" "shm_decode s h = Inr i" "i < length (g_objects s)"
    and "g_objects s ! i = spent_object ob q n" "n < MAX_GRANTS_PER_OBJECT"
    and "ob_active ob" "ob_owner_pid ob = p" "ob_owner_open ob" "p \<noteq> INVALID_PROCESS_ID" "q \<noteq> INVALID_PROCESS_ID" "q \<noteq> p"
  shows "grant_close p h q s = s\<lparr>g_objects := (g_objects s)[i := spent_object ob q (Suc n)]\<rparr>"
proof -
  let ?ob = "spent_object ob q n"
  let ?g = "\<lparr>as_pid = q, as_mappings = 0, as_open = True\<rparr>"
  let ?ob1 = "?ob\<lparr>ob_grants := (ob_grants ?ob)[n := ?g]\<rparr>"
  let ?s1 = "s\<lparr>g_objects := (g_objects s)[i := ?ob1]\<rparr>"
  have f: "ob_owner_pid ?ob = p" "ob_owner_open ?ob" "ob_generation ?ob = ob_generation ob" "ob_active ?ob"
      "n < length (ob_grants ?ob)" "ob_grants ?ob ! n = zero_access"
    using assms(5-8) by (simp_all add: spent_object_def nth_append)
  have g: "shm_exec (Grant p h q) s = ?s1"
    using assms(1,2,9-11) spent_object_find(1) [OF assms(10,10)] spent_object_find(2) [OF assms(10,10,5)] f
    by (simp add: shm_grant_def assms(4) zero_access_def Let_def)
  have dec: "shm_decode ?s1 h = Inr i"
    using assms(2,3,4) f by (auto simp: shm_decode_def Let_def split: option.splits if_splits)
  have fg: "shm_find_grant ?ob1 q = Some n"
    using f by (auto simp: shm_find_grant_def nth_list_update spent_object_def spent_def nth_append intro!: find_index_eq_SomeI)
  have acc: "access_slot ?ob1 q = Inr (GrantRef n)" using fg f assms(11) by (simp add: access_slot_def)
  have op: "set_open (GrantRef n) False ?ob1 = spent_object ob q (Suc n)"
    using assms(5) list_update_spent [OF assms(5), of "spent q" zero_access] by (simp add: spent_object_def spent_def)
  have "shm_exec (Close q h) ?s1 = put_reclaimed i (spent_object ob q (Suc n)) ?s1"
    using assms(1,3,10) dec acc op f by (simp add: shm_close_def)
  moreover have "has_live_access (spent_object ob q (Suc n))"
    using assms(8) by (simp add: has_live_access_def spent_object_def)
  ultimately show ?thesis using g by (simp add: grant_close_def put_reclaimed_def shm_maybe_reclaim_def)
qed

lemma grant_close_iterated:
  assumes "shm_initialized s" "shm_decode s h = Inr i" "i < length (g_objects s)" "g_objects s ! i = spent_object ob q 0"
    and "ob_active ob" "ob_owner_pid ob = p" "ob_owner_open ob" "p \<noteq> INVALID_PROCESS_ID" "q \<noteq> INVALID_PROCESS_ID" "q \<noteq> p"
    and "n \<le> MAX_GRANTS_PER_OBJECT"
  shows "(grant_close p h q ^^ n) s = s\<lparr>g_objects := (g_objects s)[i := spent_object ob q n]\<rparr>"
  using assms(11)
proof (induction n)
  case 0
  have "(g_objects s)[i := spent_object ob q 0] = g_objects s" using assms(4) by (metis list_update_id)
  then show ?case by simp
next
  case (Suc n)
  let ?s = "s\<lparr>g_objects := (g_objects s)[i := spent_object ob q n]\<rparr>"
  have "shm_decode ?s h = Inr i"
    using assms(2-4) by (auto simp: shm_decode_def Let_def spent_object_def split: option.splits if_splits)
  from grant_close_spends [OF _ this _ _ _ assms(5-10), of n] Suc assms(1,3) show ?case by simp
qed

text \<open>
  C22.  Grant slots are never reused.  \<open>close\<close> and \<open>release_process\<close> leave the process id in a grant slot,
  and \<open>grant\<close> takes only slots without one.  So once the owner of a new object has granted it to some
  process that closed it again, eight times, nobody but the owner can access the object, and yet
  every further grant is refused with \<open>CapacityReached\<close>.
\<close>

theorem shm_grant_slots_exhausted:
  assumes "shm_run others s" "shm_create p sz handle s = (Status.Ok, Some h, s1)"
    and "q \<noteq> INVALID_PROCESS_ID" "q \<noteq> p" "r \<noteq> INVALID_PROCESS_ID" "r \<noteq> p"
    and "s2 = (grant_close p h q ^^ MAX_GRANTS_PER_OBJECT) s1"
  shows "fst (shm_grant p h r s2) = Status.CapacityReached \<and>
    (\<exists>i. shm_decode s2 h = Inr i \<and> access_slot (g_objects s2 ! i) p = Inr OwnerRef \<and>
       access_slot (g_objects s2 ! i) r = Inl Status.AccessDenied)"
proof -
  have inv: "shm_inv s" using shm_run_facts [OF assms(1)] by (simp add: shm_run_inv_def)
  from assms(2) inv show ?thesis
  proof (cases rule: shm_create_cases)
    case (ok i g fs)
    let ?ob = "created_object p sz g fs"
    note d = shm_decode_created [OF ok(9) inv ok(2)]
    have h: "h = shm_encode i g" using ok(5) by simp
    have len: "i < length (g_objects s1)" using inv ok(2,9) by (simp add: shm_inv_def)
    have init: "shm_initialized s1"
      using assms(2) ok(10) by (auto simp: shm_create_def Let_def split: if_splits)
    have ob: "?ob = spent_object ?ob q 0" by (simp add: spent_object_def created_object_def zero_object_def)
    have f: "ob_active ?ob" "ob_owner_pid ?ob = p" "ob_owner_open ?ob" by (simp_all add: created_object_def)
    let ?f = "spent_object ?ob q MAX_GRANTS_PER_OBJECT"
    have s2: "s2 = s1\<lparr>g_objects := (g_objects s1)[i := ?f]\<rparr>"
      unfolding assms(7)
      by (rule grant_close_iterated [OF init d(1) [folded h] len _ f ok(6) assms(3,4)]) (use d(2) ob in simp_all)
    have nth: "g_objects s2 ! i = ?f" using len by (simp add: s2)
    have ff: "ob_owner_pid ?f = p" "ob_owner_open ?f" "ob_generation ?f = g" "ob_active ?f"
      using f by (simp_all add: spent_object_def) (simp add: created_object_def)
    have dec: "shm_decode s2 h = Inr i"
      using shm_encode_fields [OF ok(2)] ff by (simp add: shm_decode_def h nth)
    note none = spent_object_find(1) [OF assms(5,3), of ?ob MAX_GRANTS_PER_OBJECT] spent_object_find(3) [OF assms(5,3), of ?ob]
    have "fst (shm_grant p h r s2) = Status.CapacityReached"
      using dec ff none init assms(5,6) ok(6) by (simp add: shm_grant_def nth s2 [THEN arg_cong, of shm_initialized])
    moreover have "access_slot ?f p = Inr OwnerRef" "access_slot ?f r = Inl Status.AccessDenied"
      using ff none assms(6) by (simp_all add: access_slot_def)
    ultimately show ?thesis using dec nth by simp
  qed simp_all
qed

theorem shm_grant_slots_exhausted_witness:
  "fst (shm_grant 7 0x100030001 9 ((grant_close 7 0x100030001 8 ^^ MAX_GRANTS_PER_OBJECT) shm_example)) = Status.CapacityReached"
proof -
  have run: "shm_run (allocated pmm_example) (shm_exec Initialize (shm_zero pmm_example (\<lambda>_. 1)))"
    by (intro shm_run.call shm_run.start pmm_example_inv)
  have c: "shm_create 7 5000 (Some 0) (shm_exec Initialize (shm_zero pmm_example (\<lambda>_. 1))) =
      (Status.Ok, Some 0x100030001, shm_example)"
    using shm_example_created by blast
  show ?thesis using shm_grant_slots_exhausted [OF run c, of 8 9] by simp
qed

end
