(* ===== verification/Spin_Lock.thy ===== *)
theory Spin_Lock
  imports Kurogane_Prelude
begin

text \<open>
  \<^verbatim>\<open>kernel/sync/spinlock.hpp\<close>: the ticket lock that every table of the kernel is protected by.  Each
  atomic access of \<open>lock\<close>, \<open>try_lock\<close> and \<open>unlock\<close> is one step, and the steps of any number of
  processors interleave arbitrarily, one at a time: the model is sequentially consistent and does not
  describe weaker memory orderings.  Tickets are 32-bit and wrap around.  A \<open>try_lock\<close> that is
  delayed while all ticket values are used up can take a lock that is held; the properties are
  about the schedules in which that does not happen, and \<open>try_lock_window_needed\<close> shows that they need to be.
\<close>

section \<open>The lock and its atomic accesses\<close>

record TicketSpinLock =
  next_ticket :: u32
  serving :: u32

definition TicketSpinLock_init :: TicketSpinLock where
  "TicketSpinLock_init = \<lparr>next_ticket = 0, serving = 0\<rparr>"

text \<open>\<open>lock\<close> takes a ticket, and then loads \<open>serving_\<close> until it is the ticket.\<close>

definition lock_take :: "TicketSpinLock \<Rightarrow> u32 \<times> TicketSpinLock" where
  "lock_take l = (next_ticket l, l\<lparr>next_ticket := next_ticket l + 1\<rparr>)"

definition lock_turn :: "u32 \<Rightarrow> TicketSpinLock \<Rightarrow> bool" where
  "lock_turn ticket l \<longleftrightarrow> serving l = ticket"

text \<open>The compare-and-exchange that ends \<open>try_lock\<close>; it is reached only with \<open>next = serving\<close>.\<close>

definition try_lock_exchange :: "u32 \<Rightarrow> TicketSpinLock \<Rightarrow> bool \<times> TicketSpinLock" where
  "try_lock_exchange next l =
     (if next_ticket l = next then (True, l\<lparr>next_ticket := next + 1\<rparr>) else (False, l))"

definition unlock :: "TicketSpinLock \<Rightarrow> TicketSpinLock" where
  "unlock l = l\<lparr>serving := serving l + 1\<rparr>"

text \<open>
  \<open>try_lock\<close> run without interruption; between its accesses other processors may run, which the
  step relation below describes.
\<close>

definition try_lock :: "TicketSpinLock \<Rightarrow> bool \<times> TicketSpinLock" where
  "try_lock l =
     (let s = serving l; n = next_ticket l in
      if n \<noteq> s then (False, l) else try_lock_exchange n l)"

section \<open>Processors\<close>

text \<open>
  Where a processor is: outside, spinning with a ticket, holding the lock, or inside \<open>try_lock\<close> after
  its first load (\<open>TryLoaded\<close>, with the value of \<open>serving_\<close> it read) or its second
  (\<open>TryReady\<close>).  The last argument of these two is a history variable: the number of tickets that
  were outstanding at the first load plus those issued since.
\<close>

datatype pc = Idle | Spin u32 | Hold u32 | TryLoaded u32 nat | TryReady u32 nat

record machine =
  lk :: TicketSpinLock
  cpus :: "pc list"

definition outstanding :: "TicketSpinLock \<Rightarrow> nat" where
  "outstanding l = unat (next_ticket l - serving l)"

text \<open>Every processor inside \<open>try_lock\<close> sees one more ticket issued.\<close>

fun count_issue :: "pc \<Rightarrow> pc" where
  "count_issue (TryLoaded s k) = TryLoaded s (Suc k)"
| "count_issue (TryReady s k) = TryReady s (Suc k)"
| "count_issue p = p"

inductive cpu_step :: "machine \<Rightarrow> machine \<Rightarrow> bool" where
  take: "c < length (cpus m) \<Longrightarrow> cpus m ! c = Idle \<Longrightarrow> lock_take (lk m) = (ticket, l') \<Longrightarrow>
    cpu_step m \<lparr>lk = l', cpus = (map count_issue (cpus m))[c := Spin ticket]\<rparr>"
| turn: "c < length (cpus m) \<Longrightarrow> cpus m ! c = Spin ticket \<Longrightarrow> lock_turn ticket (lk m) \<Longrightarrow>
    cpu_step m (m\<lparr>cpus := (cpus m)[c := Hold ticket]\<rparr>)"
| relax: "c < length (cpus m) \<Longrightarrow> cpus m ! c = Spin ticket \<Longrightarrow> \<not> lock_turn ticket (lk m) \<Longrightarrow> cpu_step m m"
| release: "c < length (cpus m) \<Longrightarrow> cpus m ! c = Hold ticket \<Longrightarrow>
    cpu_step m \<lparr>lk = unlock (lk m), cpus = (cpus m)[c := Idle]\<rparr>"
| try_serving: "c < length (cpus m) \<Longrightarrow> cpus m ! c = Idle \<Longrightarrow>
    cpu_step m (m\<lparr>cpus := (cpus m)[c := TryLoaded (serving (lk m)) (outstanding (lk m))]\<rparr>)"
| try_busy: "c < length (cpus m) \<Longrightarrow> cpus m ! c = TryLoaded s k \<Longrightarrow> next_ticket (lk m) \<noteq> s \<Longrightarrow>
    cpu_step m (m\<lparr>cpus := (cpus m)[c := Idle]\<rparr>)"
| try_next: "c < length (cpus m) \<Longrightarrow> cpus m ! c = TryLoaded s k \<Longrightarrow> next_ticket (lk m) = s \<Longrightarrow>
    cpu_step m (m\<lparr>cpus := (cpus m)[c := TryReady s k]\<rparr>)"
| try_fail: "c < length (cpus m) \<Longrightarrow> cpus m ! c = TryReady s k \<Longrightarrow>
    try_lock_exchange s (lk m) = (False, l') \<Longrightarrow> cpu_step m (m\<lparr>cpus := (cpus m)[c := Idle]\<rparr>)"
| try_win: "c < length (cpus m) \<Longrightarrow> cpus m ! c = TryReady s k \<Longrightarrow>
    try_lock_exchange s (lk m) = (True, l') \<Longrightarrow>
    cpu_step m \<lparr>lk = l', cpus = (map count_issue (cpus m))[c := Hold s]\<rparr>"

text \<open>
  \<open>try_lock\<close> compares ticket values, which repeat after \<open>2 ^ 32\<close>.  \<open>window_ok\<close> says that no processor
  stays inside one \<open>try_lock\<close> while \<open>2 ^ 32\<close> tickets are outstanding or issued.
\<close>

fun window_ok :: "pc \<Rightarrow> bool" where
  "window_ok (TryLoaded s k) \<longleftrightarrow> k < 2 ^ 32"
| "window_ok (TryReady s k) \<longleftrightarrow> k < 2 ^ 32"
| "window_ok p \<longleftrightarrow> True"

text \<open>
  \<open>schedule n ms\<close>: the machines that \<open>n\<close> processors go through from the start, the last one first, in any
  interleaving of their steps.  \<open>lock_run n m\<close>: the machine \<open>m\<close> ends a schedule that keeps within the window.
\<close>

inductive schedule :: "nat \<Rightarrow> machine list \<Rightarrow> bool" for n :: nat where
  boot: "schedule n [\<lparr>lk = TicketSpinLock_init, cpus = replicate n Idle\<rparr>]"
| step: "schedule n (m # ms) \<Longrightarrow> cpu_step m m' \<Longrightarrow> schedule n (m' # m # ms)"

inductive lock_run :: "nat \<Rightarrow> machine \<Rightarrow> bool" for n :: nat where
  boot: "lock_run n \<lparr>lk = TicketSpinLock_init, cpus = replicate n Idle\<rparr>"
| step: "lock_run n m \<Longrightarrow> cpu_step m m' \<Longrightarrow> \<forall>p \<in> set (cpus m'). window_ok p \<Longrightarrow> lock_run n m'"

section \<open>Invariant\<close>

fun ticket_of :: "pc \<Rightarrow> u32 option" where
  "ticket_of (Spin t) = Some t"
| "ticket_of (Hold t) = Some t"
| "ticket_of _ = None"

text \<open>
  The abstract view of the lock is a queue of processors.  \<open>lock_inv q m\<close>: the processors with a ticket
  are those in \<open>q\<close>, each once, with consecutive tickets from \<open>serving\<close> on; only the head of the queue
  can hold the lock.
\<close>

definition lock_inv :: "nat list \<Rightarrow> machine \<Rightarrow> bool" where
  "lock_inv q m \<longleftrightarrow>
     distinct q \<and> next_ticket (lk m) = serving (lk m) + of_nat (length q) \<and>
     (\<forall>j < length q. q ! j < length (cpus m) \<and>
        ticket_of (cpus m ! (q ! j)) = Some (serving (lk m) + of_nat j)) \<and>
     (\<forall>c < length (cpus m). ticket_of (cpus m ! c) \<noteq> None \<longrightarrow> c \<in> set q) \<and>
     (\<forall>c < length (cpus m). \<forall>t. cpus m ! c = Hold t \<longrightarrow> q \<noteq> [] \<and> c = hd q) \<and>
     (\<forall>c < length (cpus m). \<forall>s k. cpus m ! c = TryLoaded s k \<or> cpus m ! c = TryReady s k \<longrightarrow>
        next_ticket (lk m) = s + of_nat k \<and> length q \<le> k)"

lemma lock_invD:
  assumes "lock_inv q m"
  shows "distinct q" "next_ticket (lk m) = serving (lk m) + of_nat (length q)"
    "j < length q \<Longrightarrow> q ! j < length (cpus m)"
    "j < length q \<Longrightarrow> ticket_of (cpus m ! (q ! j)) = Some (serving (lk m) + of_nat j)"
    "c < length (cpus m) \<Longrightarrow> ticket_of (cpus m ! c) = Some t \<Longrightarrow> c \<in> set q"
    "c < length (cpus m) \<Longrightarrow> cpus m ! c = Hold t \<Longrightarrow> q \<noteq> [] \<and> c = hd q"
    "c < length (cpus m) \<Longrightarrow> cpus m ! c = TryLoaded s k \<or> cpus m ! c = TryReady s k \<Longrightarrow>
      next_ticket (lk m) = s + of_nat k \<and> length q \<le> k"
  using assms unfolding lock_inv_def by blast+

lemma lock_invI:
  assumes "distinct q" "next_ticket (lk m) = serving (lk m) + of_nat (length q)"
    "\<And>j. j < length q \<Longrightarrow> q ! j < length (cpus m) \<and>
      ticket_of (cpus m ! (q ! j)) = Some (serving (lk m) + of_nat j)"
    "\<And>c. c < length (cpus m) \<Longrightarrow> ticket_of (cpus m ! c) \<noteq> None \<Longrightarrow> c \<in> set q"
    "\<And>c t. c < length (cpus m) \<Longrightarrow> cpus m ! c = Hold t \<Longrightarrow> q \<noteq> [] \<and> c = hd q"
    "\<And>c s k. c < length (cpus m) \<Longrightarrow> cpus m ! c = TryLoaded s k \<or> cpus m ! c = TryReady s k \<Longrightarrow>
      next_ticket (lk m) = s + of_nat k \<and> length q \<le> k"
  shows "lock_inv q m"
  using assms unfolding lock_inv_def by blast

lemma queue_bound:
  assumes "lock_inv q m"
  shows "length q \<le> length (cpus m)"
proof -
  have "set q \<subseteq> {..<length (cpus m)}"
    using lock_invD(3) [OF assms] by (auto simp: in_set_conv_nth)
  then have "card (set q) \<le> length (cpus m)" using card_mono [of "{..<length (cpus m)}" "set q"] by simp
  then show ?thesis using distinct_card [OF lock_invD(1) [OF assms]] by simp
qed

lemma outstanding_queue:
  "lock_inv q m \<Longrightarrow> length (cpus m) < 2 ^ 32 \<Longrightarrow> outstanding (lk m) = length q"
  using queue_bound [of q m] lock_invD(2) [of q m] unat_of_nat_small [where 'a = 32, of "length q"]
  by (simp add: outstanding_def)

lemma of_nat_u32_eq: "j < 2 ^ 32 \<Longrightarrow> k < 2 ^ 32 \<Longrightarrow> (of_nat j :: u32) = of_nat k \<longleftrightarrow> j = k"
  using unat_of_nat_small [where 'a = 32, of j] unat_of_nat_small [where 'a = 32, of k]
  by (auto simp: word_unat_eq_iff)

lemma ticket_turn:
  assumes "lock_inv q m" "length (cpus m) < 2 ^ 32" "c < length (cpus m)" "ticket_of (cpus m ! c) = Some (serving (lk m))"
  shows "q \<noteq> []" "c = hd q"
proof -
  have "c \<in> set q" using lock_invD(5) [OF assms(1,3,4)] .
  then obtain j where j: "j < length q" "c = q ! j" by (auto simp: in_set_conv_nth)
  have "serving (lk m) + of_nat j = serving (lk m) + of_nat 0"
    using lock_invD(4) [OF assms(1) j(1)] j(2) assms(4) by simp
  then have "(of_nat j :: u32) = of_nat 0" by simp
  then have "j = 0"
    using of_nat_u32_eq [of j 0] j(1) queue_bound [OF assms(1)] assms(2) by simp
  with j show "q \<noteq> []" "c = hd q" by (auto simp: hd_conv_nth)
qed

lemma ticket_of_count_issue [simp]: "ticket_of (count_issue p) = ticket_of p"
  by (cases p) simp_all

lemma count_issue_eq [simp]:
  "count_issue p = Hold t \<longleftrightarrow> p = Hold t"
  "count_issue p = TryLoaded s k \<longleftrightarrow> (\<exists>j. k = Suc j \<and> p = TryLoaded s j)"
  "count_issue p = TryReady s k \<longleftrightarrow> (\<exists>j. k = Suc j \<and> p = TryReady s j)"
  by (cases p; auto)+

text \<open>A step that gives and takes no ticket.\<close>

lemma lock_inv_outside:
  assumes "lock_inv q m" "ticket_of p = None" "ticket_of (cpus m ! c) = None"
    "\<And>s k. p = TryLoaded s k \<or> p = TryReady s k \<Longrightarrow> next_ticket (lk m) = s + of_nat k \<and> length q \<le> k"
  shows "lock_inv q (m\<lparr>cpus := (cpus m)[c := p]\<rparr>)"
proof -
  have "ticket_of ((cpus m)[c := p] ! d) = ticket_of (cpus m ! d)" if "d < length (cpus m)" for d
    using assms(2,3) that by (cases "d = c") simp_all
  moreover have "q \<noteq> [] \<and> d = hd q" if "d < length (cpus m)" "(cpus m)[c := p] ! d = Hold t" for d t
    using that assms(2) lock_invD(6) [OF assms(1), of d t] by (cases "d = c") auto
  moreover have "next_ticket (lk m) = s + of_nat k \<and> length q \<le> k"
    if "d < length (cpus m)" "(cpus m)[c := p] ! d = TryLoaded s k \<or> (cpus m)[c := p] ! d = TryReady s k" for d s k
    using that assms(4) [of s k] lock_invD(7) [OF assms(1), of d s k] by (cases "d = c") auto
  ultimately show ?thesis
    using lock_invD(1-5) [OF assms(1)] unfolding lock_inv_def by auto
qed

text \<open>A ticket is issued to a processor that had none.\<close>

lemma lock_inv_issue:
  assumes "lock_inv q m" "c < length (cpus m)" "ticket_of (cpus m ! c) = None"
    "p = Spin (next_ticket (lk m)) \<or> p = Hold (next_ticket (lk m)) \<and> q = []"
  shows "lock_inv (q @ [c]) \<lparr>lk = (lk m)\<lparr>next_ticket := next_ticket (lk m) + 1\<rparr>,
    cpus = (map count_issue (cpus m))[c := p]\<rparr>"
proof -
  note inv = lock_invD [OF assms(1)]
  have cq: "c \<notin> set q"
    using inv(4) assms(3) by (auto simp: in_set_conv_nth)
  have t: "ticket_of p = Some (next_ticket (lk m))" using assms(4) by auto
  have q: "(q @ [c]) ! j < length (cpus m) \<and>
      ticket_of ((map count_issue (cpus m))[c := p] ! ((q @ [c]) ! j)) = Some (serving (lk m) + of_nat j)"
    if "j < length (q @ [c])" for j
  proof (cases "j < length q")
    case True
    then have "q ! j \<noteq> c" using cq by (metis nth_mem)
    with True inv(3,4) show ?thesis by (simp add: nth_append)
  next
    case False
    with that have "j = length q" by simp
    with assms(2) t inv(2) show ?thesis by simp
  qed
  have hold: "q @ [c] \<noteq> [] \<and> d = hd (q @ [c])"
    if "d < length (cpus m)" "(map count_issue (cpus m))[c := p] ! d = Hold u" for d u
    using that assms(4) inv(6) [of d u] by (cases "d = c") (auto simp: hd_append)
  have mem: "d \<in> set (q @ [c])"
    if "d < length (cpus m)" "ticket_of ((map count_issue (cpus m))[c := p] ! d) \<noteq> None" for d
    using that inv(5) [of d] by (cases "d = c") auto
  have window: "next_ticket (lk m) + 1 = s + of_nat k \<and> length (q @ [c]) \<le> k"
    if "d < length (cpus m)" "(map count_issue (cpus m))[c := p] ! d = TryLoaded s k \<or>
      (map count_issue (cpus m))[c := p] ! d = TryReady s k" for d s k
    using that assms(4) inv(7) [of d s "k - 1"] by (cases "d = c") (auto simp: add.assoc)
  show ?thesis
    by (rule lock_invI) (use inv(1,2) cq q hold mem window in \<open>simp_all add: add.assoc\<close>)
qed

lemma lock_inv_release:
  assumes "lock_inv q m" "length (cpus m) < 2 ^ 32" "c < length (cpus m)" "cpus m ! c = Hold t"
  shows "lock_inv (tl q) \<lparr>lk = unlock (lk m), cpus = (cpus m)[c := Idle]\<rparr>"
proof -
  note inv = lock_invD [OF assms(1)]
  obtain q' where q: "q = c # q'" using inv(6) [OF assms(3,4)] by (cases q) auto
  have j: "q' ! j < length (cpus m) \<and> q' ! j \<noteq> c \<and>
      ticket_of (cpus m ! (q' ! j)) = Some (serving (lk m) + 1 + of_nat j)" if "j < length q'" for j
    using inv(1) inv(3,4) [of "Suc j"] that by (auto simp: q add.assoc)
  have hold: "d = c" if "d < length (cpus m)" "cpus m ! d = Hold u" for d u
    using inv(6) [OF that] by (simp add: q)
  have rest: "d \<in> set q'" if "d < length (cpus m)" "d \<noteq> c" "ticket_of (cpus m ! d) \<noteq> None" for d
    using inv(5) [of d] that by (auto simp: q)
  have j': "q' ! j < length (cpus m) \<and>
      ticket_of ((cpus m)[c := Idle] ! (q' ! j)) = Some (serving (lk m) + 1 + of_nat j)" if "j < length q'" for j
    using j [OF that] by (metis nth_list_update_neq)
  have mem: "d \<in> set q'" if "d < length (cpus m)" "ticket_of ((cpus m)[c := Idle] ! d) \<noteq> None" for d
    using that rest [of d] by (cases "d = c") auto
  have none: "q' \<noteq> [] \<and> d = hd q'" if "d < length (cpus m)" "(cpus m)[c := Idle] ! d = Hold u" for d u
    using that assms(3) hold by (metis nth_list_update_eq nth_list_update_neq pc.distinct(3))
  have window: "next_ticket (lk m) = s + of_nat k \<and> length q' \<le> k"
    if "d < length (cpus m)" "(cpus m)[c := Idle] ! d = TryLoaded s k \<or> (cpus m)[c := Idle] ! d = TryReady s k" for d s k
    using that inv(7) [of d s k] by (cases "d = c") (auto simp: q)
  show ?thesis
    unfolding q unlock_def list.sel
    by (rule lock_invI) (use inv(1,2) j' mem none window in \<open>simp_all add: q add.assoc\<close>)
qed

text \<open>Each step is a step of the queue: nothing, one processor joins at the end, or the head leaves.\<close>

definition queue_step :: "machine \<Rightarrow> nat list \<Rightarrow> nat list \<Rightarrow> bool" where
  "queue_step m q q' \<longleftrightarrow> q' = q \<or>
     (\<exists>c < length (cpus m). ticket_of (cpus m ! c) = None \<and> q' = q @ [c]) \<or>
     (q \<noteq> [] \<and> (\<exists>t. cpus m ! hd q = Hold t) \<and> q' = tl q)"

lemma lock_inv_win:
  assumes "lock_inv q m" "c < length (cpus m)" "cpus m ! c = TryReady s k" "k < 2 ^ 32" "next_ticket (lk m) = s"
  shows "q = []"
proof -
  have "of_nat k = (0 :: u32)" "length q \<le> k"
    using lock_invD(7) [OF assms(1,2), of s k] assms(3,5) by simp_all
  with of_nat_u32_eq [of k 0] assms(4) show ?thesis by simp
qed

lemma cpu_step_queue:
  assumes "cpu_step m m'" "lock_inv q m" "length (cpus m) < 2 ^ 32" "\<forall>p \<in> set (cpus m). window_ok p"
  shows "\<exists>q'. lock_inv q' m' \<and> queue_step m q q'"
  using assms(1)
proof (cases rule: cpu_step.cases)
  case (take c ticket l')
  have "lock_inv (q @ [c]) m'"
    using lock_inv_issue [OF assms(2) take(2), of "Spin ticket"] take by (auto simp: lock_take_def)
  with take show ?thesis unfolding queue_step_def by (intro exI [of _ "q @ [c]"]) auto
next
  case (turn c ticket)
  note head = ticket_turn [OF assms(2,3) turn(2)]
  have hd: "q \<noteq> []" "c = hd q" using head turn(3,4) by (simp_all add: lock_turn_def)
  have tk: "ticket_of ((cpus m)[c := Hold ticket] ! d) = ticket_of (cpus m ! d)" for d
    using turn(2,3) by (metis nth_list_update ticket_of.simps(1,2))
  have "q \<noteq> [] \<and> d = hd q" if "d < length (cpus m)" "(cpus m)[c := Hold ticket] ! d = Hold t" for d t
    using that hd lock_invD(6) [OF assms(2)] by (metis nth_list_update_neq)
  moreover have "next_ticket (lk m) = s + of_nat k \<and> length q \<le> k"
    if "d < length (cpus m)" "(cpus m)[c := Hold ticket] ! d = TryLoaded s k \<or>
      (cpus m)[c := Hold ticket] ! d = TryReady s k" for d s k
    using that lock_invD(7) [OF assms(2)] turn(2) by (metis nth_list_update pc.distinct)
  ultimately have "lock_inv q m'"
    unfolding turn(1) by (intro lock_invI) (use lock_invD(1-5) [OF assms(2)] tk in \<open>simp_all, blast+\<close>)
  then show ?thesis unfolding queue_step_def by blast
next
  case (relax c ticket)
  with assms(2) show ?thesis unfolding queue_step_def by blast
next
  case (release c ticket)
  have "lock_inv (tl q) m'" using lock_inv_release [OF assms(2,3) release(2,3)] release(1) by simp
  with lock_invD(6) [OF assms(2) release(2,3)] release(3) show ?thesis unfolding queue_step_def by blast
next
  case (try_serving c)
  have "lock_inv q m'"
    unfolding try_serving(1) using outstanding_queue [OF assms(2,3)] lock_invD(2) [OF assms(2)] try_serving(3)
    by (intro lock_inv_outside [OF assms(2)]) auto
  then show ?thesis unfolding queue_step_def by blast
next
  case (try_busy c s k)
  have "lock_inv q m'" unfolding try_busy(1) using try_busy(3) by (intro lock_inv_outside [OF assms(2)]) auto
  then show ?thesis unfolding queue_step_def by blast
next
  case (try_next c s k)
  have "lock_inv q m'" unfolding try_next(1)
    using try_next(3) lock_invD(7) [OF assms(2) try_next(2), of s k] by (intro lock_inv_outside [OF assms(2)]) auto
  then show ?thesis unfolding queue_step_def by blast
next
  case (try_fail c s k l')
  have "lock_inv q m'" unfolding try_fail(1) using try_fail(3) by (intro lock_inv_outside [OF assms(2)]) auto
  then show ?thesis unfolding queue_step_def by blast
next
  case (try_win c s k l')
  have s: "next_ticket (lk m) = s" "l' = (lk m)\<lparr>next_ticket := next_ticket (lk m) + 1\<rparr>"
    using try_win(4) by (auto simp: try_lock_exchange_def split: if_splits)
  have "k < 2 ^ 32" using assms(4) try_win(2,3) by (metis nth_mem window_ok.simps(2))
  from lock_inv_win [OF assms(2) try_win(2,3) this s(1)] have q: "q = []" .
  have "lock_inv (q @ [c]) m'"
    using lock_inv_issue [OF assms(2) try_win(2), of "Hold s"] try_win(1,3) s q by simp
  with try_win show ?thesis unfolding queue_step_def by (intro exI [of _ "q @ [c]"]) auto
qed

lemma cpu_step_length: "cpu_step m m' \<Longrightarrow> length (cpus m') = length (cpus m)"
  by (induction rule: cpu_step.induct) simp_all

lemma lock_inv_boot: "lock_inv [] \<lparr>lk = TicketSpinLock_init, cpus = replicate n Idle\<rparr>"
  by (rule lock_invI) (simp_all add: TicketSpinLock_init_def)

lemma lock_run_inv:
  assumes "lock_run n m" "n < 2 ^ 32"
  shows "length (cpus m) = n" "\<forall>p \<in> set (cpus m). window_ok p" "\<exists>q. lock_inv q m"
proof -
  have "length (cpus m) = n \<and> (\<forall>p \<in> set (cpus m). window_ok p) \<and> (\<exists>q. lock_inv q m)"
    using assms(1)
  proof induction
    case boot
    then show ?case using lock_inv_boot by auto
  next
    case (step m m')
    then obtain q where "lock_inv q m" by blast
    with step assms(2) cpu_step_queue [OF step(2), of q] cpu_step_length [OF step(2)] show ?case by auto
  qed
  then show "length (cpus m) = n" "\<forall>p \<in> set (cpus m). window_ok p" "\<exists>q. lock_inv q m" by blast+
qed

lemma ticket_head:
  assumes "lock_inv q m" "q \<noteq> []"
  shows "hd q < length (cpus m)"
    "cpus m ! hd q = Hold (serving (lk m)) \<or> cpus m ! hd q = Spin (serving (lk m))"
proof -
  have q: "hd q = q ! 0" "0 < length q" using assms(2) by (simp_all add: hd_conv_nth)
  show "hd q < length (cpus m)" using lock_invD(3) [OF assms(1) q(2)] q by simp
  have "ticket_of (cpus m ! hd q) = Some (serving (lk m))" using lock_invD(4) [OF assms(1) q(2)] q by simp
  then show "cpus m ! hd q = Hold (serving (lk m)) \<or> cpus m ! hd q = Spin (serving (lk m))"
    by (cases "cpus m ! hd q") simp_all
qed

lemma schedule_lock_run:
  assumes "schedule n ms" "\<forall>m \<in> set ms. \<forall>p \<in> set (cpus m). window_ok p"
  shows "lock_run n (hd ms)"
  using assms
proof (induction rule: schedule.induct)
  case boot
  show ?case by (simp add: lock_run.boot)
next
  case (step m ms m')
  then have "lock_run n m" by simp
  from lock_run.step [OF this step.hyps(2)] step.prems show ?case by simp
qed

text \<open>
  The restriction to the window is needed.  One processor is held up before its compare-and-exchange
  while the other one takes the lock \<open>2 ^ 32\<close> times; then the ticket it compares with has come round, and both
  hold the lock.
\<close>

lemma delayed_try_lock:
  "\<exists>ms. schedule 2 (\<lparr>lk = \<lparr>next_ticket = of_nat k, serving = of_nat k\<rparr>, cpus = [TryReady 0 k, Idle]\<rparr> # ms)"
proof (induction k)
  case 0
  let ?b = "\<lparr>lk = TicketSpinLock_init, cpus = replicate 2 Idle\<rparr>"
  let ?m = "\<lparr>lk = \<lparr>next_ticket = 0, serving = 0\<rparr>, cpus = [TryLoaded 0 0, Idle]\<rparr>"
  have "cpu_step ?b ?m"
    using cpu_step.try_serving [of 0 ?b] by (simp add: TicketSpinLock_init_def outstanding_def numeral_2_eq_2)
  moreover have "cpu_step ?m (?m\<lparr>cpus := [TryReady 0 0, Idle]\<rparr>)"
    using cpu_step.try_next [of 0 ?m] by simp
  ultimately have "schedule 2 [?m\<lparr>cpus := [TryReady 0 0, Idle]\<rparr>, ?m, ?b]"
    by (intro schedule.step schedule.boot)
  then show ?case by auto
next
  case (Suc k)
  let ?l = "\<lparr>next_ticket = of_nat (Suc k), serving = of_nat k\<rparr> :: TicketSpinLock"
  let ?m = "\<lparr>lk = \<lparr>next_ticket = of_nat k, serving = of_nat k\<rparr>, cpus = [TryReady 0 k, Idle]\<rparr>"
  let ?a = "\<lparr>lk = ?l, cpus = [TryReady 0 (Suc k), Spin (of_nat k)]\<rparr>"
  have "cpu_step ?m ?a" using cpu_step.take [of 1 ?m] by (simp add: lock_take_def add.commute)
  moreover have "cpu_step ?a (?a\<lparr>cpus := [TryReady 0 (Suc k), Hold (of_nat k)]\<rparr>)"
    using cpu_step.turn [of 1 ?a] by (simp add: lock_turn_def)
  moreover have "cpu_step (?a\<lparr>cpus := [TryReady 0 (Suc k), Hold (of_nat k)]\<rparr>)
      \<lparr>lk = \<lparr>next_ticket = of_nat (Suc k), serving = of_nat (Suc k)\<rparr>, cpus = [TryReady 0 (Suc k), Idle]\<rparr>"
    using cpu_step.release [of 1 "?a\<lparr>cpus := [TryReady 0 (Suc k), Hold (of_nat k)]\<rparr>"]
    by (simp add: unlock_def add.commute)
  ultimately show ?case using Suc.IH schedule.step by blast
qed

lemma try_lock_window_needed: "\<exists>m ms t u. schedule 2 (m # ms) \<and> cpus m ! 0 = Hold t \<and> cpus m ! 1 = Hold u"
proof -
  define k :: nat where "k = 2 ^ 32 - 1"
  have "of_nat (Suc k) = (of_nat (2 ^ 32) :: u32)" unfolding k_def by (rule arg_cong [of _ _ of_nat]) simp
  then have z: "(of_nat (Suc k) :: u32) = 0" by simp
  let ?m = "\<lparr>lk = \<lparr>next_ticket = of_nat k, serving = of_nat k\<rparr>, cpus = [TryReady 0 k, Idle]\<rparr>"
  let ?a = "\<lparr>lk = \<lparr>next_ticket = 0, serving = of_nat k\<rparr>, cpus = [TryReady 0 (Suc k), Spin (of_nat k)]\<rparr>"
  let ?h = "?a\<lparr>cpus := [TryReady 0 (Suc k), Hold (of_nat k)]\<rparr>"
  have "cpu_step ?m ?a" using cpu_step.take [of 1 ?m] z by (simp add: lock_take_def add.commute)
  moreover have "cpu_step ?a ?h" using cpu_step.turn [of 1 ?a] by (simp add: lock_turn_def)
  moreover have "cpu_step ?h \<lparr>lk = \<lparr>next_ticket = 1, serving = of_nat k\<rparr>, cpus = [Hold 0, Hold (of_nat k)]\<rparr>"
    using cpu_step.try_win [of 0 ?h] by (simp add: try_lock_exchange_def)
  moreover obtain ms where "schedule 2 (?m # ms)" using delayed_try_lock by blast
  ultimately have "schedule 2 (\<lparr>lk = \<lparr>next_ticket = 1, serving = of_nat k\<rparr>, cpus = [Hold 0, Hold (of_nat k)]\<rparr> # ?h # ?a # ?m # ms)"
    by (intro schedule.step)
  then show ?thesis by fastforce
qed

text \<open>
  C16.  Mutual exclusion.  However the atomic accesses of fewer than \<open>2 ^ 32\<close> processors interleave, and
  although tickets wrap around, at most one processor holds the lock, and while one holds it no other
  processor's ticket is being served; provided that no processor stays inside one \<open>try_lock\<close> while
  \<open>2 ^ 32\<close> tickets are outstanding or issued.  A schedule of \<open>lock\<close> and \<open>unlock\<close> alone always satisfies the proviso.
\<close>

theorem ticket_lock_mutex:
  assumes "schedule n (m # ms)" "n < 2 ^ 32" "\<forall>k \<in> set (m # ms). \<forall>p \<in> set (cpus k). window_ok p"
  shows "(\<forall>c < n. \<forall>d < n. \<forall>t u. cpus m ! c = Hold t \<and> cpus m ! d = Hold u \<longrightarrow> c = d) \<and>
    (\<forall>c < n. \<forall>d < n. \<forall>t u. cpus m ! c = Hold t \<and> cpus m ! d = Spin u \<longrightarrow> \<not> lock_turn u (lk m))"
proof -
  have "lock_run n m" using schedule_lock_run [OF assms(1,3)] by simp
  note run = lock_run_inv [OF this assms(2)]
  obtain q where q: "lock_inv q m" using run(3) by blast
  have hold: "q \<noteq> [] \<and> c = hd q" if "c < n" "cpus m ! c = Hold t" for c t
    using lock_invD(6) [OF q, of c t] that run(1) by simp
  have "\<not> lock_turn u (lk m)" if "c < n" "d < n" "cpus m ! c = Hold t" "cpus m ! d = Spin u" for c d t u
  proof
    assume "lock_turn u (lk m)"
    then have "d = hd q" using ticket_turn(2) [OF q, of d] that run(1) assms(2) by (simp add: lock_turn_def)
    with hold [OF that(1,3)] that(3,4) show False by simp
  qed
  with hold show ?thesis by metis
qed

text \<open>
  C17.  First come, first served.  The lock refines a queue of processors: every step of a processor
  leaves the queue alone, appends a processor that had no ticket, or removes the head after it held
  the lock.  Whenever the queue is not empty its head holds the lock or its spin loop ends at its
  next load, so the processor that waits at position \<open>j\<close> enters after exactly \<open>j\<close> releases.
\<close>

theorem ticket_lock_fifo:
  assumes "lock_run n m" "n < 2 ^ 32"
  shows "\<exists>q. lock_inv q m \<and>
    (\<forall>m'. cpu_step m m' \<longrightarrow> (\<exists>q'. lock_inv q' m' \<and> queue_step m q q')) \<and>
    (q \<noteq> [] \<longrightarrow> (\<exists>t. cpus m ! hd q = Hold t) \<or> (\<exists>t. cpus m ! hd q = Spin t \<and> lock_turn t (lk m)))"
proof -
  note run = lock_run_inv [OF assms]
  obtain q where q: "lock_inv q m" using run(3) by blast
  have "\<exists>q'. lock_inv q' m' \<and> queue_step m q q'" if "cpu_step m m'" for m'
    using cpu_step_queue [OF that q] run(1,2) assms(2) by simp
  moreover have "(\<exists>t. cpus m ! hd q = Hold t) \<or> (\<exists>t. cpus m ! hd q = Spin t \<and> lock_turn t (lk m))" if "q \<noteq> []"
    using ticket_head(2) [OF q that] by (auto simp: lock_turn_def)
  ultimately show ?thesis using q by blast
qed

definition example_contended :: machine where
  "example_contended = \<lparr>lk = \<lparr>next_ticket = 2, serving = 0\<rparr>, cpus = [Hold 0, Spin 1]\<rparr>"

lemma example_contended_schedule:
  obtains ms where "schedule 2 (example_contended # ms)"
    "\<forall>k \<in> set (example_contended # ms). \<forall>p \<in> set (cpus k). window_ok p"
proof -
  let ?b = "\<lparr>lk = TicketSpinLock_init, cpus = replicate 2 Idle\<rparr>"
  let ?m1 = "\<lparr>lk = \<lparr>next_ticket = 1, serving = 0\<rparr>, cpus = [Spin 0, Idle]\<rparr>"
  let ?m2 = "\<lparr>lk = \<lparr>next_ticket = 2, serving = 0\<rparr>, cpus = [Spin 0, Spin 1]\<rparr>"
  have s1: "cpu_step ?b ?m1"
    using cpu_step.take [of 0 ?b] by (simp add: TicketSpinLock_init_def lock_take_def numeral_2_eq_2)
  have s2: "cpu_step ?m1 ?m2"
    using cpu_step.take [of 1 ?m1] by (simp add: lock_take_def)
  have s3: "cpu_step ?m2 example_contended"
    using cpu_step.turn [of 0 ?m2] by (simp add: lock_turn_def example_contended_def)
  show thesis
  proof (rule that)
    show "schedule 2 [example_contended, ?m2, ?m1, ?b]" by (intro schedule.step schedule.boot s1 s2 s3)
  qed (simp add: example_contended_def)
qed

lemma example_contended_run: "lock_run 2 example_contended"
  by (rule example_contended_schedule) (drule schedule_lock_run, simp_all)

theorem ticket_lock_mutex_witness: "\<not> lock_turn 1 (lk example_contended)"
proof -
  obtain ms where ms: "schedule 2 (example_contended # ms)"
      "\<forall>k \<in> set (example_contended # ms). \<forall>p \<in> set (cpus k). window_ok p"
    by (rule example_contended_schedule)
  have c: "cpus example_contended ! 0 = Hold 0" "cpus example_contended ! 1 = Spin 1"
    by (simp_all add: example_contended_def)
  have "\<forall>c < 2. \<forall>d < 2. \<forall>t u. cpus example_contended ! c = Hold t \<and> cpus example_contended ! d = Spin u \<longrightarrow>
      \<not> lock_turn u (lk example_contended)"
    using ticket_lock_mutex [OF ms(1) _ ms(2)] by simp
  from this [rule_format, of 0 1 0 1] c show ?thesis by simp
qed

theorem ticket_lock_fifo_witness:
  "\<exists>q. lock_inv q example_contended \<and>
    (\<forall>m'. cpu_step example_contended m' \<longrightarrow> (\<exists>q'. lock_inv q' m' \<and> queue_step example_contended q q'))"
  using ticket_lock_fifo [OF example_contended_run] by auto

end
