(* ===== verification/Net_Bytes.thy ===== *)
theory Net_Bytes
  imports Kurogane_Prelude
begin

text \<open>
  Byte buffers, big-endian fields and the Internet checksum of the network code (the helpers of
  \<open>kernel/net/network.cpp\<close> and \<open>kernel/net/protocols.cpp\<close>).

  A pointer into memory is the list of the bytes from there on, and a length argument is a separate
  number, as in the code: a parser that looked past its length argument would be visible in the
  model.  Writing through a pointer updates the list, and a write past its end has no effect; that the
  code never does so is proved.  The checksum is related to a reference: the ones' complement of the
  sum of the 16-bit words, reduced modulo 65535.
\<close>

section \<open>Buffers\<close>

text \<open>\<open>p + k\<close> for a pointer \<open>p\<close> is \<open>drop k p\<close>.\<close>

definition clear_bytes :: "nat \<Rightarrow> u8 list \<Rightarrow> u8 list" where
  "clear_bytes count buffer = replicate (min count (length buffer)) 0 @ drop count buffer"

fun copy_bytes :: "nat \<Rightarrow> u8 list \<Rightarrow> nat \<Rightarrow> u8 list \<Rightarrow> u8 list" where
  "copy_bytes k source 0 buffer = buffer"
| "copy_bytes k source (Suc n) buffer = (copy_bytes k source n buffer)[k + n := source ! n]"

lemma length_clear_bytes [simp]: "length (clear_bytes n b) = length b"
  by (simp add: clear_bytes_def)

lemma length_copy_bytes [simp]: "length (copy_bytes k s n b) = length b"
  by (induction n) simp_all

lemma clear_bytes_eq: "n \<le> length b \<Longrightarrow> clear_bytes n b = replicate n 0 @ drop n b"
  by (simp add: clear_bytes_def min_def)

lemma copy_bytes_append:
  "length p = k \<Longrightarrow> n \<le> length s \<Longrightarrow> n \<le> length r \<Longrightarrow> copy_bytes k s n (p @ r) = (p @ take n s) @ drop n r"
proof (induction n)
  case (Suc n)
  then have "copy_bytes k s (Suc n) (p @ r) = ((p @ take n s) @ drop n r)[k + n := s ! n]" by simp
  also have "drop n r = r ! n # drop (Suc n) r" using Suc.prems by (simp add: Cons_nth_drop_Suc)
  also have "((p @ take n s) @ r ! n # drop (Suc n) r)[k + n := s ! n] = (p @ take n s) @ s ! n # drop (Suc n) r"
    using Suc.prems by (simp add: list_update_append)
  finally show ?case using Suc.prems by (simp add: take_Suc_conv_app_nth)
qed simp

lemma copy_bytes_eq:
  "k + n \<le> length b \<Longrightarrow> n \<le> length s \<Longrightarrow> copy_bytes k s n b = take k b @ take n s @ drop (k + n) b"
  using copy_bytes_append [of "take k b" k n s "drop k b"] by (simp add: add.commute)

text \<open>Copying a range onto itself.\<close>

lemma copy_bytes_self: "k + n \<le> length b \<Longrightarrow> copy_bytes k (drop k b) n b = b"
  by (simp add: copy_bytes_eq) (metis append_take_drop_id drop_drop add.commute)

section \<open>Big-endian fields\<close>

definition read_be16 :: "u8 list option \<Rightarrow> u16" where
  "read_be16 data = (case data of None \<Rightarrow> 0 | Some d \<Rightarrow> push_bit 8 (ucast (d ! 0)) OR ucast (d ! 1))"

definition read_be32 :: "u8 list option \<Rightarrow> u32" where
  "read_be32 data =
     (case data of
        None \<Rightarrow> 0
      | Some d \<Rightarrow> push_bit 24 (ucast (d ! 0)) OR push_bit 16 (ucast (d ! 1)) OR push_bit 8 (ucast (d ! 2)) OR ucast (d ! 3))"

definition write_be16 :: "u16 \<Rightarrow> u8 list option \<Rightarrow> u8 list option" where
  "write_be16 v data = (case data of None \<Rightarrow> None | Some d \<Rightarrow> Some (d[0 := ucast (drop_bit 8 v), 1 := ucast v]))"

definition write_be32 :: "u32 \<Rightarrow> u8 list option \<Rightarrow> u8 list option" where
  "write_be32 v data =
     (case data of
        None \<Rightarrow> None
      | Some d \<Rightarrow> Some (d[0 := ucast (drop_bit 24 v), 1 := ucast (drop_bit 16 v), 2 := ucast (drop_bit 8 v), 3 := ucast v]))"

text \<open>\<open>read_be16(p + k)\<close>, \<open>write_be16(p + k, v)\<close> and the same for 32 bits.\<close>

abbreviation be16 :: "u8 list \<Rightarrow> nat \<Rightarrow> u16" where "be16 p k \<equiv> read_be16 (Some (drop k p))"
abbreviation be32 :: "u8 list \<Rightarrow> nat \<Rightarrow> u32" where "be32 p k \<equiv> read_be32 (Some (drop k p))"

definition put16 :: "nat \<Rightarrow> u16 \<Rightarrow> u8 list \<Rightarrow> u8 list" where
  "put16 k v p = take k p @ the (write_be16 v (Some (drop k p)))"

definition put32 :: "nat \<Rightarrow> u32 \<Rightarrow> u8 list \<Rightarrow> u8 list" where
  "put32 k v p = take k p @ the (write_be32 v (Some (drop k p)))"

definition bytes16 :: "u16 \<Rightarrow> u8 list" where
  "bytes16 v = [ucast (drop_bit 8 v), ucast v]"

definition bytes32 :: "u32 \<Rightarrow> u8 list" where
  "bytes32 v = [ucast (drop_bit 24 v), ucast (drop_bit 16 v), ucast (drop_bit 8 v), ucast v]"

lemma length_put [simp]:
  "length (put16 k v p) = length p" "length (put32 k w p) = length p" "length (bytes16 v) = 2" "length (bytes32 w) = 4"
  by (simp_all add: put16_def put32_def write_be16_def write_be32_def bytes16_def bytes32_def)

lemma list_update_Cons_numeral [simp]: "(x # xs)[numeral n := y] = x # xs[pred_numeral n := y]"
  by (simp add: numeral_eq_Suc)

lemma put16_append: "length p = k \<Longrightarrow> 2 \<le> length r \<Longrightarrow> put16 k v (p @ r) = (p @ bytes16 v) @ drop 2 r"
  by (cases r; cases "tl r") (auto simp: put16_def write_be16_def bytes16_def)

lemma put32_append: "length p = k \<Longrightarrow> 4 \<le> length r \<Longrightarrow> put32 k v (p @ r) = (p @ bytes32 v) @ drop 4 r"
proof -
  assume a: "length p = k" "4 \<le> length r"
  obtain b0 b1 b2 b3 t where "r = b0 # b1 # b2 # b3 # t"
    using a(2) by (auto simp: numeral_eq_Suc Suc_le_length_iff)
  with a(1) show ?thesis by (simp add: put32_def write_be32_def bytes32_def)
qed

lemma list_update_prefix: "length p = k \<Longrightarrow> 1 \<le> length r \<Longrightarrow> (p @ r)[k := x] = (p @ [x]) @ drop 1 r"
  by (cases r) (auto simp: list_update_append)

lemma read_bytes16: "read_be16 (Some (bytes16 v @ r)) = v"
  unfolding read_be16_def bytes16_def
  by (auto intro!: bit_word_eqI simp: bit_simps)

lemma read_bytes32: "read_be32 (Some (bytes32 v @ r)) = v"
proof -
  have "push_bit 24 (ucast (ucast (drop_bit 24 v) :: u8)) OR push_bit 16 (ucast (ucast (drop_bit 16 v) :: u8)) OR
      push_bit 8 (ucast (ucast (drop_bit 8 v) :: u8)) OR ucast (ucast v :: u8) = (v :: u32)"
  proof (rule bit_word_eqI)
    fix n
    assume "n < LENGTH(32)"
    then have "n < 8 \<or> 8 \<le> n \<and> n < 16 \<or> 16 \<le> n \<and> n < 24 \<or> 24 \<le> n \<and> n < 32" by auto
    then show "bit (push_bit 24 (ucast (ucast (drop_bit 24 v) :: u8)) OR push_bit 16 (ucast (ucast (drop_bit 16 v) :: u8)) OR
        push_bit 8 (ucast (ucast (drop_bit 8 v) :: u8)) OR ucast (ucast v :: u8) :: u32) n = bit v n"
      by (elim disjE conjE) (auto simp: bit_simps)
  qed
  then show ?thesis by (simp add: read_be32_def bytes32_def)
qed

text \<open>A field read depends on its own bytes only.\<close>

lemma be16_take: "k + 2 \<le> n \<Longrightarrow> n \<le> length p \<Longrightarrow> be16 (take n p) k = be16 p k"
  by (simp add: read_be16_def drop_take)

lemma be32_take: "k + 4 \<le> n \<Longrightarrow> n \<le> length p \<Longrightarrow> be32 (take n p) k = be32 p k"
  by (simp add: read_be32_def drop_take)

lemma unat_read_be16: "unat (read_be16 (Some (a # b # r))) = unat a * 256 + unat b"
proof -
  have "push_bit 8 (ucast a) OR (ucast b :: u16) = push_bit 8 (ucast a) + ucast b"
    by (rule disjunctive_add [symmetric]) (auto simp: bit_simps dest: bit_imp_le_length)
  moreover have "unat (push_bit 8 (ucast a :: u16)) = unat a * 256"
    using unat_u8_less [of a] by (simp add: push_bit_eq_mult unat_mult_no_wrap unsigned_ucast_eq take_bit_nat_eq_self)
  moreover have "unat (ucast b :: u16) = unat b" using unat_u8_less [of b] by (simp add: unsigned_ucast_eq take_bit_nat_eq_self)
  ultimately show ?thesis
    using unat_u8_less [of a] unat_u8_less [of b]
    by (simp add: read_be16_def unat_add_no_wrap)
qed

section \<open>Checksums\<close>

text \<open>The loop \<^verbatim>\<open>while ((sum >> 16) != 0) sum = (sum & 0xffff) + (sum >> 16);\<close>\<close>

lemma unat_drop_16: "unat (drop_bit 16 s :: u32) = unat s div 65536"
  by (simp add: drop_bit_eq_div unat_div)

lemma unat_and_ffff: "unat (s AND 0xffff :: u32) = unat s mod 65536"
proof -
  have m: "(0xffff :: u32) = mask 16" by (simp add: mask_eq_exp_minus_1)
  show ?thesis unfolding m take_bit_eq_mask [symmetric] by (simp add: take_bit_eq_mod unat_mod)
qed

lemma unat_fold_step: "unat ((s AND 0xffff) + drop_bit 16 s :: u32) = unat s mod 65536 + unat s div 65536"
proof -
  have "unat s div 65536 < 65536" using unat_u32_less [of s] by simp
  moreover have "unat s mod 65536 < 65536" by simp
  ultimately have "unat s mod 65536 + unat s div 65536 < 2 ^ LENGTH(32)" unfolding len_num1 by simp
  then show ?thesis by (simp add: unat_add_no_wrap unat_and_ffff unat_drop_16)
qed

function checksum_fold :: "u32 \<Rightarrow> u32" where
  "checksum_fold s = (if drop_bit 16 s \<noteq> 0 then checksum_fold ((s AND 0xffff) + drop_bit 16 s) else s)"
  by auto
termination
proof (relation "measure unat")
  fix s :: u32
  assume "drop_bit 16 s \<noteq> 0"
  then have "0 < unat s div 65536" by (simp add: word_neq_0_unat unat_drop_16)
  moreover have "unat s = unat s div 65536 * 65536 + unat s mod 65536" by (rule div_mult_mod_eq [symmetric])
  ultimately have "unat s mod 65536 + unat s div 65536 < unat s" by linarith
  then show "((s AND 0xffff) + drop_bit 16 s, s) \<in> measure unat" by (simp add: unat_fold_step)
qed simp

declare checksum_fold.simps [simp del]

text \<open>The word loop of \<open>internet_checksum\<close>, which folds after every word, and that of \<open>checksum_add\<close>, which does not.\<close>

fun checksum_words :: "u32 \<Rightarrow> u8 list \<Rightarrow> u32" where
  "checksum_words s (a # b # rest) =
     (let s' = s + ucast (read_be16 (Some [a, b])) in checksum_words ((s' AND 0xffff) + drop_bit 16 s') rest)"
| "checksum_words s [a] = s + push_bit 8 (ucast a)"
| "checksum_words s [] = s"

definition internet_checksum :: "u8 list option \<Rightarrow> nat \<Rightarrow> u16" where
  "internet_checksum data n =
     (case data of
        None \<Rightarrow> if n \<noteq> 0 then 0xFFFF else ucast (NOT (checksum_fold 0))
      | Some d \<Rightarrow> ucast (NOT (checksum_fold (checksum_words 0 (take n d)))))"

fun checksum_add :: "u32 \<Rightarrow> u8 list \<Rightarrow> u32" where
  "checksum_add s (a # b # rest) = checksum_add (s + (push_bit 8 (ucast a) OR ucast b)) rest"
| "checksum_add s [a] = s + push_bit 8 (ucast a)"
| "checksum_add s [] = s"

definition checksum_finish :: "u32 \<Rightarrow> u16" where
  "checksum_finish s = ucast (NOT (checksum_fold s))"

section \<open>The reference checksum\<close>

text \<open>The sum of the big-endian words, a last odd byte being the upper half of a word.\<close>

fun word_sum :: "u8 list \<Rightarrow> nat" where
  "word_sum (a # b # rest) = unat a * 256 + unat b + word_sum rest"
| "word_sum [a] = unat a * 256"
| "word_sum [] = 0"

text \<open>\<open>ones_sum n\<close> is the ones' complement representation of \<open>n\<close>: 0 only for 0, otherwise in \<open>1, \<dots>, 65535\<close>.\<close>

definition ones_sum :: "nat \<Rightarrow> nat" where
  "ones_sum n = (if n = 0 then 0 else (n - 1) mod 65535 + 1)"

lemma ones_sum_le: "ones_sum n \<le> 65535"
  by (simp add: ones_sum_def Suc_le_eq)

lemma ones_sum_small: "n \<le> 65535 \<Longrightarrow> ones_sum n = n"
  by (simp add: ones_sum_def)

lemma ones_sum_0 [simp]: "ones_sum n = 0 \<longleftrightarrow> n = 0"
  by (simp add: ones_sum_def)

lemma ones_sum_mod: "ones_sum n mod 65535 = n mod 65535"
proof (cases n)
  case (Suc m)
  then have "ones_sum n = Suc (m mod 65535)" by (simp add: ones_sum_def)
  then show ?thesis using Suc by (simp only: mod_Suc_eq)
qed (simp add: ones_sum_def)

lemma ones_sum_cong: "m mod 65535 = n mod 65535 \<Longrightarrow> (m = 0 \<longleftrightarrow> n = 0) \<Longrightarrow> ones_sum m = ones_sum n"
proof (cases "n = 0")
  case False
  assume a: "m mod 65535 = n mod 65535" "m = 0 \<longleftrightarrow> n = 0"
  obtain m' n' where s: "m = Suc m'" "n = Suc n'" using False a(2) by (metis not0_implies_Suc)
  have "m' mod 65535 = n' mod 65535" using a(1) unfolding s mod_Suc by (auto split: if_splits)
  then show ?thesis by (simp add: ones_sum_def s)
qed auto

lemma ones_sum_full: "ones_sum n = 65535 \<longleftrightarrow> 0 < n \<and> n mod 65535 = 0"
proof
  assume f: "ones_sum n = 65535"
  then have "n \<noteq> 0" by (metis ones_sum_0 zero_neq_numeral)
  moreover have "n mod 65535 = 0" using ones_sum_mod [of n] by (simp add: f)
  ultimately show "0 < n \<and> n mod 65535 = 0" by simp
next
  assume n: "0 < n \<and> n mod 65535 = 0"
  then have "ones_sum n mod 65535 = 0" "ones_sum n \<noteq> 0" using ones_sum_mod [of n] by simp_all
  then obtain k where k: "ones_sum n = 65535 * k" "k \<noteq> 0" by auto
  with ones_sum_le [of n] have "k \<le> 1" by simp
  with k have "k = 1" by simp
  with k(1) show "ones_sum n = 65535" by simp
qed

lemma ones_sum_add: "ones_sum (ones_sum m + n) = ones_sum (m + n)"
  by (rule ones_sum_cong) (metis mod_add_left_eq ones_sum_mod, simp)

lemma ones_sum_fold: "ones_sum (n mod 65536 + n div 65536) = ones_sum n"
proof (rule ones_sum_cong)
  have n: "n = n div 65536 * 65536 + n mod 65536" by (rule div_mult_mod_eq [symmetric])
  then have "n = n mod 65536 + n div 65536 + 65535 * (n div 65536)" by linarith
  then show "(n mod 65536 + n div 65536) mod 65535 = n mod 65535" by (metis mod_mult_self2)
  show "(n mod 65536 + n div 65536 = 0) = (n = 0)" using n by linarith
qed

lemma unat_checksum_fold: "unat (checksum_fold s) = ones_sum (unat s)"
proof (induction s rule: checksum_fold.induct)
  case (1 s)
  show ?case
  proof (cases "drop_bit 16 s = 0")
    case True
    then have "unat s < 65536" using unat_drop_16 [of s] by simp
    with True show ?thesis by (subst checksum_fold.simps) (simp add: ones_sum_small)
  next
    case False
    with 1 show ?thesis by (subst checksum_fold.simps) (simp add: unat_fold_step ones_sum_fold)
  qed
qed

lemma unat_not_fold: "unat (ucast (NOT (checksum_fold s)) :: u16) = 65535 - ones_sum (unat s)"
proof -
  have b: "unat (checksum_fold s) \<le> 65535" by (simp add: unat_checksum_fold ones_sum_le)
  have "unat (- 1 :: u32) = 4294967295" by (simp add: unsigned_minus_1_eq_mask mask_eq_exp_minus_1)
  moreover have "NOT (checksum_fold s) = - 1 - checksum_fold s" by (simp add: not_eq_complement)
  ultimately have n: "unat (NOT (checksum_fold s)) = 4294967295 - unat (checksum_fold s)"
    by (simp only: unat_sub_no_wrap word_order.extremum)
  have c: "unat (ucast w :: u16) = unat w mod 65536" for w :: u32
    by (simp add: unsigned_ucast_eq take_bit_eq_mod)
  have e: "4294967295 - unat (checksum_fold s) = (65535 - unat (checksum_fold s)) + 65536 * 65535" using b by simp
  have l: "65535 - unat (checksum_fold s) < 65536" by simp
  show ?thesis unfolding c n e mod_mult_self2 mod_less [OF l] by (simp add: unat_checksum_fold)
qed

lemma unat_ucast_u16: "unat (ucast (v :: u16) :: u32) = unat v"
  using unat_u16_less [of v] by (simp add: unsigned_ucast_eq take_bit_nat_eq_self)

lemma unat_high_byte: "unat (push_bit 8 (ucast (a :: u8)) :: u32) = unat a * 256"
  using unat_u8_less [of a] by (simp add: push_bit_eq_mult unat_mult_no_wrap unsigned_ucast_eq take_bit_nat_eq_self)

lemma unat_u8_pair: "unat (push_bit 8 (ucast (a :: u8)) OR ucast (b :: u8) :: u32) = unat a * 256 + unat b"
proof -
  have "push_bit 8 (ucast a) OR (ucast b :: u32) = push_bit 8 (ucast a) + ucast b"
    by (rule disjunctive_add [symmetric]) (auto simp: bit_simps dest: bit_imp_le_length)
  moreover have "unat (ucast b :: u32) = unat b"
    using unat_u8_less [of b] by (simp add: unsigned_ucast_eq take_bit_nat_eq_self)
  ultimately show ?thesis
    using unat_u8_less [of a] unat_u8_less [of b] by (simp add: unat_add_no_wrap unat_high_byte)
qed

lemma byte_pair_less: "unat (a :: u8) * 256 + unat (b :: u8) < 65536"
  using unat_u8_less [of a] unat_u8_less [of b] by simp

lemma checksum_words_ones:
  "unat s \<le> 131070 \<Longrightarrow> ones_sum (unat (checksum_words s d)) = ones_sum (unat s + word_sum d)"
proof (induction s d rule: checksum_words.induct)
  case (1 s a b rest)
  define s' where "s' = s + ucast (read_be16 (Some [a, b]))"
  have u: "unat s' = unat s + (unat a * 256 + unat b)"
    using 1(2) byte_pair_less [of a b] unfolding s'_def
    by (simp add: unat_add_no_wrap unat_ucast_u16 unat_read_be16)
  let ?f = "(s' AND 0xffff) + drop_bit 16 s'"
  have f: "unat ?f = unat s' mod 65536 + unat s' div 65536" by (rule unat_fold_step)
  have "unat s' mod 65536 \<le> 65535" by simp
  moreover have "unat s' div 65536 \<le> 65535" using unat_u32_less [of s'] by simp
  ultimately have "unat ?f \<le> 131070" using f by linarith
  then have "ones_sum (unat (checksum_words ?f rest)) = ones_sum (unat ?f + word_sum rest)"
    using 1(1) unfolding s'_def by blast
  also have "\<dots> = ones_sum (unat s' + word_sum rest)"
    unfolding f by (metis ones_sum_add ones_sum_fold)
  finally show ?case by (simp add: Let_def s'_def [symmetric] u add.assoc)
next
  case (2 s a)
  then show ?case using byte_pair_less [of a 0] by (simp add: unat_add_no_wrap unat_high_byte)
qed simp

text \<open>The reference: complement of the ones' complement sum.\<close>

definition reference_checksum :: "u8 list \<Rightarrow> u16" where
  "reference_checksum d = of_nat (65535 - ones_sum (word_sum d))"

lemma unat_reference_checksum: "unat (reference_checksum d) = 65535 - ones_sum (word_sum d)"
  unfolding reference_checksum_def by (rule unat_of_nat_small) simp

lemma internet_checksum_eq: "internet_checksum (Some d) n = reference_checksum (take n d)"
  using checksum_words_ones [of 0 "take n d"]
  unfolding word_unat_eq_iff by (simp add: internet_checksum_def unat_not_fold unat_reference_checksum)

lemma word_sum_bound: "word_sum d \<le> 65535 * ((length d + 1) div 2)"
proof (induction d rule: word_sum.induct)
  case (1 a b rest)
  with byte_pair_less [of a b] show ?case by simp
next
  case (2 a)
  then show ?case using byte_pair_less [of a 0] by simp
qed simp

lemma unat_checksum_add:
  "unat s + word_sum d < 4294967296 \<Longrightarrow> unat (checksum_add s d) = unat s + word_sum d"
proof (induction s d rule: checksum_add.induct)
  case (1 s a b rest)
  then have "unat (s + (push_bit 8 (ucast a) OR ucast b)) = unat s + (unat a * 256 + unat b)"
    by (simp add: unat_add_no_wrap unat_u8_pair)
  with 1 show ?case by simp
next
  case (2 s a)
  then show ?case by (simp add: unat_add_no_wrap unat_high_byte)
qed simp

lemma checksum_finish_eq: "unat (checksum_finish s) = 65535 - ones_sum (unat s)"
  by (simp add: checksum_finish_def unat_not_fold)

lemma word_sum_append: "even (length d) \<Longrightarrow> word_sum (d @ e) = word_sum d + word_sum e"
  by (induction d rule: word_sum.induct) simp_all

text \<open>
  A message checks when its checksum is 0; that is so when its checksum field holds the checksum of the
  message with a zero field, or (which UDP needs) \<open>0xFFFF\<close> when that is 0.
\<close>

lemma reference_checksum_0: "reference_checksum d = 0 \<longleftrightarrow> 0 < word_sum d \<and> word_sum d mod 65535 = 0"
proof -
  have "reference_checksum d = 0 \<longleftrightarrow> ones_sum (word_sum d) = 65535"
    using unat_reference_checksum [of d] ones_sum_le [of "word_sum d"]
    by (metis diff_is_0_eq diff_self_eq_0 le_antisym unat_eq_zero)
  then show ?thesis by (simp add: ones_sum_full)
qed

lemma unat_read_bytes16: "word_sum (bytes16 v @ r) = unat v + word_sum r"
proof -
  have "unat (read_be16 (Some (bytes16 v @ r))) = unat v" by (simp only: read_bytes16)
  then show ?thesis by (simp add: bytes16_def unat_read_be16)
qed

lemma checksum_field_valid:
  assumes "even (length p)" "c = reference_checksum (p @ bytes16 0 @ r) \<or> c = 0xFFFF \<and> reference_checksum (p @ bytes16 0 @ r) = 0"
  shows "reference_checksum (p @ bytes16 c @ r) = 0"
proof -
  let ?n = "word_sum p + word_sum r"
  have n: "word_sum (p @ bytes16 v @ r) = unat v + ?n" for v
    using assms(1) by (simp add: word_sum_append unat_read_bytes16)
  have z: "unat (reference_checksum (p @ bytes16 0 @ r)) = 65535 - ones_sum ?n"
    by (simp add: unat_reference_checksum n)
  have c: "unat c + ones_sum ?n = 65535 \<or> unat c + ones_sum ?n = 131070"
    using assms(2)
  proof
    assume "c = reference_checksum (p @ bytes16 0 @ r)"
    with z ones_sum_le [of ?n] show ?thesis by simp
  next
    assume "c = 0xFFFF \<and> reference_checksum (p @ bytes16 0 @ r) = 0"
    with z ones_sum_le [of ?n] show ?thesis by simp
  qed
  have "(unat c + ?n) mod 65535 = (unat c + ones_sum ?n) mod 65535"
    using ones_sum_mod [of ?n] by (metis mod_add_right_eq)
  with c have "(unat c + ?n) mod 65535 = 0" by auto
  moreover have "0 < unat c + ?n" using c by (cases "?n = 0") (auto simp: ones_sum_def)
  ultimately show ?thesis by (simp add: reference_checksum_0 n)
qed

text \<open>Changing one byte changes the sum by less than 65535, so a valid checksum becomes invalid.\<close>

lemma word_sum_update:
  "i < length d \<Longrightarrow> word_sum (d[i := x]) + unat (d ! i) * (if even i then 256 else 1) = word_sum d + unat x * (if even i then 256 else 1)"
proof (induction d arbitrary: i rule: word_sum.induct)
  case (1 a b rest)
  consider "i = 0" | "i = 1" | j where "i = Suc (Suc j)" by (metis One_nat_def not0_implies_Suc)
  then show ?case
  proof cases
    case (3 j)
    then show ?thesis using "1.IH" [of j] "1.prems" by simp
  qed simp_all
qed simp_all

lemma reference_checksum_update:
  assumes "reference_checksum d = 0" "i < length d" "x \<noteq> d ! i"
  shows "reference_checksum (d[i := x]) \<noteq> 0"
proof
  assume "reference_checksum (d[i := x]) = 0"
  then have m: "word_sum (d[i := x]) mod 65535 = 0" "word_sum d mod 65535 = 0" using assms(1) by (simp_all add: reference_checksum_0)
  define k :: nat where "k = (if even i then 256 else 1)"
  define p q where "p = unat (d ! i)" and "q = unat x"
  have e: "word_sum (d[i := x]) + p * k = word_sum d + q * k"
    using word_sum_update [OF assms(2), of x] by (simp add: k_def p_def q_def)
  have pq: "p < 256" "q < 256" "p \<noteq> q" using unsigned_less [of "d ! i"] unsigned_less [of x] assms(3)
    by (auto simp: p_def q_def word_unat_eq_iff)
  have k: "k \<le> 256" "1 \<le> k" by (simp_all add: k_def)
  obtain a b where ab: "word_sum (d[i := x]) = 65535 * a" "word_sum d = 65535 * b" using m by (auto simp: mod_eq_0_iff_dvd elim!: dvdE)
  have "p * k \<le> 255 * 256" "q * k \<le> 255 * 256"
    using mult_le_mono [of p 255 k 256] mult_le_mono [of q 255 k 256] pq(1,2) k(1) by linarith+
  then have "p * k < 65535" "q * k < 65535" by simp_all
  with e have "a = b" unfolding ab by linarith
  with e ab have "p * k = q * k" by simp
  then show False using pq(3) k(2) by simp
qed

end
