(* ===== verification/Net_Packets.thy ===== *)
theory Net_Packets
  imports Net_Bytes
begin

text \<open>
  Addresses and the link, ARP, IPv4 and ICMP packet formats of \<open>kernel/net/network.hpp\<close> and
  \<open>network.cpp\<close>: one definition per parser and serialiser, with its checks in the order of the code.

  \<^item> An address is its list of bytes (6 for a MAC address, 4 for an IPv4 address).  \<open>operation\<close> and \<open>type\<close>
    of ARP and ICMP are kept as numbers, since the code checks them after a cast.
  \<^item> A parser returns its status and the contents of \<open>*out\<close>.  The \<open>payload\<close> pointer of a view stands for the
    \<open>payload_length\<close> bytes it points to.
  \<^item> A serialiser returns its status, the output buffer and \<open>*out_length\<close>.  Its payload may lie inside
    the output buffer (the stack builds packets in place); \<open>Within k\<close> is the pointer \<open>output + k\<close>.
\<close>

section \<open>Constants, status codes and addresses\<close>

definition MAC_ADDRESS_LENGTH :: nat where "MAC_ADDRESS_LENGTH = 6"
definition IPV4_ADDRESS_LENGTH :: nat where "IPV4_ADDRESS_LENGTH = 4"
definition ETHERNET_HEADER_SIZE :: nat where "ETHERNET_HEADER_SIZE = 14"
definition ETHERNET_MTU :: nat where "ETHERNET_MTU = 1500"
definition ETHERNET_MAX_FRAME_SIZE :: nat where "ETHERNET_MAX_FRAME_SIZE = ETHERNET_HEADER_SIZE + ETHERNET_MTU"
definition ARP_PACKET_SIZE :: nat where "ARP_PACKET_SIZE = 28"
definition IPV4_MIN_HEADER_SIZE :: nat where "IPV4_MIN_HEADER_SIZE = 20"
definition IPV4_MAX_HEADER_SIZE :: nat where "IPV4_MAX_HEADER_SIZE = 60"
definition ICMP_ECHO_HEADER_SIZE :: nat where "ICMP_ECHO_HEADER_SIZE = 8"
definition ICMP_ECHO_MAX_PAYLOAD :: nat where
  "ICMP_ECHO_MAX_PAYLOAD = ETHERNET_MTU - IPV4_MIN_HEADER_SIZE - ICMP_ECHO_HEADER_SIZE"
definition ETHER_TYPE_IPV4 :: u16 where "ETHER_TYPE_IPV4 = 0x0800"
definition ETHER_TYPE_ARP :: u16 where "ETHER_TYPE_ARP = 0x0806"
definition IPV4_PROTOCOL_ICMP :: u8 where "IPV4_PROTOCOL_ICMP = 1"

lemmas net_sizes = MAC_ADDRESS_LENGTH_def IPV4_ADDRESS_LENGTH_def ETHERNET_HEADER_SIZE_def ETHERNET_MTU_def
  ETHERNET_MAX_FRAME_SIZE_def ARP_PACKET_SIZE_def IPV4_MIN_HEADER_SIZE_def IPV4_MAX_HEADER_SIZE_def
  ICMP_ECHO_HEADER_SIZE_def ICMP_ECHO_MAX_PAYLOAD_def

datatype Status =
    Ok | NotInitialized | NotConfigured | InvalidArgument | InvalidConfiguration | WouldBlock | QueueFull
  | BufferTooSmall | FrameTooShort | FrameTooLarge | PayloadTooLarge | MalformedPacket | ChecksumMismatch
  | UnsupportedProtocol | UnsupportedFragment | NotForUs | NoRoute | NeighborResolutionPending
  | IterationStopped | InterfaceError | NameNotFound

type_synonym MacAddress = "u8 list"
type_synonym IPv4Address = "u8 list"

definition BROADCAST_MAC :: MacAddress where "BROADCAST_MAC = [0xff, 0xff, 0xff, 0xff, 0xff, 0xff]"
definition ZERO_MAC :: MacAddress where "ZERO_MAC = [0, 0, 0, 0, 0, 0]"

definition mac_equal :: "MacAddress \<Rightarrow> MacAddress \<Rightarrow> bool" where
  "mac_equal left right = list_all (\<lambda>i. left ! i = right ! i) [0..<MAC_ADDRESS_LENGTH]"

definition mac_is_zero :: "MacAddress \<Rightarrow> bool" where
  "mac_is_zero address = list_all (\<lambda>i. address ! i = 0) [0..<MAC_ADDRESS_LENGTH]"

definition mac_is_broadcast :: "MacAddress \<Rightarrow> bool" where
  "mac_is_broadcast address = mac_equal address BROADCAST_MAC"

definition mac_is_multicast :: "MacAddress \<Rightarrow> bool" where
  "mac_is_multicast address \<longleftrightarrow> address ! 0 AND 1 \<noteq> 0"

definition ipv4_equal :: "IPv4Address \<Rightarrow> IPv4Address \<Rightarrow> bool" where
  "ipv4_equal left right = list_all (\<lambda>i. left ! i = right ! i) [0..<IPV4_ADDRESS_LENGTH]"

definition ipv4_value :: "IPv4Address \<Rightarrow> u32" where
  "ipv4_value address =
     push_bit 24 (ucast (address ! 0)) OR push_bit 16 (ucast (address ! 1)) OR
     push_bit 8 (ucast (address ! 2)) OR ucast (address ! 3)"

definition ipv4_is_zero :: "IPv4Address \<Rightarrow> bool" where
  "ipv4_is_zero address \<longleftrightarrow> ipv4_value address = 0"

definition ipv4_is_multicast :: "IPv4Address \<Rightarrow> bool" where
  "ipv4_is_multicast address \<longleftrightarrow> address ! 0 \<ge> 224 \<and> address ! 0 \<le> 239"

definition ipv4_is_limited_broadcast :: "IPv4Address \<Rightarrow> bool" where
  "ipv4_is_limited_broadcast address \<longleftrightarrow> ipv4_value address = 0xFFFFFFFF"

definition mac_is_valid_unicast :: "MacAddress \<Rightarrow> bool" where
  "mac_is_valid_unicast address \<longleftrightarrow>
     \<not> mac_is_zero address \<and> \<not> mac_is_broadcast address \<and> \<not> mac_is_multicast address"

definition ipv4_is_valid_unicast :: "IPv4Address \<Rightarrow> bool" where
  "ipv4_is_valid_unicast address \<longleftrightarrow>
     \<not> ipv4_is_zero address \<and> \<not> ipv4_is_multicast address \<and> \<not> ipv4_is_limited_broadcast address"

definition netmask_is_contiguous :: "IPv4Address \<Rightarrow> bool" where
  "netmask_is_contiguous netmask \<longleftrightarrow> (let inverse = NOT (ipv4_value netmask) in inverse AND (inverse + 1) = 0)"

definition ipv4_on_same_network :: "IPv4Address \<Rightarrow> IPv4Address \<Rightarrow> IPv4Address \<Rightarrow> bool" where
  "ipv4_on_same_network left right netmask \<longleftrightarrow>
     (let mask = ipv4_value netmask in ipv4_value left AND mask = ipv4_value right AND mask)"

definition config_address_is_host :: "IPv4Address \<Rightarrow> IPv4Address \<Rightarrow> bool" where
  "config_address_is_host address netmask \<longleftrightarrow>
     (if \<not> ipv4_is_valid_unicast address then False
      else let host_mask = NOT (ipv4_value netmask) in
        if host_mask \<le> 1 then True
        else let host = ipv4_value address AND host_mask in host \<noteq> 0 \<and> host \<noteq> host_mask)"

text \<open>Addresses have their full length; equality of addresses is then equality of lists.\<close>

abbreviation is_mac :: "MacAddress \<Rightarrow> bool" where "is_mac m \<equiv> length m = MAC_ADDRESS_LENGTH"
abbreviation is_ipv4 :: "IPv4Address \<Rightarrow> bool" where "is_ipv4 a \<equiv> length a = IPV4_ADDRESS_LENGTH"

lemma mac_equal_eq: "is_mac m \<Longrightarrow> is_mac n \<Longrightarrow> mac_equal m n \<longleftrightarrow> m = n"
  by (auto simp: mac_equal_def list_all_iff intro: nth_equalityI)

lemma ipv4_equal_eq: "is_ipv4 a \<Longrightarrow> is_ipv4 b \<Longrightarrow> ipv4_equal a b \<longleftrightarrow> a = b"
  by (auto simp: ipv4_equal_def list_all_iff intro: nth_equalityI)

section \<open>Pointers into the output buffer\<close>

definition ranges_overlap :: "nat \<Rightarrow> nat \<Rightarrow> nat \<Rightarrow> nat \<Rightarrow> bool" where
  "ranges_overlap left left_length right right_length \<longleftrightarrow>
     (if left_length = 0 \<or> right_length = 0 then False
      else if left \<le> right then right - left < left_length
      else left - right < right_length)"

lemma ranges_overlap_iff:
  "ranges_overlap l m r n \<longleftrightarrow> {l..<l + m} \<inter> {r..<r + n} \<noteq> {}"
proof -
  have "{l..<l + m} \<inter> {r..<r + n} = {max l r..<min (l + m) (r + n)}" by auto
  then show ?thesis by (auto simp: ranges_overlap_def)
qed

datatype source_ptr = External "u8 list option" | Within nat

definition source_bytes :: "source_ptr \<Rightarrow> u8 list \<Rightarrow> u8 list" where
  "source_bytes p output = (case p of External d \<Rightarrow> (case d of None \<Rightarrow> [] | Some b \<Rightarrow> b) | Within k \<Rightarrow> drop k output)"

definition overlaps :: "nat \<Rightarrow> source_ptr \<Rightarrow> nat \<Rightarrow> bool" where
  "overlaps required p n = (case p of External _ \<Rightarrow> False | Within k \<Rightarrow> ranges_overlap 0 required k n)"

definition sub_bytes :: "nat \<Rightarrow> nat \<Rightarrow> u8 list \<Rightarrow> u8 list" where
  "sub_bytes k n p = take n (drop k p)"

section \<open>Ethernet\<close>

record EthernetFrameView =
  eth_destination :: MacAddress
  eth_source :: MacAddress
  ether_type :: u16
  eth_payload :: "u8 list option"
  eth_payload_length :: nat

definition parse_ethernet ::
  "u8 list option \<Rightarrow> nat \<Rightarrow> EthernetFrameView option \<Rightarrow> Status \<times> EthernetFrameView option" where
  "parse_ethernet frame frame_length out_frame =
     (case (frame, out_frame) of
        (Some f, Some _) \<Rightarrow>
          if frame_length < ETHERNET_HEADER_SIZE then (Status.FrameTooShort, out_frame)
          else if frame_length > ETHERNET_MAX_FRAME_SIZE then (Status.FrameTooLarge, out_frame)
          else let view = \<lparr>eth_destination = sub_bytes 0 MAC_ADDRESS_LENGTH f,
                            eth_source = sub_bytes MAC_ADDRESS_LENGTH MAC_ADDRESS_LENGTH f,
                            ether_type = be16 f 12, eth_payload = None, eth_payload_length = 0\<rparr> in
            if ether_type view < 0x0600 then (Status.UnsupportedProtocol, Some view)
            else (Status.Ok, Some (view\<lparr>
              eth_payload := Some (sub_bytes ETHERNET_HEADER_SIZE (frame_length - ETHERNET_HEADER_SIZE) f),
              eth_payload_length := frame_length - ETHERNET_HEADER_SIZE\<rparr>))
      | _ \<Rightarrow> (Status.InvalidArgument, out_frame))"

definition serialize_ethernet ::
  "MacAddress \<Rightarrow> MacAddress \<Rightarrow> u16 \<Rightarrow> source_ptr \<Rightarrow> nat \<Rightarrow> u8 list option \<Rightarrow> nat \<Rightarrow> nat option \<Rightarrow>
   Status \<times> u8 list option \<times> nat option" where
  "serialize_ethernet destination source type payload payload_length output output_capacity out_length =
     (let zero = map_option (\<lambda>_. 0) out_length in
      case (output, out_length) of
        (Some b, Some _) \<Rightarrow>
          if payload = External None \<and> payload_length \<noteq> 0 then (Status.InvalidArgument, output, zero)
          else if type < 0x0600 then (Status.UnsupportedProtocol, output, zero)
          else if payload_length > ETHERNET_MTU then (Status.PayloadTooLarge, output, zero)
          else let required = ETHERNET_HEADER_SIZE + payload_length in
            if output_capacity < required then (Status.BufferTooSmall, output, Some required)
            else if overlaps required payload payload_length \<and> payload \<noteq> Within ETHERNET_HEADER_SIZE
            then (Status.InvalidArgument, output, zero)
            else let b = copy_bytes 0 destination MAC_ADDRESS_LENGTH b;
                     b = copy_bytes MAC_ADDRESS_LENGTH source MAC_ADDRESS_LENGTH b;
                     b = put16 12 type b;
                     b = (if payload_length \<noteq> 0
                          then copy_bytes ETHERNET_HEADER_SIZE (source_bytes payload b) payload_length b else b)
              in (Status.Ok, Some b, Some required)
      | _ \<Rightarrow> (Status.InvalidArgument, output, zero))"

section \<open>ARP\<close>

type_synonym ArpOperation = u16

definition ArpOperation_Request :: ArpOperation where "ArpOperation_Request = 1"
definition ArpOperation_Reply :: ArpOperation where "ArpOperation_Reply = 2"

record ArpPacket =
  operation :: ArpOperation
  sender_mac :: MacAddress
  sender_ip :: IPv4Address
  target_mac :: MacAddress
  target_ip :: IPv4Address

definition parse_arp :: "u8 list option \<Rightarrow> nat \<Rightarrow> ArpPacket option \<Rightarrow> Status \<times> ArpPacket option" where
  "parse_arp packet packet_length out_packet =
     (case (packet, out_packet) of
        (Some p, Some _) \<Rightarrow>
          if packet_length < ARP_PACKET_SIZE then (Status.FrameTooShort, out_packet)
          else if be16 p 0 \<noteq> 1 \<or> be16 p 2 \<noteq> ETHER_TYPE_IPV4 \<or>
            p ! 4 \<noteq> of_nat MAC_ADDRESS_LENGTH \<or> p ! 5 \<noteq> of_nat IPV4_ADDRESS_LENGTH
          then (Status.MalformedPacket, out_packet)
          else let operation = be16 p 6 in
            if operation \<noteq> ArpOperation_Request \<and> operation \<noteq> ArpOperation_Reply
            then (Status.MalformedPacket, out_packet)
            else (Status.Ok, Some \<lparr>operation = operation,
              sender_mac = sub_bytes 8 MAC_ADDRESS_LENGTH p, sender_ip = sub_bytes 14 IPV4_ADDRESS_LENGTH p,
              target_mac = sub_bytes 18 MAC_ADDRESS_LENGTH p, target_ip = sub_bytes 24 IPV4_ADDRESS_LENGTH p\<rparr>)
      | _ \<Rightarrow> (Status.InvalidArgument, out_packet))"

definition serialize_arp ::
  "ArpPacket \<Rightarrow> u8 list option \<Rightarrow> nat \<Rightarrow> nat option \<Rightarrow> Status \<times> u8 list option \<times> nat option" where
  "serialize_arp packet output output_capacity out_length =
     (let zero = map_option (\<lambda>_. 0) out_length in
      case (output, out_length) of
        (Some b, Some _) \<Rightarrow>
          if operation packet \<noteq> ArpOperation_Request \<and> operation packet \<noteq> ArpOperation_Reply
          then (Status.MalformedPacket, output, zero)
          else if output_capacity < ARP_PACKET_SIZE then (Status.BufferTooSmall, output, Some ARP_PACKET_SIZE)
          else let b = put16 0 1 b;
                   b = put16 2 ETHER_TYPE_IPV4 b;
                   b = b[4 := of_nat MAC_ADDRESS_LENGTH];
                   b = b[5 := of_nat IPV4_ADDRESS_LENGTH];
                   b = put16 6 (operation packet) b;
                   b = copy_bytes 8 (sender_mac packet) MAC_ADDRESS_LENGTH b;
                   b = copy_bytes 14 (sender_ip packet) IPV4_ADDRESS_LENGTH b;
                   b = copy_bytes 18 (target_mac packet) MAC_ADDRESS_LENGTH b;
                   b = copy_bytes 24 (target_ip packet) IPV4_ADDRESS_LENGTH b
            in (Status.Ok, Some b, Some ARP_PACKET_SIZE)
      | _ \<Rightarrow> (Status.InvalidArgument, output, zero))"

section \<open>IPv4\<close>

record IPv4PacketView =
  ip_source :: IPv4Address
  ip_destination :: IPv4Address
  ip_protocol :: u8
  ip_ttl :: u8
  ip_identification :: u16
  ip_dont_fragment :: bool
  ip_payload :: "u8 list option"
  ip_payload_length :: nat
  ip_header_length :: nat

record IPv4Header =
  h_source :: IPv4Address
  h_destination :: IPv4Address
  h_protocol :: u8
  h_ttl :: u8
  h_identification :: u16
  h_dont_fragment :: bool

definition parse_ipv4 :: "u8 list option \<Rightarrow> nat \<Rightarrow> IPv4PacketView option \<Rightarrow> Status \<times> IPv4PacketView option" where
  "parse_ipv4 packet packet_length out_packet =
     (case (packet, out_packet) of
        (Some p, Some _) \<Rightarrow>
          if packet_length < IPV4_MIN_HEADER_SIZE then (Status.FrameTooShort, out_packet)
          else let version = drop_bit 4 (p ! 0); ihl_words = p ! 0 AND 0x0f in
            if version \<noteq> 4 \<or> ihl_words < 5 then (Status.MalformedPacket, out_packet)
            else let hl = unat ihl_words * 4 in
              if hl > IPV4_MAX_HEADER_SIZE \<or> hl > packet_length then (Status.MalformedPacket, out_packet)
              else let total_length = unat (be16 p 2) in
                if total_length < hl \<or> total_length > packet_length then (Status.MalformedPacket, out_packet)
                else if internet_checksum (Some p) hl \<noteq> 0 then (Status.ChecksumMismatch, out_packet)
                else let flags_and_fragment = be16 p 6 in
                  if flags_and_fragment AND 0x8000 \<noteq> 0 then (Status.MalformedPacket, out_packet)
                  else if flags_and_fragment AND 0x2000 \<noteq> 0 \<or> flags_and_fragment AND 0x1fff \<noteq> 0
                  then (Status.UnsupportedFragment, out_packet)
                  else if p ! 8 = 0 then (Status.MalformedPacket, out_packet)
                  else (Status.Ok, Some \<lparr>ip_source = sub_bytes 12 IPV4_ADDRESS_LENGTH p,
                    ip_destination = sub_bytes 16 IPV4_ADDRESS_LENGTH p,
                    ip_protocol = p ! 9, ip_ttl = p ! 8, ip_identification = be16 p 4,
                    ip_dont_fragment = (flags_and_fragment AND 0x4000 \<noteq> 0),
                    ip_payload = Some (sub_bytes hl (total_length - hl) p),
                    ip_payload_length = total_length - hl, ip_header_length = hl\<rparr>)
      | _ \<Rightarrow> (Status.InvalidArgument, out_packet))"

definition serialize_ipv4 ::
  "IPv4Header \<Rightarrow> source_ptr \<Rightarrow> nat \<Rightarrow> u8 list option \<Rightarrow> nat \<Rightarrow> nat option \<Rightarrow> Status \<times> u8 list option \<times> nat option" where
  "serialize_ipv4 header payload payload_length output output_capacity out_length =
     (let zero = map_option (\<lambda>_. 0) out_length in
      case (output, out_length) of
        (Some b, Some _) \<Rightarrow>
          if payload = External None \<and> payload_length \<noteq> 0 then (Status.InvalidArgument, output, zero)
          else if h_ttl header = 0 then (Status.MalformedPacket, output, zero)
          else if payload_length > 65535 - IPV4_MIN_HEADER_SIZE then (Status.PayloadTooLarge, output, zero)
          else let required = IPV4_MIN_HEADER_SIZE + payload_length in
            if output_capacity < required then (Status.BufferTooSmall, output, Some required)
            else if overlaps required payload payload_length \<and> payload \<noteq> Within IPV4_MIN_HEADER_SIZE
            then (Status.InvalidArgument, output, zero)
            else let b = clear_bytes IPV4_MIN_HEADER_SIZE b;
                     b = b[0 := 0x45];
                     b = put16 2 (of_nat required) b;
                     b = put16 4 (h_identification header) b;
                     b = put16 6 (if h_dont_fragment header then 0x4000 else 0) b;
                     b = b[8 := h_ttl header];
                     b = b[9 := h_protocol header];
                     b = copy_bytes 12 (h_source header) IPV4_ADDRESS_LENGTH b;
                     b = copy_bytes 16 (h_destination header) IPV4_ADDRESS_LENGTH b;
                     b = put16 10 (internet_checksum (Some b) IPV4_MIN_HEADER_SIZE) b;
                     b = (if payload_length \<noteq> 0
                          then copy_bytes IPV4_MIN_HEADER_SIZE (source_bytes payload b) payload_length b else b)
              in (Status.Ok, Some b, Some required)
      | _ \<Rightarrow> (Status.InvalidArgument, output, zero))"

section \<open>ICMP echo\<close>

type_synonym IcmpEchoType = u8

definition IcmpEchoType_Reply :: IcmpEchoType where "IcmpEchoType_Reply = 0"
definition IcmpEchoType_Request :: IcmpEchoType where "IcmpEchoType_Request = 8"

record IcmpEchoView =
  echo_type :: IcmpEchoType
  echo_identifier :: u16
  echo_sequence :: u16
  echo_payload :: "u8 list option"
  echo_payload_length :: nat

definition parse_icmp_echo :: "u8 list option \<Rightarrow> nat \<Rightarrow> IcmpEchoView option \<Rightarrow> Status \<times> IcmpEchoView option" where
  "parse_icmp_echo packet packet_length out_echo =
     (case (packet, out_echo) of
        (Some p, Some _) \<Rightarrow>
          if packet_length < ICMP_ECHO_HEADER_SIZE then (Status.FrameTooShort, out_echo)
          else if internet_checksum (Some p) packet_length \<noteq> 0 then (Status.ChecksumMismatch, out_echo)
          else if (p ! 0 \<noteq> IcmpEchoType_Request \<and> p ! 0 \<noteq> IcmpEchoType_Reply) \<or> p ! 1 \<noteq> 0
          then (Status.UnsupportedProtocol, out_echo)
          else (Status.Ok, Some \<lparr>echo_type = p ! 0, echo_identifier = be16 p 4, echo_sequence = be16 p 6,
            echo_payload = Some (sub_bytes ICMP_ECHO_HEADER_SIZE (packet_length - ICMP_ECHO_HEADER_SIZE) p),
            echo_payload_length = packet_length - ICMP_ECHO_HEADER_SIZE\<rparr>)
      | _ \<Rightarrow> (Status.InvalidArgument, out_echo))"

definition serialize_icmp_echo ::
  "IcmpEchoType \<Rightarrow> u16 \<Rightarrow> u16 \<Rightarrow> source_ptr \<Rightarrow> nat \<Rightarrow> u8 list option \<Rightarrow> nat \<Rightarrow> nat option \<Rightarrow>
   Status \<times> u8 list option \<times> nat option" where
  "serialize_icmp_echo type identifier sequence payload payload_length output output_capacity out_length =
     (let zero = map_option (\<lambda>_. 0) out_length in
      case (output, out_length) of
        (Some b, Some _) \<Rightarrow>
          if payload = External None \<and> payload_length \<noteq> 0 then (Status.InvalidArgument, output, zero)
          else if type \<noteq> IcmpEchoType_Request \<and> type \<noteq> IcmpEchoType_Reply
          then (Status.UnsupportedProtocol, output, zero)
          else if payload_length > ICMP_ECHO_MAX_PAYLOAD then (Status.PayloadTooLarge, output, zero)
          else let required = ICMP_ECHO_HEADER_SIZE + payload_length in
            if output_capacity < required then (Status.BufferTooSmall, output, Some required)
            else if overlaps required payload payload_length \<and> payload \<noteq> Within ICMP_ECHO_HEADER_SIZE
            then (Status.InvalidArgument, output, zero)
            else let b = clear_bytes ICMP_ECHO_HEADER_SIZE b;
                     b = b[0 := type];
                     b = put16 4 identifier b;
                     b = put16 6 sequence b;
                     b = (if payload_length \<noteq> 0
                          then copy_bytes ICMP_ECHO_HEADER_SIZE (source_bytes payload b) payload_length b else b);
                     b = put16 2 (internet_checksum (Some b) required) b
              in (Status.Ok, Some b, Some required)
      | _ \<Rightarrow> (Status.InvalidArgument, output, zero))"

section \<open>Reading\<close>

named_theorems reads \<open>reading fields and slices of an explicit byte list\<close>

lemma be16_append [reads]: "length p = k \<Longrightarrow> be16 (p @ bytes16 v @ r) k = v"
  by (simp add: read_bytes16)

lemma be32_append [reads]: "length p = k \<Longrightarrow> be32 (p @ bytes32 v @ r) k = v"
  by (simp add: read_bytes32)

lemma sub_bytes_append [reads]: "length p = k \<Longrightarrow> length q = n \<Longrightarrow> sub_bytes k n (p @ q @ r) = q"
  by (simp add: sub_bytes_def)

lemma nth_append_at [reads]: "length p = k \<Longrightarrow> (p @ x # r) ! k = x"
  by (simp add: nth_append)

text \<open>Bytes that lie beyond a field do not influence it.\<close>

lemma read_local:
  "2 \<le> length d \<Longrightarrow> read_be16 (Some (d @ q)) = read_be16 (Some d)"
  "4 \<le> length d \<Longrightarrow> read_be32 (Some (d @ q)) = read_be32 (Some d)"
  by (auto simp: read_be16_def read_be32_def nth_append)

lemma sub_bytes_local: "k + n \<le> length p \<Longrightarrow> sub_bytes k n (p @ q) = sub_bytes k n p"
  by (simp add: sub_bytes_def)

lemma internet_checksum_local: "n \<le> length p \<Longrightarrow> internet_checksum (Some (p @ q)) n = internet_checksum (Some p) n"
  by (simp add: internet_checksum_def)

lemma parse_ethernet_local:
  "n \<le> length p \<Longrightarrow> parse_ethernet (Some (p @ q)) n out = parse_ethernet (Some p) n out"
  by (auto simp: parse_ethernet_def read_local sub_bytes_local net_sizes Let_def split: option.splits)

lemma parse_arp_local:
  "n \<le> length p \<Longrightarrow> parse_arp (Some (p @ q)) n out = parse_arp (Some p) n out"
  by (auto simp: parse_arp_def read_local sub_bytes_local nth_append net_sizes Let_def split: option.splits)

lemma parse_icmp_echo_local:
  "n \<le> length p \<Longrightarrow> parse_icmp_echo (Some (p @ q)) n out = parse_icmp_echo (Some p) n out"
  by (auto simp: parse_icmp_echo_def read_local sub_bytes_local nth_append internet_checksum_local net_sizes split: option.splits)

lemma parse_ipv4_local:
  assumes "n \<le> length p"
  shows "parse_ipv4 (Some (p @ q)) n out = parse_ipv4 (Some p) n out"
proof (cases "n < IPV4_MIN_HEADER_SIZE")
  case True
  then show ?thesis by (simp add: parse_ipv4_def split: option.splits)
next
  case False
  with assms have len: "20 \<le> length p" by (simp add: net_sizes)
  then have f: "(p @ q) ! 0 = p ! 0" "(p @ q) ! 8 = p ! 8" "(p @ q) ! 9 = p ! 9" "be16 (p @ q) 2 = be16 p 2"
      "be16 (p @ q) 4 = be16 p 4" "be16 (p @ q) 6 = be16 p 6" "sub_bytes 12 4 (p @ q) = sub_bytes 12 4 p" "sub_bytes 16 4 (p @ q) = sub_bytes 16 4 p"
    by (auto simp: nth_append read_local sub_bytes_local)
  have hl: "internet_checksum (Some (p @ q)) h = internet_checksum (Some p) h" if "h \<le> n" for h
    using that assms by (simp add: internet_checksum_local)
  have sl: "sub_bytes h (t - h) (p @ q) = sub_bytes h (t - h) p" if "h \<le> t" "t \<le> n" for h t
    using that assms by (simp add: sub_bytes_local)
  define h t where "h = unat (p ! 0 AND 0x0f) * 4" and "t = unat (be16 p 2)"
  note body = parse_ipv4_def prod.case option.case f h_def [symmetric] t_def [symmetric] IPV4_ADDRESS_LENGTH_def Let_def
  show ?thesis
  proof (cases out)
    case None
    show ?thesis unfolding None by (simp add: parse_ipv4_def)
  next
    case (Some v)
    show ?thesis
    proof (cases "t < h \<or> t > n")
      case True
      show ?thesis unfolding Some body if_P [OF True] by (rule refl)
    next
      case False
      then have le: "h \<le> n" "h \<le> t" "t \<le> n" by auto
      show ?thesis unfolding Some body hl [OF le(1)] sl [OF le(2,3)] by (rule refl)
    qed
  qed
qed

section \<open>Writing\<close>

lemma drop_copy_bytes: "k + n \<le> m \<Longrightarrow> drop m (copy_bytes k s n b) = drop m b"
  by (induction n) (simp_all add: drop_update_cancel)

lemma drop_put: "k + 2 \<le> m \<Longrightarrow> drop m (put16 k v b) = drop m b" "k + 4 \<le> m \<Longrightarrow> drop m (put32 k w b) = drop m b"
proof -
  have *: "drop m (take k b @ d) = drop m b" if "k \<le> m" "length d = length b - k" "drop (m - k) d = drop (m - k) (drop k b)" for d
    using that by (cases "k \<le> length b") simp_all
  show "drop m (put16 k v b) = drop m b" if "k + 2 \<le> m"
    unfolding put16_def using that by (intro *) (simp_all add: write_be16_def drop_update_cancel)
  show "drop m (put32 k w b) = drop m b" if "k + 4 \<le> m"
    unfolding put32_def using that by (intro *) (simp_all add: write_be32_def drop_update_cancel)
qed

lemma drop_clear_bytes: "n \<le> m \<Longrightarrow> drop m (clear_bytes n b) = drop m b"
  by (simp add: clear_bytes_def min_def)

lemmas drop_writes = drop_copy_bytes drop_put drop_clear_bytes drop_update_cancel

definition payload_ok :: "nat \<Rightarrow> source_ptr \<Rightarrow> nat \<Rightarrow> bool" where
  "payload_ok h payload n =
     (case payload of External None \<Rightarrow> n = 0 | External (Some p) \<Rightarrow> n \<le> length p | Within k \<Rightarrow> k = h)"

lemma payload_ok_overlaps: "payload_ok h payload n \<Longrightarrow> \<not> (overlaps r payload n \<and> payload \<noteq> Within h)"
  by (auto simp: payload_ok_def overlaps_def split: source_ptr.splits)

lemma payload_ok_null: "payload_ok h payload n \<Longrightarrow> \<not> (payload = External None \<and> n \<noteq> 0)"
  by (auto simp: payload_ok_def)

text \<open>Copying the payload behind the \<open>h\<close> bytes of a header \<open>p\<close>, whatever the buffer held there before.\<close>

lemma copy_payload:
  assumes "payload_ok h payload n" "length p = h" "h + n \<le> length b"
  shows "(if n \<noteq> 0 then copy_bytes h (source_bytes payload (p @ drop h b)) n (p @ drop h b) else p @ drop h b)
    = p @ take n (source_bytes payload b) @ drop (h + n) b"
proof (cases payload)
  case (External d)
  with assms show ?thesis
    by (cases d) (auto simp: payload_ok_def source_bytes_def copy_bytes_append add.commute)
next
  case (Within k)
  with assms have k: "source_bytes payload (p @ drop h b) = drop h b" "source_bytes payload b = drop h b"
    by (simp_all add: payload_ok_def source_bytes_def)
  show ?thesis using assms(2,3) by (simp add: k copy_bytes_append add.commute)
qed

section \<open>Wire formats\<close>

definition ethernet_header :: "MacAddress \<Rightarrow> MacAddress \<Rightarrow> u16 \<Rightarrow> u8 list" where
  "ethernet_header d s t = d @ s @ bytes16 t"

definition arp_bytes :: "ArpPacket \<Rightarrow> u8 list" where
  "arp_bytes a = bytes16 1 @ bytes16 ETHER_TYPE_IPV4 @ [6, 4] @ bytes16 (operation a) @
     sender_mac a @ sender_ip a @ target_mac a @ target_ip a"

definition ipv4_prefix :: "IPv4Header \<Rightarrow> nat \<Rightarrow> u8 list" where
  "ipv4_prefix h n = [0x45, 0] @ bytes16 (of_nat n) @ bytes16 (h_identification h) @
     bytes16 (if h_dont_fragment h then 0x4000 else 0) @ [h_ttl h, h_protocol h]"

definition ipv4_with :: "IPv4Header \<Rightarrow> nat \<Rightarrow> u16 \<Rightarrow> u8 list" where
  "ipv4_with h n c = ipv4_prefix h n @ bytes16 c @ h_source h @ h_destination h"

definition ipv4_header :: "IPv4Header \<Rightarrow> nat \<Rightarrow> u8 list" where
  "ipv4_header h n = ipv4_with h n (reference_checksum (ipv4_with h n 0))"

definition icmp_with :: "IcmpEchoType \<Rightarrow> u16 \<Rightarrow> u16 \<Rightarrow> u8 list \<Rightarrow> u16 \<Rightarrow> u8 list" where
  "icmp_with t i q d c = [t, 0] @ bytes16 c @ bytes16 i @ bytes16 q @ d"

definition icmp_bytes :: "IcmpEchoType \<Rightarrow> u16 \<Rightarrow> u16 \<Rightarrow> u8 list \<Rightarrow> u8 list" where
  "icmp_bytes t i q d = icmp_with t i q d (reference_checksum (icmp_with t i q d 0))"

lemma length_wire [simp]:
  "is_mac d \<Longrightarrow> is_mac s \<Longrightarrow> length (ethernet_header d s t) = 14"
  "length (ipv4_prefix h n) = 10"
  "is_ipv4 (h_source h) \<Longrightarrow> is_ipv4 (h_destination h) \<Longrightarrow> length (ipv4_with h n c) = 20"
  "is_ipv4 (h_source h) \<Longrightarrow> is_ipv4 (h_destination h) \<Longrightarrow> length (ipv4_header h n) = 20"
  "length (icmp_with ty i q p c) = 8 + length p" "length (icmp_bytes ty i q p) = 8 + length p"
  by (simp_all add: ethernet_header_def ipv4_prefix_def ipv4_with_def ipv4_header_def icmp_with_def icmp_bytes_def net_sizes)

lemma length_arp_bytes [simp]:
  "is_mac (sender_mac a) \<Longrightarrow> is_mac (target_mac a) \<Longrightarrow> is_ipv4 (sender_ip a) \<Longrightarrow> is_ipv4 (target_ip a) \<Longrightarrow>
    length (arp_bytes a) = 28"
  by (simp add: arp_bytes_def net_sizes)

text \<open>The serialisers produce these formats, followed by the payload and what the buffer held behind it.\<close>

lemma serialize_ethernet_eq:
  assumes "is_mac d" "is_mac s" "0x0600 \<le> t" "payload_ok ETHERNET_HEADER_SIZE payload n"
    and "n \<le> ETHERNET_MTU" "ETHERNET_HEADER_SIZE + n \<le> cap" "cap \<le> length b"
  shows "serialize_ethernet d s t payload n (Some b) cap (Some l) =
    (Status.Ok, Some (ethernet_header d s t @ take n (source_bytes payload b) @ drop (ETHERNET_HEADER_SIZE + n) b),
     Some (ETHERNET_HEADER_SIZE + n))"
proof -
  have len: "14 \<le> length b" using assms(6,7) by (simp add: net_sizes)
  have "copy_bytes 0 d 6 b = d @ drop 6 b" using copy_bytes_append [of "[]" 0 6 d b] assms(1) len by (simp add: net_sizes)
  moreover have "copy_bytes 6 s 6 (d @ drop 6 b) = (d @ s) @ drop 12 b"
    using copy_bytes_append [of d 6 6 s "drop 6 b"] assms(1,2) len by (simp add: net_sizes)
  moreover have "put16 12 t ((d @ s) @ drop 12 b) = ethernet_header d s t @ drop 14 b"
    using put16_append [of "d @ s" 12 "drop 12 b" t] assms(1,2) len by (simp add: net_sizes ethernet_header_def)
  ultimately have hdr: "put16 12 t (copy_bytes MAC_ADDRESS_LENGTH s MAC_ADDRESS_LENGTH (copy_bytes 0 d MAC_ADDRESS_LENGTH b))
      = ethernet_header d s t @ drop ETHERNET_HEADER_SIZE b"
    by (simp add: net_sizes)
  have lh: "length (ethernet_header d s t) = ETHERNET_HEADER_SIZE" using assms(1,2) by (simp add: ETHERNET_HEADER_SIZE_def)
  have le: "ETHERNET_HEADER_SIZE + n \<le> length b" using assms(6,7) by simp
  have "\<not> t < 0x0600" "\<not> n > ETHERNET_MTU" "\<not> cap < ETHERNET_HEADER_SIZE + n" using assms(3,5,6) by auto
  with payload_ok_overlaps [OF assms(4)] payload_ok_null [OF assms(4)] show ?thesis
    unfolding serialize_ethernet_def Let_def prod.case option.case hdr copy_payload [OF assms(4) lh le] by simp
qed

lemma serialize_arp_eq:
  assumes "is_mac (sender_mac a)" "is_mac (target_mac a)" "is_ipv4 (sender_ip a)" "is_ipv4 (target_ip a)"
    and "operation a = ArpOperation_Request \<or> operation a = ArpOperation_Reply" "28 \<le> cap" "cap \<le> length b"
  shows "serialize_arp a (Some b) cap (Some l) = (Status.Ok, Some (arp_bytes a @ drop 28 b), Some 28)"
proof -
  have len: "28 \<le> length b" using assms(6,7) by simp
  have "put16 0 1 b = bytes16 1 @ drop 2 b" using put16_append [of "[]" 0 b 1] len by simp
  moreover have "put16 2 ETHER_TYPE_IPV4 \<dots> = (bytes16 1 @ bytes16 ETHER_TYPE_IPV4) @ drop 4 b"
    using len by (subst put16_append) simp_all
  moreover have "\<dots>[4 := 6] = (bytes16 1 @ bytes16 ETHER_TYPE_IPV4 @ [6]) @ drop 5 b"
    using len by (subst list_update_prefix) simp_all
  moreover have "\<dots>[5 := 4] = (bytes16 1 @ bytes16 ETHER_TYPE_IPV4 @ [6, 4]) @ drop 6 b"
    using len by (subst list_update_prefix) simp_all
  moreover have "put16 6 (operation a) \<dots> = (bytes16 1 @ bytes16 ETHER_TYPE_IPV4 @ [6, 4] @ bytes16 (operation a)) @ drop 8 b"
    using len by (subst put16_append) simp_all
  moreover have "copy_bytes 8 (sender_mac a) 6 \<dots> =
      (bytes16 1 @ bytes16 ETHER_TYPE_IPV4 @ [6, 4] @ bytes16 (operation a) @ sender_mac a) @ drop 14 b"
    using len assms(1) by (subst copy_bytes_append) (simp_all add: net_sizes)
  moreover have "copy_bytes 14 (sender_ip a) 4 \<dots> =
      (bytes16 1 @ bytes16 ETHER_TYPE_IPV4 @ [6, 4] @ bytes16 (operation a) @ sender_mac a @ sender_ip a) @ drop 18 b"
    using len assms(1,3) by (subst copy_bytes_append) (simp_all add: net_sizes)
  moreover have "copy_bytes 18 (target_mac a) 6 \<dots> =
      (bytes16 1 @ bytes16 ETHER_TYPE_IPV4 @ [6, 4] @ bytes16 (operation a) @ sender_mac a @ sender_ip a @ target_mac a) @ drop 24 b"
    using len assms(1-3) by (subst copy_bytes_append) (simp_all add: net_sizes)
  moreover have "copy_bytes 24 (target_ip a) 4 \<dots> = arp_bytes a @ drop 28 b"
    using len assms(1-4) by (subst copy_bytes_append) (simp_all add: net_sizes arp_bytes_def)
  ultimately show ?thesis
    using assms(5,6) by (simp add: serialize_arp_def Let_def net_sizes del: append_assoc)
qed

lemma length_4E:
  assumes "is_ipv4 a"
  obtains w x y z where "a = [w, x, y, z]"
  using assms by (auto simp: IPV4_ADDRESS_LENGTH_def numeral_eq_Suc length_Suc_conv)

lemma serialize_ipv4_header:
  assumes "is_ipv4 (h_source h)" "is_ipv4 (h_destination h)"
  shows "copy_bytes 16 (h_destination h) IPV4_ADDRESS_LENGTH (copy_bytes 12 (h_source h) IPV4_ADDRESS_LENGTH
      ((put16 6 (if h_dont_fragment h then 0x4000 else 0) (put16 4 (h_identification h)
        (put16 2 (of_nat m) ((replicate 20 0 @ r)[0 := 0x45]))))[8 := h_ttl h, 9 := h_protocol h]))
    = ipv4_with h m 0 @ r"
    "put16 10 c (ipv4_with h m 0 @ r) = ipv4_with h m c @ r"
proof -
  have z: "replicate 20 0 @ r = [0, 0, 0, 0, 0, 0, 0, 0, 0, 0, 0, 0, 0, 0, 0, 0, 0, 0, 0, 0 :: u8] @ r"
    by (simp add: numeral_eq_Suc)
  obtain a b j d where s: "h_source h = [a, b, j, d]" using assms(1) by (rule length_4E)
  obtain e f g i where t: "h_destination h = [e, f, g, i]" using assms(2) by (rule length_4E)
  have "copy_bytes k [w, x, y, z] IPV4_ADDRESS_LENGTH p = p[k := w, k + 1 := x, k + 2 := y, k + 3 := z]" for k w x y z p
    by (simp add: IPV4_ADDRESS_LENGTH_def numeral_eq_Suc)
  then show "copy_bytes 16 (h_destination h) IPV4_ADDRESS_LENGTH (copy_bytes 12 (h_source h) IPV4_ADDRESS_LENGTH
      ((put16 6 (if h_dont_fragment h then 0x4000 else 0) (put16 4 (h_identification h)
        (put16 2 (of_nat m) ((replicate 20 0 @ r)[0 := 0x45]))))[8 := h_ttl h, 9 := h_protocol h]))
    = ipv4_with h m 0 @ r"
    unfolding z s t by (simp add: put16_def write_be16_def bytes16_def ipv4_with_def ipv4_prefix_def s t)
  show "put16 10 c (ipv4_with h m 0 @ r) = ipv4_with h m c @ r"
    unfolding ipv4_with_def append_assoc by (subst put16_append) simp_all
qed

lemma serialize_ipv4_eq:
  assumes "is_ipv4 (h_source h)" "is_ipv4 (h_destination h)" "h_ttl h \<noteq> 0" "payload_ok IPV4_MIN_HEADER_SIZE payload n"
    and "IPV4_MIN_HEADER_SIZE + n \<le> 65535" "IPV4_MIN_HEADER_SIZE + n \<le> cap" "cap \<le> length b"
  shows "serialize_ipv4 h payload n (Some b) cap (Some l) =
    (Status.Ok, Some (ipv4_header h (IPV4_MIN_HEADER_SIZE + n) @ take n (source_bytes payload b) @
       drop (IPV4_MIN_HEADER_SIZE + n) b), Some (IPV4_MIN_HEADER_SIZE + n))"
proof -
  have le: "IPV4_MIN_HEADER_SIZE + n \<le> length b" using assms(6,7) by simp
  have clr: "clear_bytes IPV4_MIN_HEADER_SIZE b = replicate 20 0 @ drop IPV4_MIN_HEADER_SIZE b"
    using le by (simp add: clear_bytes_eq IPV4_MIN_HEADER_SIZE_def)
  have sum: "internet_checksum (Some (ipv4_with h m 0 @ r)) IPV4_MIN_HEADER_SIZE = reference_checksum (ipv4_with h m 0)" for m r
    using assms(1,2) by (simp add: internet_checksum_eq IPV4_MIN_HEADER_SIZE_def)
  have lh: "length (ipv4_header h m) = IPV4_MIN_HEADER_SIZE" for m using assms(1,2) by (simp add: IPV4_MIN_HEADER_SIZE_def)
  note hdr = clr serialize_ipv4_header [OF assms(1,2)] sum ipv4_header_def [symmetric]
  have "\<not> h_ttl h = 0" "\<not> n > 65535 - IPV4_MIN_HEADER_SIZE" "\<not> cap < IPV4_MIN_HEADER_SIZE + n"
    using assms(3,5,6) by auto
  with payload_ok_overlaps [OF assms(4)] payload_ok_null [OF assms(4)] show ?thesis
    unfolding serialize_ipv4_def Let_def prod.case option.case hdr copy_payload [OF assms(4) lh le] by simp
qed

lemma serialize_icmp_header:
  "put16 6 q (put16 4 i ((replicate 8 0 @ r)[0 := t])) = [t, 0] @ bytes16 0 @ bytes16 i @ bytes16 q @ r"
proof -
  have z: "replicate 8 0 @ r = [0, 0, 0, 0, 0, 0, 0, 0 :: u8] @ r" by (simp add: numeral_eq_Suc)
  show ?thesis unfolding z by (simp add: put16_def write_be16_def bytes16_def)
qed

lemma serialize_icmp_echo_eq:
  assumes "t = IcmpEchoType_Request \<or> t = IcmpEchoType_Reply" "payload_ok ICMP_ECHO_HEADER_SIZE payload n"
    and "n \<le> ICMP_ECHO_MAX_PAYLOAD" "ICMP_ECHO_HEADER_SIZE + n \<le> cap" "cap \<le> length b" "n \<le> length (source_bytes payload b)"
  shows "serialize_icmp_echo t i q payload n (Some b) cap (Some l) =
    (Status.Ok, Some (icmp_bytes t i q (take n (source_bytes payload b)) @ drop (ICMP_ECHO_HEADER_SIZE + n) b),
     Some (ICMP_ECHO_HEADER_SIZE + n))"
proof -
  have le: "ICMP_ECHO_HEADER_SIZE + n \<le> length b" using assms(4,5) by simp
  let ?p = "[t, 0] @ bytes16 0 @ bytes16 i @ bytes16 q"
  let ?d = "take n (source_bytes payload b)"
  let ?r = "drop (ICMP_ECHO_HEADER_SIZE + n) b"
  have clr: "clear_bytes ICMP_ECHO_HEADER_SIZE b = replicate 8 0 @ drop ICMP_ECHO_HEADER_SIZE b"
    using le by (simp add: clear_bytes_eq ICMP_ECHO_HEADER_SIZE_def)
  have hdr: "put16 6 q (put16 4 i ((clear_bytes ICMP_ECHO_HEADER_SIZE b)[0 := t])) = ?p @ drop ICMP_ECHO_HEADER_SIZE b"
    unfolding clr serialize_icmp_header by simp
  have lp: "length ?p = ICMP_ECHO_HEADER_SIZE" by (simp add: ICMP_ECHO_HEADER_SIZE_def)
  have all: "?p @ ?d @ ?r = icmp_with t i q ?d 0 @ ?r" by (simp add: icmp_with_def)
  have ld: "length ?d = n" using assms(6) by simp
  have sum: "internet_checksum (Some (icmp_with t i q ?d 0 @ ?r)) (ICMP_ECHO_HEADER_SIZE + n) = reference_checksum (icmp_with t i q ?d 0)"
    using ld by (simp add: internet_checksum_eq ICMP_ECHO_HEADER_SIZE_def)
  have put: "put16 2 c (icmp_with t i q ?d 0 @ ?r) = icmp_with t i q ?d c @ ?r" for c
    unfolding icmp_with_def append_assoc by (subst put16_append) simp_all
  have "\<not> (t \<noteq> IcmpEchoType_Request \<and> t \<noteq> IcmpEchoType_Reply)" "\<not> n > ICMP_ECHO_MAX_PAYLOAD"
      "\<not> cap < ICMP_ECHO_HEADER_SIZE + n"
    using assms(1,3,4) by auto
  with payload_ok_overlaps [OF assms(2)] payload_ok_null [OF assms(2)] show ?thesis
    unfolding serialize_icmp_echo_def Let_def prod.case option.case hdr copy_payload [OF assms(2) lp le] all sum put
      icmp_bytes_def by simp
qed

text \<open>The parsers read them back.\<close>

lemma parse_ethernet_wire:
  assumes "is_mac d" "is_mac s" "0x0600 \<le> t" "length p \<le> ETHERNET_MTU"
  shows "parse_ethernet (Some (ethernet_header d s t @ p @ r)) (ETHERNET_HEADER_SIZE + length p) (Some v) =
    (Status.Ok, Some \<lparr>eth_destination = d, eth_source = s, ether_type = t, eth_payload = Some p, eth_payload_length = length p\<rparr>)"
proof -
  let ?f = "ethernet_header d s t @ p @ r"
  have "be16 ?f 12 = t"
    using be16_append [of "d @ s" 12 t "p @ r"] assms(1,2) by (simp add: ethernet_header_def net_sizes)
  moreover have "sub_bytes 0 6 ?f = d" "sub_bytes 6 6 ?f = s" "sub_bytes 14 (length p) ?f = p"
    using assms(1,2) by (simp_all add: ethernet_header_def net_sizes sub_bytes_def)
  ultimately show ?thesis
    using assms(3,4) by (simp add: parse_ethernet_def net_sizes not_less [symmetric])
qed

lemma parse_arp_wire:
  assumes "is_mac (sender_mac a)" "is_mac (target_mac a)" "is_ipv4 (sender_ip a)" "is_ipv4 (target_ip a)"
    and "operation a = ArpOperation_Request \<or> operation a = ArpOperation_Reply" "28 \<le> n"
  shows "parse_arp (Some (arp_bytes a @ r)) n (Some v) = (Status.Ok, Some a)"
proof -
  let ?p = "arp_bytes a @ r"
  have "be16 ?p 0 = 1" by (simp add: arp_bytes_def read_bytes16)
  moreover have "be16 ?p 2 = ETHER_TYPE_IPV4"
    using be16_append [of "bytes16 1" 2] by (simp add: arp_bytes_def)
  moreover have "?p ! 4 = 6" "?p ! 5 = 4" by (simp_all add: arp_bytes_def bytes16_def)
  moreover have "be16 ?p 6 = operation a"
    using be16_append [of "bytes16 1 @ bytes16 ETHER_TYPE_IPV4 @ [6, 4]" 6] by (simp add: arp_bytes_def)
  moreover have "sub_bytes 8 6 ?p = sender_mac a" "sub_bytes 14 4 ?p = sender_ip a" "sub_bytes 18 6 ?p = target_mac a" "sub_bytes 24 4 ?p = target_ip a"
    using assms(1-4) by (simp_all add: arp_bytes_def net_sizes sub_bytes_def)
  ultimately show ?thesis using assms(5,6) by (simp add: parse_arp_def net_sizes Let_def)
qed

lemma ipv4_header_valid:
  "is_ipv4 (h_source h) \<Longrightarrow> is_ipv4 (h_destination h) \<Longrightarrow> reference_checksum (ipv4_header h n) = 0"
  unfolding ipv4_header_def ipv4_with_def by (rule checksum_field_valid) simp_all

lemma and_flags:
  "(0x4000 :: u16) AND 0x8000 = 0" "(0x4000 :: u16) AND 0x2000 = 0" "(0x4000 :: u16) AND 0x1fff = 0"
  "(0x4000 :: u16) AND 0x4000 = 0x4000" "drop_bit 4 (0x45 :: u8) = 4" "(0x45 :: u8) AND 0x0f = 5"
  by code_simp+

lemma parse_ipv4_wire:
  assumes "is_ipv4 (h_source h)" "is_ipv4 (h_destination h)" "h_ttl h \<noteq> 0"
    and "IPV4_MIN_HEADER_SIZE + length p \<le> 65535" "IPV4_MIN_HEADER_SIZE + length p \<le> n"
  shows "parse_ipv4 (Some (ipv4_header h (IPV4_MIN_HEADER_SIZE + length p) @ p @ r)) n (Some v) =
    (Status.Ok, Some \<lparr>ip_source = h_source h, ip_destination = h_destination h, ip_protocol = h_protocol h, ip_ttl = h_ttl h,
       ip_identification = h_identification h, ip_dont_fragment = h_dont_fragment h, ip_payload = Some p,
       ip_payload_length = length p, ip_header_length = IPV4_MIN_HEADER_SIZE\<rparr>)"
proof -
  let ?m = "20 + length p"
  define c where "c = reference_checksum (ipv4_with h ?m 0)"
  let ?f = "if h_dont_fragment h then 0x4000 else 0 :: u16"
  let ?p = "ipv4_header h ?m @ p @ r"
  have p: "?p = [0x45, 0] @ bytes16 (of_nat ?m) @ bytes16 (h_identification h) @ bytes16 ?f @
      [h_ttl h, h_protocol h] @ bytes16 c @ h_source h @ h_destination h @ p @ r"
    unfolding ipv4_header_def c_def [symmetric] by (simp add: ipv4_with_def ipv4_prefix_def)
  have "?p ! 0 = 0x45" "?p ! 8 = h_ttl h" "?p ! 9 = h_protocol h" unfolding p by (simp_all add: bytes16_def)
  moreover have "be16 ?p 2 = of_nat ?m" unfolding p using be16_append [of "[0x45, 0]" 2] by simp
  moreover have "be16 ?p 4 = h_identification h"
    unfolding p using be16_append [of "[0x45, 0] @ bytes16 (of_nat ?m)" 4] by simp
  moreover have "be16 ?p 6 = ?f"
    unfolding p using be16_append [of "[0x45, 0] @ bytes16 (of_nat ?m) @ bytes16 (h_identification h)" 6] by simp
  moreover have "sub_bytes 12 4 ?p = h_source h" "sub_bytes 16 4 ?p = h_destination h" "sub_bytes 20 (length p) ?p = p"
    unfolding p using assms(1,2) by (simp_all add: sub_bytes_def net_sizes)
  moreover have "internet_checksum (Some ?p) 20 = 0"
    using assms(1,2) by (simp add: internet_checksum_eq ipv4_header_valid)
  moreover have "unat (of_nat ?m :: u16) = ?m" using assms(4) by (intro unat_of_nat_small) (simp add: net_sizes)
  ultimately show ?thesis
    using assms(3,5) unfolding parse_ipv4_def Let_def net_sizes prod.case option.case by (simp add: and_flags)
qed

lemma icmp_bytes_valid: "reference_checksum (icmp_bytes t i q d) = 0"
  unfolding icmp_bytes_def icmp_with_def by (rule checksum_field_valid) simp_all

lemma parse_icmp_wire:
  assumes "t = IcmpEchoType_Request \<or> t = IcmpEchoType_Reply"
  shows "parse_icmp_echo (Some (icmp_bytes t i q d @ r)) (ICMP_ECHO_HEADER_SIZE + length d) (Some v) =
    (Status.Ok, Some \<lparr>echo_type = t, echo_identifier = i, echo_sequence = q, echo_payload = Some d, echo_payload_length = length d\<rparr>)"
proof -
  define c where "c = reference_checksum (icmp_with t i q d 0)"
  let ?p = "icmp_bytes t i q d @ r"
  have p: "?p = [t, 0] @ bytes16 c @ bytes16 i @ bytes16 q @ d @ r"
    unfolding icmp_bytes_def c_def [symmetric] by (simp add: icmp_with_def)
  have "?p ! 0 = t" "?p ! 1 = 0" unfolding p by simp_all
  moreover have "be16 ?p 4 = i" unfolding p using be16_append [of "[t, 0] @ bytes16 c" 4] by simp
  moreover have "be16 ?p 6 = q" unfolding p using be16_append [of "[t, 0] @ bytes16 c @ bytes16 i" 6] by simp
  moreover have "sub_bytes 8 (length d) ?p = d" unfolding p by (simp add: sub_bytes_def)
  moreover have "internet_checksum (Some ?p) (8 + length d) = 0"
    by (simp add: internet_checksum_eq icmp_bytes_valid)
  ultimately show ?thesis using assms by (auto simp: parse_icmp_echo_def net_sizes)
qed

end
