(* ===== verification/Net_Protocols.thy ===== *)
theory Net_Protocols
  imports Net_Packets
begin

text \<open>
  UDP, TCP, DHCP and DNS messages (\<open>kernel/net/protocols.hpp\<close>, \<open>protocols.cpp\<close>), in the conventions of
  \<open>Net_Packets\<close>.  The payload of a transport packet does not overlap the output buffer.  The loops over
  DHCP options, DNS labels and DNS records advance a cursor; they are recursive functions with a
  termination proof, or recursions on the number of records.
\<close>

section \<open>Transport checksum\<close>

definition IPV4_PROTOCOL_TCP :: u8 where "IPV4_PROTOCOL_TCP = 6"
definition IPV4_PROTOCOL_UDP :: u8 where "IPV4_PROTOCOL_UDP = 17"
definition UDP_HEADER_SIZE :: nat where "UDP_HEADER_SIZE = 8"
definition TCP_MIN_HEADER_SIZE :: nat where "TCP_MIN_HEADER_SIZE = 20"
definition UDP_MAX_PAYLOAD :: nat where "UDP_MAX_PAYLOAD = ETHERNET_MTU - IPV4_MIN_HEADER_SIZE - UDP_HEADER_SIZE"
definition TCP_MAX_PAYLOAD :: nat where "TCP_MAX_PAYLOAD = ETHERNET_MTU - IPV4_MIN_HEADER_SIZE - TCP_MIN_HEADER_SIZE"

lemmas transport_sizes = net_sizes UDP_HEADER_SIZE_def TCP_MIN_HEADER_SIZE_def UDP_MAX_PAYLOAD_def TCP_MAX_PAYLOAD_def

definition transport_checksum :: "IPv4Address \<Rightarrow> IPv4Address \<Rightarrow> u8 \<Rightarrow> u8 list \<Rightarrow> nat \<Rightarrow> u16" where
  "transport_checksum source destination protocol packet n =
     (let s = checksum_add 0 (take IPV4_ADDRESS_LENGTH source);
          s = checksum_add s (take IPV4_ADDRESS_LENGTH destination);
          pseudo = [0, protocol, of_nat (n div 256), of_nat n];
          s = checksum_add s pseudo;
          s = checksum_add s (take n packet)
      in checksum_finish s)"

definition valid_port :: "u16 \<Rightarrow> bool" where
  "valid_port port \<longleftrightarrow> port \<noteq> 0"

section \<open>UDP\<close>

record UdpDatagramView =
  udp_source_port :: u16
  udp_destination_port :: u16
  udp_payload :: "u8 list option"
  udp_payload_length :: nat

definition parse_udp ::
  "IPv4Address \<Rightarrow> IPv4Address \<Rightarrow> u8 list option \<Rightarrow> nat \<Rightarrow> UdpDatagramView option \<Rightarrow> Status \<times> UdpDatagramView option" where
  "parse_udp source destination packet packet_length out_datagram =
     (case (packet, out_datagram) of
        (Some p, Some _) \<Rightarrow>
          if packet_length < UDP_HEADER_SIZE then (Status.FrameTooShort, out_datagram)
          else let declared = unat (be16 p 4) in
            if declared < UDP_HEADER_SIZE \<or> declared > packet_length then (Status.MalformedPacket, out_datagram)
            else let source_port = be16 p 0; destination_port = be16 p 2 in
              if \<not> valid_port source_port \<or> \<not> valid_port destination_port then (Status.MalformedPacket, out_datagram)
              else if be16 p 6 \<noteq> 0 \<and> transport_checksum source destination IPV4_PROTOCOL_UDP p declared \<noteq> 0
              then (Status.ChecksumMismatch, out_datagram)
              else (Status.Ok, Some \<lparr>udp_source_port = source_port, udp_destination_port = destination_port,
                udp_payload = Some (sub_bytes UDP_HEADER_SIZE (declared - UDP_HEADER_SIZE) p),
                udp_payload_length = declared - UDP_HEADER_SIZE\<rparr>)
      | _ \<Rightarrow> (Status.InvalidArgument, out_datagram))"

definition serialize_udp ::
  "IPv4Address \<Rightarrow> IPv4Address \<Rightarrow> u16 \<Rightarrow> u16 \<Rightarrow> u8 list option \<Rightarrow> nat \<Rightarrow> u8 list option \<Rightarrow> nat \<Rightarrow> nat option \<Rightarrow>
   Status \<times> u8 list option \<times> nat option" where
  "serialize_udp source destination source_port destination_port payload payload_length output output_capacity out_length =
     (let zero = map_option (\<lambda>_. 0) out_length in
      case (output, out_length) of
        (Some b, Some _) \<Rightarrow>
          if (payload = None \<and> payload_length \<noteq> 0) \<or> \<not> valid_port source_port \<or> \<not> valid_port destination_port
          then (Status.InvalidArgument, output, zero)
          else if payload_length > UDP_MAX_PAYLOAD then (Status.PayloadTooLarge, output, zero)
          else let required = UDP_HEADER_SIZE + payload_length in
            if output_capacity < required then (Status.BufferTooSmall, output, Some required)
            else let b = put16 0 source_port b;
                     b = put16 2 destination_port b;
                     b = put16 4 (of_nat required) b;
                     b = put16 6 0 b;
                     b = copy_bytes UDP_HEADER_SIZE (source_bytes (External payload) b) payload_length b;
                     checksum = transport_checksum source destination IPV4_PROTOCOL_UDP b required;
                     checksum = (if checksum = 0 then 0xFFFF else checksum);
                     b = put16 6 checksum b
              in (Status.Ok, Some b, Some required)
      | _ \<Rightarrow> (Status.InvalidArgument, output, zero))"

section \<open>TCP\<close>

record TcpSegmentView =
  tcp_source_port :: u16
  tcp_destination_port :: u16
  tcp_sequence :: u32
  tcp_acknowledgement :: u32
  tcp_flags :: u8
  tcp_window :: u16
  tcp_payload :: "u8 list option"
  tcp_payload_length :: nat

definition parse_tcp ::
  "IPv4Address \<Rightarrow> IPv4Address \<Rightarrow> u8 list option \<Rightarrow> nat \<Rightarrow> TcpSegmentView option \<Rightarrow> Status \<times> TcpSegmentView option" where
  "parse_tcp source destination packet packet_length out_segment =
     (case (packet, out_segment) of
        (Some p, Some _) \<Rightarrow>
          if packet_length < TCP_MIN_HEADER_SIZE then (Status.FrameTooShort, out_segment)
          else let hl = unat (drop_bit 4 (p ! 12)) * 4 in
            if hl < TCP_MIN_HEADER_SIZE \<or> hl > packet_length then (Status.MalformedPacket, out_segment)
            else let source_port = be16 p 0; destination_port = be16 p 2 in
              if \<not> valid_port source_port \<or> \<not> valid_port destination_port then (Status.MalformedPacket, out_segment)
              else if transport_checksum source destination IPV4_PROTOCOL_TCP p packet_length \<noteq> 0
              then (Status.ChecksumMismatch, out_segment)
              else (Status.Ok, Some \<lparr>tcp_source_port = source_port, tcp_destination_port = destination_port,
                tcp_sequence = be32 p 4, tcp_acknowledgement = be32 p 8, tcp_flags = p ! 13, tcp_window = be16 p 14,
                tcp_payload = Some (sub_bytes hl (packet_length - hl) p), tcp_payload_length = packet_length - hl\<rparr>)
      | _ \<Rightarrow> (Status.InvalidArgument, out_segment))"

definition serialize_tcp ::
  "IPv4Address \<Rightarrow> IPv4Address \<Rightarrow> u16 \<Rightarrow> u16 \<Rightarrow> u32 \<Rightarrow> u32 \<Rightarrow> u8 \<Rightarrow> u16 \<Rightarrow> u8 list option \<Rightarrow> nat \<Rightarrow>
   u8 list option \<Rightarrow> nat \<Rightarrow> nat option \<Rightarrow> Status \<times> u8 list option \<times> nat option" where
  "serialize_tcp source destination source_port destination_port sequence acknowledgement flags window
     payload payload_length output output_capacity out_length =
     (let zero = map_option (\<lambda>_. 0) out_length in
      case (output, out_length) of
        (Some b, Some _) \<Rightarrow>
          if (payload = None \<and> payload_length \<noteq> 0) \<or> \<not> valid_port source_port \<or> \<not> valid_port destination_port
          then (Status.InvalidArgument, output, zero)
          else if payload_length > TCP_MAX_PAYLOAD then (Status.PayloadTooLarge, output, zero)
          else let required = TCP_MIN_HEADER_SIZE + payload_length in
            if output_capacity < required then (Status.BufferTooSmall, output, Some required)
            else let b = clear_bytes TCP_MIN_HEADER_SIZE b;
                     b = put16 0 source_port b;
                     b = put16 2 destination_port b;
                     b = put32 4 sequence b;
                     b = put32 8 acknowledgement b;
                     b = b[12 := push_bit 4 5];
                     b = b[13 := flags];
                     b = put16 14 window b;
                     b = copy_bytes TCP_MIN_HEADER_SIZE (source_bytes (External payload) b) payload_length b;
                     b = put16 16 (transport_checksum source destination IPV4_PROTOCOL_TCP b required) b
              in (Status.Ok, Some b, Some required)
      | _ \<Rightarrow> (Status.InvalidArgument, output, zero))"

section \<open>DHCP\<close>

definition DHCP_FIXED_SIZE :: nat where "DHCP_FIXED_SIZE = 240"
definition DHCP_COOKIE :: u32 where "DHCP_COOKIE = 0x63825363"
definition DHCP_OPTION_SUBNET :: u8 where "DHCP_OPTION_SUBNET = 1"
definition DHCP_OPTION_ROUTER :: u8 where "DHCP_OPTION_ROUTER = 3"
definition DHCP_OPTION_DNS :: u8 where "DHCP_OPTION_DNS = 6"
definition DHCP_OPTION_REQUESTED_IP :: u8 where "DHCP_OPTION_REQUESTED_IP = 50"
definition DHCP_OPTION_LEASE :: u8 where "DHCP_OPTION_LEASE = 51"
definition DHCP_OPTION_TYPE :: u8 where "DHCP_OPTION_TYPE = 53"
definition DHCP_OPTION_SERVER :: u8 where "DHCP_OPTION_SERVER = 54"
definition DHCP_OPTION_PARAMETERS :: u8 where "DHCP_OPTION_PARAMETERS = 55"
definition DHCP_OPTION_CLIENT_ID :: u8 where "DHCP_OPTION_CLIENT_ID = 61"
definition DHCP_OPTION_END :: u8 where "DHCP_OPTION_END = 255"
definition DHCP_OPTION_PAD :: u8 where "DHCP_OPTION_PAD = 0"

lemmas dhcp_options = DHCP_OPTION_SUBNET_def DHCP_OPTION_ROUTER_def DHCP_OPTION_DNS_def DHCP_OPTION_REQUESTED_IP_def
  DHCP_OPTION_LEASE_def DHCP_OPTION_TYPE_def DHCP_OPTION_SERVER_def DHCP_OPTION_PARAMETERS_def
  DHCP_OPTION_CLIENT_ID_def DHCP_OPTION_END_def DHCP_OPTION_PAD_def

type_synonym DhcpMessageType = u8

definition DhcpMessageType_Discover :: DhcpMessageType where "DhcpMessageType_Discover = 1"
definition DhcpMessageType_Request :: DhcpMessageType where "DhcpMessageType_Request = 3"

record DhcpMessageView =
  dhcp_type :: DhcpMessageType
  dhcp_transaction_id :: u32
  offered_address :: IPv4Address
  server_identifier :: IPv4Address
  dhcp_netmask :: IPv4Address
  dhcp_gateway :: IPv4Address
  dns_server :: IPv4Address
  lease_seconds :: u32
  has_server_identifier :: bool
  has_netmask :: bool
  has_gateway :: bool
  has_dns_server :: bool

definition append_option :: "u8 list \<Rightarrow> nat \<Rightarrow> nat \<Rightarrow> u8 \<Rightarrow> u8 list \<Rightarrow> nat \<Rightarrow> bool \<times> u8 list \<times> nat" where
  "append_option output capacity cursor type value value_length =
     (if value_length > 255 \<or> cursor > capacity \<or> capacity - cursor < value_length + 2
      then (False, output, cursor)
      else let output = output[cursor := type];
               output = output[cursor + 1 := of_nat value_length];
               output = copy_bytes (cursor + 2) value value_length output
        in (True, output, cursor + 2 + value_length))"

text \<open>The chains \<^verbatim>\<open>!append_option(...) || !append_option(...) || ...\<close> stop at the first failure.\<close>

fun append_options :: "u8 list \<Rightarrow> nat \<Rightarrow> nat \<Rightarrow> (u8 \<times> u8 list) list \<Rightarrow> bool \<times> u8 list \<times> nat" where
  "append_options output capacity cursor [] = (True, output, cursor)"
| "append_options output capacity cursor ((type, value) # rest) =
     (case append_option output capacity cursor type value (length value) of
        (True, output', cursor') \<Rightarrow> append_options output' capacity cursor' rest
      | (False, output', cursor') \<Rightarrow> (False, output', cursor'))"

definition initialize_dhcp_request ::
  "u32 \<Rightarrow> MacAddress \<Rightarrow> u8 list option \<Rightarrow> nat \<Rightarrow> nat option \<Rightarrow> Status \<times> u8 list option \<times> nat option" where
  "initialize_dhcp_request transaction_id client output output_capacity cursor =
     (case (output, cursor) of
        (Some b, Some _) \<Rightarrow>
          if output_capacity < DHCP_FIXED_SIZE + 1 then (Status.BufferTooSmall, output, Some (DHCP_FIXED_SIZE + 1))
          else let b = clear_bytes output_capacity b;
                   b = b[0 := 1];
                   b = b[1 := 1];
                   b = b[2 := of_nat MAC_ADDRESS_LENGTH];
                   b = put32 4 transaction_id b;
                   b = put16 10 0x8000 b;
                   b = copy_bytes 28 client MAC_ADDRESS_LENGTH b;
                   b = put32 236 DHCP_COOKIE b
            in (Status.Ok, Some b, Some DHCP_FIXED_SIZE)
      | _ \<Rightarrow> (Status.InvalidArgument, output, cursor))"

text \<open>
  The common end of \<open>serialize_dhcp_discover\<close> and \<open>serialize_dhcp_request\<close>: initialise, append the
  options, then the end marker.
\<close>

definition serialize_dhcp ::
  "(u8 \<times> u8 list) list \<Rightarrow> u32 \<Rightarrow> MacAddress \<Rightarrow> u8 list option \<Rightarrow> nat \<Rightarrow> nat option \<Rightarrow>
   Status \<times> u8 list option \<times> nat option" where
  "serialize_dhcp options transaction_id client output output_capacity out_length =
     (case out_length of
        None \<Rightarrow> (Status.InvalidArgument, output, None)
      | Some _ \<Rightarrow>
          (case initialize_dhcp_request transaction_id client output output_capacity (Some 0) of
             (status, output, cursor) \<Rightarrow>
               if status \<noteq> Status.Ok then (status, output, Some 0)
               else case append_options (the output) output_capacity (the cursor) options of
                   (ok, b, cursor) \<Rightarrow>
                     if \<not> ok \<or> cursor \<ge> output_capacity then (Status.BufferTooSmall, Some b, Some 0)
                     else (Status.Ok, Some (b[cursor := DHCP_OPTION_END]), Some (cursor + 1))))"

definition dhcp_parameters :: "u8 list" where
  "dhcp_parameters = [DHCP_OPTION_SUBNET, DHCP_OPTION_ROUTER, DHCP_OPTION_DNS, DHCP_OPTION_LEASE]"

definition serialize_dhcp_discover ::
  "u32 \<Rightarrow> MacAddress \<Rightarrow> u8 list option \<Rightarrow> nat \<Rightarrow> nat option \<Rightarrow> Status \<times> u8 list option \<times> nat option" where
  "serialize_dhcp_discover transaction_id client =
     serialize_dhcp
       [(DHCP_OPTION_TYPE, [DhcpMessageType_Discover]), (DHCP_OPTION_CLIENT_ID, 1 # client),
        (DHCP_OPTION_PARAMETERS, dhcp_parameters)] transaction_id client"

definition serialize_dhcp_request ::
  "u32 \<Rightarrow> MacAddress \<Rightarrow> IPv4Address \<Rightarrow> IPv4Address \<Rightarrow> u8 list option \<Rightarrow> nat \<Rightarrow> nat option \<Rightarrow>
   Status \<times> u8 list option \<times> nat option" where
  "serialize_dhcp_request transaction_id client requested_address server_id =
     serialize_dhcp
       [(DHCP_OPTION_TYPE, [DhcpMessageType_Request]), (DHCP_OPTION_REQUESTED_IP, requested_address),
        (DHCP_OPTION_SERVER, server_id), (DHCP_OPTION_CLIENT_ID, 1 # client),
        (DHCP_OPTION_PARAMETERS, dhcp_parameters)] transaction_id client"

definition ipv4_option :: "u8 list \<Rightarrow> nat \<Rightarrow> IPv4Address \<Rightarrow> bool \<times> IPv4Address" where
  "ipv4_option value n output =
     (if n < IPV4_ADDRESS_LENGTH then (False, output) else (True, take IPV4_ADDRESS_LENGTH value))"

text \<open>What one option of a reply does to the result; \<open>None\<close> is the malformed message type.\<close>

definition dhcp_option :: "u8 \<Rightarrow> u8 list \<Rightarrow> nat \<Rightarrow> DhcpMessageView \<times> bool \<Rightarrow> (DhcpMessageView \<times> bool) option" where
  "dhcp_option option value n st =
     (case st of (result, has_type) \<Rightarrow>
        if option = DHCP_OPTION_TYPE then
          (if n \<noteq> 1 \<or> value ! 0 < 1 \<or> value ! 0 > 6 then None
           else Some (result\<lparr>dhcp_type := value ! 0\<rparr>, True))
        else if option = DHCP_OPTION_SERVER then
          (let (b, a) = ipv4_option value n (server_identifier result)
           in Some (result\<lparr>server_identifier := a, has_server_identifier := b\<rparr>, has_type))
        else if option = DHCP_OPTION_SUBNET then
          (let (b, a) = ipv4_option value n (dhcp_netmask result)
           in Some (result\<lparr>dhcp_netmask := a, has_netmask := b\<rparr>, has_type))
        else if option = DHCP_OPTION_ROUTER then
          (let (b, a) = ipv4_option value n (dhcp_gateway result)
           in Some (result\<lparr>dhcp_gateway := a, has_gateway := b\<rparr>, has_type))
        else if option = DHCP_OPTION_DNS then
          (let (b, a) = ipv4_option value n (dns_server result)
           in Some (result\<lparr>dns_server := a, has_dns_server := b\<rparr>, has_type))
        else if option = DHCP_OPTION_LEASE \<and> n = 4 then
          Some (result\<lparr>lease_seconds := read_be32 (Some value)\<rparr>, has_type)
        else Some (result, has_type))"

function dhcp_loop :: "u8 list \<Rightarrow> nat \<Rightarrow> nat \<Rightarrow> DhcpMessageView \<times> bool \<Rightarrow> (DhcpMessageView \<times> bool) option" where
  "dhcp_loop packet packet_length cursor st =
     (if cursor < packet_length then
        let option = packet ! cursor in
        if option = DHCP_OPTION_END then Some st
        else if option = DHCP_OPTION_PAD then dhcp_loop packet packet_length (cursor + 1) st
        else if cursor + 1 \<ge> packet_length then None
        else let n = unat (packet ! (cursor + 1)) in
          if n > packet_length - (cursor + 2) then None
          else (case dhcp_option option (drop (cursor + 2) packet) n st of
                  None \<Rightarrow> None
                | Some st' \<Rightarrow> dhcp_loop packet packet_length (cursor + 2 + n) st')
      else Some st)"
  by auto
termination by (relation "measure (\<lambda>(p, n, c, s). n - c)") auto

declare dhcp_loop.simps [simp del]

definition zero_ipv4 :: IPv4Address where
  "zero_ipv4 = replicate IPV4_ADDRESS_LENGTH 0"

definition zero_dhcp :: DhcpMessageView where
  "zero_dhcp = \<lparr>dhcp_type = 0, dhcp_transaction_id = 0, offered_address = zero_ipv4, server_identifier = zero_ipv4,
     dhcp_netmask = zero_ipv4, dhcp_gateway = zero_ipv4, dns_server = zero_ipv4, lease_seconds = 0,
     has_server_identifier = False, has_netmask = False, has_gateway = False, has_dns_server = False\<rparr>"

definition parse_dhcp_reply ::
  "u8 list option \<Rightarrow> nat \<Rightarrow> u32 \<Rightarrow> MacAddress \<Rightarrow> DhcpMessageView option \<Rightarrow> Status \<times> DhcpMessageView option" where
  "parse_dhcp_reply packet packet_length expected_transaction_id expected_client out_message =
     (case (packet, out_message) of
        (Some p, Some _) \<Rightarrow>
          if packet_length < DHCP_FIXED_SIZE then (Status.FrameTooShort, out_message)
          else if p ! 0 \<noteq> 2 \<or> p ! 1 \<noteq> 1 \<or> p ! 2 \<noteq> of_nat MAC_ADDRESS_LENGTH \<or>
            be32 p 4 \<noteq> expected_transaction_id \<or> be32 p 236 \<noteq> DHCP_COOKIE then (Status.NotForUs, out_message)
          else if \<not> list_all (\<lambda>i. p ! (28 + i) = expected_client ! i) [0..<MAC_ADDRESS_LENGTH]
          then (Status.NotForUs, out_message)
          else let result = zero_dhcp\<lparr>dhcp_transaction_id := expected_transaction_id,
                              offered_address := sub_bytes 16 IPV4_ADDRESS_LENGTH p\<rparr> in
            (case dhcp_loop p packet_length DHCP_FIXED_SIZE (result, False) of
               None \<Rightarrow> (Status.MalformedPacket, out_message)
             | Some (result, has_type) \<Rightarrow>
                 if \<not> has_type \<or> ipv4_is_zero (offered_address result) then (Status.MalformedPacket, out_message)
                 else (Status.Ok, Some result))
      | _ \<Rightarrow> (Status.InvalidArgument, out_message))"

section \<open>DNS\<close>

record DnsAnswer =
  dns_transaction_id :: u16
  dns_address :: IPv4Address
  ttl_seconds :: u32

text \<open>The length of the NUL-terminated name; \<open>None\<close> when it exceeds 253.\<close>

fun dns_name_length :: "u8 list \<Rightarrow> nat \<Rightarrow> nat option" where
  "dns_name_length (c # name) n =
     (if c = 0 then Some n else if n + 1 > 253 then None else dns_name_length name (n + 1))"
| "dns_name_length [] n = None"

definition label_end :: "u8 list \<Rightarrow> nat \<Rightarrow> nat \<Rightarrow> nat" where
  "label_end name name_length label_start =
     label_start + length (takeWhile (\<lambda>c. c \<noteq> 46) (take (name_length - label_start) (drop label_start name)))"

function dns_labels :: "u8 list \<Rightarrow> nat \<Rightarrow> nat \<Rightarrow> nat \<Rightarrow> nat \<Rightarrow> u8 list \<Rightarrow> bool \<times> u8 list \<times> nat" where
  "dns_labels name name_length label_start cursor capacity output =
     (if label_start < name_length then
        let le = label_end name name_length label_start;
            label_length = le - label_start in
        if label_length = 0 \<or> label_length > 63 \<or> cursor + 1 + label_length > capacity then (False, output, cursor)
        else let output = output[cursor := of_nat label_length];
                 output = copy_bytes (cursor + 1) (drop label_start name) label_length output
          in dns_labels name name_length (le + 1) (cursor + 1 + label_length) capacity output
      else (True, output, cursor))"
  by auto
termination
  by (relation "measure (\<lambda>(n, l, s, c, k, p). l - s)") (auto simp: label_end_def)

declare dns_labels.simps [simp del]

definition serialize_dns_a_query ::
  "u16 \<Rightarrow> u8 list option \<Rightarrow> u8 list option \<Rightarrow> nat \<Rightarrow> nat option \<Rightarrow> Status \<times> u8 list option \<times> nat option" where
  "serialize_dns_a_query transaction_id name output output_capacity out_length =
     (let zero = map_option (\<lambda>_. 0) out_length in
      case (name, output, out_length) of
        (Some nm, Some b, Some _) \<Rightarrow>
          if nm ! 0 = 0 then (Status.InvalidArgument, output, zero)
          else if output_capacity < 17 then (Status.BufferTooSmall, output, zero)
          else let b = clear_bytes output_capacity b;
                   b = put16 0 transaction_id b;
                   b = put16 2 0x0100 b;
                   b = put16 4 1 b in
            (case dns_name_length nm 0 of
               None \<Rightarrow> (Status.InvalidArgument, Some b, zero)
             | Some name_length \<Rightarrow>
                 (case dns_labels nm name_length 0 12 output_capacity b of
                    (False, b, cursor) \<Rightarrow> (Status.InvalidArgument, Some b, zero)
                  | (True, b, cursor) \<Rightarrow>
                      if cursor + 5 > output_capacity then (Status.BufferTooSmall, Some b, zero)
                      else let b = b[cursor := 0];
                               cursor = cursor + 1;
                               b = put16 cursor 1 b;
                               b = put16 (cursor + 2) 1 b
                        in (Status.Ok, Some b, Some (cursor + 4))))
      | _ \<Rightarrow> (Status.InvalidArgument, output, zero))"

function skip_loop :: "u8 list \<Rightarrow> nat \<Rightarrow> nat \<Rightarrow> nat \<Rightarrow> nat option" where
  "skip_loop packet packet_length position labels =
     (if position < packet_length then
        let n = packet ! position; position = position + 1 in
        if n = 0 then Some position
        else if n AND 0xc0 = 0xc0 then (if position \<ge> packet_length then None else Some (position + 1))
        else if n AND 0xc0 \<noteq> 0 \<or> n > 63 \<or> position > packet_length \<or> packet_length - position < unat n then None
        else if labels + 1 > 127 then None
        else skip_loop packet packet_length (position + unat n) (labels + 1)
      else None)"
  by auto
termination by (relation "measure (\<lambda>(p, n, c, l). n - c)") auto

declare skip_loop.simps [simp del]

definition skip_dns_name :: "u8 list option \<Rightarrow> nat \<Rightarrow> nat \<Rightarrow> Status + nat" where
  "skip_dns_name packet packet_length cursor =
     (case packet of
        None \<Rightarrow> Inl Status.MalformedPacket
      | Some p \<Rightarrow>
          if cursor \<ge> packet_length then Inl Status.MalformedPacket
          else case skip_loop p packet_length cursor 0 of None \<Rightarrow> Inl Status.MalformedPacket | Some c \<Rightarrow> Inr c)"

fun dns_questions :: "u8 list \<Rightarrow> nat \<Rightarrow> nat \<Rightarrow> nat \<Rightarrow> Status + nat" where
  "dns_questions packet packet_length 0 cursor = Inr cursor"
| "dns_questions packet packet_length (Suc n) cursor =
     (case skip_dns_name (Some packet) packet_length cursor of
        Inl status \<Rightarrow> Inl status
      | Inr cursor \<Rightarrow>
          if cursor > packet_length \<or> packet_length - cursor < 4 then Inl Status.MalformedPacket
          else dns_questions packet packet_length n (cursor + 4))"

fun dns_answers :: "u8 list \<Rightarrow> nat \<Rightarrow> u16 \<Rightarrow> nat \<Rightarrow> nat \<Rightarrow> Status + DnsAnswer" where
  "dns_answers packet packet_length expected_id 0 cursor = Inl Status.UnsupportedProtocol"
| "dns_answers packet packet_length expected_id (Suc n) cursor =
     (case skip_dns_name (Some packet) packet_length cursor of
        Inl status \<Rightarrow> Inl status
      | Inr cursor \<Rightarrow>
          if cursor > packet_length \<or> packet_length - cursor < 10 then Inl Status.MalformedPacket
          else let type = be16 packet cursor;
                   record_class = be16 packet (cursor + 2);
                   ttl = be32 packet (cursor + 4);
                   data_length = unat (be16 packet (cursor + 8));
                   cursor = cursor + 10 in
            if data_length > packet_length - cursor then Inl Status.MalformedPacket
            else if type = 1 \<and> record_class = 1 \<and> data_length = 4
            then Inr \<lparr>dns_transaction_id = expected_id, dns_address = sub_bytes cursor 4 packet, ttl_seconds = ttl\<rparr>
            else dns_answers packet packet_length expected_id n (cursor + data_length))"

definition parse_dns_a_response :: "u8 list option \<Rightarrow> nat \<Rightarrow> u16 \<Rightarrow> DnsAnswer option \<Rightarrow> Status \<times> DnsAnswer option" where
  "parse_dns_a_response packet packet_length expected_transaction_id out_answer =
     (case (packet, out_answer) of
        (Some p, Some _) \<Rightarrow>
          if packet_length < 12 then (Status.FrameTooShort, out_answer)
          else let flags = be16 p 2 in
            if be16 p 0 \<noteq> expected_transaction_id then (Status.NotForUs, out_answer)
            else if flags AND 0x8000 = 0 then (Status.MalformedPacket, out_answer)
            else let response_code = flags AND 0x000f in
              if response_code = 3 then (Status.NameNotFound, out_answer)
              else if response_code \<noteq> 0 then (Status.InterfaceError, out_answer)
              else let questions = unat (be16 p 4); answers = unat (be16 p 6) in
                if questions = 0 \<or> answers = 0 then (Status.WouldBlock, out_answer)
                else case dns_questions p packet_length questions 12 of
                    Inl status \<Rightarrow> (status, out_answer)
                  | Inr cursor \<Rightarrow>
                      (case dns_answers p packet_length expected_transaction_id answers cursor of
                         Inl status \<Rightarrow> (status, out_answer)
                       | Inr answer \<Rightarrow> (Status.Ok, Some answer))
      | _ \<Rightarrow> (Status.InvalidArgument, out_answer))"

section \<open>The transport checksum is the Internet checksum over the pseudo header\<close>

definition pseudo_header :: "IPv4Address \<Rightarrow> IPv4Address \<Rightarrow> u8 \<Rightarrow> nat \<Rightarrow> u8 list" where
  "pseudo_header src dst proto n = src @ dst @ [0, proto] @ bytes16 (of_nat n)"

lemma length_pseudo_header [simp]: "is_ipv4 src \<Longrightarrow> is_ipv4 dst \<Longrightarrow> length (pseudo_header src dst proto n) = 12"
  by (simp add: pseudo_header_def IPV4_ADDRESS_LENGTH_def)

lemma bytes16_of_nat: "n < 65536 \<Longrightarrow> bytes16 (of_nat n) = [of_nat (n div 256), of_nat n]"
proof -
  assume n: "n < 65536"
  have u: "unat (of_nat n :: u16) = n" using n by (intro unat_of_nat_small) simp
  have "unat (ucast (drop_bit 8 (of_nat n :: u16)) :: u8) = n div 256"
    using n by (simp add: unsigned_ucast_eq drop_bit_eq_div unat_div u take_bit_nat_eq_self)
  moreover have "unat (of_nat (n div 256) :: u8) = n div 256" using n by (intro unat_of_nat_small) simp
  moreover have "unat (ucast (of_nat n :: u16) :: u8) = unat (of_nat n :: u8)"
    using n by (simp add: unsigned_ucast_eq take_bit_eq_mod unat_of_nat)
  ultimately show ?thesis by (simp add: bytes16_def word_unat_eq_iff)
qed

lemma transport_checksum_eq:
  assumes "is_ipv4 src" "is_ipv4 dst" "n \<le> 65535"
  shows "transport_checksum src dst proto p n = reference_checksum (pseudo_header src dst proto n @ take n p)"
proof -
  let ?l = "[0, proto, of_nat (n div 256), of_nat n] :: u8 list"
  have even: "even (length src)" "even (length (src @ dst))" "even (length (src @ dst @ ?l))"
    using assms(1,2) by (simp_all add: IPV4_ADDRESS_LENGTH_def)
  have "length (src @ dst @ ?l @ take n p) \<le> 65547" using assms by (simp add: IPV4_ADDRESS_LENGTH_def)
  then have "(length (src @ dst @ ?l @ take n p) + 1) div 2 \<le> 32774" by linarith
  then have "word_sum (src @ dst @ ?l @ take n p) \<le> 65535 * 32774"
    using word_sum_bound [of "src @ dst @ ?l @ take n p"] by (meson le_trans mult_le_mono2)
  then have total: "word_sum src + word_sum dst + word_sum ?l + word_sum (take n p) < 4294967296"
    using word_sum_append [OF even(1)] word_sum_append [OF even(2)] word_sum_append [OF even(3)] by (simp only: append_assoc)
  have sum: "word_sum (src @ dst @ ?l @ take n p) = word_sum src + word_sum dst + word_sum ?l + word_sum (take n p)"
    using word_sum_append [OF even(1)] word_sum_append [OF even(2)] word_sum_append [OF even(3)] by (simp only: append_assoc)
  let ?c1 = "checksum_add 0 src" let ?c2 = "checksum_add ?c1 dst" let ?c3 = "checksum_add ?c2 ?l"
  have c1: "unat ?c1 = word_sum src" using total by (subst unat_checksum_add) simp_all
  have c2: "unat ?c2 = word_sum src + word_sum dst" using total c1 by (subst unat_checksum_add) simp_all
  have c3: "unat ?c3 = word_sum src + word_sum dst + word_sum ?l" using total c2 by (subst unat_checksum_add) linarith+
  have c4: "unat (checksum_add ?c3 (take n p)) = word_sum (src @ dst @ ?l @ take n p)"
    using total c3 sum by (subst unat_checksum_add) linarith+
  have ps: "pseudo_header src dst proto n @ take n p = src @ dst @ ?l @ take n p"
    using assms(3) by (simp add: pseudo_header_def bytes16_of_nat)
  have "transport_checksum src dst proto p n = checksum_finish (checksum_add ?c3 (take n p))"
    using assms(1,2) by (simp add: transport_checksum_def Let_def)
  then show ?thesis
    unfolding word_unat_eq_iff by (simp only: checksum_finish_eq c4 unat_reference_checksum ps)
qed

section \<open>UDP on the wire\<close>

definition udp_with :: "u16 \<Rightarrow> u16 \<Rightarrow> u8 list \<Rightarrow> u16 \<Rightarrow> u8 list" where
  "udp_with sp dp d c = bytes16 sp @ bytes16 dp @ bytes16 (of_nat (8 + length d)) @ bytes16 c @ d"

definition udp_sum :: "IPv4Address \<Rightarrow> IPv4Address \<Rightarrow> u16 \<Rightarrow> u16 \<Rightarrow> u8 list \<Rightarrow> u16" where
  "udp_sum src dst sp dp d =
     (let c = reference_checksum (pseudo_header src dst IPV4_PROTOCOL_UDP (8 + length d) @ udp_with sp dp d 0)
      in if c = 0 then 0xFFFF else c)"

definition udp_bytes :: "IPv4Address \<Rightarrow> IPv4Address \<Rightarrow> u16 \<Rightarrow> u16 \<Rightarrow> u8 list \<Rightarrow> u8 list" where
  "udp_bytes src dst sp dp d = udp_with sp dp d (udp_sum src dst sp dp d)"

lemma length_udp [simp]: "length (udp_with sp dp d c) = 8 + length d" "length (udp_bytes src dst sp dp d) = 8 + length d"
  by (simp_all add: udp_with_def udp_bytes_def)

lemma udp_bytes_valid:
  assumes "is_ipv4 src" "is_ipv4 dst"
  shows "reference_checksum (pseudo_header src dst IPV4_PROTOCOL_UDP (8 + length d) @ udp_bytes src dst sp dp d) = 0"
proof -
  let ?p = "pseudo_header src dst IPV4_PROTOCOL_UDP (8 + length d) @ bytes16 sp @ bytes16 dp @ bytes16 (of_nat (8 + length d))"
  have "reference_checksum (?p @ bytes16 (udp_sum src dst sp dp d) @ d) = 0"
    by (rule checksum_field_valid) (use assms in \<open>auto simp: udp_sum_def udp_with_def Let_def\<close>)
  then show ?thesis by (simp add: udp_bytes_def udp_with_def)
qed

lemma serialize_udp_eq:
  assumes "is_ipv4 src" "is_ipv4 dst" "sp \<noteq> 0" "dp \<noteq> 0" "length d \<le> UDP_MAX_PAYLOAD" "8 + length d \<le> cap" "cap \<le> length b"
  shows "serialize_udp src dst sp dp (Some (d @ r)) (length d) (Some b) cap (Some l) =
    (Status.Ok, Some (udp_bytes src dst sp dp d @ drop (8 + length d) b), Some (8 + length d))"
proof -
  have len: "8 + length d \<le> length b" using assms(6,7) by simp
  let ?t = "drop (8 + length d) b"
  have b1: "put16 0 sp b = bytes16 sp @ drop 2 b" using put16_append [of "[]" 0 b sp] len by simp
  have b2: "put16 2 dp (bytes16 sp @ drop 2 b) = (bytes16 sp @ bytes16 dp) @ drop 4 b"
    using len by (subst put16_append) simp_all
  have b3: "put16 4 v ((bytes16 sp @ bytes16 dp) @ drop 4 b) = (bytes16 sp @ bytes16 dp @ bytes16 v) @ drop 6 b" for v
    using len by (subst put16_append) simp_all
  have b4: "put16 6 0 ((bytes16 sp @ bytes16 dp @ bytes16 v) @ drop 6 b) = (bytes16 sp @ bytes16 dp @ bytes16 v @ bytes16 0) @ drop 8 b" for v
    using len by (subst put16_append) simp_all
  have b5: "copy_bytes 8 (d @ r) (length d) ((bytes16 sp @ bytes16 dp @ bytes16 (of_nat (8 + length d)) @ bytes16 0) @ drop 8 b)
      = udp_with sp dp d 0 @ ?t"
    using len by (subst copy_bytes_append) (simp_all add: udp_with_def add.commute)
  have b6: "put16 6 c (udp_with sp dp d 0 @ ?t) = udp_with sp dp d c @ ?t" for c
    unfolding udp_with_def append_assoc
    using put16_append [of "bytes16 sp @ bytes16 dp @ bytes16 (of_nat (8 + length d))" 6 "bytes16 0 @ d @ ?t" c] by simp
  have c: "transport_checksum src dst IPV4_PROTOCOL_UDP (udp_with sp dp d 0 @ ?t) (8 + length d) =
      reference_checksum (pseudo_header src dst IPV4_PROTOCOL_UDP (8 + length d) @ udp_with sp dp d 0)"
    using assms(1,2,5) by (subst transport_checksum_eq) (simp_all add: transport_sizes)
  have "\<not> length d > UDP_MAX_PAYLOAD" "\<not> cap < 8 + length d" using assms(5,6) by auto
  with assms(3,4) show ?thesis
    unfolding serialize_udp_def Let_def prod.case option.case UDP_HEADER_SIZE_def source_bytes_def source_ptr.case b1 b2 b3 b4 b5 c b6
    by (simp add: valid_port_def udp_bytes_def udp_sum_def Let_def)
qed

lemma parse_udp_wire:
  assumes "is_ipv4 src" "is_ipv4 dst" "sp \<noteq> 0" "dp \<noteq> 0" "8 + length d \<le> 65535" "8 + length d \<le> n"
  shows "parse_udp src dst (Some (udp_bytes src dst sp dp d @ r)) n (Some v) =
    (Status.Ok, Some \<lparr>udp_source_port = sp, udp_destination_port = dp, udp_payload = Some d, udp_payload_length = length d\<rparr>)"
proof -
  define c where "c = udp_sum src dst sp dp d"
  let ?p = "udp_bytes src dst sp dp d @ r"
  have p: "?p = bytes16 sp @ bytes16 dp @ bytes16 (of_nat (8 + length d)) @ bytes16 c @ d @ r"
    by (simp add: udp_bytes_def udp_with_def c_def)
  have "be16 ?p 0 = sp" unfolding p by (simp add: read_bytes16)
  moreover have "be16 ?p 2 = dp" unfolding p using be16_append [of "bytes16 sp" 2] by simp
  moreover have "be16 ?p 4 = of_nat (8 + length d)" unfolding p using be16_append [of "bytes16 sp @ bytes16 dp" 4] by simp
  moreover have "sub_bytes 8 (length d) ?p = d" unfolding p by (simp add: sub_bytes_def)
  moreover have "transport_checksum src dst IPV4_PROTOCOL_UDP ?p (8 + length d) = 0"
    using assms(1,2,5) udp_bytes_valid [OF assms(1,2)] by (subst transport_checksum_eq) simp_all
  moreover have "unat (of_nat (8 + length d) :: u16) = 8 + length d" using assms(5) by (intro unat_of_nat_small) simp
  ultimately show ?thesis
    using assms(3,4,6) unfolding parse_udp_def Let_def prod.case option.case UDP_HEADER_SIZE_def by (simp add: valid_port_def)
qed

section \<open>TCP on the wire\<close>

definition tcp_prefix :: "u16 \<Rightarrow> u16 \<Rightarrow> u32 \<Rightarrow> u32 \<Rightarrow> u8 \<Rightarrow> u16 \<Rightarrow> u8 list" where
  "tcp_prefix sp dp q a f w = bytes16 sp @ bytes16 dp @ bytes32 q @ bytes32 a @ [0x50, f] @ bytes16 w"

definition tcp_with :: "u16 \<Rightarrow> u16 \<Rightarrow> u32 \<Rightarrow> u32 \<Rightarrow> u8 \<Rightarrow> u16 \<Rightarrow> u8 list \<Rightarrow> u16 \<Rightarrow> u8 list" where
  "tcp_with sp dp q a f w d c = tcp_prefix sp dp q a f w @ bytes16 c @ [0, 0] @ d"

definition tcp_bytes ::
  "IPv4Address \<Rightarrow> IPv4Address \<Rightarrow> u16 \<Rightarrow> u16 \<Rightarrow> u32 \<Rightarrow> u32 \<Rightarrow> u8 \<Rightarrow> u16 \<Rightarrow> u8 list \<Rightarrow> u8 list" where
  "tcp_bytes src dst sp dp q a f w d = tcp_with sp dp q a f w d
     (reference_checksum (pseudo_header src dst IPV4_PROTOCOL_TCP (20 + length d) @ tcp_with sp dp q a f w d 0))"

lemma length_tcp [simp]:
  "length (tcp_prefix sp dp q a f w) = 16" "length (tcp_with sp dp q a f w d c) = 20 + length d"
  "length (tcp_bytes src dst sp dp q a f w d) = 20 + length d"
  by (simp_all add: tcp_prefix_def tcp_with_def tcp_bytes_def)

lemma tcp_bytes_valid:
  assumes "is_ipv4 src" "is_ipv4 dst"
  shows "reference_checksum (pseudo_header src dst IPV4_PROTOCOL_TCP (20 + length d) @ tcp_bytes src dst sp dp q a f w d) = 0"
proof -
  define c where "c = reference_checksum (pseudo_header src dst IPV4_PROTOCOL_TCP (20 + length d) @ tcp_with sp dp q a f w d 0)"
  let ?p = "pseudo_header src dst IPV4_PROTOCOL_TCP (20 + length d) @ tcp_prefix sp dp q a f w"
  have "reference_checksum (?p @ bytes16 c @ [0, 0] @ d) = 0"
    by (rule checksum_field_valid) (use assms in \<open>simp_all add: c_def tcp_with_def\<close>)
  then show ?thesis by (simp add: tcp_bytes_def c_def [symmetric]) (simp add: tcp_with_def)
qed

lemma serialize_tcp_header:
  "put16 14 w (((put32 8 a (put32 4 q (put16 2 dp (put16 0 sp (replicate 20 0 @ r)))))[12 := push_bit 4 5])[13 := f])
     = tcp_prefix sp dp q a f w @ bytes16 0 @ [0, 0] @ r"
proof -
  have z: "replicate 20 0 @ r = [0, 0, 0, 0, 0, 0, 0, 0, 0, 0, 0, 0, 0, 0, 0, 0, 0, 0, 0, 0 :: u8] @ r"
    by (simp add: numeral_eq_Suc)
  have "push_bit 4 (5 :: u8) = 0x50" by code_simp
  then show ?thesis
    unfolding z by (simp add: put16_def put32_def write_be16_def write_be32_def bytes16_def bytes32_def tcp_prefix_def)
qed

lemma serialize_tcp_eq:
  assumes "is_ipv4 src" "is_ipv4 dst" "sp \<noteq> 0" "dp \<noteq> 0" "length d \<le> TCP_MAX_PAYLOAD" "20 + length d \<le> cap" "cap \<le> length b"
  shows "serialize_tcp src dst sp dp q a f w (Some (d @ r)) (length d) (Some b) cap (Some l) =
    (Status.Ok, Some (tcp_bytes src dst sp dp q a f w d @ drop (20 + length d) b), Some (20 + length d))"
proof -
  have len: "20 + length d \<le> length b" using assms(6,7) by simp
  let ?t = "drop (20 + length d) b"
  have b0: "clear_bytes 20 b = replicate 20 0 @ drop 20 b" using len by (simp add: clear_bytes_eq)
  have b1: "copy_bytes 20 (d @ r) (length d) (tcp_prefix sp dp q a f w @ bytes16 0 @ [0, 0] @ drop 20 b) = tcp_with sp dp q a f w d 0 @ ?t"
    using copy_bytes_append [of "tcp_prefix sp dp q a f w @ bytes16 0 @ [0, 0]" 20 "length d" "d @ r" "drop 20 b"] len
    by (simp add: tcp_with_def add.commute)
  have b2: "put16 16 c (tcp_with sp dp q a f w d 0 @ ?t) = tcp_with sp dp q a f w d c @ ?t" for c
    using put16_append [of "tcp_prefix sp dp q a f w" 16 "bytes16 0 @ [0, 0] @ d @ ?t" c] by (simp add: tcp_with_def)
  have c: "transport_checksum src dst IPV4_PROTOCOL_TCP (tcp_with sp dp q a f w d 0 @ ?t) (20 + length d) =
      reference_checksum (pseudo_header src dst IPV4_PROTOCOL_TCP (20 + length d) @ tcp_with sp dp q a f w d 0)"
    using assms(1,2,5) by (subst transport_checksum_eq) (simp_all add: transport_sizes)
  have "\<not> length d > TCP_MAX_PAYLOAD" "\<not> cap < 20 + length d" using assms(5,6) by auto
  with assms(3,4) show ?thesis
    unfolding serialize_tcp_def Let_def prod.case option.case TCP_MIN_HEADER_SIZE_def source_bytes_def source_ptr.case b0
      serialize_tcp_header b1 c b2
    by (simp add: valid_port_def tcp_bytes_def)
qed

lemma parse_tcp_wire:
  assumes "is_ipv4 src" "is_ipv4 dst" "sp \<noteq> 0" "dp \<noteq> 0" "20 + length d \<le> 65535"
  shows "parse_tcp src dst (Some (tcp_bytes src dst sp dp q a f w d @ r)) (20 + length d) (Some v) =
    (Status.Ok, Some \<lparr>tcp_source_port = sp, tcp_destination_port = dp, tcp_sequence = q, tcp_acknowledgement = a,
       tcp_flags = f, tcp_window = w, tcp_payload = Some d, tcp_payload_length = length d\<rparr>)"
proof -
  define c where "c = reference_checksum (pseudo_header src dst IPV4_PROTOCOL_TCP (20 + length d) @ tcp_with sp dp q a f w d 0)"
  let ?p = "tcp_bytes src dst sp dp q a f w d @ r"
  have p: "?p = bytes16 sp @ bytes16 dp @ bytes32 q @ bytes32 a @ [0x50, f] @ bytes16 w @ bytes16 c @ [0, 0] @ d @ r"
    by (simp add: tcp_bytes_def c_def [symmetric]) (simp add: tcp_with_def tcp_prefix_def)
  have "be16 ?p 0 = sp" unfolding p by (simp add: read_bytes16)
  moreover have "be16 ?p 2 = dp" unfolding p using be16_append [of "bytes16 sp" 2] by simp
  moreover have "be32 ?p 4 = q" unfolding p using be32_append [of "bytes16 sp @ bytes16 dp" 4] by simp
  moreover have "be32 ?p 8 = a" unfolding p using be32_append [of "bytes16 sp @ bytes16 dp @ bytes32 q" 8] by simp
  moreover have "be16 ?p 14 = w"
    unfolding p using be16_append [of "bytes16 sp @ bytes16 dp @ bytes32 q @ bytes32 a @ [0x50, f]" 14] by simp
  moreover have "?p ! 12 = 0x50" "?p ! 13 = f" unfolding p by (simp_all add: bytes16_def bytes32_def)
  moreover have "sub_bytes 20 (length d) ?p = d" unfolding p by (simp add: sub_bytes_def)
  moreover have "transport_checksum src dst IPV4_PROTOCOL_TCP ?p (20 + length d) = 0"
    using assms(1,2,5) tcp_bytes_valid [OF assms(1,2)] by (subst transport_checksum_eq) simp_all
  moreover have "unat (drop_bit 4 (0x50 :: u8)) * 4 = 20" by code_simp
  ultimately show ?thesis
    using assms(3,4) unfolding parse_tcp_def Let_def prod.case option.case TCP_MIN_HEADER_SIZE_def by (simp add: valid_port_def)
qed

section \<open>The parsers stay within their length argument\<close>

lemma transport_checksum_local: "n \<le> length p \<Longrightarrow> transport_checksum s d k (p @ q) n = transport_checksum s d k p n"
  by (simp add: transport_checksum_def)

lemma parse_udp_local:
  assumes "n \<le> length p"
  shows "parse_udp s d (Some (p @ q)) n out = parse_udp s d (Some p) n out"
proof (cases "n < UDP_HEADER_SIZE")
  case True
  then show ?thesis by (simp add: parse_udp_def split: option.splits)
next
  case False
  with assms have len: "8 \<le> length p" by (simp add: UDP_HEADER_SIZE_def)
  then have f: "be16 (p @ q) 0 = be16 p 0" "be16 (p @ q) 2 = be16 p 2" "be16 (p @ q) 4 = be16 p 4" "be16 (p @ q) 6 = be16 p 6"
    by (simp_all add: read_local)
  define t where "t = unat (be16 p 4)"
  note body = parse_udp_def prod.case option.case f t_def [symmetric] Let_def
  show ?thesis
  proof (cases out)
    case (Some v)
    show ?thesis
    proof (cases "t < UDP_HEADER_SIZE \<or> t > n")
      case True
      show ?thesis unfolding Some body if_P [OF True] by (rule refl)
    next
      case False
      then have le: "t \<le> length p" "UDP_HEADER_SIZE + (t - UDP_HEADER_SIZE) \<le> length p" using assms by auto
      show ?thesis unfolding Some body transport_checksum_local [OF le(1)] sub_bytes_local [OF le(2)] by (rule refl)
    qed
  qed (simp add: parse_udp_def)
qed

lemma parse_tcp_local:
  assumes "n \<le> length p"
  shows "parse_tcp s d (Some (p @ q)) n out = parse_tcp s d (Some p) n out"
proof (cases "n < TCP_MIN_HEADER_SIZE")
  case True
  then show ?thesis by (simp add: parse_tcp_def split: option.splits)
next
  case False
  with assms have len: "20 \<le> length p" by (simp add: TCP_MIN_HEADER_SIZE_def)
  then have f: "be16 (p @ q) 0 = be16 p 0" "be16 (p @ q) 2 = be16 p 2" "be32 (p @ q) 4 = be32 p 4" "be32 (p @ q) 8 = be32 p 8"
      "be16 (p @ q) 14 = be16 p 14" "(p @ q) ! 12 = p ! 12" "(p @ q) ! 13 = p ! 13"
    by (simp_all add: read_local nth_append)
  define h where "h = unat (drop_bit 4 (p ! 12)) * 4"
  note body = parse_tcp_def prod.case option.case f h_def [symmetric] Let_def transport_checksum_local [OF assms]
  show ?thesis
  proof (cases out)
    case (Some v)
    show ?thesis
    proof (cases "h < TCP_MIN_HEADER_SIZE \<or> h > n")
      case True
      show ?thesis unfolding Some body if_P [OF True] by (rule refl)
    next
      case False
      then have le: "h + (n - h) \<le> length p" using assms by auto
      show ?thesis unfolding Some body sub_bytes_local [OF le] by (rule refl)
    qed
  qed (simp add: parse_tcp_def)
qed

lemma nth_local: "i < length p \<Longrightarrow> (p @ q) ! i = p ! i"
  by (simp add: nth_append)

lemma dhcp_option_local: "n \<le> length v \<Longrightarrow> dhcp_option t (v @ q) n st = dhcp_option t v n st"
  by (cases st) (auto simp: dhcp_option_def ipv4_option_def IPV4_ADDRESS_LENGTH_def nth_append read_local Let_def)

lemma dhcp_loop_local: "n \<le> length p \<Longrightarrow> dhcp_loop (p @ q) n c st = dhcp_loop p n c st"
proof (induction p n c st rule: dhcp_loop.induct)
  case (1 p n c st)
  show ?case
  proof (cases "c < n")
    case False
    then show ?thesis by (subst (1 2) dhcp_loop.simps) simp
  next
    case c: True
    then have o: "(p @ q) ! c = p ! c" using 1(3) by (simp add: nth_append)
    show ?thesis
    proof (cases "p ! c = DHCP_OPTION_END \<or> p ! c = DHCP_OPTION_PAD \<or> c + 1 \<ge> n")
      case True
      then show ?thesis using 1(1) [OF c refl] 1(3) c o by (subst (1 2) dhcp_loop.simps) (auto simp: Let_def)
    next
      case False
      then have o1: "(p @ q) ! (c + 1) = p ! (c + 1)" using 1(3) by (simp add: nth_append)
      let ?n = "unat (p ! (c + 1))"
      show ?thesis
      proof (cases "?n > n - (c + 2)")
        case True
        then show ?thesis using False c o o1 by (subst (1 2) dhcp_loop.simps) (simp add: Let_def)
      next
        case n: False
        have eq: "dhcp_option (p ! c) (drop (c + 2) (p @ q)) ?n st = dhcp_option (p ! c) (drop (c + 2) p) ?n st"
          using dhcp_option_local [of ?n "drop (c + 2) p" "p ! c" q st] n False 1(3) by simp
        have IH: "dhcp_loop (p @ q) n (c + 2 + ?n) st' = dhcp_loop p n (c + 2 + ?n) st'"
          if "dhcp_option (p ! c) (drop (c + 2) p) ?n st = Some st'" for st'
          using 1(2) [OF c refl _ _ _ refl n that 1(3)] False by blast
        have ne: "p ! c \<noteq> DHCP_OPTION_PAD" using False by blast
        show ?thesis
          unfolding dhcp_loop.simps [of "p @ q" n c st] dhcp_loop.simps [of p n c st] Let_def o o1 eq
          by (cases "dhcp_option (p ! c) (drop (c + 2) p) ?n st") (simp_all only: option.case IH if_not_P [OF ne])
      qed
    qed
  qed
qed

lemma parse_dhcp_reply_local:
  assumes "n \<le> length p"
  shows "parse_dhcp_reply (Some (p @ q)) n x m out = parse_dhcp_reply (Some p) n x m out"
proof (cases "n < DHCP_FIXED_SIZE")
  case True
  then show ?thesis by (simp add: parse_dhcp_reply_def split: option.splits)
next
  case False
  with assms have len: "240 \<le> length p" by (simp add: DHCP_FIXED_SIZE_def)
  then have f: "(p @ q) ! 0 = p ! 0" "(p @ q) ! 1 = p ! 1" "(p @ q) ! 2 = p ! 2" "be32 (p @ q) 4 = be32 p 4"
      "be32 (p @ q) 236 = be32 p 236" "sub_bytes 16 IPV4_ADDRESS_LENGTH (p @ q) = sub_bytes 16 IPV4_ADDRESS_LENGTH p"
    by (auto simp: read_local nth_append sub_bytes_local IPV4_ADDRESS_LENGTH_def)
  have mac: "list_all (\<lambda>i. (p @ q) ! (28 + i) = m ! i) [0..<MAC_ADDRESS_LENGTH] =
      list_all (\<lambda>i. p ! (28 + i) = m ! i) [0..<MAC_ADDRESS_LENGTH]"
    using len by (auto simp: list_all_iff nth_append MAC_ADDRESS_LENGTH_def)
  show ?thesis
  proof (cases out)
    case (Some v)
    show ?thesis
      unfolding Some parse_dhcp_reply_def prod.case option.case f mac Let_def dhcp_loop_local [OF assms] by (rule refl)
  qed (simp add: parse_dhcp_reply_def)
qed

lemma skip_loop_local: "n \<le> length p \<Longrightarrow> skip_loop (p @ q) n c k = skip_loop p n c k"
proof (induction p n c k rule: skip_loop.induct)
  case (1 p n c k)
  show ?case
  proof (cases "c < n")
    case c: True
    then have o: "(p @ q) ! c = p ! c" using 1(2) by (simp add: nth_append)
    have IH: "skip_loop (p @ q) n (c + 1 + unat (p ! c)) (k + 1) = skip_loop p n (c + 1 + unat (p ! c)) (k + 1)"
      if "p ! c \<noteq> 0" "p ! c AND 0xc0 \<noteq> 0xc0"
        "\<not> (p ! c AND 0xc0 \<noteq> 0 \<or> p ! c > 63 \<or> c + 1 > n \<or> n - (c + 1) < unat (p ! c))" "\<not> k + 1 > 127"
      using 1(1) [OF c refl refl that 1(2)] .
    show ?thesis
      unfolding skip_loop.simps [of "p @ q" n c k] skip_loop.simps [of p n c k] Let_def o
      by (intro if_cong refl IH) simp_all
  qed (subst (1 2) skip_loop.simps, simp)
qed

lemma skip_dns_name_local: "n \<le> length p \<Longrightarrow> skip_dns_name (Some (p @ q)) n c = skip_dns_name (Some p) n c"
  by (simp add: skip_dns_name_def skip_loop_local)

lemma dns_questions_local: "n \<le> length p \<Longrightarrow> dns_questions (p @ q) n k c = dns_questions p n k c"
  by (induction k arbitrary: c) (auto simp: skip_dns_name_local split: sum.splits)

lemma dns_answers_local: "n \<le> length p \<Longrightarrow> dns_answers (p @ q) n x k c = dns_answers p n x k c"
proof (induction k arbitrary: c)
  case (Suc k)
  show ?case
  proof (cases "skip_dns_name (Some p) n c")
    case (Inr d)
    show ?thesis
    proof (cases "d > n \<or> n - d < 10")
      case False
      with Suc.prems have "d + 10 \<le> length p" by auto
      then have f: "be16 (p @ q) d = be16 p d" "be16 (p @ q) (d + 2) = be16 p (d + 2)" "be32 (p @ q) (d + 4) = be32 p (d + 4)"
          "be16 (p @ q) (d + 8) = be16 p (d + 8)"
        by (simp_all add: read_local)
      have s: "sub_bytes (d + 10) 4 (p @ q) = sub_bytes (d + 10) 4 p" if "\<not> unat (be16 p (d + 8)) > n - (d + 10)" "unat (be16 p (d + 8)) = 4"
        using that False Suc.prems by (intro sub_bytes_local) auto
      show ?thesis
        unfolding dns_answers.simps skip_dns_name_local [OF Suc.prems] Inr sum.case Let_def f Suc.IH [OF Suc.prems]
        by (intro if_cong refl) (simp add: s)
    qed (simp add: skip_dns_name_local [OF Suc.prems] Inr)
  qed (simp add: skip_dns_name_local [OF Suc.prems])
qed simp

lemma parse_dns_local:
  assumes "n \<le> length p"
  shows "parse_dns_a_response (Some (p @ q)) n x out = parse_dns_a_response (Some p) n x out"
proof (cases "n < 12")
  case True
  then show ?thesis by (simp add: parse_dns_a_response_def split: option.splits)
next
  case False
  with assms have "12 \<le> length p" by simp
  then have f: "be16 (p @ q) 0 = be16 p 0" "be16 (p @ q) 2 = be16 p 2" "be16 (p @ q) 4 = be16 p 4" "be16 (p @ q) 6 = be16 p 6"
    by (simp_all add: read_local)
  show ?thesis
  proof (cases out)
    case (Some v)
    show ?thesis
      unfolding Some parse_dns_a_response_def prod.case option.case Let_def f dns_questions_local [OF assms]
        dns_answers_local [OF assms] by (rule refl)
  qed (simp add: parse_dns_a_response_def)
qed

section \<open>DHCP options on the wire\<close>

definition option_bytes :: "u8 \<times> u8 list \<Rightarrow> u8 list" where
  "option_bytes o1 = fst o1 # of_nat (length (snd o1)) # snd o1"

definition options_bytes :: "(u8 \<times> u8 list) list \<Rightarrow> u8 list" where
  "options_bytes os = concat (map option_bytes os)"

lemma options_bytes_Cons: "options_bytes (o1 # os) = option_bytes o1 @ options_bytes os"
  by (simp add: options_bytes_def)

lemma append_option_eq:
  assumes "length v \<le> 255" "length p + (2 + length v) \<le> cap" "2 + length v \<le> length r"
  shows "append_option (p @ r) cap (length p) t v (length v) =
    (True, (p @ option_bytes (t, v)) @ drop (2 + length v) r, length p + 2 + length v)"
proof -
  have "(p @ r)[length p := t] = (p @ [t]) @ drop 1 r" by (rule list_update_prefix) (use assms(3) in simp_all)
  moreover have "((p @ [t]) @ drop 1 r)[length p + 1 := of_nat (length v)] = (p @ [t, of_nat (length v)]) @ drop 2 r"
    using list_update_prefix [of "p @ [t]" "length p + 1" "drop 1 r"] assms(3) by (simp add: numeral_2_eq_2)
  moreover have "copy_bytes (length p + 2) v (length v) ((p @ [t, of_nat (length v)]) @ drop 2 r) =
      (p @ option_bytes (t, v)) @ drop (2 + length v) r"
    using copy_bytes_append [of "p @ [t, of_nat (length v)]" "length p + 2" "length v" v "drop 2 r"] assms(3)
    by (simp add: option_bytes_def add.commute)
  ultimately show ?thesis using assms(1,2) by (simp add: append_option_def Let_def)
qed

lemma append_options_eq:
  assumes "\<forall>(t, v) \<in> set os. length v \<le> 255" "length p + length (options_bytes os) \<le> cap" "length (options_bytes os) \<le> length r"
  shows "append_options (p @ r) cap (length p) os =
    (True, (p @ options_bytes os) @ drop (length (options_bytes os)) r, length p + length (options_bytes os))"
  using assms
proof (induction os arbitrary: p r)
  case Nil
  then show ?case by (simp add: options_bytes_def)
next
  case (Cons o1 os)
  obtain t v where o1: "o1 = (t, v)" by (cases o1)
  let ?p = "p @ option_bytes (t, v)" and ?r = "drop (2 + length v) r"
  have l: "length (option_bytes (t, v)) = 2 + length v" by (simp add: option_bytes_def)
  have one: "append_option (p @ r) cap (length p) t v (length v) = (True, ?p @ ?r, length ?p)"
    using Cons.prems append_option_eq [of v p cap r t] by (simp add: o1 options_bytes_Cons l)
  have "append_options (?p @ ?r) cap (length ?p) os =
      (True, (?p @ options_bytes os) @ drop (length (options_bytes os)) ?r, length ?p + length (options_bytes os))"
    using Cons.prems by (intro Cons.IH) (auto simp: o1 options_bytes_Cons l)
  with one show ?case by (simp add: o1 options_bytes_Cons l add.commute)
qed

text \<open>The reference: the options one after the other.\<close>

fun apply_options :: "(u8 \<times> u8 list) list \<Rightarrow> DhcpMessageView \<times> bool \<Rightarrow> (DhcpMessageView \<times> bool) option" where
  "apply_options [] st = Some st"
| "apply_options ((t, v) # os) st =
     (case dhcp_option t v (length v) st of None \<Rightarrow> None | Some st' \<Rightarrow> apply_options os st')"

text \<open>Options in a message, each after some number of padding bytes.\<close>

definition padded_bytes :: "(nat \<times> u8 \<times> u8 list) list \<Rightarrow> u8 list" where
  "padded_bytes os = concat (map (\<lambda>(k, o1). replicate k DHCP_OPTION_PAD @ option_bytes o1) os)"

lemma padded_bytes_Cons: "padded_bytes ((k, o1) # os) = replicate k DHCP_OPTION_PAD @ option_bytes o1 @ padded_bytes os"
  by (simp add: padded_bytes_def)

lemma dhcp_loop_pads:
  "length p + k \<le> n \<Longrightarrow> dhcp_loop (p @ replicate k DHCP_OPTION_PAD @ q) n (length p) st =
    dhcp_loop (p @ replicate k DHCP_OPTION_PAD @ q) n (length p + k) st"
proof (induction k arbitrary: p)
  case (Suc k)
  let ?m = "p @ replicate (Suc k) DHCP_OPTION_PAD @ q"
  have "DHCP_OPTION_PAD \<noteq> DHCP_OPTION_END" by (simp add: dhcp_options)
  then have "dhcp_loop ?m n (length p) st = dhcp_loop ?m n (length p + 1) st"
    using Suc.prems by (subst dhcp_loop.simps) (simp add: Let_def)
  also have "\<dots> = dhcp_loop ?m n (length p + Suc k) st"
    using Suc.IH [of "p @ [DHCP_OPTION_PAD]"] Suc.prems by simp
  finally show ?case .
qed simp

lemma dhcp_loop_options:
  assumes "\<forall>(k, t, v) \<in> set os. length v \<le> 255 \<and> t \<noteq> DHCP_OPTION_END \<and> t \<noteq> DHCP_OPTION_PAD"
    and "rest = [] \<or> (\<exists>r. rest = DHCP_OPTION_END # r)"
  shows "dhcp_loop (p @ padded_bytes os @ replicate j DHCP_OPTION_PAD @ rest)
      (length p + length (padded_bytes os) + j + length rest) (length p) st = apply_options (map snd os) st"
  using assms(1)
proof (induction os arbitrary: p st)
  case Nil
  let ?n = "length p + j + length rest"
  have "dhcp_loop (p @ replicate j DHCP_OPTION_PAD @ rest) ?n (length p + j) st = Some st"
    using assms(2) by (subst dhcp_loop.simps) (auto simp: nth_append Let_def)
  then show ?case using dhcp_loop_pads [of p j ?n rest st] by (simp add: padded_bytes_def)
next
  case (Cons o1 os)
  obtain k t v where o1: "o1 = (k, t, v)" by (cases o1)
  define q where "q = padded_bytes os @ replicate j DHCP_OPTION_PAD @ rest"
  define p1 where "p1 = p @ replicate k DHCP_OPTION_PAD"
  let ?m = "p1 @ t # of_nat (length v) # v @ q"
  define n where "n = length ?m"
  have v: "length v \<le> 255" "t \<noteq> DHCP_OPTION_END" "t \<noteq> DHCP_OPTION_PAD" using Cons.prems by (auto simp: o1)
  have u: "unat (of_nat (length v) :: u8) = length v" using v(1) by (intro unat_of_nat_small) simp
  have f: "?m ! length p1 = t" "?m ! (length p1 + 1) = of_nat (length v)" "drop (length p1 + 2) ?m = v @ q"
    by (simp_all add: nth_append)
  have IH: "dhcp_loop ?m n (length p1 + 2 + length v) st' = apply_options (map snd os) st'" for st'
    using Cons.IH [of "p1 @ option_bytes (t, v)" st'] Cons.prems
    by (simp add: q_def n_def option_bytes_def add.assoc)
  have g: "length p1 < n" "\<not> length p1 + 1 \<ge> n" "\<not> n - (length p1 + 2) < length v" by (auto simp: n_def)
  have "dhcp_loop ?m n (length p1) st =
      (case dhcp_option t v (length v) st of None \<Rightarrow> None | Some st' \<Rightarrow> apply_options (map snd os) st')"
    unfolding dhcp_loop.simps [of ?m n "length p1" st] Let_def f u dhcp_option_local [OF order_refl] IH
    using g v by (simp only: if_True if_False not_False_eq_True simp_thms)
  moreover have "dhcp_loop ?m n (length p) st = dhcp_loop ?m n (length p1) st"
    using dhcp_loop_pads [of p k n "t # of_nat (length v) # v @ q" st] by (simp add: p1_def n_def)
  moreover have "p @ padded_bytes (o1 # os) @ replicate j DHCP_OPTION_PAD @ rest = ?m"
    "length p + length (padded_bytes (o1 # os)) + j + length rest = n"
    by (simp_all add: o1 padded_bytes_Cons option_bytes_def q_def p1_def n_def)
  ultimately show ?case by (simp add: o1)
qed

section \<open>DNS names on the wire\<close>

definition labels_bytes :: "u8 list list \<Rightarrow> u8 list" where
  "labels_bytes ls = concat (map (\<lambda>l. of_nat (length l) # l) ls)"

lemma labels_bytes_simps [simp]:
  "labels_bytes [] = []" "labels_bytes (l # ls) = of_nat (length l) # l @ labels_bytes ls"
  by (simp_all add: labels_bytes_def)

abbreviation valid_label :: "u8 list \<Rightarrow> bool" where
  "valid_label l \<equiv> 1 \<le> length l \<and> length l \<le> 63"

lemma label_end_bounds:
  assumes "i < n"
  shows "i \<le> label_end nm n i" "label_end nm n i \<le> n" "label_end nm n i - i \<le> length (drop i nm)"
proof -
  have "length (takeWhile (\<lambda>c. c \<noteq> 46) (take (n - i) (drop i nm))) \<le> length (take (n - i) (drop i nm))"
    by (rule length_takeWhile_le)
  with assms show "i \<le> label_end nm n i" "label_end nm n i \<le> n" "label_end nm n i - i \<le> length (drop i nm)"
    by (auto simp: label_end_def)
qed

lemma dns_labels_ok:
  assumes "dns_labels nm n i c cap b = (True, b', c')" "c \<le> cap" "cap \<le> length b"
  shows "\<exists>ls. b' = take c b @ labels_bytes ls @ drop (c + length (labels_bytes ls)) b \<and> c' = c + length (labels_bytes ls) \<and>
    c' \<le> cap \<and> (\<forall>l \<in> set ls. valid_label l) \<and> 2 * length ls \<le> n - i + 1"
  using assms
proof (induction nm n i c cap b rule: dns_labels.induct)
  case (1 nm n i c cap b)
  show ?case
  proof (cases "i < n")
    case False
    with 1(2) have "b' = b" "c' = c" by (subst (asm) dns_labels.simps, simp)+
    with 1(3) show ?thesis by (intro exI [of _ "[]"]) simp
  next
    case i: True
    let ?e = "label_end nm n i" and ?k = "label_end nm n i - i"
    let ?b1 = "b[c := of_nat ?k]"
    let ?b = "copy_bytes (c + 1) (drop i nm) ?k ?b1"
    note bounds = label_end_bounds [OF i, of nm]
    have step: "dns_labels nm n i c cap b =
        (if ?k = 0 \<or> ?k > 63 \<or> c + 1 + ?k > cap then (False, b, c) else dns_labels nm n (?e + 1) (c + 1 + ?k) cap ?b)"
      unfolding dns_labels.simps [of nm n i c cap b] Let_def if_P [OF i] by (rule refl)
    have k: "\<not> (?k = 0 \<or> ?k > 63 \<or> c + 1 + ?k > cap)" and rec: "dns_labels nm n (?e + 1) (c + 1 + ?k) cap ?b = (True, b', c')"
      using 1(2) step by (auto split: if_splits)
    let ?l = "take ?k (drop i nm)"
    have l: "length ?l = ?k" using bounds(3) by simp
    have b: "?b = take c b @ (of_nat ?k # ?l) @ drop (c + 1 + ?k) b"
    proof -
      have "c + 1 \<le> cap" using k by linarith
      then have cb: "c < length b" using 1(4) by simp
      have kb: "?k \<le> length b - Suc c" using k 1(4) by linarith
      have "?b1 = (take c b @ [of_nat ?k]) @ drop (c + 1) b"
        using cb list_update_prefix [of "take c b" c "drop c b" "of_nat ?k"] by simp
      then show ?thesis
        using copy_bytes_append [of "take c b @ [of_nat ?k]" "c + 1" ?k "drop i nm" "drop (c + 1) b"] kb cb bounds(3)
        by (simp add: add.commute)
    qed
    have "\<exists>ls. b' = take (c + 1 + ?k) ?b @ labels_bytes ls @ drop (c + 1 + ?k + length (labels_bytes ls)) ?b \<and>
        c' = c + 1 + ?k + length (labels_bytes ls) \<and> c' \<le> cap \<and> (\<forall>l \<in> set ls. valid_label l) \<and>
        2 * length ls \<le> n - (?e + 1) + 1"
    proof (rule 1(1) [OF i refl refl k refl refl rec])
      show "c + 1 + ?k \<le> cap" using k by linarith
      show "cap \<le> length ?b" using 1(4) by simp
    qed
    then obtain ls where ls: "b' = take (c + 1 + ?k) ?b @ labels_bytes ls @ drop (c + 1 + ?k + length (labels_bytes ls)) ?b"
        "c' = c + 1 + ?k + length (labels_bytes ls)" "c' \<le> cap" "\<forall>l \<in> set ls. valid_label l" "2 * length ls \<le> n - (?e + 1) + 1"
      by blast
    have cl: "length (take c b) = c" using 1(3,4) by simp
    have t: "take (c + 1 + ?k) ?b = take c b @ of_nat ?k # ?l" unfolding b using cl l by simp
    have d: "drop (c + 1 + ?k + m) ?b = drop (c + 1 + ?k + m) b" for m
      unfolding b using cl l by (simp add: add.commute add.left_commute)
    have "b' = take c b @ labels_bytes (?l # ls) @ drop (c + length (labels_bytes (?l # ls))) b"
      unfolding ls(1) t d using l by (simp add: add.assoc)
    moreover have "c' = c + length (labels_bytes (?l # ls))" using ls(2) l by simp
    moreover have "\<forall>l \<in> set (?l # ls). valid_label l" using ls(4) l k by auto
    moreover have "2 * length (?l # ls) \<le> n - i + 1"
    proof -
      have "i < ?e" using k by linarith
      moreover have "length ls = 0 \<or> ?e < n" using ls(5) bounds(2) by (cases ls; cases "?e = n") auto
      ultimately show ?thesis using ls(5) bounds(2) by auto
    qed
    ultimately show ?thesis using ls(3) by blast
  qed
qed

lemma dns_name_length_bound: "dns_name_length nm k = Some n \<Longrightarrow> k \<le> 253 \<Longrightarrow> n \<le> 253"
  by (induction nm k rule: dns_name_length.induct) (auto split: if_splits)

lemma label_byte:
  assumes "valid_label l"
  defines "w \<equiv> of_nat (length l) :: u8"
  shows "w \<noteq> 0" "w AND 0xc0 \<noteq> 0xc0" "\<not> w AND 0xc0 \<noteq> 0" "\<not> w > 63" "unat w = length l"
proof -
  show u: "unat w = length l" unfolding w_def using assms(1) by (intro unat_of_nat_small) simp
  have "unat w < 2 ^ 6" using u assms(1) by simp
  note hi = not_bit_ge [OF this]
  have "w AND 0xc0 = 0"
  proof (rule bit_word_eqI)
    fix n assume "n < LENGTH(8)"
    have "\<not> bit (0xc0 :: u8) n" if "n < 6"
    proof -
      have c: "(0xc0 :: u8) = push_bit 6 3" by code_simp
      show ?thesis unfolding c bit_push_bit_iff using that by simp
    qed
    with hi show "bit (w AND 0xc0) n = bit (0 :: u8) n" by (cases "n < 6") (auto simp: bit_and_iff)
  qed
  then show "w AND 0xc0 \<noteq> 0xc0" "\<not> w AND 0xc0 \<noteq> 0" by simp_all
  show "w \<noteq> 0" using u assms(1) by auto
  show "\<not> w > 63" using u assms(1) by (simp add: word_less_nat_alt)
qed

lemma skip_loop_labels:
  assumes "\<forall>l \<in> set ls. valid_label l" "k + length ls \<le> 127" "length p + length (labels_bytes ls) < n"
  shows "skip_loop (p @ labels_bytes ls @ 0 # r) n (length p) k = Some (length p + length (labels_bytes ls) + 1)"
  using assms
proof (induction ls arbitrary: p k)
  case Nil
  then show ?case by (subst skip_loop.simps) (simp add: Let_def)
next
  case (Cons l ls)
  have l: "valid_label l" using Cons.prems(1) by simp
  define w :: u8 where "w = of_nat (length l)"
  note lb = label_byte [OF l, folded w_def]
  let ?p = "p @ labels_bytes (l # ls) @ 0 # r"
  have p: "?p = (p @ w # l) @ labels_bytes ls @ 0 # r" by (simp add: w_def)
  have nth: "?p ! length p = w" by (simp add: w_def nth_append)
  have IH: "skip_loop ?p n (length p + 1 + length l) (k + 1) = Some (length (p @ w # l) + length (labels_bytes ls) + 1)"
    unfolding p using Cons.IH [of "k + 1" "p @ w # l"] Cons.prems by simp
  have g: "length p < n" "\<not> length p + 1 > n" "\<not> n - (length p + 1) < length l" "\<not> k + 1 > 127"
    using Cons.prems by auto
  have "skip_loop ?p n (length p) k = skip_loop ?p n (length p + 1 + length l) (k + 1)"
    unfolding skip_loop.simps [of ?p n "length p" k] Let_def nth lb(5)
    using g lb(1-4) by (simp only: if_True if_False not_False_eq_True simp_thms)
  with IH show ?case by simp
qed

end
