(* ===== verification/Net_Stack.thy ===== *)
theory Net_Stack
  imports Net_Protocols
begin

text \<open>
  The network stack of \<open>kernel/net/network.cpp\<close>: interfaces, the loopback interface, the neighbour
  (ARP) table, the receive path with its ARP, IPv4, ICMP, UDP and TCP handlers, and the send operations.

  An interface is a record of its context and its two function pointers; a driver other than the
  loopback is a value of that record.  The stack owns its interface, so the interface is part of the
  stack's state.  Packets are built in place in \<open>transmit_buffer\<close>, as in the code.  The operations of the
  public interface check their \<open>stack\<close> pointer, so they work on an optional stack.
\<close>

section \<open>Counters\<close>

definition saturating_add :: "u64 \<Rightarrow> u64 \<Rightarrow> u64" where
  "saturating_add value increment =
     (if 0xFFFFFFFFFFFFFFFF - value < increment then 0xFFFFFFFFFFFFFFFF else value + increment)"

definition increment :: "u64 \<Rightarrow> u64" where
  "increment value = saturating_add value 1"

record NetworkStats =
  frames_received :: u64
  frames_transmitted :: u64
  bytes_received :: u64
  bytes_transmitted :: u64
  dropped_frames :: u64
  parse_errors :: u64
  checksum_errors :: u64
  unsupported_packets :: u64
  interface_errors :: u64
  arp_received :: u64
  arp_transmitted :: u64
  ipv4_received :: u64
  ipv4_transmitted :: u64
  icmp_received :: u64
  icmp_transmitted :: u64
  echo_requests_sent :: u64
  echo_requests_received :: u64
  echo_replies_sent :: u64
  echo_replies_received :: u64
  udp_received :: u64
  udp_transmitted :: u64
  tcp_received :: u64
  tcp_transmitted :: u64
  neighbor_updates :: u64
  neighbor_evictions :: u64
  arp_resolution_requests :: u64

definition zero_stats :: NetworkStats where
  "zero_stats = \<lparr>frames_received = 0, frames_transmitted = 0, bytes_received = 0, bytes_transmitted = 0,
     dropped_frames = 0, parse_errors = 0, checksum_errors = 0, unsupported_packets = 0, interface_errors = 0,
     arp_received = 0, arp_transmitted = 0, ipv4_received = 0, ipv4_transmitted = 0, icmp_received = 0,
     icmp_transmitted = 0, echo_requests_sent = 0, echo_requests_received = 0, echo_replies_sent = 0,
     echo_replies_received = 0, udp_received = 0, udp_transmitted = 0, tcp_received = 0, tcp_transmitted = 0,
     neighbor_updates = 0, neighbor_evictions = 0, arp_resolution_requests = 0\<rparr>"

section \<open>Interfaces\<close>

record 'c NetworkInterface =
  if_context :: 'c
  if_transmit :: "('c \<Rightarrow> u8 list option \<Rightarrow> nat \<Rightarrow> Status \<times> 'c) option"
  if_receive :: "('c \<Rightarrow> u8 list option \<Rightarrow> nat \<Rightarrow> nat option \<Rightarrow> Status \<times> u8 list option \<times> nat option \<times> 'c) option"
  hardware_address :: MacAddress
  mtu :: nat

definition interface_transmit ::
  "'c NetworkInterface option \<Rightarrow> u8 list option \<Rightarrow> nat \<Rightarrow> Status \<times> 'c NetworkInterface option" where
  "interface_transmit iface frame frame_length =
     (case iface of
        None \<Rightarrow> (Status.InvalidArgument, iface)
      | Some i \<Rightarrow>
          (case if_transmit i of
             None \<Rightarrow> (Status.InvalidArgument, iface)
           | Some transmit \<Rightarrow>
               if frame = None \<or> frame_length = 0 then (Status.InvalidArgument, iface)
               else if mtu i = 0 \<or> mtu i > ETHERNET_MTU \<or> frame_length > mtu i + ETHERNET_HEADER_SIZE
               then (Status.FrameTooLarge, iface)
               else case transmit (if_context i) frame frame_length of
                   (status, c) \<Rightarrow>
                     (if status = Status.Ok \<or> status = Status.QueueFull \<or> status = Status.NotInitialized
                      then status else Status.InterfaceError,
                      Some (i\<lparr>if_context := c\<rparr>))))"

definition interface_receive ::
  "'c NetworkInterface option \<Rightarrow> u8 list option \<Rightarrow> nat \<Rightarrow> nat option \<Rightarrow>
   Status \<times> u8 list option \<times> nat option \<times> 'c NetworkInterface option" where
  "interface_receive iface output output_capacity out_length =
     (let zero = map_option (\<lambda>_. 0) out_length in
      case iface of
        None \<Rightarrow> (Status.InvalidArgument, output, zero, iface)
      | Some i \<Rightarrow>
          (case if_receive i of
             None \<Rightarrow> (Status.InvalidArgument, output, zero, iface)
           | Some receive \<Rightarrow>
               if output = None \<or> out_length = None then (Status.InvalidArgument, output, zero, iface)
               else case receive (if_context i) output output_capacity zero of
                   (status, out, n, c) \<Rightarrow>
                     if status = Status.Ok \<and> the n > output_capacity
                     then (Status.InterfaceError, out, Some 0, Some (i\<lparr>if_context := c\<rparr>))
                     else (if status = Status.Ok \<or> status = Status.WouldBlock \<or> status = Status.BufferTooSmall \<or>
                             status = Status.NotInitialized then status else Status.InterfaceError,
                           out, n, Some (i\<lparr>if_context := c\<rparr>))))"

section \<open>The loopback interface\<close>

definition LOOPBACK_QUEUE_DEPTH :: nat where "LOOPBACK_QUEUE_DEPTH = 8"

record LoopbackInterface =
  lb_frames :: "u8 list list"
  lb_lengths :: "u16 list"
  lb_head :: nat
  lb_tail :: nat
  lb_count :: nat
  transmitted_frames :: u64
  received_frames :: u64
  lb_dropped_frames :: u64
  lb_initialized :: bool

definition loopback_transmit ::
  "LoopbackInterface option \<Rightarrow> u8 list option \<Rightarrow> nat \<Rightarrow> Status \<times> LoopbackInterface option" where
  "loopback_transmit context frame frame_length =
     (case context of
        None \<Rightarrow> (Status.NotInitialized, context)
      | Some lb \<Rightarrow>
          if \<not> lb_initialized lb then (Status.NotInitialized, context)
          else (case frame of
             None \<Rightarrow> (Status.InvalidArgument, context)
           | Some f \<Rightarrow>
               if frame_length = 0 then (Status.InvalidArgument, context)
               else if frame_length > ETHERNET_MAX_FRAME_SIZE then (Status.FrameTooLarge, context)
               else if lb_count lb = LOOPBACK_QUEUE_DEPTH
               then (Status.QueueFull, Some (lb\<lparr>lb_dropped_frames := increment (lb_dropped_frames lb)\<rparr>))
               else (Status.Ok, Some (lb\<lparr>
                 lb_frames := (lb_frames lb)[lb_tail lb := copy_bytes 0 f frame_length (lb_frames lb ! lb_tail lb)],
                 lb_lengths := (lb_lengths lb)[lb_tail lb := of_nat frame_length],
                 lb_tail := (lb_tail lb + 1) mod LOOPBACK_QUEUE_DEPTH,
                 lb_count := lb_count lb + 1,
                 transmitted_frames := increment (transmitted_frames lb)\<rparr>))))"

definition loopback_receive ::
  "LoopbackInterface option \<Rightarrow> u8 list option \<Rightarrow> nat \<Rightarrow> nat option \<Rightarrow>
   Status \<times> u8 list option \<times> nat option \<times> LoopbackInterface option" where
  "loopback_receive context output output_capacity out_length =
     (let zero = map_option (\<lambda>_. 0) out_length in
      case context of
        None \<Rightarrow> (Status.NotInitialized, output, zero, context)
      | Some lb \<Rightarrow>
          if \<not> lb_initialized lb then (Status.NotInitialized, output, zero, context)
          else if out_length = None then (Status.InvalidArgument, output, zero, context)
          else if lb_count lb = 0 then (Status.WouldBlock, output, zero, context)
          else let frame_length = unat (lb_lengths lb ! lb_head lb) in
            (case output of
               None \<Rightarrow> (Status.BufferTooSmall, output, Some frame_length, context)
             | Some b \<Rightarrow>
                 if output_capacity < frame_length then (Status.BufferTooSmall, output, Some frame_length, context)
                 else (Status.Ok, Some (copy_bytes 0 (lb_frames lb ! lb_head lb) frame_length b), Some frame_length,
                   Some (lb\<lparr>
                     lb_lengths := (lb_lengths lb)[lb_head lb := 0],
                     lb_head := (lb_head lb + 1) mod LOOPBACK_QUEUE_DEPTH,
                     lb_count := lb_count lb - 1,
                     received_frames := increment (received_frames lb)\<rparr>))))"

definition zero_loopback :: LoopbackInterface where
  "zero_loopback = \<lparr>lb_frames = replicate LOOPBACK_QUEUE_DEPTH (replicate ETHERNET_MAX_FRAME_SIZE 0),
     lb_lengths = replicate LOOPBACK_QUEUE_DEPTH 0, lb_head = 0, lb_tail = 0, lb_count = 0,
     transmitted_frames = 0, received_frames = 0, lb_dropped_frames = 0, lb_initialized = False\<rparr>"

text \<open>
  \<open>initialize_loopback\<close> returns the interface, whose context is the loopback itself; the argument says
  whether the pointer passed is null.
\<close>

definition initialize_loopback ::
  "bool \<Rightarrow> MacAddress \<Rightarrow> Status \<times> LoopbackInterface option NetworkInterface option" where
  "initialize_loopback null mac =
     (if null \<or> \<not> mac_is_valid_unicast mac then (Status.InvalidArgument, None)
      else (Status.Ok, Some \<lparr>if_context = Some (zero_loopback\<lparr>lb_initialized := True\<rparr>),
        if_transmit = Some loopback_transmit, if_receive = Some loopback_receive,
        hardware_address = mac, mtu = ETHERNET_MTU\<rparr>))"

definition loopback_queued_frames :: "LoopbackInterface option \<Rightarrow> nat" where
  "loopback_queued_frames loopback =
     (case loopback of None \<Rightarrow> 0 | Some lb \<Rightarrow> if lb_initialized lb then lb_count lb else 0)"

section \<open>State of the stack\<close>

definition NEIGHBOR_TABLE_CAPACITY :: nat where "NEIGHBOR_TABLE_CAPACITY = 16"
definition TRANSPORT_INBOX_CAPACITY :: nat where "TRANSPORT_INBOX_CAPACITY = ETHERNET_MTU"

record IPv4Config =
  address :: IPv4Address
  netmask :: IPv4Address
  gateway :: IPv4Address

datatype NeighborState = Empty | Reachable

record NeighborEntry =
  state :: NeighborState
  n_ip :: IPv4Address
  n_mac :: MacAddress
  update_sequence :: u64

record PingReply =
  ping_valid :: bool
  ping_source :: IPv4Address
  ping_identifier :: u16
  ping_sequence :: u16
  ping_payload_length :: nat

record UdpDatagram =
  ud_valid :: bool
  ud_source :: IPv4Address
  ud_destination :: IPv4Address
  ud_source_port :: u16
  ud_destination_port :: u16
  ud_payload :: "u8 list"
  ud_payload_length :: nat

record TcpSegment =
  ts_valid :: bool
  ts_source :: IPv4Address
  ts_destination :: IPv4Address
  ts_source_port :: u16
  ts_destination_port :: u16
  ts_sequence :: u32
  ts_acknowledgement :: u32
  ts_flags :: u8
  ts_window :: u16
  ts_payload :: "u8 list"
  ts_payload_length :: nat

record 'c NetworkStack =
  iface :: "'c NetworkInterface option"
  config :: IPv4Config
  neighbors :: "NeighborEntry list"
  stats :: NetworkStats
  last_ping_reply :: PingReply
  last_udp_datagram :: UdpDatagram
  last_tcp_segment :: TcpSegment
  receive_buffer :: "u8 list"
  transmit_buffer :: "u8 list"
  next_identification :: u16
  neighbor_eviction_cursor :: nat
  neighbor_update_sequence :: u64
  initialized :: bool
  ipv4_configured :: bool

definition zero_mac :: MacAddress where "zero_mac = replicate MAC_ADDRESS_LENGTH 0"

definition zero_neighbor :: NeighborEntry where
  "zero_neighbor = \<lparr>state = Empty, n_ip = zero_ipv4, n_mac = zero_mac, update_sequence = 0\<rparr>"

definition zero_ping :: PingReply where
  "zero_ping = \<lparr>ping_valid = False, ping_source = zero_ipv4, ping_identifier = 0, ping_sequence = 0, ping_payload_length = 0\<rparr>"

definition zero_udp :: UdpDatagram where
  "zero_udp = \<lparr>ud_valid = False, ud_source = zero_ipv4, ud_destination = zero_ipv4, ud_source_port = 0,
     ud_destination_port = 0, ud_payload = replicate TRANSPORT_INBOX_CAPACITY 0, ud_payload_length = 0\<rparr>"

definition zero_tcp :: TcpSegment where
  "zero_tcp = \<lparr>ts_valid = False, ts_source = zero_ipv4, ts_destination = zero_ipv4, ts_source_port = 0,
     ts_destination_port = 0, ts_sequence = 0, ts_acknowledgement = 0, ts_flags = 0, ts_window = 0,
     ts_payload = replicate TRANSPORT_INBOX_CAPACITY 0, ts_payload_length = 0\<rparr>"

definition zero_stack :: "'c NetworkStack" where
  "zero_stack = \<lparr>iface = None, config = \<lparr>address = zero_ipv4, netmask = zero_ipv4, gateway = zero_ipv4\<rparr>,
     neighbors = replicate NEIGHBOR_TABLE_CAPACITY zero_neighbor, stats = zero_stats, last_ping_reply = zero_ping,
     last_udp_datagram = zero_udp, last_tcp_segment = zero_tcp,
     receive_buffer = replicate ETHERNET_MAX_FRAME_SIZE 0, transmit_buffer = replicate ETHERNET_MAX_FRAME_SIZE 0,
     next_identification = 0, neighbor_eviction_cursor = 0, neighbor_update_sequence = 0,
     initialized = False, ipv4_configured = False\<rparr>"

text \<open>Counting, and the hardware address of the interface.\<close>

abbreviation count :: "((u64 \<Rightarrow> u64) \<Rightarrow> NetworkStats \<Rightarrow> NetworkStats) \<Rightarrow> 'c NetworkStack \<Rightarrow> 'c NetworkStack" where
  "count field s \<equiv> stats_update (field increment) s"

definition own_mac :: "'c NetworkStack \<Rightarrow> MacAddress" where
  "own_mac s = hardware_address (the (iface s))"

section \<open>Neighbours\<close>

definition next_neighbor_sequence :: "'c NetworkStack \<Rightarrow> u64 \<times> 'c NetworkStack" where
  "next_neighbor_sequence s =
     (let q = (if neighbor_update_sequence s = 0xFFFFFFFFFFFFFFFF then 1
               else if neighbor_update_sequence s + 1 = 0 then 1 else neighbor_update_sequence s + 1)
      in (q, s\<lparr>neighbor_update_sequence := q\<rparr>))"

definition update_neighbor :: "IPv4Address \<Rightarrow> MacAddress \<Rightarrow> 'c NetworkStack \<Rightarrow> Status \<times> 'c NetworkStack" where
  "update_neighbor ip mac s =
     (if \<not> ipv4_is_valid_unicast ip \<or> \<not> mac_is_valid_unicast mac then (Status.MalformedPacket, s)
      else if ipv4_configured s \<and> ipv4_equal ip (address (config s)) \<and> \<not> mac_equal mac (own_mac s)
      then (Status.MalformedPacket, s)
      else case find_index (\<lambda>e. state e = Reachable \<and> ipv4_equal (n_ip e) ip) (neighbors s) of
          Some i \<Rightarrow>
            (let (q, s) = next_neighbor_sequence s;
                 s = s\<lparr>neighbors := (neighbors s)[i := (neighbors s ! i)\<lparr>n_mac := mac, update_sequence := q\<rparr>]\<rparr>
             in (Status.Ok, count neighbor_updates_update s))
        | None \<Rightarrow>
            (let (selected, s) =
                   (case find_index (\<lambda>e. state e = Empty) (neighbors s) of
                      Some i \<Rightarrow> (i, s)
                    | None \<Rightarrow>
                        (let selected = neighbor_eviction_cursor s;
                             c = selected + 1;
                             s = s\<lparr>neighbor_eviction_cursor := (if c \<ge> NEIGHBOR_TABLE_CAPACITY then 1 else c)\<rparr>
                         in (selected, count neighbor_evictions_update s)));
                 (q, s) = next_neighbor_sequence s;
                 s = s\<lparr>neighbors := (neighbors s)[selected :=
                       \<lparr>state = Reachable, n_ip = ip, n_mac = mac, update_sequence = q\<rparr>]\<rparr>
             in (Status.Ok, count neighbor_updates_update s)))"

definition find_neighbor :: "'c NetworkStack \<Rightarrow> IPv4Address \<Rightarrow> NeighborEntry option" where
  "find_neighbor s ip =
     map_option (\<lambda>i. neighbors s ! i) (find_index (\<lambda>e. state e = Reachable \<and> ipv4_equal (n_ip e) ip) (neighbors s))"

section \<open>Sending\<close>

definition record_receive_failure :: "Status \<Rightarrow> 'c NetworkStack \<Rightarrow> 'c NetworkStack" where
  "record_receive_failure status s =
     (if status = Status.Ok then s
      else let s = count dropped_frames_update s in
        case status of
          ChecksumMismatch \<Rightarrow> count parse_errors_update (count checksum_errors_update s)
        | FrameTooShort \<Rightarrow> count parse_errors_update s
        | FrameTooLarge \<Rightarrow> count parse_errors_update s
        | MalformedPacket \<Rightarrow> count parse_errors_update s
        | UnsupportedProtocol \<Rightarrow> count unsupported_packets_update s
        | UnsupportedFragment \<Rightarrow> count unsupported_packets_update s
        | InterfaceError \<Rightarrow> count interface_errors_update s
        | QueueFull \<Rightarrow> count interface_errors_update s
        | BufferTooSmall \<Rightarrow> count interface_errors_update s
        | _ \<Rightarrow> s)"

definition transmit_stack_frame :: "nat \<Rightarrow> 'c NetworkStack \<Rightarrow> Status \<times> 'c NetworkStack" where
  "transmit_stack_frame frame_length s =
     (case interface_transmit (iface s) (Some (transmit_buffer s)) frame_length of
        (status, i) \<Rightarrow>
          let s = s\<lparr>iface := i\<rparr> in
          if status \<noteq> Status.Ok then (status, count interface_errors_update s)
          else (Status.Ok, stats_update (bytes_transmitted_update (\<lambda>b. saturating_add b (of_nat frame_length)))
                  (count frames_transmitted_update s)))"

text \<open>Running a serialiser on \<open>transmit_buffer + k\<close>.\<close>

definition build_at ::
  "nat \<Rightarrow> (u8 list option \<Rightarrow> Status \<times> u8 list option \<times> nat option) \<Rightarrow> 'c NetworkStack \<Rightarrow> Status \<times> nat \<times> 'c NetworkStack" where
  "build_at k serialize s =
     (case serialize (Some (drop k (transmit_buffer s))) of
        (status, out, n) \<Rightarrow> (status, the n, s\<lparr>transmit_buffer := take k (transmit_buffer s) @ the out\<rparr>))"

definition send_arp_packet :: "MacAddress \<Rightarrow> ArpPacket \<Rightarrow> 'c NetworkStack \<Rightarrow> Status \<times> 'c NetworkStack" where
  "send_arp_packet ethernet_destination arp s =
     (case build_at ETHERNET_HEADER_SIZE (\<lambda>out. serialize_arp arp out ETHERNET_MTU (Some 0)) s of
        (status, arp_length, s) \<Rightarrow>
          if status \<noteq> Status.Ok then (status, s)
          else (case build_at 0 (\<lambda>out. serialize_ethernet ethernet_destination (own_mac s) ETHER_TYPE_ARP
                      (Within ETHERNET_HEADER_SIZE) arp_length out ETHERNET_MAX_FRAME_SIZE (Some 0)) s of
             (status, frame_length, s) \<Rightarrow>
               if status \<noteq> Status.Ok then (status, s)
               else (case transmit_stack_frame frame_length s of
                  (status, s) \<Rightarrow>
                    (status, if status = Status.Ok then count arp_transmitted_update s else s))))"

definition send_arp_request :: "IPv4Address \<Rightarrow> 'c NetworkStack \<Rightarrow> Status \<times> 'c NetworkStack" where
  "send_arp_request target s =
     (let request = \<lparr>operation = ArpOperation_Request, sender_mac = own_mac s, sender_ip = address (config s),
                     target_mac = ZERO_MAC, target_ip = target\<rparr> in
      case send_arp_packet BROADCAST_MAC request s of
        (status, s) \<Rightarrow> (status, if status = Status.Ok then count arp_resolution_requests_update s else s))"

definition send_arp_reply :: "ArpPacket \<Rightarrow> 'c NetworkStack \<Rightarrow> Status \<times> 'c NetworkStack" where
  "send_arp_reply request s =
     (let reply = \<lparr>operation = ArpOperation_Reply, sender_mac = own_mac s, sender_ip = address (config s),
                   target_mac = sender_mac request, target_ip = sender_ip request\<rparr> in
      send_arp_packet (sender_mac request) reply s)"

text \<open>
  The common end of \<open>send_icmp\<close> and \<open>send_transport_packet\<close>: the transport part is in place at
  \<open>transmit_buffer + 34\<close>; the IPv4 and Ethernet headers go in front of it, and the frame goes out.
\<close>

definition send_ipv4_in_place :: "MacAddress \<Rightarrow> IPv4Address \<Rightarrow> u8 \<Rightarrow> nat \<Rightarrow> 'c NetworkStack \<Rightarrow> Status \<times> 'c NetworkStack" where
  "send_ipv4_in_place destination_mac destination_ip protocol transport_length s =
     (let header = \<lparr>h_source = address (config s), h_destination = destination_ip, h_protocol = protocol, h_ttl = 64,
                    h_identification = next_identification s, h_dont_fragment = True\<rparr>;
          s = s\<lparr>next_identification := next_identification s + 1\<rparr> in
      case build_at ETHERNET_HEADER_SIZE (\<lambda>out. serialize_ipv4 header (Within IPV4_MIN_HEADER_SIZE) transport_length out
             ETHERNET_MTU (Some 0)) s of
        (status, ipv4_length, s) \<Rightarrow>
          if status \<noteq> Status.Ok then (status, s)
          else (case build_at 0 (\<lambda>out. serialize_ethernet destination_mac (own_mac s) ETHER_TYPE_IPV4
                      (Within ETHERNET_HEADER_SIZE) ipv4_length out ETHERNET_MAX_FRAME_SIZE (Some 0)) s of
             (status, frame_length, s) \<Rightarrow>
               if status \<noteq> Status.Ok then (status, s) else transmit_stack_frame frame_length s))"

definition send_icmp ::
  "MacAddress \<Rightarrow> IPv4Address \<Rightarrow> IcmpEchoType \<Rightarrow> u16 \<Rightarrow> u16 \<Rightarrow> u8 list option \<Rightarrow> nat \<Rightarrow> 'c NetworkStack \<Rightarrow>
   Status \<times> 'c NetworkStack" where
  "send_icmp destination_mac destination_ip type identifier sequence payload payload_length s =
     (if payload_length > ICMP_ECHO_MAX_PAYLOAD then (Status.PayloadTooLarge, s)
      else let icmp_offset = ETHERNET_HEADER_SIZE + IPV4_MIN_HEADER_SIZE in
        case build_at icmp_offset (\<lambda>out. serialize_icmp_echo type identifier sequence (External payload) payload_length
               out (ETHERNET_MAX_FRAME_SIZE - icmp_offset) (Some 0)) s of
          (status, icmp_length, s) \<Rightarrow>
            if status \<noteq> Status.Ok then (status, s)
            else (case send_ipv4_in_place destination_mac destination_ip IPV4_PROTOCOL_ICMP icmp_length s of
               (status, s) \<Rightarrow>
                 (status,
                  if status = Status.Ok
                  then let s = count icmp_transmitted_update (count ipv4_transmitted_update s) in
                    if type = IcmpEchoType_Request then count echo_requests_sent_update s
                    else count echo_replies_sent_update s
                  else s)))"

definition resolve_destination :: "IPv4Address \<Rightarrow> 'c NetworkStack \<Rightarrow> Status \<times> MacAddress option \<times> 'c NetworkStack" where
  "resolve_destination destination s =
     (let same = ipv4_on_same_network (address (config s)) destination (netmask (config s)) in
      if \<not> same \<and> ipv4_is_zero (gateway (config s)) then (Status.NoRoute, None, s)
      else let next_hop = (if same then destination else gateway (config s)) in
        case find_neighbor s next_hop of
          None \<Rightarrow>
            (case send_arp_request next_hop s of
               (arp_status, s) \<Rightarrow>
                 (if arp_status = Status.Ok then Status.NeighborResolutionPending else arp_status, None, s))
        | Some neighbor \<Rightarrow> (Status.Ok, Some (n_mac neighbor), s))"

definition send_transport_packet ::
  "MacAddress \<Rightarrow> IPv4Address \<Rightarrow> u8 \<Rightarrow> source_ptr \<Rightarrow> nat \<Rightarrow> 'c NetworkStack \<Rightarrow> Status \<times> 'c NetworkStack" where
  "send_transport_packet destination_mac destination_ip protocol transport transport_length s =
     (if transport \<noteq> Within (ETHERNET_HEADER_SIZE + IPV4_MIN_HEADER_SIZE) then (Status.InvalidArgument, s)
      else case send_ipv4_in_place destination_mac destination_ip protocol transport_length s of
          (status, s) \<Rightarrow> (status, if status = Status.Ok then count ipv4_transmitted_update s else s))"

section \<open>Receiving\<close>

definition zero_arp :: ArpPacket where
  "zero_arp = \<lparr>operation = 0, sender_mac = zero_mac, sender_ip = zero_ipv4, target_mac = zero_mac, target_ip = zero_ipv4\<rparr>"

definition handle_arp :: "EthernetFrameView \<Rightarrow> 'c NetworkStack \<Rightarrow> Status \<times> 'c NetworkStack" where
  "handle_arp ethernet s =
     (case parse_arp (eth_payload ethernet) (eth_payload_length ethernet) (Some zero_arp) of
        (status, arp) \<Rightarrow>
          if status \<noteq> Status.Ok then (status, s)
          else let arp = the arp; s = count arp_received_update s in
            if \<not> mac_equal (sender_mac arp) (eth_source ethernet) \<or> \<not> mac_is_valid_unicast (sender_mac arp) \<or>
              \<not> ipv4_is_valid_unicast (sender_ip arp) then (Status.MalformedPacket, s)
            else if operation arp = ArpOperation_Reply then
              (if \<not> ipv4_equal (target_ip arp) (address (config s)) \<or> \<not> mac_equal (target_mac arp) (own_mac s)
               then (Status.NotForUs, s)
               else update_neighbor (sender_ip arp) (sender_mac arp) s)
            else (case update_neighbor (sender_ip arp) (sender_mac arp) s of
               (status, s) \<Rightarrow>
                 if status \<noteq> Status.Ok then (status, s)
                 else if \<not> ipv4_equal (target_ip arp) (address (config s)) then (Status.NotForUs, s)
                 else send_arp_reply arp s))"

definition zero_ipv4_view :: IPv4PacketView where
  "zero_ipv4_view = \<lparr>ip_source = zero_ipv4, ip_destination = zero_ipv4, ip_protocol = 0, ip_ttl = 0, ip_identification = 0,
     ip_dont_fragment = False, ip_payload = None, ip_payload_length = 0, ip_header_length = 0\<rparr>"

definition zero_udp_view :: UdpDatagramView where
  "zero_udp_view = \<lparr>udp_source_port = 0, udp_destination_port = 0, udp_payload = None, udp_payload_length = 0\<rparr>"

definition zero_tcp_view :: TcpSegmentView where
  "zero_tcp_view = \<lparr>tcp_source_port = 0, tcp_destination_port = 0, tcp_sequence = 0, tcp_acknowledgement = 0,
     tcp_flags = 0, tcp_window = 0, tcp_payload = None, tcp_payload_length = 0\<rparr>"

definition zero_echo_view :: IcmpEchoView where
  "zero_echo_view = \<lparr>echo_type = 0, echo_identifier = 0, echo_sequence = 0, echo_payload = None, echo_payload_length = 0\<rparr>"

text \<open>The three branches of \<open>handle_ipv4\<close>.\<close>

definition handle_udp :: "IPv4PacketView \<Rightarrow> 'c NetworkStack \<Rightarrow> Status \<times> 'c NetworkStack" where
  "handle_udp ipv4 s =
     (case parse_udp (ip_source ipv4) (ip_destination ipv4) (ip_payload ipv4) (ip_payload_length ipv4) (Some zero_udp_view) of
        (status, udp) \<Rightarrow>
          if status \<noteq> Status.Ok then (status, s)
          else let udp = the udp in
            if udp_payload_length udp > TRANSPORT_INBOX_CAPACITY then (Status.BufferTooSmall, s)
            else (Status.Ok, count udp_received_update (s\<lparr>last_udp_datagram := \<lparr>ud_valid = True,
              ud_source = ip_source ipv4, ud_destination = ip_destination ipv4,
              ud_source_port = udp_source_port udp, ud_destination_port = udp_destination_port udp,
              ud_payload = copy_bytes 0 (the (udp_payload udp)) (udp_payload_length udp) (replicate TRANSPORT_INBOX_CAPACITY 0),
              ud_payload_length = udp_payload_length udp\<rparr>\<rparr>)))"

definition handle_tcp :: "IPv4PacketView \<Rightarrow> 'c NetworkStack \<Rightarrow> Status \<times> 'c NetworkStack" where
  "handle_tcp ipv4 s =
     (case parse_tcp (ip_source ipv4) (ip_destination ipv4) (ip_payload ipv4) (ip_payload_length ipv4) (Some zero_tcp_view) of
        (status, tcp) \<Rightarrow>
          if status \<noteq> Status.Ok then (status, s)
          else let tcp = the tcp in
            if tcp_payload_length tcp > TRANSPORT_INBOX_CAPACITY then (Status.BufferTooSmall, s)
            else (Status.Ok, count tcp_received_update (s\<lparr>last_tcp_segment := \<lparr>ts_valid = True,
              ts_source = ip_source ipv4, ts_destination = ip_destination ipv4,
              ts_source_port = tcp_source_port tcp, ts_destination_port = tcp_destination_port tcp,
              ts_sequence = tcp_sequence tcp, ts_acknowledgement = tcp_acknowledgement tcp, ts_flags = tcp_flags tcp,
              ts_window = tcp_window tcp,
              ts_payload = copy_bytes 0 (the (tcp_payload tcp)) (tcp_payload_length tcp) (replicate TRANSPORT_INBOX_CAPACITY 0),
              ts_payload_length = tcp_payload_length tcp\<rparr>\<rparr>)))"

definition handle_icmp :: "MacAddress \<Rightarrow> IPv4PacketView \<Rightarrow> 'c NetworkStack \<Rightarrow> Status \<times> 'c NetworkStack" where
  "handle_icmp source_mac ipv4 s =
     (case parse_icmp_echo (ip_payload ipv4) (ip_payload_length ipv4) (Some zero_echo_view) of
        (status, echo) \<Rightarrow>
          if status \<noteq> Status.Ok then (status, s)
          else let echo = the echo; s = count icmp_received_update s in
            if echo_type echo = IcmpEchoType_Request then
              (let s = count echo_requests_received_update s in
               send_icmp source_mac (ip_source ipv4) IcmpEchoType_Reply (echo_identifier echo) (echo_sequence echo)
                 (echo_payload echo) (echo_payload_length echo) s)
            else
              (let s = count echo_replies_received_update s in
               (Status.Ok, s\<lparr>last_ping_reply := \<lparr>ping_valid = True, ping_source = ip_source ipv4,
                 ping_identifier = echo_identifier echo, ping_sequence = echo_sequence echo,
                 ping_payload_length = echo_payload_length echo\<rparr>\<rparr>)))"

definition handle_ipv4 :: "EthernetFrameView \<Rightarrow> 'c NetworkStack \<Rightarrow> Status \<times> 'c NetworkStack" where
  "handle_ipv4 ethernet s =
     (case parse_ipv4 (eth_payload ethernet) (eth_payload_length ethernet) (Some zero_ipv4_view) of
        (status, ipv4) \<Rightarrow>
          if status \<noteq> Status.Ok then (status, s)
          else let ipv4 = the ipv4; s = count ipv4_received_update s in
            if \<not> ipv4_equal (ip_destination ipv4) (address (config s)) then (Status.NotForUs, s)
            else if \<not> ipv4_is_valid_unicast (ip_source ipv4) then (Status.MalformedPacket, s)
            else (case update_neighbor (ip_source ipv4) (eth_source ethernet) s of
               (status, s) \<Rightarrow>
                 if status \<noteq> Status.Ok then (status, s)
                 else if ip_protocol ipv4 = IPV4_PROTOCOL_UDP then handle_udp ipv4 s
                 else if ip_protocol ipv4 = IPV4_PROTOCOL_TCP then handle_tcp ipv4 s
                 else if ip_protocol ipv4 \<noteq> IPV4_PROTOCOL_ICMP then (Status.UnsupportedProtocol, s)
                 else handle_icmp (eth_source ethernet) ipv4 s))"

section \<open>Operations\<close>

text \<open>The checks of the \<open>stack\<close> pointer that the operations share.\<close>

definition with_stack ::
  "('c NetworkStack \<Rightarrow> Status \<times> 'c NetworkStack) \<Rightarrow> 'c NetworkStack option \<Rightarrow> Status \<times> 'c NetworkStack option" where
  "with_stack f stack =
     (case stack of
        None \<Rightarrow> (Status.NotInitialized, None)
      | Some s \<Rightarrow> if \<not> initialized s then (Status.NotInitialized, stack)
                  else (case f s of (status, s') \<Rightarrow> (status, Some s')))"

definition with_configured ::
  "('c NetworkStack \<Rightarrow> Status \<times> 'c NetworkStack) \<Rightarrow> 'c NetworkStack option \<Rightarrow> Status \<times> 'c NetworkStack option" where
  "with_configured f = with_stack (\<lambda>s. if \<not> ipv4_configured s then (Status.NotConfigured, s) else f s)"

definition initialize_stack ::
  "'c NetworkStack option \<Rightarrow> 'c NetworkInterface option \<Rightarrow> Status \<times> 'c NetworkStack option" where
  "initialize_stack stack i =
     (case (stack, i) of
        (Some _, Some j) \<Rightarrow>
          if if_transmit j = None \<or> if_receive j = None then (Status.InvalidArgument, stack)
          else if \<not> mac_is_valid_unicast (hardware_address j) \<or> mtu j < 68 \<or> mtu j > ETHERNET_MTU
          then (Status.InvalidConfiguration, stack)
          else (Status.Ok, Some (zero_stack\<lparr>iface := i, next_identification := 1, initialized := True\<rparr>))
      | _ \<Rightarrow> (Status.InvalidArgument, stack))"

definition configure_ipv4 :: "'c NetworkStack option \<Rightarrow> IPv4Config \<Rightarrow> Status \<times> 'c NetworkStack option" where
  "configure_ipv4 stack cfg = with_stack (\<lambda>s.
     if \<not> netmask_is_contiguous (netmask cfg) \<or> \<not> config_address_is_host (address cfg) (netmask cfg)
     then (Status.InvalidConfiguration, s)
     else if \<not> ipv4_is_zero (gateway cfg) \<and>
       (\<not> config_address_is_host (gateway cfg) (netmask cfg) \<or>
        \<not> ipv4_on_same_network (address cfg) (gateway cfg) (netmask cfg)) then (Status.InvalidConfiguration, s)
     else (Status.Ok, s\<lparr>config := cfg,
       neighbors := (replicate NEIGHBOR_TABLE_CAPACITY zero_neighbor)
         [0 := \<lparr>state = Reachable, n_ip = address cfg, n_mac = own_mac s, update_sequence = 1\<rparr>],
       last_ping_reply := zero_ping, last_udp_datagram := zero_udp, last_tcp_segment := zero_tcp,
       neighbor_eviction_cursor := 1, neighbor_update_sequence := 1, ipv4_configured := True\<rparr>)) stack"

definition zero_frame_view :: EthernetFrameView where
  "zero_frame_view = \<lparr>eth_destination = zero_mac, eth_source = zero_mac, ether_type = 0, eth_payload = None, eth_payload_length = 0\<rparr>"

text \<open>\<open>receive\<close> after its checks of the stack.\<close>

definition receive_frame :: "u8 list option \<Rightarrow> nat \<Rightarrow> 'c NetworkStack \<Rightarrow> Status \<times> 'c NetworkStack" where
  "receive_frame frame frame_length s =
     (if frame = None \<or> frame_length = 0 then (Status.InvalidArgument, s)
      else let s = stats_update (bytes_received_update (\<lambda>b. saturating_add b (of_nat frame_length)))
                     (count frames_received_update s) in
        case parse_ethernet frame frame_length (Some zero_frame_view) of
          (status, view) \<Rightarrow>
            if status \<noteq> Status.Ok then (status, record_receive_failure status s)
            else let ethernet = the view;
                     (status, s) =
                       (if \<not> mac_equal (eth_destination ethernet) (own_mac s) \<and> \<not> mac_is_broadcast (eth_destination ethernet)
                        then (Status.NotForUs, s)
                        else if \<not> mac_is_valid_unicast (eth_source ethernet) then (Status.MalformedPacket, s)
                        else if ether_type ethernet = ETHER_TYPE_ARP then handle_arp ethernet s
                        else if ether_type ethernet = ETHER_TYPE_IPV4 then handle_ipv4 ethernet s
                        else (Status.UnsupportedProtocol, s))
              in (status, if status \<noteq> Status.Ok then record_receive_failure status s else s))"

definition receive :: "'c NetworkStack option \<Rightarrow> u8 list option \<Rightarrow> nat \<Rightarrow> Status \<times> 'c NetworkStack option" where
  "receive stack frame frame_length = with_configured (receive_frame frame frame_length) stack"

text \<open>
  The loop of \<open>poll\<close>; the first argument is \<open>budget - processed\<close>.  The call of \<open>receive\<close> in it passes the
  checks of the stack, which \<open>poll\<close> has made.
\<close>

fun poll_loop :: "nat \<Rightarrow> nat \<Rightarrow> Status \<Rightarrow> 'c NetworkStack \<Rightarrow> Status \<times> nat \<times> 'c NetworkStack" where
  "poll_loop 0 processed first_error s = (first_error, processed, s)"
| "poll_loop (Suc budget) processed first_error s =
     (case interface_receive (iface s) (Some (receive_buffer s)) ETHERNET_MAX_FRAME_SIZE (Some 0) of
        (interface_status, buffer, frame_length, i) \<Rightarrow>
          let s = s\<lparr>iface := i, receive_buffer := the buffer\<rparr> in
          if interface_status = Status.WouldBlock then (first_error, processed, s)
          else if interface_status \<noteq> Status.Ok then (interface_status, processed, count interface_errors_update s)
          else (case receive_frame (Some (receive_buffer s)) (the frame_length) s of
             (receive_status, s) \<Rightarrow>
               poll_loop budget (processed + 1)
                 (if receive_status \<noteq> Status.Ok \<and> first_error = Status.Ok then receive_status else first_error) s))"

definition poll ::
  "'c NetworkStack option \<Rightarrow> nat \<Rightarrow> nat option \<Rightarrow> Status \<times> nat option \<times> 'c NetworkStack option" where
  "poll stack budget out_processed =
     (let zero = map_option (\<lambda>_. 0) out_processed in
      case stack of
        None \<Rightarrow> (Status.NotInitialized, zero, stack)
      | Some s \<Rightarrow>
          if \<not> initialized s then (Status.NotInitialized, zero, stack)
          else if \<not> ipv4_configured s then (Status.NotConfigured, zero, stack)
          else (case poll_loop budget 0 Status.Ok s of
             (status, processed, s) \<Rightarrow> (status, map_option (\<lambda>_. processed) out_processed, Some s)))"

definition send_ping ::
  "'c NetworkStack option \<Rightarrow> IPv4Address \<Rightarrow> u16 \<Rightarrow> u16 \<Rightarrow> u8 list option \<Rightarrow> nat \<Rightarrow> Status \<times> 'c NetworkStack option" where
  "send_ping stack destination identifier sequence payload payload_length = with_configured (\<lambda>s.
     if (payload = None \<and> payload_length \<noteq> 0) \<or> \<not> ipv4_is_valid_unicast destination then (Status.InvalidArgument, s)
     else if payload_length > ICMP_ECHO_MAX_PAYLOAD then (Status.PayloadTooLarge, s)
     else let same = ipv4_on_same_network (address (config s)) destination (netmask (config s)) in
       if \<not> same \<and> ipv4_is_zero (gateway (config s)) then (Status.NoRoute, s)
       else let next_hop = (if same then destination else gateway (config s)) in
         case find_neighbor s next_hop of
           None \<Rightarrow>
             (case send_arp_request next_hop s of
                (arp_status, s) \<Rightarrow>
                  (if arp_status = Status.Ok then Status.NeighborResolutionPending else arp_status, s))
         | Some neighbor \<Rightarrow>
             send_icmp (n_mac neighbor) destination IcmpEchoType_Request identifier sequence payload payload_length s) stack"

definition send_udp ::
  "'c NetworkStack option \<Rightarrow> IPv4Address \<Rightarrow> u16 \<Rightarrow> u16 \<Rightarrow> u8 list option \<Rightarrow> nat \<Rightarrow> Status \<times> 'c NetworkStack option" where
  "send_udp stack destination source_port destination_port payload payload_length = with_configured (\<lambda>s.
     if (payload = None \<and> payload_length \<noteq> 0) \<or> source_port = 0 \<or> destination_port = 0 \<or>
       \<not> ipv4_is_valid_unicast destination then (Status.InvalidArgument, s)
     else case resolve_destination destination s of
         (status, destination_mac, s) \<Rightarrow>
           if status \<noteq> Status.Ok then (status, s)
           else let k = ETHERNET_HEADER_SIZE + IPV4_MIN_HEADER_SIZE in
             (case build_at k (\<lambda>out. serialize_udp (address (config s)) destination source_port destination_port
                     payload payload_length out (ETHERNET_MAX_FRAME_SIZE - k) (Some 0)) s of
                (status, udp_length, s) \<Rightarrow>
                  if status \<noteq> Status.Ok then (status, s)
                  else (case send_transport_packet (the destination_mac) destination IPV4_PROTOCOL_UDP (Within k) udp_length s of
                     (status, s) \<Rightarrow> (status, if status = Status.Ok then count udp_transmitted_update s else s)))) stack"

definition send_tcp ::
  "'c NetworkStack option \<Rightarrow> IPv4Address \<Rightarrow> u16 \<Rightarrow> u16 \<Rightarrow> u32 \<Rightarrow> u32 \<Rightarrow> u8 \<Rightarrow> u16 \<Rightarrow> u8 list option \<Rightarrow> nat \<Rightarrow>
   Status \<times> 'c NetworkStack option" where
  "send_tcp stack destination source_port destination_port sequence acknowledgement flags window payload payload_length =
   with_configured (\<lambda>s.
     if (payload = None \<and> payload_length \<noteq> 0) \<or> source_port = 0 \<or> destination_port = 0 \<or>
       \<not> ipv4_is_valid_unicast destination then (Status.InvalidArgument, s)
     else case resolve_destination destination s of
         (status, destination_mac, s) \<Rightarrow>
           if status \<noteq> Status.Ok then (status, s)
           else let k = ETHERNET_HEADER_SIZE + IPV4_MIN_HEADER_SIZE in
             (case build_at k (\<lambda>out. serialize_tcp (address (config s)) destination source_port destination_port
                     sequence acknowledgement flags window payload payload_length out (ETHERNET_MAX_FRAME_SIZE - k) (Some 0)) s of
                (status, tcp_length, s) \<Rightarrow>
                  if status \<noteq> Status.Ok then (status, s)
                  else (case send_transport_packet (the destination_mac) destination IPV4_PROTOCOL_TCP (Within k) tcp_length s of
                     (status, s) \<Rightarrow> (status, if status = Status.Ok then count tcp_transmitted_update s else s)))) stack"

section \<open>Queries\<close>

definition lookup_neighbor ::
  "'c NetworkStack option \<Rightarrow> IPv4Address \<Rightarrow> NeighborEntry option \<Rightarrow> Status \<times> NeighborEntry option" where
  "lookup_neighbor stack addr out_entry =
     (case stack of
        None \<Rightarrow> (Status.NotInitialized, out_entry)
      | Some s \<Rightarrow>
          if \<not> initialized s then (Status.NotInitialized, out_entry)
          else if out_entry = None then (Status.InvalidArgument, out_entry)
          else case find_neighbor s addr of
              None \<Rightarrow> (Status.WouldBlock, Some zero_neighbor)
            | Some e \<Rightarrow> (Status.Ok, Some e))"

text \<open>The callback gets an entry and the caller's context and says whether to go on.\<close>

fun list_entries :: "(NeighborEntry \<Rightarrow> 'x \<Rightarrow> bool \<times> 'x) \<Rightarrow> NeighborEntry list \<Rightarrow> 'x \<Rightarrow> Status \<times> 'x" where
  "list_entries callback [] x = (Status.Ok, x)"
| "list_entries callback (e # es) x =
     (if state e = Reachable
      then (case callback e x of (go, x') \<Rightarrow> if go then list_entries callback es x' else (Status.IterationStopped, x'))
      else list_entries callback es x)"

definition list_neighbors ::
  "'c NetworkStack option \<Rightarrow> (NeighborEntry \<Rightarrow> 'x \<Rightarrow> bool \<times> 'x) option \<Rightarrow> 'x \<Rightarrow> Status \<times> 'x" where
  "list_neighbors stack callback x =
     (case stack of
        None \<Rightarrow> (Status.NotInitialized, x)
      | Some s \<Rightarrow>
          if \<not> initialized s then (Status.NotInitialized, x)
          else case callback of
              None \<Rightarrow> (Status.InvalidArgument, x)
            | Some f \<Rightarrow> list_entries f (neighbors s) x)"

definition get_stats :: "'c NetworkStack option \<Rightarrow> NetworkStats option \<Rightarrow> Status \<times> NetworkStats option" where
  "get_stats stack out_stats =
     (case stack of
        None \<Rightarrow> (Status.NotInitialized, out_stats)
      | Some s \<Rightarrow>
          if \<not> initialized s then (Status.NotInitialized, out_stats)
          else if out_stats = None then (Status.InvalidArgument, out_stats)
          else (Status.Ok, Some (stats s)))"

definition get_last_ping_reply :: "'c NetworkStack option \<Rightarrow> PingReply option \<Rightarrow> Status \<times> PingReply option" where
  "get_last_ping_reply stack out_reply =
     (case stack of
        None \<Rightarrow> (Status.NotInitialized, out_reply)
      | Some s \<Rightarrow>
          if \<not> initialized s then (Status.NotInitialized, out_reply)
          else if out_reply = None then (Status.InvalidArgument, out_reply)
          else (if ping_valid (last_ping_reply s) then Status.Ok else Status.WouldBlock, Some (last_ping_reply s)))"

definition take_udp_datagram ::
  "'c NetworkStack option \<Rightarrow> UdpDatagram option \<Rightarrow> Status \<times> UdpDatagram option \<times> 'c NetworkStack option" where
  "take_udp_datagram stack out_datagram =
     (case stack of
        None \<Rightarrow> (Status.NotInitialized, out_datagram, stack)
      | Some s \<Rightarrow>
          if \<not> initialized s then (Status.NotInitialized, out_datagram, stack)
          else if out_datagram = None then (Status.InvalidArgument, out_datagram, stack)
          else if \<not> ud_valid (last_udp_datagram s) then (Status.WouldBlock, out_datagram, stack)
          else (Status.Ok, Some (last_udp_datagram s),
                Some (s\<lparr>last_udp_datagram := (last_udp_datagram s)\<lparr>ud_valid := False\<rparr>\<rparr>)))"

definition take_tcp_segment ::
  "'c NetworkStack option \<Rightarrow> TcpSegment option \<Rightarrow> Status \<times> TcpSegment option \<times> 'c NetworkStack option" where
  "take_tcp_segment stack out_segment =
     (case stack of
        None \<Rightarrow> (Status.NotInitialized, out_segment, stack)
      | Some s \<Rightarrow>
          if \<not> initialized s then (Status.NotInitialized, out_segment, stack)
          else if out_segment = None then (Status.InvalidArgument, out_segment, stack)
          else if \<not> ts_valid (last_tcp_segment s) then (Status.WouldBlock, out_segment, stack)
          else (Status.Ok, Some (last_tcp_segment s),
                Some (s\<lparr>last_tcp_segment := (last_tcp_segment s)\<lparr>ts_valid := False\<rparr>\<rparr>)))"

fun net_status_message :: "Status \<Rightarrow> string" where
  "net_status_message Ok = ''ok''"
| "net_status_message NotInitialized = ''not initialized''"
| "net_status_message NotConfigured = ''not configured''"
| "net_status_message InvalidArgument = ''invalid argument''"
| "net_status_message InvalidConfiguration = ''invalid configuration''"
| "net_status_message WouldBlock = ''would block''"
| "net_status_message QueueFull = ''queue full''"
| "net_status_message BufferTooSmall = ''buffer too small''"
| "net_status_message FrameTooShort = ''frame too short''"
| "net_status_message FrameTooLarge = ''frame too large''"
| "net_status_message PayloadTooLarge = ''payload too large''"
| "net_status_message MalformedPacket = ''malformed packet''"
| "net_status_message ChecksumMismatch = ''checksum mismatch''"
| "net_status_message UnsupportedProtocol = ''unsupported protocol''"
| "net_status_message UnsupportedFragment = ''unsupported fragment''"
| "net_status_message NotForUs = ''not for this host''"
| "net_status_message NoRoute = ''no route''"
| "net_status_message NeighborResolutionPending = ''neighbor resolution pending''"
| "net_status_message IterationStopped = ''iteration stopped''"
| "net_status_message InterfaceError = ''interface error''"
| "net_status_message NameNotFound = ''DNS name not found''"

end
