(* ===== verification/Net_Delivery.thy ===== *)
theory Net_Delivery
  imports Net_Stack
begin

text \<open>
  What the network stack guarantees from end to end.  The state invariant of a stack says that its
  buffers, table and addresses have their sizes; the sending operations are shown to put explicit
  frames on the wire, the receiving ones to act on them, and together they deliver: UDP and TCP
  payloads, echo requests and replies, and ARP resolution between two stacks.
\<close>

section \<open>Invariant\<close>

definition neighbor_ok :: "NeighborEntry \<Rightarrow> bool" where
  "neighbor_ok e \<longleftrightarrow> is_ipv4 (n_ip e) \<and> is_mac (n_mac e)"

definition is_entry :: "IPv4Address \<Rightarrow> NeighborEntry \<Rightarrow> bool" where
  "is_entry ip e \<longleftrightarrow> state e = Reachable \<and> n_ip e = ip"

text \<open>
  The table of a configured stack: entry 0 is the stack itself, no address is reachable twice, and the
  eviction cursor never points at entry 0.
\<close>

definition table_inv :: "'c NetworkStack \<Rightarrow> bool" where
  "table_inv s \<longleftrightarrow>
     is_entry (address (config s)) (neighbors s ! 0) \<and> n_mac (neighbors s ! 0) = own_mac s \<and>
     1 \<le> neighbor_eviction_cursor s \<and> neighbor_eviction_cursor s < NEIGHBOR_TABLE_CAPACITY \<and>
     (\<forall>i j ip. i < length (neighbors s) \<longrightarrow> j < length (neighbors s) \<longrightarrow>
        is_entry ip (neighbors s ! i) \<longrightarrow> is_entry ip (neighbors s ! j) \<longrightarrow> i = j)"

definition stack_inv :: "'c NetworkStack \<Rightarrow> bool" where
  "stack_inv s \<longleftrightarrow>
     length (transmit_buffer s) = ETHERNET_MAX_FRAME_SIZE \<and> length (receive_buffer s) = ETHERNET_MAX_FRAME_SIZE \<and>
     length (neighbors s) = NEIGHBOR_TABLE_CAPACITY \<and> (\<forall>e \<in> set (neighbors s). neighbor_ok e) \<and>
     (initialized s \<longrightarrow> iface s \<noteq> None \<and> if_transmit (the (iface s)) \<noteq> None \<and> is_mac (own_mac s) \<and>
        mac_is_valid_unicast (own_mac s) \<and> 68 \<le> mtu (the (iface s)) \<and> mtu (the (iface s)) \<le> ETHERNET_MTU) \<and>
     (ipv4_configured s \<longrightarrow> initialized s \<and> is_ipv4 (address (config s)) \<and> is_ipv4 (gateway (config s)) \<and>
        ipv4_is_valid_unicast (address (config s)) \<and> table_inv s)"

text \<open>\<open>ready s\<close>: initialised and configured.\<close>

definition ready :: "'c NetworkStack \<Rightarrow> bool" where
  "ready s \<longleftrightarrow> stack_inv s \<and> initialized s \<and> ipv4_configured s"

lemma readyD:
  assumes "ready s"
  shows "length (transmit_buffer s) = 1514" "length (neighbors s) = 16" "is_mac (own_mac s)"
    "mac_is_valid_unicast (own_mac s)" "is_ipv4 (address (config s))" "ipv4_is_valid_unicast (address (config s))"
    "initialized s" "ipv4_configured s" "is_ipv4 (gateway (config s))" "table_inv s"
  using assms by (auto simp: ready_def stack_inv_def ETHERNET_MAX_FRAME_SIZE_def ETHERNET_HEADER_SIZE_def
      ETHERNET_MTU_def NEIGHBOR_TABLE_CAPACITY_def)

text \<open>The parts of the state that statistics, buffers and inboxes do not touch.\<close>

definition same_net :: "'c NetworkStack \<Rightarrow> 'c NetworkStack \<Rightarrow> bool" where
  "same_net s s' \<longleftrightarrow> config s' = config s \<and> initialized s' = initialized s \<and> ipv4_configured s' = ipv4_configured s \<and>
     map_option (\<lambda>i. (if_transmit i, if_receive i, hardware_address i, mtu i)) (iface s') =
     map_option (\<lambda>i. (if_transmit i, if_receive i, hardware_address i, mtu i)) (iface s) \<and>
     length (transmit_buffer s') = length (transmit_buffer s) \<and> length (receive_buffer s') = length (receive_buffer s)"

abbreviation same_table :: "'c NetworkStack \<Rightarrow> 'c NetworkStack \<Rightarrow> bool" where
  "same_table s s' \<equiv> neighbors s' = neighbors s \<and> neighbor_eviction_cursor s' = neighbor_eviction_cursor s"

lemma same_net_refl [simp]: "same_net s s"
  by (simp add: same_net_def)

lemma same_net_trans: "same_net s t \<Longrightarrow> same_net t u \<Longrightarrow> same_net s u"
  by (simp add: same_net_def)

lemma same_net_own_mac: "same_net s s' \<Longrightarrow> own_mac s' = own_mac s"
  by (cases "iface s"; cases "iface s'") (auto simp: same_net_def own_mac_def)

lemma same_net_simps [simp]:
  "same_net s (stats_update f s)" "same_net s (last_ping_reply_update g s)" "same_net s (last_udp_datagram_update h s)"
  "same_net s (last_tcp_segment_update k s)" "same_net s (next_identification_update l s)"
  "same_net s (neighbors_update n s)"
  "same_net s (neighbor_update_sequence_update p s)" "same_net s (neighbor_eviction_cursor_update q s)"
  by (simp_all add: same_net_def)

lemma same_net_inv:
  assumes "same_net s s'" "stack_inv s" "length (neighbors s') = NEIGHBOR_TABLE_CAPACITY" "\<forall>e \<in> set (neighbors s'). neighbor_ok e"
    and "ipv4_configured s \<Longrightarrow> table_inv s'"
  shows "stack_inv s'"
  using assms same_net_own_mac [OF assms(1)]
  by (cases "iface s"; cases "iface s'") (auto simp: stack_inv_def same_net_def)

lemma ready_same:
  assumes "ready s" "same_net s s'" "same_table s s'"
  shows "ready s'"
proof -
  have "table_inv s'"
    using assms same_net_own_mac [OF assms(2)] unfolding ready_def stack_inv_def table_inv_def same_net_def by simp
  then have "stack_inv s'"
    using assms by (intro same_net_inv [OF assms(2)]) (simp_all add: ready_def stack_inv_def)
  then show ?thesis using assms by (simp add: ready_def same_net_def)
qed

section \<open>Frames on the wire\<close>

text \<open>
  \<open>transmits s s' frame\<close>: between \<open>s\<close> and \<open>s'\<close> the driver of the interface was called once and accepted
  \<open>frame\<close>.
\<close>

definition transmits :: "'c NetworkStack \<Rightarrow> 'c NetworkStack \<Rightarrow> u8 list \<Rightarrow> bool" where
  "transmits s s' frame \<longleftrightarrow>
     (\<exists>i tr buffer. iface s = Some i \<and> if_transmit i = Some tr \<and> length frame \<le> length buffer \<and>
        take (length frame) buffer = frame \<and>
        tr (if_context i) (Some buffer) (length frame) = (Status.Ok, if_context (the (iface s'))) \<and>
        iface s' = Some (i\<lparr>if_context := if_context (the (iface s'))\<rparr>))"

lemma transmits_cong: "iface t = iface s \<Longrightarrow> iface t' = iface s' \<Longrightarrow> transmits t t' f = transmits s s' f"
  by (simp add: transmits_def)

lemma transmit_stack_frame_ok:
  assumes "transmit_stack_frame n s = (Status.Ok, s')" "n \<le> length (transmit_buffer s)"
  shows "transmits s s' (take n (transmit_buffer s))" "same_net s s'" "same_table s s'"
    "transmit_buffer s' = transmit_buffer s" "last_ping_reply s' = last_ping_reply s"
proof -
  obtain i tr where i: "iface s = Some i" "if_transmit i = Some tr"
    using assms(1) by (auto simp: transmit_stack_frame_def interface_transmit_def Let_def split: option.splits if_splits)
  obtain st c where c: "tr (if_context i) (Some (transmit_buffer s)) n = (st, c)" by fastforce
  have st: "st = Status.Ok" and s': "s' = stats_update (bytes_transmitted_update (\<lambda>b. saturating_add b (of_nat n)))
      (count frames_transmitted_update (s\<lparr>iface := Some (i\<lparr>if_context := c\<rparr>)\<rparr>))"
    using assms(1) i c by (auto simp: transmit_stack_frame_def interface_transmit_def Let_def split: if_splits)
  show "transmits s s' (take n (transmit_buffer s))"
    unfolding transmits_def using i c st assms(2) by (auto simp: s' min_def)
  show "same_net s s'" "same_table s s'" "transmit_buffer s' = transmit_buffer s" "last_ping_reply s' = last_ping_reply s"
    using i by (simp_all add: s' same_net_def)
qed

lemma transmit_stack_frame_net: "same_net s (snd (transmit_stack_frame n s))"
  "same_table s (snd (transmit_stack_frame n s))"
  by (auto simp: transmit_stack_frame_def interface_transmit_def same_net_def Let_def
      split: option.splits if_splits prod.splits)

lemma transmits_from:
  assumes "transmits t t' f" "iface s = iface t" "iface s' = iface t'"
  shows "transmits s s' f"
  using assms transmits_cong [of s t s' t'] by simp

text \<open>The IPv4 header the stack puts in front of a transport message.\<close>

definition stack_header :: "'c NetworkStack \<Rightarrow> IPv4Address \<Rightarrow> u8 \<Rightarrow> IPv4Header" where
  "stack_header s dst proto = \<lparr>h_source = address (config s), h_destination = dst, h_protocol = proto, h_ttl = 64,
     h_identification = next_identification s, h_dont_fragment = True\<rparr>"

definition ipv4_frame :: "'c NetworkStack \<Rightarrow> MacAddress \<Rightarrow> IPv4Address \<Rightarrow> u8 \<Rightarrow> u8 list \<Rightarrow> u8 list" where
  "ipv4_frame s dmac dst proto body = ethernet_header dmac (own_mac s) ETHER_TYPE_IPV4 @
     ipv4_header (stack_header s dst proto) (IPV4_MIN_HEADER_SIZE + length body) @ body"

lemma length_ipv4_frame:
  assumes "ready s" "is_mac dmac" "is_ipv4 dst"
  shows "length (ipv4_frame s dmac dst proto body) = 34 + length body"
  using readyD [OF assms(1)] assms(2,3) by (simp add: ipv4_frame_def stack_header_def)

text \<open>The two headers written in front of a message that is in place.\<close>

lemma build_ipv4:
  assumes s: "ready s" and d: "is_ipv4 dst" and n: "length body = n" "n \<le> 1480"
    and buf: "transmit_buffer s = pre @ body @ rest" "length pre = 34" and t: "transmit_buffer t = transmit_buffer s"
  shows "build_at ETHERNET_HEADER_SIZE (\<lambda>out. serialize_ipv4 (stack_header s dst proto) (Within IPV4_MIN_HEADER_SIZE) n out
      ETHERNET_MTU (Some 0)) t = (Status.Ok, 20 + n, t\<lparr>transmit_buffer :=
        take 14 pre @ ipv4_header (stack_header s dst proto) (20 + n) @ body @ rest\<rparr>)"
proof -
  let ?b = "drop 14 (transmit_buffer s)"
  have b: "?b = drop 14 pre @ body @ rest" using buf by simp
  have "length ?b = 1500" using readyD(1) [OF s] by simp
  then have "serialize_ipv4 (stack_header s dst proto) (Within IPV4_MIN_HEADER_SIZE) n (Some ?b) ETHERNET_MTU (Some 0) =
      (Status.Ok, Some (ipv4_header (stack_header s dst proto) (20 + n) @ take n (source_bytes (Within 20) ?b) @ drop (20 + n) ?b),
       Some (20 + n))"
    using serialize_ipv4_eq [of "stack_header s dst proto" "Within IPV4_MIN_HEADER_SIZE" n ETHERNET_MTU ?b 0] readyD(5) [OF s] d n(2)
    by (simp add: stack_header_def payload_ok_def IPV4_MIN_HEADER_SIZE_def ETHERNET_MTU_def)
  moreover have "take n (source_bytes (Within 20) ?b) = body" "drop (20 + n) ?b = rest"
    unfolding b using buf(2) n(1) by (simp_all add: source_bytes_def)
  moreover have "take 14 (transmit_buffer s) = take 14 pre" using buf by simp
  ultimately show ?thesis by (simp add: build_at_def t ETHERNET_HEADER_SIZE_def)
qed

lemma build_ethernet:
  assumes s: "ready s" and d: "is_mac dmac" and ty: "0x0600 \<le> ty" and n: "length body = n" "n \<le> 1500"
    and buf: "transmit_buffer t = pre @ body @ rest" "length pre = 14" "length (transmit_buffer t) = 1514"
  shows "build_at 0 (\<lambda>out. serialize_ethernet dmac (own_mac s) ty (Within ETHERNET_HEADER_SIZE) n out
      ETHERNET_MAX_FRAME_SIZE (Some 0)) t =
    (Status.Ok, 14 + n, t\<lparr>transmit_buffer := ethernet_header dmac (own_mac s) ty @ body @ rest\<rparr>)"
proof -
  let ?b = "transmit_buffer t"
  have "serialize_ethernet dmac (own_mac s) ty (Within ETHERNET_HEADER_SIZE) n (Some ?b) ETHERNET_MAX_FRAME_SIZE (Some 0) =
      (Status.Ok, Some (ethernet_header dmac (own_mac s) ty @ take n (source_bytes (Within 14) ?b) @ drop (14 + n) ?b), Some (14 + n))"
    using serialize_ethernet_eq [of dmac "own_mac s" ty "Within ETHERNET_HEADER_SIZE" n ETHERNET_MAX_FRAME_SIZE ?b 0]
      readyD(3) [OF s] d ty n(2) buf(3)
    by (simp add: payload_ok_def ETHERNET_HEADER_SIZE_def ETHERNET_MTU_def ETHERNET_MAX_FRAME_SIZE_def)
  moreover have "take n (source_bytes (Within 14) ?b) = body" "drop (14 + n) ?b = rest"
    using buf(1,2) n(1) by (simp_all add: source_bytes_def)
  ultimately show ?thesis by (simp add: build_at_def)
qed

lemma send_ipv4_in_place_eq:
  assumes s: "ready s" and d: "is_mac dmac" "is_ipv4 dst" and n: "length body = n" "n \<le> 1480"
    and buf: "transmit_buffer s = pre @ body @ rest" "length pre = 34"
  shows "send_ipv4_in_place dmac dst proto n s = transmit_stack_frame (34 + n) (s\<lparr>next_identification := next_identification s + 1,
    transmit_buffer := ipv4_frame s dmac dst proto body @ rest\<rparr>)"
proof -
  let ?t = "s\<lparr>next_identification := next_identification s + 1\<rparr>"
  let ?h = "ipv4_header (stack_header s dst proto) (20 + n)"
  let ?u = "?t\<lparr>transmit_buffer := take 14 pre @ ?h @ body @ rest\<rparr>"
  have h: "length ?h = 20" using readyD(5) [OF s] d(2) by (simp add: stack_header_def)
  have "length (transmit_buffer ?u) = 1514" using readyD(1) [OF s] buf h by simp
  moreover have "length (?h @ body) = 20 + n" using h n(1) by simp
  ultimately have eth: "build_at 0 (\<lambda>out. serialize_ethernet dmac (own_mac s) ETHER_TYPE_IPV4 (Within ETHERNET_HEADER_SIZE) (20 + n) out
      ETHERNET_MAX_FRAME_SIZE (Some 0)) ?u = (Status.Ok, 34 + n, s\<lparr>next_identification := next_identification s + 1,
        transmit_buffer := ipv4_frame s dmac dst proto body @ rest\<rparr>)"
    using build_ethernet [OF s d(1), of ETHER_TYPE_IPV4 "?h @ body" "20 + n" ?u "take 14 pre" rest] buf(2) n
    by (simp add: ETHER_TYPE_IPV4_def ipv4_frame_def IPV4_MIN_HEADER_SIZE_def)
  have hdr: "\<lparr>h_source = address (config s), h_destination = dst, h_protocol = proto, h_ttl = 64,
     h_identification = next_identification s, h_dont_fragment = True\<rparr> = stack_header s dst proto"
    by (simp add: stack_header_def)
  have "own_mac ?u = own_mac s" by (simp add: own_mac_def)
  then show ?thesis
    unfolding send_ipv4_in_place_def Let_def hdr
    using build_ipv4 [OF s d(2) n buf, of ?t proto] eth \<open>own_mac ?u = own_mac s\<close> by simp
qed

lemma send_ipv4_in_place_ok:
  assumes s: "ready s" and d: "is_mac dmac" "is_ipv4 dst" and n: "length body = n" "n \<le> 1480"
    and buf: "transmit_buffer s = pre @ body @ rest" "length pre = 34"
    and ok: "send_ipv4_in_place dmac dst proto n s = (Status.Ok, s')"
  shows "transmits s s' (ipv4_frame s dmac dst proto body)" "same_net s s'" "same_table s s'"
proof -
  let ?t = "s\<lparr>next_identification := next_identification s + 1, transmit_buffer := ipv4_frame s dmac dst proto body @ rest\<rparr>"
  have len: "length (ipv4_frame s dmac dst proto body) = 34 + n" using length_ipv4_frame [OF s d] n by simp
  have ok': "transmit_stack_frame (34 + n) ?t = (Status.Ok, s')" using ok send_ipv4_in_place_eq [OF s d n buf] by simp
  note t = transmit_stack_frame_ok [OF ok']
  show "transmits s s' (ipv4_frame s dmac dst proto body)" using t(1) len transmits_cong [of ?t s s' s'] by simp
  have "same_net s ?t" using len n(1) readyD(1) [OF s] buf by (simp add: same_net_def)
  then show "same_net s s'" using t(2) len same_net_trans by fastforce
  show "same_table s s'" using t(3) len by simp
qed

section \<open>The neighbour table\<close>

definition find_entry :: "IPv4Address \<Rightarrow> NeighborEntry list \<Rightarrow> nat option" where
  "find_entry ip es = find_index (is_entry ip) es"

lemma find_entry_eq:
  assumes "\<forall>e \<in> set es. neighbor_ok e" "is_ipv4 ip"
  shows "find_index (\<lambda>e. state e = Reachable \<and> ipv4_equal (n_ip e) ip) es = find_entry ip es"
  unfolding find_entry_def
  using assms nth_mem by (intro find_index_cong_nth) (fastforce simp: is_entry_def neighbor_ok_def ipv4_equal_eq)+

lemma table_inv_uniq:
  "table_inv s \<Longrightarrow> i < length (neighbors s) \<Longrightarrow> j < length (neighbors s) \<Longrightarrow>
   is_entry ip (neighbors s ! i) \<Longrightarrow> is_entry ip (neighbors s ! j) \<Longrightarrow> i = j"
  unfolding table_inv_def by blast

lemma distinct_keys:
  "(\<And>i j. i < length es \<Longrightarrow> j < length es \<Longrightarrow> P (es ! i) \<Longrightarrow> P (es ! j) \<Longrightarrow> f (es ! i) = f (es ! j) \<Longrightarrow> i = j) \<Longrightarrow>
   distinct (map f (filter P es))"
proof (induction es)
  case (Cons e es)
  have "distinct (map f (filter P es))"
    by (rule Cons.IH) (use Cons.prems [of "Suc i" "Suc j" for i j] in simp)
  moreover have "f e \<notin> f ` (set es \<inter> {x. P x})" if "P e"
  proof
    assume "f e \<in> f ` (set es \<inter> {x. P x})"
    then obtain k where "k < length es" "P (es ! k)" "f e = f (es ! k)" by (auto simp: in_set_conv_nth)
    then show False using Cons.prems [of 0 "Suc k"] that by simp
  qed
  ultimately show ?case by auto
qed simp

lemma table_distinct: "table_inv s \<Longrightarrow> distinct (map n_ip (filter (\<lambda>e. state e = Reachable) (neighbors s)))"
  by (rule distinct_keys) (metis is_entry_def table_inv_uniq)

text \<open>What an update writes, and where.\<close>

definition new_entry :: "IPv4Address \<Rightarrow> MacAddress \<Rightarrow> u64 \<Rightarrow> NeighborEntry" where
  "new_entry ip mac q = \<lparr>state = Reachable, n_ip = ip, n_mac = mac, update_sequence = q\<rparr>"

definition conflict :: "IPv4Address \<Rightarrow> MacAddress \<Rightarrow> 'c NetworkStack \<Rightarrow> bool" where
  "conflict ip mac s \<longleftrightarrow> ip = address (config s) \<and> mac \<noteq> own_mac s"

lemma update_neighbor_error:
  assumes "ready s" "is_ipv4 ip" "is_mac mac"
    and "\<not> ipv4_is_valid_unicast ip \<or> \<not> mac_is_valid_unicast mac \<or> conflict ip mac s"
  shows "update_neighbor ip mac s = (Status.MalformedPacket, s)"
  using assms readyD [OF assms(1)] by (auto simp: update_neighbor_def conflict_def ipv4_equal_eq mac_equal_eq)

lemma update_neighbor_cases:
  assumes s: "ready s" and a: "is_ipv4 ip" "is_mac mac" "ipv4_is_valid_unicast ip" "mac_is_valid_unicast mac" "\<not> conflict ip mac s"
  obtains (ok) i q c st where "update_neighbor ip mac s = (Status.Ok, s\<lparr>neighbors := (neighbors s)[i := new_entry ip mac q],
      neighbor_update_sequence := q, neighbor_eviction_cursor := c, stats := st\<rparr>)"
    "find_entry ip (neighbors s) = Some i \<and> c = neighbor_eviction_cursor s \<or>
     find_entry ip (neighbors s) = None \<and>
       (find_index (\<lambda>e. state e = Empty) (neighbors s) = Some i \<and> c = neighbor_eviction_cursor s \<or>
        find_index (\<lambda>e. state e = Empty) (neighbors s) = None \<and> i = neighbor_eviction_cursor s \<and>
          c = (if i + 1 \<ge> NEIGHBOR_TABLE_CAPACITY then 1 else i + 1))"
proof -
  have es: "\<forall>e \<in> set (neighbors s). neighbor_ok e" using s by (simp add: ready_def stack_inv_def)
  let ?q = "fst (next_neighbor_sequence s)"
  have "\<not> (ipv4_equal ip (address (config s)) \<and> \<not> mac_equal mac (own_mac s))"
    using a readyD [OF s] by (auto simp: conflict_def ipv4_equal_eq mac_equal_eq)
  note upd = update_neighbor_def a(3,4) this readyD(8) [OF s] find_entry_eq [OF es a(1)]
  show thesis
  proof (cases "find_entry ip (neighbors s)")
    case (Some i)
    have "is_entry ip (neighbors s ! i)" using Some find_index_Some_nthD unfolding find_entry_def by fastforce
    then have "(neighbors s ! i)\<lparr>n_mac := mac, update_sequence := q\<rparr> = new_entry ip mac q" for q
      by (simp add: is_entry_def new_entry_def)
    with Some have "update_neighbor ip mac s = (Status.Ok, s\<lparr>neighbors := (neighbors s)[i := new_entry ip mac ?q],
      neighbor_update_sequence := ?q, neighbor_eviction_cursor := neighbor_eviction_cursor s,
      stats := neighbor_updates_update increment (stats s)\<rparr>)"
      by (simp add: upd next_neighbor_sequence_def Let_def)
    then show thesis by (rule ok) (simp add: Some)
  next
    case None
    show thesis
    proof (cases "find_index (\<lambda>e. state e = Empty) (neighbors s)")
      case (Some i)
      with None have "update_neighbor ip mac s = (Status.Ok, s\<lparr>neighbors := (neighbors s)[i := new_entry ip mac ?q],
        neighbor_update_sequence := ?q, neighbor_eviction_cursor := neighbor_eviction_cursor s,
        stats := neighbor_updates_update increment (stats s)\<rparr>)"
        by (simp add: upd next_neighbor_sequence_def Let_def new_entry_def)
      then show thesis by (rule ok) (simp add: None Some)
    next
      case full: None
      let ?i = "neighbor_eviction_cursor s"
      from None full have "update_neighbor ip mac s = (Status.Ok, s\<lparr>neighbors := (neighbors s)[?i := new_entry ip mac ?q],
        neighbor_update_sequence := ?q, neighbor_eviction_cursor := (if ?i + 1 \<ge> NEIGHBOR_TABLE_CAPACITY then 1 else ?i + 1),
        stats := neighbor_updates_update increment (neighbor_evictions_update increment (stats s))\<rparr>)"
        by (simp add: upd next_neighbor_sequence_def Let_def new_entry_def)
      then show thesis by (rule ok) (simp add: None full)
    qed
  qed
qed

text \<open>Updating keeps the invariant and records the pair; at most one other entry, never the stack's own, is lost.\<close>

lemma update_neighbor_ok:
  assumes s: "ready s" and a: "is_ipv4 ip" "is_mac mac" "ipv4_is_valid_unicast ip" "mac_is_valid_unicast mac" "\<not> conflict ip mac s"
  obtains i q c st s' where "update_neighbor ip mac s = (Status.Ok, s')" "s' = s\<lparr>neighbors := (neighbors s)[i := new_entry ip mac q],
      neighbor_update_sequence := q, neighbor_eviction_cursor := c, stats := st\<rparr>" "i < 16" "1 \<le> c" "c < 16"
    "i = 0 \<Longrightarrow> ip = address (config s)" "\<And>j. j < 16 \<Longrightarrow> is_entry ip (neighbors s ! j) \<Longrightarrow> j = i"
    "find_entry ip (neighbors s) = Some i \<or> find_entry ip (neighbors s) = None \<and>
       (state (neighbors s ! i) = Empty \<or> (\<forall>e \<in> set (neighbors s). state e = Reachable) \<and> i = neighbor_eviction_cursor s)"
proof -
  have t: "is_entry (address (config s)) (neighbors s ! 0)" "1 \<le> neighbor_eviction_cursor s" "neighbor_eviction_cursor s < 16"
    "\<And>i j ip. i < 16 \<Longrightarrow> j < 16 \<Longrightarrow> is_entry ip (neighbors s ! i) \<Longrightarrow> is_entry ip (neighbors s ! j) \<Longrightarrow> i = j"
    using readyD(10,2) [OF s] by (auto simp: table_inv_def NEIGHBOR_TABLE_CAPACITY_def)
  have none: "find_entry ip (neighbors s) = None \<Longrightarrow> j < 16 \<Longrightarrow> \<not> is_entry ip (neighbors s ! j)" for j
    using readyD(2) [OF s] by (simp add: find_entry_def find_index_None_iff)
  show thesis
  proof (cases rule: update_neighbor_cases [OF s a])
    case (1 i q c st)
    consider (found) "find_entry ip (neighbors s) = Some i" "c = neighbor_eviction_cursor s"
      | (free) "find_entry ip (neighbors s) = None" "find_index (\<lambda>e. state e = Empty) (neighbors s) = Some i" "c = neighbor_eviction_cursor s"
      | (evict) "find_entry ip (neighbors s) = None" "find_index (\<lambda>e. state e = Empty) (neighbors s) = None"
          "i = neighbor_eviction_cursor s" "c = (if i + 1 \<ge> NEIGHBOR_TABLE_CAPACITY then 1 else i + 1)"
      using 1(2) by (elim disjE conjE) (rule found free evict; assumption)+
    then show thesis
    proof cases
      case found
      then have i: "i < 16" "is_entry ip (neighbors s ! i)"
        using find_index_SomeD readyD(2) [OF s] unfolding find_entry_def by fastforce+
      then have "i = 0 \<Longrightarrow> ip = address (config s)" using t(1) by (simp add: is_entry_def)
      with i found t show thesis by (intro that [OF 1(1) refl]) auto
    next
      case free
      then have i: "i < 16" "state (neighbors s ! i) = Empty" using find_index_SomeD readyD(2) [OF s] by fastforce+
      then have "i \<noteq> 0" using t(1) by (metis NeighborState.distinct(1) is_entry_def)
      with i free t none show thesis by (intro that [OF 1(1) refl]) auto
    next
      case evict
      then have "1 \<le> c" "c < 16" using t(3) by (auto simp: NEIGHBOR_TABLE_CAPACITY_def)
      moreover have "\<forall>e \<in> set (neighbors s). state e = Reachable"
        using evict(2) by (auto simp: find_index_None_iff) (metis NeighborState.exhaust)
      ultimately show thesis using evict t none by (intro that [OF 1(1) refl]) auto
    qed
  qed
qed

lemma update_neighbor_ready:
  assumes s: "ready s" and a: "is_ipv4 ip" "is_mac mac" "ipv4_is_valid_unicast ip" "mac_is_valid_unicast mac" "\<not> conflict ip mac s"
  obtains s' where "update_neighbor ip mac s = (Status.Ok, s')" "ready s'" "same_net s s'" "iface s' = iface s"
    "map_option n_mac (find_neighbor s' ip) = Some mac" "transmit_buffer s' = transmit_buffer s"
    "last_ping_reply s' = last_ping_reply s" "last_udp_datagram s' = last_udp_datagram s" "last_tcp_segment s' = last_tcp_segment s"
proof (rule update_neighbor_ok [OF s a])
  fix i q c st s'
  assume u: "update_neighbor ip mac s = (Status.Ok, s')"
      "s' = s\<lparr>neighbors := (neighbors s)[i := new_entry ip mac q], neighbor_update_sequence := q, neighbor_eviction_cursor := c, stats := st\<rparr>"
      "i < 16" "1 \<le> c" "c < 16" "i = 0 \<Longrightarrow> ip = address (config s)"
      "\<And>j. j < 16 \<Longrightarrow> is_entry ip (neighbors s ! j) \<Longrightarrow> j = i"
  have net: "same_net s s'" by (simp add: u(2) same_net_def)
  have len: "length (neighbors s') = 16" using readyD(2) [OF s] by (simp add: u(2))
  have at: "neighbors s' ! j = (if j = i then new_entry ip mac q else neighbors s ! j)" if "j < 16" for j
    using that u(3) readyD(2) [OF s] by (simp add: u(2))
  have nok: "neighbor_ok (new_entry ip mac q)" using a(1,2) by (simp add: neighbor_ok_def new_entry_def)
  have es: "\<forall>e \<in> set (neighbors s'). neighbor_ok e"
    using s nok set_update_subset_insert [of "neighbors s" i "new_entry ip mac q"] by (auto simp: u(2) ready_def stack_inv_def)
  have t0: "is_entry (address (config s)) (neighbors s ! 0)" "n_mac (neighbors s ! 0) = own_mac s"
    using readyD(10) [OF s] by (simp_all add: table_inv_def)
  have "table_inv s'"
  proof -
    have "is_entry (address (config s')) (neighbors s' ! 0) \<and> n_mac (neighbors s' ! 0) = own_mac s'"
      using t0 at [of 0] u(6) a(5) same_net_own_mac [OF net]
      by (cases "i = 0") (simp_all add: is_entry_def new_entry_def conflict_def u(2))
    moreover have "j = k" if "j < 16" "k < 16" "is_entry ip' (neighbors s' ! j)" "is_entry ip' (neighbors s' ! k)" for j k ip'
    proof -
      have new: "is_entry ip' (new_entry ip mac q) \<longleftrightarrow> ip' = ip" by (auto simp: is_entry_def new_entry_def)
      have uniq: "is_entry ip' (neighbors s ! j) \<Longrightarrow> is_entry ip' (neighbors s ! k) \<Longrightarrow> j = k"
        using table_inv_uniq [OF readyD(10) [OF s], of j k ip'] that(1,2) readyD(2) [OF s] by simp
      from that(3,4) show ?thesis
        unfolding at [OF that(1)] at [OF that(2)]
        using uniq u(7) [OF that(1)] u(7) [OF that(2)] new by (auto split: if_splits)
    qed
    moreover have "1 \<le> neighbor_eviction_cursor s'" "neighbor_eviction_cursor s' < 16" using u(4,5) by (simp_all add: u(2))
    ultimately show ?thesis unfolding table_inv_def len NEIGHBOR_TABLE_CAPACITY_def by blast
  qed
  then have inv: "stack_inv s'"
    using s len es by (intro same_net_inv [OF net]) (simp_all add: ready_def NEIGHBOR_TABLE_CAPACITY_def)
  then have r: "ready s'" using s net by (simp add: ready_def same_net_def)
  have "find_entry ip (neighbors s') = Some i"
    unfolding find_entry_def
  proof (rule find_index_eq_SomeI)
    show "i < length (neighbors s')" using len u(3) by simp
    show "is_entry ip (neighbors s' ! i)" using at [OF u(3)] by (simp add: is_entry_def new_entry_def)
    show "\<not> is_entry ip (neighbors s' ! j)" if "j < i" for j
      using that u(3) at [of j] u(7) [of j] by fastforce
  qed
  then have "map_option n_mac (find_neighbor s' ip) = Some mac"
    using find_entry_eq [OF es a(1)] at [OF u(3)] by (simp add: find_neighbor_def new_entry_def)
  then show thesis using u(1) r net by (intro that [of s']) (simp_all add: u(2))
qed

section \<open>Receiving a frame\<close>

lemma ready_stats [simp]: "ready (stats_update f s) = ready s"
  by (simp add: ready_def stack_inv_def table_inv_def own_mac_def)

lemma own_mac_stats [simp]: "own_mac (stats_update f s) = own_mac s"
  by (simp add: own_mac_def)

lemma conflict_stats [simp]: "conflict ip mac (stats_update f s) = conflict ip mac s"
  by (simp add: conflict_def)

definition ipv4_view :: "IPv4Header \<Rightarrow> u8 list \<Rightarrow> IPv4PacketView" where
  "ipv4_view h body = \<lparr>ip_source = h_source h, ip_destination = h_destination h, ip_protocol = h_protocol h, ip_ttl = h_ttl h,
     ip_identification = h_identification h, ip_dont_fragment = h_dont_fragment h, ip_payload = Some body,
     ip_payload_length = length body, ip_header_length = IPV4_MIN_HEADER_SIZE\<rparr>"

text \<open>\<open>handle_ipv4\<close> from the choice of the protocol on.\<close>

definition dispatch :: "MacAddress \<Rightarrow> IPv4PacketView \<Rightarrow> 'c NetworkStack \<Rightarrow> Status \<times> 'c NetworkStack" where
  "dispatch smac ipv4 s =
     (if ip_protocol ipv4 = IPV4_PROTOCOL_UDP then handle_udp ipv4 s
      else if ip_protocol ipv4 = IPV4_PROTOCOL_TCP then handle_tcp ipv4 s
      else if ip_protocol ipv4 \<noteq> IPV4_PROTOCOL_ICMP then (Status.UnsupportedProtocol, s)
      else handle_icmp smac ipv4 s)"

lemma receive_ethernet:
  assumes s: "ready s" and d: "dmac = own_mac s \<or> dmac = BROADCAST_MAC" and m: "is_mac smac" "mac_is_valid_unicast smac"
    and p: "length p \<le> 1500" and ty: "ty = ETHER_TYPE_IPV4 \<or> ty = ETHER_TYPE_ARP"
    and f: "frame = ethernet_header dmac smac ty @ p"
  obtains s0 where "ready s0" "same_net s s0" "s0 = s\<lparr>stats := stats s0\<rparr>"
    "receive_frame (Some frame) (length frame) s =
     (let (st, t) = (if ty = ETHER_TYPE_ARP then handle_arp else handle_ipv4)
        \<lparr>eth_destination = dmac, eth_source = smac, ether_type = ty, eth_payload = Some p, eth_payload_length = length p\<rparr> s0
      in (st, if st \<noteq> Status.Ok then record_receive_failure st t else t))"
proof -
  define s0 where "s0 = stats_update (bytes_received_update (\<lambda>b. saturating_add b (of_nat (length frame)))) (count frames_received_update s)"
  define v where "v = \<lparr>eth_destination = dmac, eth_source = smac, ether_type = ty, eth_payload = Some p, eth_payload_length = length p\<rparr>"
  have dm: "is_mac dmac" using d readyD(3) [OF s] by (auto simp: BROADCAST_MAC_def MAC_ADDRESS_LENGTH_def)
  have len: "length frame = 14 + length p" using f dm m(1) by simp
  have "parse_ethernet (Some frame) (length frame) (Some zero_frame_view) = (Status.Ok, Some v)"
    using parse_ethernet_wire [OF dm m(1), of ty p "[]" zero_frame_view] ty p
    by (auto simp: f v_def dm m(1) ETHERNET_HEADER_SIZE_def ETHERNET_MTU_def ETHER_TYPE_IPV4_def ETHER_TYPE_ARP_def)
  moreover have "\<not> (\<not> mac_equal dmac (own_mac s0) \<and> \<not> mac_is_broadcast dmac)"
    using d dm readyD(3) [OF s] by (auto simp: mac_equal_eq mac_is_broadcast_def s0_def BROADCAST_MAC_def MAC_ADDRESS_LENGTH_def)
  moreover have "ETHER_TYPE_ARP \<noteq> ETHER_TYPE_IPV4" by (simp add: ETHER_TYPE_IPV4_def ETHER_TYPE_ARP_def)
  ultimately have "receive_frame (Some frame) (length frame) s =
     (let (st, t) = (if ty = ETHER_TYPE_ARP then handle_arp else handle_ipv4) v s0
      in (st, if st \<noteq> Status.Ok then record_receive_failure st t else t))"
    unfolding receive_frame_def Let_def s0_def [symmetric] using len ty m(2) by (auto simp: v_def)
  then show thesis
    using s by (intro that [of s0]) (simp_all add: v_def, simp_all add: s0_def same_net_def)
qed

lemma receive_ipv4:
  assumes s: "ready s" and m: "is_mac smac" "mac_is_valid_unicast smac"
    and h: "is_ipv4 (h_source h)" "ipv4_is_valid_unicast (h_source h)" "h_destination h = address (config s)" "h_ttl h \<noteq> 0"
    and b: "length body \<le> 1480" and c: "\<not> conflict (h_source h) smac s"
    and f: "frame = ethernet_header (own_mac s) smac ETHER_TYPE_IPV4 @ ipv4_header h (20 + length body) @ body"
  obtains s1 where "ready s1" "same_net s s1" "iface s1 = iface s" "map_option n_mac (find_neighbor s1 (h_source h)) = Some smac"
    "transmit_buffer s1 = transmit_buffer s"
    "last_ping_reply s1 = last_ping_reply s" "last_udp_datagram s1 = last_udp_datagram s" "last_tcp_segment s1 = last_tcp_segment s"
    "receive_frame (Some frame) (length frame) s =
      (let (st, t) = dispatch smac (ipv4_view h body) s1 in (st, if st \<noteq> Status.Ok then record_receive_failure st t else t))"
proof -
  let ?p = "ipv4_header h (20 + length body) @ body"
  have d: "is_ipv4 (h_destination h)" using h(3) readyD(5) [OF s] by simp
  have p: "length ?p = 20 + length body" using h(1) d by simp
  obtain s0 where s0: "ready s0" "same_net s s0" "s0 = s\<lparr>stats := stats s0\<rparr>"
    "receive_frame (Some frame) (length frame) s = (let (st, t) = handle_ipv4 \<lparr>eth_destination = own_mac s, eth_source = smac,
        ether_type = ETHER_TYPE_IPV4, eth_payload = Some ?p, eth_payload_length = length ?p\<rparr> s0
      in (st, if st \<noteq> Status.Ok then record_receive_failure st t else t))"
    using receive_ethernet [OF s disjI1 [OF refl] m, of ?p ETHER_TYPE_IPV4 frame] p b f
    by (auto simp: ETHER_TYPE_IPV4_def ETHER_TYPE_ARP_def)
  define s0' where "s0' = count ipv4_received_update s0"
  have c': "\<not> conflict (h_source h) smac s0'"
    using c same_net_own_mac [OF s0(2)] s0(2) by (simp add: s0'_def conflict_def same_net_def)
  have "ready s0'" using s0(1) by (simp add: s0'_def)
  from update_neighbor_ready [OF this h(1) m(1) h(2) m(2) c'] obtain s1 where
    s1: "update_neighbor (h_source h) smac s0' = (Status.Ok, s1)" "ready s1" "same_net s0' s1" "iface s1 = iface s0'"
    "map_option n_mac (find_neighbor s1 (h_source h)) = Some smac" "transmit_buffer s1 = transmit_buffer s0'"
    "last_ping_reply s1 = last_ping_reply s0'" "last_udp_datagram s1 = last_udp_datagram s0'" "last_tcp_segment s1 = last_tcp_segment s0'" .
  have "parse_ipv4 (Some ?p) (length ?p) (Some zero_ipv4_view) = (Status.Ok, Some (ipv4_view h body))"
    using parse_ipv4_wire [OF h(1) d h(4), of body "length ?p" "[]" zero_ipv4_view] p b
    by (simp add: IPV4_MIN_HEADER_SIZE_def ipv4_view_def)
  moreover have "address (config s0') = address (config s)" using s0(2) by (simp add: s0'_def same_net_def)
  ultimately have "handle_ipv4 \<lparr>eth_destination = own_mac s, eth_source = smac,
        ether_type = ETHER_TYPE_IPV4, eth_payload = Some ?p, eth_payload_length = length ?p\<rparr> s0 = dispatch smac (ipv4_view h body) s1"
    using s1(1) h d readyD(5) [OF s] s0(2)
    unfolding handle_ipv4_def dispatch_def Let_def s0'_def [symmetric] by (simp add: ipv4_view_def ipv4_equal_eq)
  with s0(4) have "receive_frame (Some frame) (length frame) s =
      (let (st, t) = dispatch smac (ipv4_view h body) s1 in (st, if st \<noteq> Status.Ok then record_receive_failure st t else t))" by simp
  moreover have "same_net s s1" using same_net_trans [OF s0(2)] s1(3) same_net_trans [of s0 s0' s1] by (simp add: s0'_def)
  moreover have "iface s0' = iface s" "transmit_buffer s0' = transmit_buffer s" "last_ping_reply s0' = last_ping_reply s"
    "last_udp_datagram s0' = last_udp_datagram s" "last_tcp_segment s0' = last_tcp_segment s"
    using arg_cong [OF s0(3), of iface] arg_cong [OF s0(3), of transmit_buffer] arg_cong [OF s0(3), of last_ping_reply]
      arg_cong [OF s0(3), of last_udp_datagram] arg_cong [OF s0(3), of last_tcp_segment] by (simp_all add: s0'_def)
  ultimately show thesis using s1 by (intro that [of s1]) simp_all
qed

section \<open>Sending\<close>

lemma resolve_ok:
  assumes "ready s" "resolve_destination dst s = (Status.Ok, m, s')"
  shows "s' = s" "is_mac (the m)"
proof -
  define hop where "hop = (if ipv4_on_same_network (address (config s)) dst (netmask (config s)) then dst else gateway (config s))"
  obtain e where e: "find_neighbor s hop = Some e" "m = Some (n_mac e)" "s' = s"
    using assms(2) unfolding resolve_destination_def Let_def hop_def [symmetric]
    by (auto split: if_splits option.splits prod.splits)
  then obtain i where "i < length (neighbors s)" "e = neighbors s ! i"
    by (auto simp: find_neighbor_def dest: find_index_Some_lessD)
  then have "neighbor_ok e" using assms(1) nth_mem by (fastforce simp: ready_def stack_inv_def)
  then show "s' = s" "is_mac (the m)" using e by (simp_all add: neighbor_ok_def)
qed

text \<open>A serialiser that puts \<open>body\<close> at the start of \<open>transmit_buffer + 34\<close>.\<close>

lemma build_body:
  assumes s: "ready s" and out: "serialize (Some (drop 34 (transmit_buffer s))) =
      (Status.Ok, Some (body @ drop (length body) (drop 34 (transmit_buffer s))), Some (length body))"
    and len: "length body \<le> 1480"
  obtains t where "build_at 34 serialize s = (Status.Ok, length body, t)" "ready t" "same_net s t" "iface t = iface s"
    "next_identification t = next_identification s" "same_table s t"
    "transmit_buffer t = take 34 (transmit_buffer s) @ body @ drop (34 + length body) (transmit_buffer s)"
proof -
  define t where "t = s\<lparr>transmit_buffer := take 34 (transmit_buffer s) @ body @ drop (34 + length body) (transmit_buffer s)\<rparr>"
  have net: "same_net s t" using readyD(1) [OF s] len by (simp add: t_def same_net_def)
  have "stack_inv t" using s
    by (intro same_net_inv [OF net]) (auto simp: ready_def stack_inv_def t_def table_inv_def own_mac_def)
  then have "ready t" using s net by (simp add: ready_def same_net_def)
  then show thesis using net out by (intro that [of t]) (simp_all add: build_at_def t_def add.commute)
qed

lemma ipv4_frame_cong:
  "same_net s t \<Longrightarrow> next_identification t = next_identification s \<Longrightarrow> ipv4_frame t dmac dst proto body = ipv4_frame s dmac dst proto body"
  using same_net_own_mac [of s t] by (simp add: ipv4_frame_def stack_header_def same_net_def)

lemma send_body_ok:
  assumes s: "ready s" and d: "is_mac dmac" "is_ipv4 dst" and len: "length body \<le> 1480"
    and t: "ready t" "same_net s t" "iface t = iface s" "next_identification t = next_identification s"
    "transmit_buffer t = take 34 (transmit_buffer s) @ body @ rest"
    and ok: "send_ipv4_in_place dmac dst proto (length body) t = (Status.Ok, u)"
  shows "transmits s u (ipv4_frame s dmac dst proto body)" "same_net s u" "same_table t u"
proof -
  have pre: "length (take 34 (transmit_buffer s)) = 34" using readyD(1) [OF s] by simp
  note r = send_ipv4_in_place_ok [OF t(1) d refl len t(5) pre ok]
  show "transmits s u (ipv4_frame s dmac dst proto body)"
    using r(1) transmits_cong [of t s u u] t(3) ipv4_frame_cong [OF t(2,4)] by simp
  show "same_net s u" using same_net_trans [OF t(2) r(2)] .
  show "same_table t u" using r(3) .
qed

lemma headers_34: "ETHERNET_HEADER_SIZE + IPV4_MIN_HEADER_SIZE = 34"
  by (simp add: ETHERNET_HEADER_SIZE_def IPV4_MIN_HEADER_SIZE_def)

lemma with_configured_ready: "ready s \<Longrightarrow> with_configured f (Some s) = (case f s of (st, s') \<Rightarrow> (st, Some s'))"
  by (simp add: with_configured_def with_stack_def readyD)

text \<open>The common part of \<open>send_udp\<close> and \<open>send_tcp\<close>: build the message, then send it.\<close>

definition send_built ::
  "MacAddress \<Rightarrow> IPv4Address \<Rightarrow> u8 \<Rightarrow> (u8 list option \<Rightarrow> Status \<times> u8 list option \<times> nat option) \<Rightarrow>
   ((u64 \<Rightarrow> u64) \<Rightarrow> NetworkStats \<Rightarrow> NetworkStats) \<Rightarrow> 'c NetworkStack \<Rightarrow> Status \<times> 'c NetworkStack" where
  "send_built dmac dst proto serialize field s =
     (case build_at 34 serialize s of (status, n, s) \<Rightarrow> if status \<noteq> Status.Ok then (status, s)
      else (case send_transport_packet dmac dst proto (Within 34) n s of
          (status, s) \<Rightarrow> (status, if status = Status.Ok then count field s else s)))"

lemma send_built_ok:
  assumes s: "ready s" and d: "is_mac dmac" "is_ipv4 dst" and ok: "send_built dmac dst proto serialize field s = (Status.Ok, s')"
    and out: "serialize (Some (drop 34 (transmit_buffer s))) =
      (Status.Ok, Some (body @ drop (length body) (drop 34 (transmit_buffer s))), Some (length body))"
    and len: "length body \<le> 1480"
  shows "transmits s s' (ipv4_frame s dmac dst proto body)" "same_net s s'" "same_table s s'"
proof -
  obtain t where
    b: "build_at 34 serialize s = (Status.Ok, length body, t)" and t: "ready t" "same_net s t" "iface t = iface s"
    "next_identification t = next_identification s"
    "transmit_buffer t = take 34 (transmit_buffer s) @ body @ drop (34 + length body) (transmit_buffer s)"
    and nb: "same_table s t"
    by (rule build_body [where serialize = serialize and body = body, OF s out len])
  obtain u where u: "send_ipv4_in_place dmac dst proto (length body) t = (Status.Ok, u)"
    and s': "s' = count field (count ipv4_transmitted_update u)"
    using ok unfolding send_built_def b by (auto simp: send_transport_packet_def headers_34 split: prod.splits if_splits)
  note r = send_body_ok [OF s d len t u]
  show "transmits s s' (ipv4_frame s dmac dst proto body)" using transmits_from [OF r(1)] by (simp add: s')
  show "same_net s s'" using r(2) by (simp add: s' same_net_def)
  show "same_table s s'" using r(3) nb by (simp add: s')
qed

lemma send_built_status:
  "send_built dmac dst proto serialize field s = (Status.Ok, s') \<Longrightarrow> fst (serialize (Some (drop 34 (transmit_buffer s)))) = Status.Ok"
  by (auto simp: send_built_def build_at_def split: prod.splits if_splits)

lemma send_udp_ok:
  assumes s: "ready s" and dst: "is_ipv4 dst" and ok: "send_udp (Some s) dst sp dp (Some (d @ r)) (length d) = (Status.Ok, Some s')"
    and res: "resolve_destination dst s = (Status.Ok, Some dmac, s)"
  shows "transmits s s' (ipv4_frame s dmac dst IPV4_PROTOCOL_UDP (udp_bytes (address (config s)) dst sp dp d))"
    "length d \<le> UDP_MAX_PAYLOAD" "sp \<noteq> 0" "dp \<noteq> 0" "same_net s s'" "same_table s s'"
proof -
  let ?ser = "\<lambda>out. serialize_udp (address (config s)) dst sp dp (Some (d @ r)) (length d) out (ETHERNET_MAX_FRAME_SIZE - 34) (Some 0)"
  let ?body = "udp_bytes (address (config s)) dst sp dp d"
  have ports: "sp \<noteq> 0" "dp \<noteq> 0" and ok1: "send_built dmac dst IPV4_PROTOCOL_UDP ?ser udp_transmitted_update s = (Status.Ok, s')"
    using ok unfolding send_udp_def with_configured_ready [OF s] headers_34 send_built_def
    by (auto simp: res split: if_splits prod.splits)
  have small: "length d \<le> UDP_MAX_PAYLOAD"
    using send_built_status [OF ok1] ports by (auto simp: serialize_udp_def valid_port_def Let_def split: if_splits)
  have len: "length ?body \<le> 1480" using small by (simp add: transport_sizes)
  have "length (drop 34 (transmit_buffer s)) = 1480" using readyD(1) [OF s] by simp
  then have out: "?ser (Some (drop 34 (transmit_buffer s))) =
      (Status.Ok, Some (?body @ drop (length ?body) (drop 34 (transmit_buffer s))), Some (length ?body))"
    using serialize_udp_eq [OF readyD(5) [OF s] dst ports small, of "ETHERNET_MAX_FRAME_SIZE - 34" "drop 34 (transmit_buffer s)" r 0] small
    by (simp add: transport_sizes)
  have dm: "is_mac dmac" using resolve_ok(2) [OF s res] by simp
  show "transmits s s' (ipv4_frame s dmac dst IPV4_PROTOCOL_UDP ?body)" "same_net s s'" "same_table s s'"
    by (rule send_built_ok [OF s dm dst ok1 out len])+
  show "sp \<noteq> 0" "dp \<noteq> 0" "length d \<le> UDP_MAX_PAYLOAD" using ports small .
qed

lemma send_tcp_ok:
  assumes s: "ready s" and dst: "is_ipv4 dst"
    and ok: "send_tcp (Some s) dst sp dp q a f w (Some (d @ r)) (length d) = (Status.Ok, Some s')"
    and res: "resolve_destination dst s = (Status.Ok, Some dmac, s)"
  shows "transmits s s' (ipv4_frame s dmac dst IPV4_PROTOCOL_TCP (tcp_bytes (address (config s)) dst sp dp q a f w d))"
    "length d \<le> TCP_MAX_PAYLOAD" "sp \<noteq> 0" "dp \<noteq> 0" "same_net s s'" "same_table s s'"
proof -
  let ?ser = "\<lambda>out. serialize_tcp (address (config s)) dst sp dp q a f w (Some (d @ r)) (length d) out (ETHERNET_MAX_FRAME_SIZE - 34) (Some 0)"
  let ?body = "tcp_bytes (address (config s)) dst sp dp q a f w d"
  have ports: "sp \<noteq> 0" "dp \<noteq> 0" and ok1: "send_built dmac dst IPV4_PROTOCOL_TCP ?ser tcp_transmitted_update s = (Status.Ok, s')"
    using ok unfolding send_tcp_def with_configured_ready [OF s] headers_34 send_built_def
    by (auto simp: res split: if_splits prod.splits)
  have small: "length d \<le> TCP_MAX_PAYLOAD"
    using send_built_status [OF ok1] ports by (auto simp: serialize_tcp_def valid_port_def Let_def split: if_splits)
  have len: "length ?body \<le> 1480" using small by (simp add: transport_sizes)
  have "length (drop 34 (transmit_buffer s)) = 1480" using readyD(1) [OF s] by simp
  then have out: "?ser (Some (drop 34 (transmit_buffer s))) =
      (Status.Ok, Some (?body @ drop (length ?body) (drop 34 (transmit_buffer s))), Some (length ?body))"
    using serialize_tcp_eq [OF readyD(5) [OF s] dst ports small, of "ETHERNET_MAX_FRAME_SIZE - 34" "drop 34 (transmit_buffer s)" q a f w r 0] small
    by (simp add: transport_sizes)
  have dm: "is_mac dmac" using resolve_ok(2) [OF s res] by simp
  show "transmits s s' (ipv4_frame s dmac dst IPV4_PROTOCOL_TCP ?body)" "same_net s s'" "same_table s s'"
    by (rule send_built_ok [OF s dm dst ok1 out len])+
  show "sp \<noteq> 0" "dp \<noteq> 0" "length d \<le> TCP_MAX_PAYLOAD" using ports small .
qed

lemma send_icmp_ok:
  assumes s: "ready s" and d: "is_mac dmac" "is_ipv4 dst" and t: "t = IcmpEchoType_Request \<or> t = IcmpEchoType_Reply"
    and ok: "send_icmp dmac dst t i q (Some (d @ r)) (length d) s = (Status.Ok, s')"
  shows "transmits s s' (ipv4_frame s dmac dst IPV4_PROTOCOL_ICMP (icmp_bytes t i q d))" "length d \<le> ICMP_ECHO_MAX_PAYLOAD"
    "same_net s s'" "same_table s s'"
proof -
  let ?ser = "\<lambda>out. serialize_icmp_echo t i q (External (Some (d @ r))) (length d) out (ETHERNET_MAX_FRAME_SIZE - 34) (Some 0)"
  let ?body = "icmp_bytes t i q d"
  show small: "length d \<le> ICMP_ECHO_MAX_PAYLOAD" using ok by (auto simp: send_icmp_def split: if_splits)
  have len: "length ?body \<le> 1480" using small by (simp add: ICMP_ECHO_MAX_PAYLOAD_def net_sizes)
  have "length (drop 34 (transmit_buffer s)) = 1480" using readyD(1) [OF s] by simp
  then have out: "?ser (Some (drop 34 (transmit_buffer s))) =
      (Status.Ok, Some (?body @ drop (length ?body) (drop 34 (transmit_buffer s))), Some (length ?body))"
    using serialize_icmp_echo_eq [OF t, of "External (Some (d @ r))" "length d" "ETHERNET_MAX_FRAME_SIZE - 34" "drop 34 (transmit_buffer s)" i q 0] small
    by (simp add: net_sizes ICMP_ECHO_MAX_PAYLOAD_def payload_ok_def source_bytes_def)
  obtain u where
    b: "build_at 34 ?ser s = (Status.Ok, length ?body, u)" and u: "ready u" "same_net s u" "iface u = iface s"
    "next_identification u = next_identification s"
    "transmit_buffer u = take 34 (transmit_buffer s) @ ?body @ drop (34 + length ?body) (transmit_buffer s)"
    and nb: "same_table s u"
    by (rule build_body [where serialize = ?ser and body = ?body, OF s out len])
  obtain v where v: "send_ipv4_in_place dmac dst IPV4_PROTOCOL_ICMP (length ?body) u = (Status.Ok, v)"
    and s': "s' = (if t = IcmpEchoType_Request then count echo_requests_sent_update else count echo_replies_sent_update)
      (count icmp_transmitted_update (count ipv4_transmitted_update v))"
    using ok small unfolding send_icmp_def headers_34 Let_def b by (auto split: prod.splits if_splits)
  have same: "iface s' = iface v" "same_net v s'" "same_table v s'" by (simp_all add: s' same_net_def)
  note r = send_body_ok [OF s d len u v]
  show "transmits s s' (ipv4_frame s dmac dst IPV4_PROTOCOL_ICMP ?body)" using transmits_from [OF r(1) refl same(1)] .
  show "same_net s s'" using same_net_trans [OF r(2) same(2)] .
  show "same_table s s'" using r(3) nb same(3) by simp
qed

text \<open>ARP.\<close>

definition arp_ok :: "ArpPacket \<Rightarrow> bool" where
  "arp_ok a \<longleftrightarrow> is_mac (sender_mac a) \<and> is_mac (target_mac a) \<and> is_ipv4 (sender_ip a) \<and> is_ipv4 (target_ip a) \<and>
     (operation a = ArpOperation_Request \<or> operation a = ArpOperation_Reply)"

definition arp_frame :: "'c NetworkStack \<Rightarrow> MacAddress \<Rightarrow> ArpPacket \<Rightarrow> u8 list" where
  "arp_frame s dmac a = ethernet_header dmac (own_mac s) ETHER_TYPE_ARP @ arp_bytes a"

lemma send_arp_packet_eq:
  assumes s: "ready s" and d: "is_mac dmac" and a: "arp_ok a"
  shows "send_arp_packet dmac a s = (case transmit_stack_frame 42 (s\<lparr>transmit_buffer := arp_frame s dmac a @ drop 42 (transmit_buffer s)\<rparr>) of
     (status, s) \<Rightarrow> (status, if status = Status.Ok then count arp_transmitted_update s else s))"
proof -
  let ?b = "drop 14 (transmit_buffer s)"
  let ?t = "s\<lparr>transmit_buffer := take 14 (transmit_buffer s) @ arp_bytes a @ drop 42 (transmit_buffer s)\<rparr>"
  have la: "length (arp_bytes a) = 28" using a by (simp add: arp_ok_def)
  have "serialize_arp a (Some ?b) ETHERNET_MTU (Some 0) = (Status.Ok, Some (arp_bytes a @ drop 28 ?b), Some 28)"
    using a readyD(1) [OF s] by (intro serialize_arp_eq) (simp_all add: arp_ok_def ETHERNET_MTU_def)
  then have b1: "build_at ETHERNET_HEADER_SIZE (\<lambda>out. serialize_arp a out ETHERNET_MTU (Some 0)) s = (Status.Ok, 28, ?t)"
    by (simp add: build_at_def ETHERNET_HEADER_SIZE_def)
  have b2: "build_at 0 (\<lambda>out. serialize_ethernet dmac (own_mac s) ETHER_TYPE_ARP (Within ETHERNET_HEADER_SIZE) 28 out ETHERNET_MAX_FRAME_SIZE (Some 0)) ?t =
      (Status.Ok, 14 + 28, ?t\<lparr>transmit_buffer := ethernet_header dmac (own_mac s) ETHER_TYPE_ARP @ arp_bytes a @ drop 42 (transmit_buffer s)\<rparr>)"
    using build_ethernet [OF s d, of ETHER_TYPE_ARP "arp_bytes a" 28 ?t "take 14 (transmit_buffer s)" "drop 42 (transmit_buffer s)"]
      la readyD(1) [OF s] by (simp add: ETHER_TYPE_ARP_def)
  have "own_mac ?t = own_mac s" by (simp add: own_mac_def)
  then show ?thesis
    unfolding send_arp_packet_def b1 using b2 by (simp add: arp_frame_def)
qed

lemma send_arp_packet_ok:
  assumes s: "ready s" and d: "is_mac dmac" and a: "arp_ok a" and ok: "send_arp_packet dmac a s = (Status.Ok, s')"
  shows "transmits s s' (arp_frame s dmac a)" "same_net s s'" "same_table s s'"
proof -
  let ?t = "s\<lparr>transmit_buffer := arp_frame s dmac a @ drop 42 (transmit_buffer s)\<rparr>"
  have len: "length (arp_frame s dmac a) = 42" using a d readyD(3) [OF s] by (simp add: arp_frame_def arp_ok_def)
  obtain u where u: "transmit_stack_frame 42 ?t = (Status.Ok, u)" and s': "s' = count arp_transmitted_update u"
    using ok unfolding send_arp_packet_eq [OF s d a] by (auto split: prod.splits if_splits)
  have "42 \<le> length (transmit_buffer ?t)" using len by simp
  note t = transmit_stack_frame_ok [OF u this]
  show "transmits s s' (arp_frame s dmac a)" using t(1) len transmits_cong [of ?t s u s'] by (simp add: s')
  have "same_net s ?t" using len readyD(1) [OF s] by (simp add: same_net_def)
  then show "same_net s s'" using t(2) by (auto simp: s' intro: same_net_trans [OF same_net_trans])
  show "same_table s s'" using t(3) by (simp add: s')
qed

section \<open>Sending succeeds\<close>

text \<open>
  \<open>driver_accepts s\<close>: the driver accepts the next frame, whatever its bytes, when it fits the interface's MTU.
\<close>

definition driver_accepts :: "'c NetworkStack \<Rightarrow> bool" where
  "driver_accepts s \<longleftrightarrow> (\<forall>i tr b n. iface s = Some i \<longrightarrow> if_transmit i = Some tr \<longrightarrow> length b = ETHERNET_MAX_FRAME_SIZE \<longrightarrow>
     0 < n \<longrightarrow> n \<le> mtu i + ETHERNET_HEADER_SIZE \<longrightarrow> fst (tr (if_context i) (Some b) n) = Status.Ok)"

abbreviation stack_mtu :: "'c NetworkStack \<Rightarrow> nat" where
  "stack_mtu s \<equiv> mtu (the (iface s))"

lemma transmit_succeeds:
  assumes "ready s" "driver_accepts s" "0 < n" "n \<le> stack_mtu s + 14"
  obtains s' where "transmit_stack_frame n s = (Status.Ok, s')"
proof -
  obtain i tr where i: "iface s = Some i" "if_transmit i = Some tr" "mtu i \<noteq> 0" "mtu i \<le> ETHERNET_MTU"
    using assms(1) by (auto simp: ready_def stack_inv_def)
  have "length (transmit_buffer s) = ETHERNET_MAX_FRAME_SIZE" using assms(1) by (simp add: ready_def stack_inv_def)
  then have "fst (tr (if_context i) (Some (transmit_buffer s)) n) = Status.Ok"
    using assms(2-4) i by (simp add: driver_accepts_def ETHERNET_HEADER_SIZE_def)
  with i assms(3,4) show thesis
    by (cases "tr (if_context i) (Some (transmit_buffer s)) n")
      (auto intro!: that simp: transmit_stack_frame_def interface_transmit_def Let_def ETHERNET_HEADER_SIZE_def)
qed

lemma driver_accepts_cong: "iface t = iface s \<Longrightarrow> driver_accepts t = driver_accepts s"
  by (simp add: driver_accepts_def)

lemma send_ipv4_in_place_succeeds:
  assumes s: "ready s" and d: "is_mac dmac" "is_ipv4 dst" and n: "length body = n" "n \<le> 1480"
    and buf: "transmit_buffer s = pre @ body @ rest" "length pre = 34"
    and drv: "driver_accepts s" "20 + n \<le> stack_mtu s"
  obtains s' where "send_ipv4_in_place dmac dst proto n s = (Status.Ok, s')"
proof -
  let ?t = "s\<lparr>next_identification := next_identification s + 1, transmit_buffer := ipv4_frame s dmac dst proto body @ rest\<rparr>"
  have "length (ipv4_frame s dmac dst proto body) = 34 + n" using length_ipv4_frame [OF s d] n by simp
  then have net: "same_net s ?t" using n readyD(1) [OF s] buf by (simp add: same_net_def)
  have "ready ?t" by (rule ready_same [OF s net]) simp
  then show thesis
    using transmit_succeeds [of ?t "34 + n"] drv driver_accepts_cong [of ?t s] send_ipv4_in_place_eq [OF s d n buf, of proto] that by auto
qed

lemma send_built_succeeds:
  assumes s: "ready s" and d: "is_mac dmac" "is_ipv4 dst"
    and out: "serialize (Some (drop 34 (transmit_buffer s))) =
      (Status.Ok, Some (body @ drop (length body) (drop 34 (transmit_buffer s))), Some (length body))"
    and drv: "driver_accepts s" "20 + length body \<le> stack_mtu s"
  obtains s' where "send_built dmac dst proto serialize field s = (Status.Ok, s')"
proof -
  have len: "length body \<le> 1480" using drv(2) s by (auto simp: ready_def stack_inv_def ETHERNET_MTU_def)
  obtain t where
    b: "build_at 34 serialize s = (Status.Ok, length body, t)" and t: "ready t" "same_net s t" "iface t = iface s"
    "transmit_buffer t = take 34 (transmit_buffer s) @ body @ drop (34 + length body) (transmit_buffer s)"
    by (rule build_body [where serialize = serialize and body = body, OF s out len]) blast
  have pre: "length (take 34 (transmit_buffer s)) = 34" using readyD(1) [OF s] by simp
  obtain u where "send_ipv4_in_place dmac dst proto (length body) t = (Status.Ok, u)"
    using send_ipv4_in_place_succeeds [OF t(1) d refl len t(4) pre] drv t(3) driver_accepts_cong [of t s] by metis
  then show thesis by (intro that) (simp add: send_built_def b send_transport_packet_def headers_34)
qed

lemma send_udp_eq:
  assumes "ready s" "ipv4_is_valid_unicast dst" "resolve_destination dst s = (Status.Ok, Some dmac, s)" "sp \<noteq> 0" "dp \<noteq> 0"
  shows "send_udp (Some s) dst sp dp (Some p) n = (case send_built dmac dst IPV4_PROTOCOL_UDP
    (\<lambda>out. serialize_udp (address (config s)) dst sp dp (Some p) n out (ETHERNET_MAX_FRAME_SIZE - 34) (Some 0))
    udp_transmitted_update s of (st, s') \<Rightarrow> (st, Some s'))"
  using assms by (simp add: send_udp_def with_configured_ready headers_34 send_built_def Let_def split: prod.splits)

lemma send_udp_succeeds:
  assumes s: "ready s" and dst: "is_ipv4 dst" "ipv4_is_valid_unicast dst" and res: "resolve_destination dst s = (Status.Ok, Some dmac, s)"
    and ports: "sp \<noteq> 0" "dp \<noteq> 0" and drv: "driver_accepts s" "28 + length d \<le> stack_mtu s"
  obtains s' where "send_udp (Some s) dst sp dp (Some (d @ r)) (length d) = (Status.Ok, Some s')"
proof -
  let ?ser = "\<lambda>out. serialize_udp (address (config s)) dst sp dp (Some (d @ r)) (length d) out (ETHERNET_MAX_FRAME_SIZE - 34) (Some 0)"
  let ?body = "udp_bytes (address (config s)) dst sp dp d"
  have small: "length d \<le> UDP_MAX_PAYLOAD" using drv(2) s by (auto simp: ready_def stack_inv_def transport_sizes)
  have "length (drop 34 (transmit_buffer s)) = 1480" using readyD(1) [OF s] by simp
  then have out: "?ser (Some (drop 34 (transmit_buffer s))) =
      (Status.Ok, Some (?body @ drop (length ?body) (drop 34 (transmit_buffer s))), Some (length ?body))"
    using serialize_udp_eq [OF readyD(5) [OF s] dst(1) ports small, of "ETHERNET_MAX_FRAME_SIZE - 34" "drop 34 (transmit_buffer s)" r 0] small
    by (simp add: transport_sizes)
  have dm: "is_mac dmac" using resolve_ok(2) [OF s res] by simp
  obtain s' where "send_built dmac dst IPV4_PROTOCOL_UDP ?ser udp_transmitted_update s = (Status.Ok, s')"
    by (rule send_built_succeeds [where serialize = ?ser and body = ?body, OF s dm dst(1) out drv(1)]) (use drv(2) in simp)
  then show thesis by (intro that) (simp add: send_udp_eq [OF s dst(2) res ports])
qed

lemma send_tcp_eq:
  assumes "ready s" "ipv4_is_valid_unicast dst" "resolve_destination dst s = (Status.Ok, Some dmac, s)" "sp \<noteq> 0" "dp \<noteq> 0"
  shows "send_tcp (Some s) dst sp dp q a f w (Some p) n = (case send_built dmac dst IPV4_PROTOCOL_TCP
    (\<lambda>out. serialize_tcp (address (config s)) dst sp dp q a f w (Some p) n out (ETHERNET_MAX_FRAME_SIZE - 34) (Some 0))
    tcp_transmitted_update s of (st, s') \<Rightarrow> (st, Some s'))"
  using assms by (simp add: send_tcp_def with_configured_ready headers_34 send_built_def Let_def split: prod.splits)

lemma send_tcp_succeeds:
  assumes s: "ready s" and dst: "is_ipv4 dst" "ipv4_is_valid_unicast dst" and res: "resolve_destination dst s = (Status.Ok, Some dmac, s)"
    and ports: "sp \<noteq> 0" "dp \<noteq> 0" and drv: "driver_accepts s" "40 + length d \<le> stack_mtu s"
  obtains s' where "send_tcp (Some s) dst sp dp q a f w (Some (d @ r)) (length d) = (Status.Ok, Some s')"
proof -
  let ?ser = "\<lambda>out. serialize_tcp (address (config s)) dst sp dp q a f w (Some (d @ r)) (length d) out (ETHERNET_MAX_FRAME_SIZE - 34) (Some 0)"
  let ?body = "tcp_bytes (address (config s)) dst sp dp q a f w d"
  have small: "length d \<le> TCP_MAX_PAYLOAD" using drv(2) s by (auto simp: ready_def stack_inv_def transport_sizes)
  have "length (drop 34 (transmit_buffer s)) = 1480" using readyD(1) [OF s] by simp
  then have out: "?ser (Some (drop 34 (transmit_buffer s))) =
      (Status.Ok, Some (?body @ drop (length ?body) (drop 34 (transmit_buffer s))), Some (length ?body))"
    using serialize_tcp_eq [OF readyD(5) [OF s] dst(1) ports small, of "ETHERNET_MAX_FRAME_SIZE - 34" "drop 34 (transmit_buffer s)" q a f w r 0] small
    by (simp add: transport_sizes)
  have dm: "is_mac dmac" using resolve_ok(2) [OF s res] by simp
  obtain s' where "send_built dmac dst IPV4_PROTOCOL_TCP ?ser tcp_transmitted_update s = (Status.Ok, s')"
    by (rule send_built_succeeds [where serialize = ?ser and body = ?body, OF s dm dst(1) out drv(1)]) (use drv(2) in simp)
  then show thesis by (intro that) (simp add: send_tcp_eq [OF s dst(2) res ports])
qed

lemma send_icmp_succeeds:
  assumes s: "ready s" and d: "is_mac dmac" "is_ipv4 dst" and t: "t = IcmpEchoType_Request \<or> t = IcmpEchoType_Reply"
    and drv: "driver_accepts s" "28 + length d \<le> stack_mtu s"
  obtains s' where "send_icmp dmac dst t i q (Some (d @ r)) (length d) s = (Status.Ok, s')"
proof -
  let ?ser = "\<lambda>out. serialize_icmp_echo t i q (External (Some (d @ r))) (length d) out (ETHERNET_MAX_FRAME_SIZE - 34) (Some 0)"
  let ?body = "icmp_bytes t i q d"
  have small: "length d \<le> ICMP_ECHO_MAX_PAYLOAD"
    using drv(2) s by (auto simp: ready_def stack_inv_def net_sizes ICMP_ECHO_MAX_PAYLOAD_def)
  then have len: "length ?body \<le> 1480" by (simp add: net_sizes ICMP_ECHO_MAX_PAYLOAD_def)
  have "length (drop 34 (transmit_buffer s)) = 1480" using readyD(1) [OF s] by simp
  then have out: "?ser (Some (drop 34 (transmit_buffer s))) =
      (Status.Ok, Some (?body @ drop (length ?body) (drop 34 (transmit_buffer s))), Some (length ?body))"
    using serialize_icmp_echo_eq [OF t, of "External (Some (d @ r))" "length d" "ETHERNET_MAX_FRAME_SIZE - 34" "drop 34 (transmit_buffer s)" i q 0] small
    by (simp add: net_sizes ICMP_ECHO_MAX_PAYLOAD_def payload_ok_def source_bytes_def)
  obtain u where
    b: "build_at 34 ?ser s = (Status.Ok, length ?body, u)" and u: "ready u" "same_net s u" "iface u = iface s"
    "transmit_buffer u = take 34 (transmit_buffer s) @ ?body @ drop (34 + length ?body) (transmit_buffer s)"
    by (rule build_body [where serialize = ?ser and body = ?body, OF s out len]) blast
  have pre: "length (take 34 (transmit_buffer s)) = 34" using readyD(1) [OF s] by simp
  have "driver_accepts u" "20 + length ?body \<le> stack_mtu u" using drv u(3) driver_accepts_cong [of u s] by simp_all
  then obtain v where "send_ipv4_in_place dmac dst IPV4_PROTOCOL_ICMP (length ?body) u = (Status.Ok, v)"
    by (rule send_ipv4_in_place_succeeds [OF u(1) d refl len u(4) pre])
  then show thesis using small by (intro that, unfold send_icmp_def headers_34 Let_def b) simp
qed

lemma send_arp_packet_succeeds:
  assumes s: "ready s" and d: "is_mac dmac" and a: "arp_ok a" and drv: "driver_accepts s"
  obtains s' where "send_arp_packet dmac a s = (Status.Ok, s')"
proof -
  let ?t = "s\<lparr>transmit_buffer := arp_frame s dmac a @ drop 42 (transmit_buffer s)\<rparr>"
  have "length (arp_frame s dmac a) = 42" using a d readyD(3) [OF s] by (simp add: arp_frame_def arp_ok_def)
  then have net: "same_net s ?t" using readyD(1) [OF s] by (simp add: same_net_def)
  have "ready ?t" by (rule ready_same [OF s net]) simp
  moreover have "driver_accepts ?t" using drv driver_accepts_cong [of ?t s] by simp
  moreover have "42 \<le> stack_mtu ?t + 14" using s by (auto simp: ready_def stack_inv_def)
  ultimately obtain u where "transmit_stack_frame 42 ?t = (Status.Ok, u)" using transmit_succeeds [of ?t 42] by auto
  then show thesis by (intro that) (simp add: send_arp_packet_eq [OF s d a])
qed

section \<open>Messages between stacks\<close>

text \<open>
  \<open>accepts B A\<close>: stack \<open>B\<close> does not see \<open>A\<close> as a host that uses its own address with another hardware
  address, which it would refuse.
\<close>

definition accepts :: "'d NetworkStack \<Rightarrow> 'c NetworkStack \<Rightarrow> bool" where
  "accepts B A \<longleftrightarrow> address (config A) = address (config B) \<longrightarrow> own_mac A = own_mac B"

lemma receive_stack_frame:
  assumes A: "ready A" and B: "ready B" and c: "accepts B A" and b: "length body \<le> 1480"
  obtains B1 where "ready B1" "same_net B B1" "iface B1 = iface B" "map_option n_mac (find_neighbor B1 (address (config A))) = Some (own_mac A)"
    "transmit_buffer B1 = transmit_buffer B"
    "last_ping_reply B1 = last_ping_reply B" "last_udp_datagram B1 = last_udp_datagram B" "last_tcp_segment B1 = last_tcp_segment B"
    "receive (Some B) (Some (ipv4_frame A (own_mac B) (address (config B)) proto body))
       (length (ipv4_frame A (own_mac B) (address (config B)) proto body)) =
     (let (st, t) = dispatch (own_mac A) (ipv4_view (stack_header A (address (config B)) proto) body) B1
      in (st, Some (if st \<noteq> Status.Ok then record_receive_failure st t else t)))"
proof (rule receive_ipv4 [OF B, of "own_mac A" "stack_header A (address (config B)) proto" body
      "ipv4_frame A (own_mac B) (address (config B)) proto body"])
  show "is_mac (own_mac A)" "mac_is_valid_unicast (own_mac A)" using readyD [OF A] by simp_all
  show "is_ipv4 (h_source (stack_header A (address (config B)) proto))"
    "ipv4_is_valid_unicast (h_source (stack_header A (address (config B)) proto))"
    "h_destination (stack_header A (address (config B)) proto) = address (config B)"
    "h_ttl (stack_header A (address (config B)) proto) \<noteq> 0"
    using readyD [OF A] by (simp_all add: stack_header_def)
  show "length body \<le> 1480" by fact
  show "\<not> conflict (h_source (stack_header A (address (config B)) proto)) (own_mac A) B"
    using c by (simp add: conflict_def stack_header_def accepts_def)
  show "ipv4_frame A (own_mac B) (address (config B)) proto body = ethernet_header (own_mac B) (own_mac A) ETHER_TYPE_IPV4 @
      ipv4_header (stack_header A (address (config B)) proto) (20 + length body) @ body"
    by (simp add: ipv4_frame_def IPV4_MIN_HEADER_SIZE_def)
next
  fix s1
  assume "ready s1" "same_net B s1" "iface s1 = iface B"
    "map_option n_mac (find_neighbor s1 (h_source (stack_header A (address (config B)) proto))) = Some (own_mac A)"
    "transmit_buffer s1 = transmit_buffer B" "last_ping_reply s1 = last_ping_reply B"
    "last_udp_datagram s1 = last_udp_datagram B" "last_tcp_segment s1 = last_tcp_segment B"
    "receive_frame (Some (ipv4_frame A (own_mac B) (address (config B)) proto body))
      (length (ipv4_frame A (own_mac B) (address (config B)) proto body)) B =
     (let (st, t) = dispatch (own_mac A) (ipv4_view (stack_header A (address (config B)) proto) body) s1
      in (st, if st \<noteq> Status.Ok then record_receive_failure st t else t))"
  then show thesis
    by (intro that [of s1]) (simp_all add: stack_header_def receive_def with_configured_ready [OF B] Let_def split: prod.splits)
qed

lemma copy_to_inbox: "length d \<le> TRANSPORT_INBOX_CAPACITY \<Longrightarrow>
  copy_bytes 0 d (length d) (replicate TRANSPORT_INBOX_CAPACITY 0) = d @ replicate (TRANSPORT_INBOX_CAPACITY - length d) 0"
  using copy_bytes_append [of "[]" 0 "length d" d "replicate TRANSPORT_INBOX_CAPACITY 0"] by simp

text \<open>A stack receives the UDP and TCP messages another stack has built for it.\<close>

lemma udp_received:
  assumes A: "ready A" and B: "ready B" and c: "accepts B A" and ports: "sp \<noteq> 0" "dp \<noteq> 0" and d: "length d \<le> UDP_MAX_PAYLOAD"
    and f: "frame = ipv4_frame A (own_mac B) (address (config B)) IPV4_PROTOCOL_UDP (udp_bytes (address (config A)) (address (config B)) sp dp d)"
  obtains B' where "receive (Some B) (Some frame) (length frame) = (Status.Ok, Some B')" "initialized B'" "iface B' = iface B"
    "last_udp_datagram B' = \<lparr>ud_valid = True, ud_source = address (config A), ud_destination = address (config B), ud_source_port = sp,
       ud_destination_port = dp, ud_payload = d @ replicate (TRANSPORT_INBOX_CAPACITY - length d) 0, ud_payload_length = length d\<rparr>"
    "map_option n_mac (find_neighbor B' (address (config A))) = Some (own_mac A)"
proof -
  let ?b = "address (config B)"
  let ?body = "udp_bytes (address (config A)) ?b sp dp d"
  have len: "length ?body \<le> 1480" and inbox: "length d \<le> TRANSPORT_INBOX_CAPACITY"
    using d by (simp_all add: transport_sizes TRANSPORT_INBOX_CAPACITY_def)
  obtain B1 where B1: "ready B1" "iface B1 = iface B" "map_option n_mac (find_neighbor B1 (address (config A))) = Some (own_mac A)"
    and rx: "receive (Some B) (Some frame) (length frame) =
     (let (st, t) = dispatch (own_mac A) (ipv4_view (stack_header A ?b IPV4_PROTOCOL_UDP) ?body) B1
      in (st, Some (if st \<noteq> Status.Ok then record_receive_failure st t else t)))"
    unfolding f by (rule receive_stack_frame [OF A B c len, of IPV4_PROTOCOL_UDP]) blast
  let ?dg = "\<lparr>ud_valid = True, ud_source = address (config A), ud_destination = ?b, ud_source_port = sp, ud_destination_port = dp,
       ud_payload = d @ replicate (TRANSPORT_INBOX_CAPACITY - length d) 0, ud_payload_length = length d\<rparr>"
  let ?B' = "count udp_received_update (B1\<lparr>last_udp_datagram := ?dg\<rparr>)"
  have "parse_udp (address (config A)) ?b (Some ?body) (length ?body) (Some zero_udp_view) =
      (Status.Ok, Some \<lparr>udp_source_port = sp, udp_destination_port = dp, udp_payload = Some d, udp_payload_length = length d\<rparr>)"
    using parse_udp_wire [OF readyD(5) [OF A] readyD(5) [OF B] ports, of d "length ?body" "[]"] len by simp
  then have "dispatch (own_mac A) (ipv4_view (stack_header A ?b IPV4_PROTOCOL_UDP) ?body) B1 = (Status.Ok, ?B')"
    using inbox by (simp add: dispatch_def ipv4_view_def stack_header_def handle_udp_def copy_to_inbox)
  then have "receive (Some B) (Some frame) (length frame) = (Status.Ok, Some ?B')" using rx by simp
  then show thesis using B1 readyD(7) [OF B1(1)] by (intro that [of ?B']) (simp_all add: find_neighbor_def)
qed

lemma tcp_received:
  assumes A: "ready A" and B: "ready B" and c: "accepts B A" and ports: "sp \<noteq> 0" "dp \<noteq> 0" and d: "length d \<le> TCP_MAX_PAYLOAD"
    and f: "frame = ipv4_frame A (own_mac B) (address (config B)) IPV4_PROTOCOL_TCP (tcp_bytes (address (config A)) (address (config B)) sp dp q a fl w d)"
  obtains B' where "receive (Some B) (Some frame) (length frame) = (Status.Ok, Some B')" "initialized B'" "iface B' = iface B"
    "last_tcp_segment B' = \<lparr>ts_valid = True, ts_source = address (config A), ts_destination = address (config B), ts_source_port = sp,
       ts_destination_port = dp, ts_sequence = q, ts_acknowledgement = a, ts_flags = fl, ts_window = w,
       ts_payload = d @ replicate (TRANSPORT_INBOX_CAPACITY - length d) 0, ts_payload_length = length d\<rparr>"
    "map_option n_mac (find_neighbor B' (address (config A))) = Some (own_mac A)"
proof -
  let ?b = "address (config B)"
  let ?body = "tcp_bytes (address (config A)) ?b sp dp q a fl w d"
  have len: "length ?body \<le> 1480" and inbox: "length d \<le> TRANSPORT_INBOX_CAPACITY"
    using d by (simp_all add: transport_sizes TRANSPORT_INBOX_CAPACITY_def)
  obtain B1 where B1: "ready B1" "iface B1 = iface B" "map_option n_mac (find_neighbor B1 (address (config A))) = Some (own_mac A)"
    and rx: "receive (Some B) (Some frame) (length frame) =
     (let (st, t) = dispatch (own_mac A) (ipv4_view (stack_header A ?b IPV4_PROTOCOL_TCP) ?body) B1
      in (st, Some (if st \<noteq> Status.Ok then record_receive_failure st t else t)))"
    unfolding f by (rule receive_stack_frame [OF A B c len, of IPV4_PROTOCOL_TCP]) blast
  let ?dg = "\<lparr>ts_valid = True, ts_source = address (config A), ts_destination = ?b, ts_source_port = sp, ts_destination_port = dp,
       ts_sequence = q, ts_acknowledgement = a, ts_flags = fl, ts_window = w,
       ts_payload = d @ replicate (TRANSPORT_INBOX_CAPACITY - length d) 0, ts_payload_length = length d\<rparr>"
  let ?B' = "count tcp_received_update (B1\<lparr>last_tcp_segment := ?dg\<rparr>)"
  have "parse_tcp (address (config A)) ?b (Some ?body) (length ?body) (Some zero_tcp_view) =
      (Status.Ok, Some \<lparr>tcp_source_port = sp, tcp_destination_port = dp, tcp_sequence = q, tcp_acknowledgement = a,
       tcp_flags = fl, tcp_window = w, tcp_payload = Some d, tcp_payload_length = length d\<rparr>)"
    using parse_tcp_wire [OF readyD(5) [OF A] readyD(5) [OF B] ports, of d q a fl w "[]"] len by simp
  then have "dispatch (own_mac A) (ipv4_view (stack_header A ?b IPV4_PROTOCOL_TCP) ?body) B1 = (Status.Ok, ?B')"
    using inbox by (simp add: dispatch_def ipv4_view_def stack_header_def handle_tcp_def copy_to_inbox
        IPV4_PROTOCOL_TCP_def IPV4_PROTOCOL_UDP_def)
  then have "receive (Some B) (Some frame) (length frame) = (Status.Ok, Some ?B')" using rx by simp
  then show thesis using B1 readyD(7) [OF B1(1)] by (intro that [of ?B']) (simp_all add: find_neighbor_def)
qed

lemma dispatch_icmp:
  assumes "t = IcmpEchoType_Request \<or> t = IcmpEchoType_Reply"
  shows "dispatch smac (ipv4_view (stack_header S dst IPV4_PROTOCOL_ICMP) (icmp_bytes t i q d)) s =
    (if t = IcmpEchoType_Request
     then send_icmp smac (address (config S)) IcmpEchoType_Reply i q (Some d) (length d)
       (count echo_requests_received_update (count icmp_received_update s))
     else (Status.Ok, (count echo_replies_received_update (count icmp_received_update s))\<lparr>last_ping_reply := \<lparr>ping_valid = True,
       ping_source = address (config S), ping_identifier = i, ping_sequence = q, ping_payload_length = length d\<rparr>\<rparr>))"
  using parse_icmp_wire [OF assms, of i q d "[]" zero_echo_view]
  by (simp add: dispatch_def ipv4_view_def stack_header_def handle_icmp_def Let_def ICMP_ECHO_HEADER_SIZE_def
      IPV4_PROTOCOL_ICMP_def IPV4_PROTOCOL_TCP_def IPV4_PROTOCOL_UDP_def)

end
