(* ===== verification/Net_Writers.thy ===== *)
theory Net_Writers
  imports Net_Stack
begin

text \<open>
  The contract of the serialisers: they write only inside the capacity they are given and report a length
  inside it.  The serialisers of the headers promise more: on success they touch nothing beyond the
  length they report, and on failure nothing at all.
\<close>

type_synonym writer = "u8 list option \<Rightarrow> nat \<Rightarrow> nat option \<Rightarrow> Status \<times> u8 list option \<times> nat option"

locale bounded_writer =
  fixes write_to :: writer
  assumes within: "cap \<le> length b \<Longrightarrow> write_to (Some b) cap (Some l) = (status, out, n) \<Longrightarrow>
      \<exists>b' k. out = Some b' \<and> n = Some k \<and> length b' = length b \<and> drop cap b' = drop cap b \<and> (status = Status.Ok \<longrightarrow> k \<le> cap)"
begin

lemma build_keeps:
  assumes "cap + k \<le> length (transmit_buffer s)" "build_at k (\<lambda>out. write_to out cap (Some l)) s = (status, n, s')"
  shows "\<exists>b. s' = s\<lparr>transmit_buffer := b\<rparr> \<and> length b = length (transmit_buffer s)" "status = Status.Ok \<Longrightarrow> n \<le> cap"
proof -
  obtain out m where w: "write_to (Some (drop k (transmit_buffer s))) cap (Some l) = (status, out, m)"
    and n: "n = the m" and s': "s' = s\<lparr>transmit_buffer := take k (transmit_buffer s) @ the out\<rparr>"
    using assms(2) by (auto simp: build_at_def split: prod.splits)
  have "cap \<le> length (drop k (transmit_buffer s))" using assms(1) by simp
  from within [OF this w] obtain b' j where "out = Some b'" "m = Some j" "length b' = length (drop k (transmit_buffer s))"
    "status = Status.Ok \<longrightarrow> j \<le> cap" by blast
  then show "\<exists>b. s' = s\<lparr>transmit_buffer := b\<rparr> \<and> length b = length (transmit_buffer s)" "status = Status.Ok \<Longrightarrow> n \<le> cap"
    using assms(1) s' n by auto
qed

end

locale exact_writer =
  fixes write_to :: writer
  assumes exact: "write_to (Some b) cap (Some l) = (status, out, n) \<Longrightarrow>
      \<exists>b' k. out = Some b' \<and> n = Some k \<and> length b' = length b \<and>
        (if status = Status.Ok then k \<le> cap \<and> drop k b' = drop k b else b' = b)"

lemma bounded_of_exact:
  assumes "exact_writer w"
  shows "bounded_writer w"
proof
  fix cap b l status out n
  assume eq: "w (Some b) cap (Some l) = (status, out, n)"
  from exact_writer.exact [OF assms eq] obtain b' k where b: "out = Some b'" "n = Some k" "length b' = length b"
    "if status = Status.Ok then k \<le> cap \<and> drop k b' = drop k b else b' = b" by blast
  have "drop cap b' = drop cap b"
  proof (cases "status = Status.Ok")
    case True
    then have "drop (cap - k) (drop k b') = drop (cap - k) (drop k b)" "k \<le> cap" using b(4) by simp_all
    then show ?thesis by simp
  qed (use b(4) in simp)
  then show "\<exists>b' k. out = Some b' \<and> n = Some k \<and> length b' = length b \<and> drop cap b' = drop cap b \<and> (status = Status.Ok \<longrightarrow> k \<le> cap)"
    using b by auto
qed

sublocale exact_writer \<subseteq> bounded_writer write_to
  by (rule bounded_of_exact) unfold_locales

lemmas writer_simps = Let_def drop_writes net_sizes

interpretation ethernet_writer: exact_writer "serialize_ethernet d s t p n"
  by unfold_locales (auto simp: serialize_ethernet_def writer_simps split: if_splits)

interpretation arp_writer: exact_writer "serialize_arp a"
  by unfold_locales (auto simp: serialize_arp_def writer_simps split: if_splits)

interpretation ipv4_writer: exact_writer "serialize_ipv4 h p n"
  by unfold_locales (auto simp: serialize_ipv4_def writer_simps split: if_splits)

interpretation icmp_writer: exact_writer "serialize_icmp_echo t i q p n"
  by unfold_locales (auto simp: serialize_icmp_echo_def writer_simps split: if_splits)

interpretation udp_writer: exact_writer "serialize_udp src dst sp dp p n"
  by unfold_locales (auto simp: serialize_udp_def writer_simps transport_sizes split: if_splits)

interpretation tcp_writer: exact_writer "serialize_tcp src dst sp dp q a f w p n"
  by unfold_locales (auto simp: serialize_tcp_def writer_simps transport_sizes split: if_splits)

text \<open>The DHCP and DNS serialisers clear the buffer first, so they keep the weaker contract only.\<close>

lemma append_option_within:
  assumes "append_option b cap c t v n = (ok, b', c')"
  shows "length b' = length b" "drop cap b' = drop cap b"
  using assms by (auto simp: append_option_def Let_def drop_writes split: if_splits)

lemma append_options_within: "append_options b cap c os = (ok, b', c') \<Longrightarrow> length b' = length b \<and> drop cap b' = drop cap b"
proof (induction b cap c os rule: append_options.induct)
  case (2 b cap c t v rest)
  obtain ok1 b1 c1 where a: "append_option b cap c t v (length v) = (ok1, b1, c1)" by (metis prod_cases3)
  from append_option_within [OF a] 2 show ?case by (cases ok1) (simp_all add: a)
qed simp

lemma initialize_dhcp_within:
  assumes "initialize_dhcp_request x m (Some b) cap (Some l) = (st, out, c)"
  shows "\<exists>b'. out = Some b' \<and> length b' = length b \<and> drop cap b' = drop cap b"
  using assms by (auto simp: initialize_dhcp_request_def Let_def drop_writes DHCP_FIXED_SIZE_def net_sizes split: if_splits)

interpretation dhcp_writer: bounded_writer "serialize_dhcp os x m"
proof
  fix cap b l st out n
  assume eq: "serialize_dhcp os x m (Some b) cap (Some l) = (st, out, n)"
  obtain st1 out1 c1 where i: "initialize_dhcp_request x m (Some b) cap (Some 0) = (st1, out1, c1)" by (metis prod_cases3)
  from initialize_dhcp_within [OF i] obtain b1 where b1: "out1 = Some b1" "length b1 = length b" "drop cap b1 = drop cap b" by blast
  obtain ok b2 c2 where a: "append_options b1 cap (the c1) os = (ok, b2, c2)" by (metis prod_cases3)
  from append_options_within [OF a] b1 eq
  show "\<exists>b' k. out = Some b' \<and> n = Some k \<and> length b' = length b \<and> drop cap b' = drop cap b \<and> (st = Status.Ok \<longrightarrow> k \<le> cap)"
    by (auto simp: serialize_dhcp_def i a split: if_splits)
qed

lemma dns_labels_within: "dns_labels nm nl s c cap b = (ok, b', c') \<Longrightarrow> length b' = length b \<and> drop cap b' = drop cap b"
proof (induction nm nl s c cap b rule: dns_labels.induct)
  case (1 nm nl s c cap b)
  define n where "n = label_end nm nl s - s"
  show ?case
  proof (cases "s < nl \<and> \<not> (n = 0 \<or> n > 63 \<or> c + 1 + n > cap)")
    case True
    then have "s < nl" and small: "\<not> (n = 0 \<or> n > 63 \<or> c + 1 + n > cap)" by simp_all
    with "1.prems" have "dns_labels nm nl (label_end nm nl s + 1) (c + 1 + n) cap
        (copy_bytes (c + 1) (drop s nm) n (b[c := of_nat n])) = (ok, b', c')"
      by (subst (asm) dns_labels.simps) (simp only: Let_def if_True if_False n_def [symmetric])
    from "1.IH" [OF \<open>s < nl\<close> refl refl small [unfolded n_def] refl refl this [unfolded n_def], folded n_def] small
    show ?thesis by (simp add: drop_writes)
  next
    case False
    with "1.prems" show ?thesis
      by (subst (asm) dns_labels.simps) (auto simp only: Let_def n_def [symmetric] if_True if_False prod.inject split: if_splits)
  qed
qed

interpretation dns_writer: bounded_writer "serialize_dns_a_query x nm"
proof
  fix cap b l st out n
  assume eq: "serialize_dns_a_query x nm (Some b) cap (Some l) = (st, out, n)"
  let ?goal = "\<exists>b' k. out = Some b' \<and> n = Some k \<and> length b' = length b \<and> drop cap b' = drop cap b \<and> (st = Status.Ok \<longrightarrow> k \<le> cap)"
  show ?goal
  proof (cases "nm = None \<or> the nm ! 0 = 0 \<or> cap < 17")
    case True
    with eq show ?thesis by (auto simp: serialize_dns_a_query_def Let_def split: option.splits if_splits)
  next
    case False
    define b1 where "b1 = put16 4 1 (put16 2 0x0100 (put16 0 x (clear_bytes cap b)))"
    have b1: "length b1 = length b" "drop cap b1 = drop cap b" using False by (simp_all add: b1_def drop_writes)
    obtain name where nm: "nm = Some name" using False by auto
    have start: "name ! 0 \<noteq> 0" "\<not> cap < 17" using False nm by simp_all
    note eq1 = eq [unfolded serialize_dns_a_query_def nm Let_def b1_def [symmetric] prod.case option.case if_not_P [OF start(1)] if_not_P [OF start(2)]]
    show ?thesis
    proof (cases "dns_name_length name 0")
      case None
      with eq1 b1 show ?thesis by auto
    next
      case (Some k)
      obtain ok b2 c where a: "dns_labels name k 0 12 cap b1 = (ok, b2, c)" by (metis prod_cases3)
      from dns_labels_within [OF a] b1 eq1 show ?thesis
        by (cases ok) (auto simp: Some a drop_writes split: if_splits)
    qed
  qed
qed

end
