(* ===== verification/Net_Invariant.thy ===== *)
theory Net_Invariant
  imports Net_Delivery Net_Writers
begin

text \<open>
  Every operation of the network stack keeps the invariant of its state, whatever frames arrive: the
  buffers keep their sizes, the neighbour table keeps the stack's own entry and has no address twice.
\<close>

section \<open>Sending\<close>

abbreviation quiet :: "'c NetworkStack \<Rightarrow> 'c NetworkStack \<Rightarrow> bool" where
  "quiet s s' \<equiv> same_net s s' \<and> same_table s s'"

lemma quiet_trans: "quiet s t \<Longrightarrow> quiet t u \<Longrightarrow> quiet s u"
  using same_net_trans by auto

lemma quiet_buffer: "length b = length (transmit_buffer s) \<Longrightarrow> quiet s (s\<lparr>transmit_buffer := b\<rparr>)"
  by (simp add: same_net_def)

lemma transmit_quiet: "quiet s (snd (transmit_stack_frame n s))"
  using transmit_stack_frame_net by blast

text \<open>A state all of whose changes are quiet and whose buffer has its size.\<close>

definition keeps :: "'c NetworkStack \<Rightarrow> 'c NetworkStack \<Rightarrow> bool" where
  "keeps s s' \<longleftrightarrow> quiet s s' \<and> length (transmit_buffer s) = 1514"

lemma keeps_refl: "ready s \<Longrightarrow> keeps s s"
  using readyD(1) [of s] by (simp add: keeps_def)

lemma keeps_ready: "ready s \<Longrightarrow> keeps s s' \<Longrightarrow> ready s'"
  unfolding keeps_def using ready_same by blast

lemma keeps_step: "keeps s t \<Longrightarrow> quiet t u \<Longrightarrow> keeps s u"
  unfolding keeps_def using quiet_trans by blast

lemma keeps_buffer: "keeps s t \<Longrightarrow> length (transmit_buffer t) = 1514"
  by (simp add: keeps_def same_net_def)

lemma keeps_stats [simp]: "keeps s (stats_update f t) = keeps s t"
  by (simp add: keeps_def same_net_def)

lemma keeps_inboxes [simp]: "keeps s (t\<lparr>last_udp_datagram := u\<rparr>) = keeps s t" "keeps s (t\<lparr>last_tcp_segment := v\<rparr>) = keeps s t"
  "keeps s (t\<lparr>last_ping_reply := w\<rparr>) = keeps s t" "keeps s (t\<lparr>next_identification := i\<rparr>) = keeps s t"
  by (simp_all add: keeps_def same_net_def)

lemma keeps_transmit: "keeps s t \<Longrightarrow> transmit_stack_frame n t = (st, u) \<Longrightarrow> keeps s u"
  using keeps_step [OF _ transmit_quiet] by (metis snd_conv)

lemma keeps_transmit_snd: "keeps s t \<Longrightarrow> keeps s (snd (transmit_stack_frame n t))"
  using keeps_transmit [of s t n] by (metis prod.collapse)

context bounded_writer
begin

lemma keeps_build:
  assumes "keeps s t" "cap + k \<le> 1514" "build_at k (\<lambda>out. write_to out cap (Some l)) t = (st, n, u)"
  shows "keeps s u"
proof -
  have "\<exists>b. u = t\<lparr>transmit_buffer := b\<rparr> \<and> length b = length (transmit_buffer t)"
    using build_keeps(1) [OF _ assms(3)] assms(2) keeps_buffer [OF assms(1)] by simp
  then show ?thesis using keeps_step [OF assms(1)] quiet_buffer by blast
qed

end

lemmas keeps_writes = arp_writer.keeps_build ethernet_writer.keeps_build ipv4_writer.keeps_build icmp_writer.keeps_build
  udp_writer.keeps_build tcp_writer.keeps_build

lemma send_arp_packet_keeps:
  assumes s: "keeps r s"
  shows "keeps r (snd (send_arp_packet m a s))"
proof -
  obtain st1 n1 s1 where b1: "build_at ETHERNET_HEADER_SIZE (\<lambda>out. serialize_arp a out ETHERNET_MTU (Some 0)) s = (st1, n1, s1)"
    by (metis prod_cases3)
  have k1: "keeps r s1" by (rule keeps_writes(1) [OF s _ b1]) (simp add: net_sizes)
  obtain st2 n2 s2 where b2: "build_at 0 (\<lambda>out. serialize_ethernet m (own_mac s1) ETHER_TYPE_ARP (Within ETHERNET_HEADER_SIZE) n1 out
      ETHERNET_MAX_FRAME_SIZE (Some 0)) s1 = (st2, n2, s2)" by (metis prod_cases3)
  have k2: "keeps r s2" by (rule keeps_writes(2) [OF k1 _ b2]) (simp add: net_sizes)
  show ?thesis
    unfolding send_arp_packet_def b1 prod.case b2 using k1 k2 by (auto dest: keeps_transmit split: prod.splits)
qed

lemma send_ipv4_in_place_keeps:
  assumes s: "keeps r s"
  shows "keeps r (snd (send_ipv4_in_place m d p n s))"
proof -
  define h where "h = \<lparr>h_source = address (config s), h_destination = d, h_protocol = p, h_ttl = 64,
      h_identification = next_identification s, h_dont_fragment = True\<rparr>"
  define t where "t = s\<lparr>next_identification := next_identification s + 1\<rparr>"
  have t: "keeps r t" using s by (simp add: t_def)
  obtain st1 n1 s1 where b1: "build_at ETHERNET_HEADER_SIZE (\<lambda>out. serialize_ipv4 h (Within IPV4_MIN_HEADER_SIZE) n out ETHERNET_MTU (Some 0)) t
      = (st1, n1, s1)" by (metis prod_cases3)
  have k1: "keeps r s1" by (rule keeps_writes(3) [OF t _ b1]) (simp add: net_sizes)
  obtain st2 n2 s2 where b2: "build_at 0 (\<lambda>out. serialize_ethernet m (own_mac s1) ETHER_TYPE_IPV4 (Within ETHERNET_HEADER_SIZE) n1 out
      ETHERNET_MAX_FRAME_SIZE (Some 0)) s1 = (st2, n2, s2)" by (metis prod_cases3)
  have k2: "keeps r s2" by (rule keeps_writes(2) [OF k1 _ b2]) (simp add: net_sizes)
  show ?thesis
    unfolding send_ipv4_in_place_def Let_def h_def [symmetric] t_def [symmetric] b1 prod.case b2
    using k1 k2 by (simp add: keeps_transmit_snd)
qed

lemma send_ipv4_in_place_keepsD: "keeps r s \<Longrightarrow> send_ipv4_in_place m d p n s = (st, s') \<Longrightarrow> keeps r s'"
  using send_ipv4_in_place_keeps [of r s m d p n] by simp

lemma send_arp_packet_keepsD: "keeps r s \<Longrightarrow> send_arp_packet m a s = (st, s') \<Longrightarrow> keeps r s'"
  using send_arp_packet_keeps [of r s m a] by simp

lemma send_icmp_keeps:
  assumes s: "keeps r s"
  shows "keeps r (snd (send_icmp m d ty i q p n s))"
proof -
  obtain st1 n1 s1 where b1: "build_at 34 (\<lambda>out. serialize_icmp_echo ty i q (External p) n out (ETHERNET_MAX_FRAME_SIZE - 34) (Some 0)) s
      = (st1, n1, s1)" by (metis prod_cases3)
  have k1: "keeps r s1" by (rule keeps_writes(4) [OF s _ b1]) (simp add: net_sizes)
  show ?thesis
    unfolding send_icmp_def Let_def headers_34 b1 prod.case
    using s k1 by (auto dest: send_ipv4_in_place_keepsD split: prod.splits)
qed

lemma resolve_destination_keeps:
  assumes "keeps r s" "resolve_destination d s = (st, m, s')"
  shows "keeps r s'"
  using assms unfolding resolve_destination_def Let_def send_arp_request_def
  by (auto dest: send_arp_packet_keepsD split: if_splits option.splits prod.splits)

lemma send_transport_packet_keepsD:
  "keeps r s \<Longrightarrow> send_transport_packet m d p t n s = (st, s') \<Longrightarrow> keeps r s'"
  by (auto simp: send_transport_packet_def dest: send_ipv4_in_place_keepsD split: if_splits prod.splits)

section \<open>Receiving\<close>

text \<open>\<open>evolves s s'\<close>: the state stays ready, with the same configuration, interface and buffer sizes.\<close>

definition evolves :: "'c NetworkStack \<Rightarrow> 'c NetworkStack \<Rightarrow> bool" where
  "evolves s s' \<longleftrightarrow> ready s' \<and> same_net s s'"

lemma evolves_refl: "ready s \<Longrightarrow> evolves s s"
  by (simp add: evolves_def)

lemma evolves_trans: "evolves s t \<Longrightarrow> evolves t u \<Longrightarrow> evolves s u"
  unfolding evolves_def using same_net_trans by blast

lemma evolves_stats [simp]: "evolves s (stats_update f t) = evolves s t"
  by (simp add: evolves_def same_net_def)

lemma evolves_inboxes [simp]: "evolves s (t\<lparr>last_udp_datagram := u\<rparr>) = evolves s t" "evolves s (t\<lparr>last_tcp_segment := v\<rparr>) = evolves s t"
  "evolves s (t\<lparr>last_ping_reply := w\<rparr>) = evolves s t"
  by (simp_all add: evolves_def ready_def stack_inv_def table_inv_def own_mac_def same_net_def)

lemma evolves_keeps: "evolves s t \<Longrightarrow> keeps t u \<Longrightarrow> evolves s u"
  unfolding evolves_def using keeps_ready same_net_trans by (fastforce simp: keeps_def)

lemma evolves_ready: "evolves s t \<Longrightarrow> ready t"
  by (simp add: evolves_def)

lemma evolves_update_neighbor:
  assumes e: "evolves r s" and a: "is_ipv4 ip" "is_mac mac" and u: "update_neighbor ip mac s = (st, s')"
  shows "evolves r s'"
proof (cases "\<not> ipv4_is_valid_unicast ip \<or> \<not> mac_is_valid_unicast mac \<or> conflict ip mac s")
  case True
  then show ?thesis using update_neighbor_error [OF evolves_ready [OF e] a] e u by simp
next
  case False
  then have ok: "ipv4_is_valid_unicast ip" "mac_is_valid_unicast mac" "\<not> conflict ip mac s" by simp_all
  have "evolves s s'"
    by (rule update_neighbor_ready [OF evolves_ready [OF e] a ok]) (use u in \<open>simp add: evolves_def\<close>)
  then show ?thesis using evolves_trans [OF e] by blast
qed

lemma length_sub_bytes: "k + n \<le> length p \<Longrightarrow> length (sub_bytes k n p) = n"
  by (simp add: sub_bytes_def)

lemma parse_ethernet_sizes:
  assumes "parse_ethernet (Some f) n (Some v) = (Status.Ok, w)" "n \<le> length f"
  shows "is_mac (eth_source (the w))" "\<exists>p. eth_payload (the w) = Some p \<and> length p = eth_payload_length (the w)"
  using assms by (auto simp: parse_ethernet_def Let_def length_sub_bytes net_sizes split: if_splits)

lemma parse_arp_sizes:
  assumes "parse_arp (Some p) n (Some v) = (Status.Ok, w)" "n \<le> length p"
  shows "arp_ok (the w)"
  using assms by (auto simp: parse_arp_def Let_def arp_ok_def length_sub_bytes net_sizes split: if_splits)

lemma parse_ipv4_sizes:
  assumes "parse_ipv4 (Some p) n (Some v) = (Status.Ok, w)" "n \<le> length p"
  shows "is_ipv4 (ip_source (the w))"
  using assms by (auto simp: parse_ipv4_def Let_def length_sub_bytes net_sizes split: if_splits)

lemma evolves_record [simp]: "evolves r (record_receive_failure st s) = evolves r s"
  by (simp add: record_receive_failure_def Let_def split: Status.splits)

lemma evolves_send_arp_reply: "evolves r s \<Longrightarrow> evolves r (snd (send_arp_reply a s))"
  unfolding send_arp_reply_def Let_def
  using evolves_keeps [OF _ send_arp_packet_keeps [OF keeps_refl [OF evolves_ready]]] by blast

lemma evolves_send_icmp: "evolves r s \<Longrightarrow> evolves r (snd (send_icmp m d ty i q p n s))"
  using evolves_keeps [OF _ send_icmp_keeps [OF keeps_refl [OF evolves_ready]]] by blast

lemma evolves_handle_arp:
  assumes s: "evolves r s" and p: "eth_payload e = Some p" "eth_payload_length e \<le> length p"
  shows "evolves r (snd (handle_arp e s))"
proof -
  obtain st a where parse: "parse_arp (eth_payload e) (eth_payload_length e) (Some zero_arp) = (st, a)" by fastforce
  obtain st2 s2 where u: "update_neighbor (sender_ip (the a)) (sender_mac (the a)) (count arp_received_update s) = (st2, s2)" by fastforce
  show ?thesis
  proof (cases "st = Status.Ok")
    case True
    then have "arp_ok (the a)" using parse_arp_sizes [of p "eth_payload_length e"] parse p by simp
    then have "evolves r s2" using evolves_update_neighbor [OF _ _ _ u] s by (simp add: arp_ok_def)
    then show ?thesis using s parse True u by (simp add: handle_arp_def Let_def evolves_send_arp_reply)
  next
    case False
    then show ?thesis using s parse by (simp add: handle_arp_def)
  qed
qed

lemma evolves_dispatch: "evolves r s \<Longrightarrow> evolves r (snd (dispatch m v s))"
  by (simp add: dispatch_def handle_udp_def handle_tcp_def handle_icmp_def Let_def evolves_send_icmp split: prod.splits)

lemma evolves_handle_ipv4:
  assumes s: "evolves r s" and p: "eth_payload e = Some p" "eth_payload_length e \<le> length p" and m: "is_mac (eth_source e)"
  shows "evolves r (snd (handle_ipv4 e s))"
proof -
  obtain st a where parse: "parse_ipv4 (eth_payload e) (eth_payload_length e) (Some zero_ipv4_view) = (st, a)" by fastforce
  obtain st2 s2 where u: "update_neighbor (ip_source (the a)) (eth_source e) (count ipv4_received_update s) = (st2, s2)" by fastforce
  show ?thesis
  proof (cases "st = Status.Ok")
    case True
    then have "is_ipv4 (ip_source (the a))" using parse_ipv4_sizes [of p "eth_payload_length e"] parse p by simp
    then have "evolves r s2" using evolves_update_neighbor [OF _ _ m u] s by simp
    then show ?thesis
      using s parse True u evolves_dispatch [of r s2 "eth_source e" "the a"] by (simp add: handle_ipv4_def Let_def dispatch_def)
  next
    case False
    then show ?thesis using s parse by (simp add: handle_ipv4_def)
  qed
qed

lemma evolves_receive_frame:
  assumes s: "evolves r s" and f: "n \<le> length (the frame)"
  shows "evolves r (snd (receive_frame frame n s))"
proof (cases "frame = None \<or> n = 0")
  case True
  then show ?thesis using s by (simp add: receive_frame_def)
next
  case False
  then obtain b where b: "frame = Some b" by auto
  define t where "t = stats_update (bytes_received_update (\<lambda>b. saturating_add b (of_nat n))) (count frames_received_update s)"
  have t: "evolves r t" using s by (simp add: t_def)
  obtain st v where parse: "parse_ethernet frame n (Some zero_frame_view) = (st, v)" by fastforce
  show ?thesis
  proof (cases "st = Status.Ok")
    case True
    then have e: "is_mac (eth_source (the v))" "\<exists>p. eth_payload (the v) = Some p \<and> length p = eth_payload_length (the v)"
      using parse_ethernet_sizes [of b n] parse f b by auto
    then have "evolves r (snd (handle_arp (the v) t))" "evolves r (snd (handle_ipv4 (the v) t))"
      using evolves_handle_arp [OF t] evolves_handle_ipv4 [OF t] by auto
    then show ?thesis
      unfolding receive_frame_def Let_def t_def [symmetric] using False t True
      by (auto simp: parse split: prod.splits if_splits)
  next
    case False
    then show ?thesis
      unfolding receive_frame_def Let_def t_def [symmetric] using s t by (simp add: parse)
  qed
qed

section \<open>The driver's contract\<close>

text \<open>
  What the stack relies on of a driver's receive function: given a buffer and a place for the length, it
  fills the buffer in place and stores a length.
\<close>

type_synonym 'c transmit_fn = "'c \<Rightarrow> u8 list option \<Rightarrow> nat \<Rightarrow> Status \<times> 'c"
type_synonym 'c receive_fn = "'c \<Rightarrow> u8 list option \<Rightarrow> nat \<Rightarrow> nat option \<Rightarrow> Status \<times> u8 list option \<times> nat option \<times> 'c"

locale net_driver =
  fixes tx :: "'c transmit_fn" and rx :: "'c receive_fn"
  assumes fills: "cap \<le> length b \<Longrightarrow> rx c (Some b) cap (Some l) = (st, out, n, c') \<Longrightarrow>
    \<exists>b' k. out = Some b' \<and> n = Some k \<and> length b' = length b"

interpretation loopback_driver: net_driver loopback_transmit loopback_receive
  by unfold_locales (auto simp: loopback_receive_def Let_def split: option.splits if_splits)

definition drives :: "'c transmit_fn \<Rightarrow> 'c receive_fn \<Rightarrow> 'c NetworkStack \<Rightarrow> bool" where
  "drives tx rx s \<longleftrightarrow> (\<exists>i. iface s = Some i \<and> if_transmit i = Some tx \<and> if_receive i = Some rx)"

lemma same_net_drives: "same_net s s' \<Longrightarrow> drives tx rx s \<Longrightarrow> drives tx rx s'"
  by (cases "iface s'") (auto simp: same_net_def drives_def)

lemma keeps_net: "keeps s s' \<Longrightarrow> same_net s s'"
  by (simp add: keeps_def)

context net_driver
begin

text \<open>One round of \<open>poll\<close>'s loop, up to the call of \<open>receive\<close>.\<close>

lemma evolves_interface_receive:
  assumes s: "evolves r s" "drives tx rx s"
    and rcv: "interface_receive (iface s) (Some (receive_buffer s)) ETHERNET_MAX_FRAME_SIZE (Some 0) = (st, b, n, i)"
  shows "evolves r (s\<lparr>iface := i, receive_buffer := the b\<rparr>)" "drives tx rx (s\<lparr>iface := i, receive_buffer := the b\<rparr>)"
    "st = Status.Ok \<Longrightarrow> the n \<le> length (the b)"
proof -
  obtain j where j: "iface s = Some j" "if_receive j = Some rx" "if_transmit j = Some tx" using s(2) by (auto simp: drives_def)
  have len: "ETHERNET_MAX_FRAME_SIZE \<le> length (receive_buffer s)" and eq: "length (receive_buffer s) = ETHERNET_MAX_FRAME_SIZE"
    using s(1) by (simp_all add: evolves_def ready_def stack_inv_def)
  obtain st' out m c where r: "rx (if_context j) (Some (receive_buffer s)) ETHERNET_MAX_FRAME_SIZE (Some 0) = (st', out, m, c)"
    by (metis prod_cases4)
  from fills [OF len r] obtain b' k where b': "out = Some b'" "m = Some k" "length b' = length (receive_buffer s)" by blast
  have bi: "b = Some b'" "i = Some (j\<lparr>if_context := c\<rparr>)" using rcv j r b' by (auto simp: interface_receive_def Let_def split: if_splits)
  show "the n \<le> length (the b)" if "st = Status.Ok"
    using that rcv j r b' eq by (auto simp: interface_receive_def Let_def split: if_splits)
  let ?t = "s\<lparr>iface := i, receive_buffer := the b\<rparr>"
  have net: "same_net s ?t" using j b'(3) by (simp add: same_net_def bi)
  have "ready ?t" by (rule ready_same [OF evolves_ready [OF s(1)] net]) simp
  then show "evolves r ?t" using net s(1) same_net_trans by (auto simp: evolves_def)
  show "drives tx rx ?t" using same_net_drives [OF net s(2)] .
qed

lemma evolves_poll_loop:
  assumes "evolves r s" "drives tx rx s" "poll_loop budget processed err s = (st, n, s')"
  shows "evolves r s' \<and> processed \<le> n \<and> n \<le> processed + budget"
  using assms
proof (induction budget processed err s rule: poll_loop.induct)
  case (2 budget processed err s)
  obtain st1 b k i where rcv: "interface_receive (iface s) (Some (receive_buffer s)) ETHERNET_MAX_FRAME_SIZE (Some 0) = (st1, b, k, i)"
    by (metis prod_cases4)
  define t where "t = s\<lparr>iface := i, receive_buffer := the b\<rparr>"
  note t = evolves_interface_receive [OF "2.prems"(1,2) rcv, folded t_def]
  obtain st2 u where u: "receive_frame (Some (receive_buffer t)) (the k) t = (st2, u)" by fastforce
  show ?case
  proof (cases "st1 = Status.Ok")
    case True
    have "the k \<le> length (the (Some (receive_buffer t)))" using t(3) [OF True] by (simp add: t_def)
    from evolves_receive_frame [OF evolves_refl [OF evolves_ready [OF t(1)]] this] have eu: "evolves t u" by (simp add: u)
    then have "drives tx rx u" using same_net_drives [OF _ t(2)] by (simp add: evolves_def)
    moreover have "evolves r u" using evolves_trans [OF t(1) eu] .
    moreover have "poll_loop budget (processed + 1) (if st2 \<noteq> Status.Ok \<and> err = Status.Ok then st2 else err) u = (st, n, s')"
      using "2.prems"(3) True u by (simp add: rcv Let_def t_def)
    ultimately have "evolves r s' \<and> processed + 1 \<le> n \<and> n \<le> processed + 1 + budget"
      using "2.IH" [OF rcv [symmetric] refl refl t_def _ _ u [symmetric]] True by simp
    then show ?thesis by simp
  next
    case False
    then show ?thesis using "2.prems"(3) t(1) by (auto simp: rcv Let_def t_def split: if_splits)
  qed
qed simp

end

section \<open>Reachable stacks\<close>

text \<open>The bodies of the three send operations.\<close>

lemma send_built_keeps:
  assumes k: "keeps r s" and w: "bounded_writer (\<lambda>out cap l. ser out cap l)"
  shows "keeps r (snd (send_built m d p (\<lambda>out. ser out (ETHERNET_MAX_FRAME_SIZE - 34) (Some 0)) field s))"
proof -
  obtain st n t where b: "build_at 34 (\<lambda>out. ser out (ETHERNET_MAX_FRAME_SIZE - 34) (Some 0)) s = (st, n, t)" by (metis prod_cases3)
  have "keeps r t" by (rule bounded_writer.keeps_build [OF w k _ b]) (simp add: net_sizes)
  then show ?thesis
    by (auto simp: send_built_def b dest: send_transport_packet_keepsD split: prod.splits)
qed

lemma send_udp_keeps:
  assumes "ready s" "send_udp (Some s) d sp dp p n = (st, s')"
  shows "keeps s (the s')"
proof -
  obtain st1 m t where res: "resolve_destination d s = (st1, m, t)" by (metis prod_cases3)
  have t: "keeps s t" using resolve_destination_keeps [OF keeps_refl [OF assms(1)] res] .
  from send_built_keeps [OF t udp_writer.bounded_writer_axioms, of "the m" d IPV4_PROTOCOL_UDP "address (config t)" d sp dp p n udp_transmitted_update] t assms
  show ?thesis
    by (auto simp: send_udp_def with_configured_ready [OF assms(1)] res headers_34 send_built_def Let_def keeps_refl split: if_splits prod.splits)
qed

lemma send_tcp_keeps:
  assumes "ready s" "send_tcp (Some s) d sp dp q a f w p n = (st, s')"
  shows "keeps s (the s')"
proof -
  obtain st1 m t where res: "resolve_destination d s = (st1, m, t)" by (metis prod_cases3)
  have t: "keeps s t" using resolve_destination_keeps [OF keeps_refl [OF assms(1)] res] .
  from send_built_keeps [OF t tcp_writer.bounded_writer_axioms, of "the m" d IPV4_PROTOCOL_TCP "address (config t)" d sp dp q a f w p n tcp_transmitted_update] t assms
  show ?thesis
    by (auto simp: send_tcp_def with_configured_ready [OF assms(1)] res headers_34 send_built_def Let_def keeps_refl split: if_splits prod.splits)
qed

lemma send_ping_keeps:
  assumes "ready s" "send_ping (Some s) d i q p n = (st, s')"
  shows "keeps s (the s')"
proof -
  have r: "keeps s s" using keeps_refl [OF assms(1)] .
  have "keeps s (snd (send_icmp m d IcmpEchoType_Request i q p n s))" for m using send_icmp_keeps [OF r] .
  moreover have "keeps s (snd (send_arp_request h s))" for h
    using send_arp_packet_keeps [OF r] by (auto simp: send_arp_request_def Let_def split: prod.splits dest: send_arp_packet_keepsD [OF r])
  ultimately show ?thesis
    using assms(2) r unfolding send_ping_def with_configured_ready [OF assms(1)] Let_def
    by (auto split: if_splits option.splits prod.splits) (metis snd_conv)+
qed

text \<open>
  \<open>net_reachable tx rx s\<close>: \<open>s\<close> is a state a stack on a driver with the functions \<open>tx\<close> and \<open>rx\<close> can be in, after
  \<open>initialize_stack\<close> and any sequence of operations.  The side conditions are those of the types: addresses
  have their length, and a length passed with a buffer is at most the buffer's.
\<close>

inductive net_reachable :: "'c transmit_fn \<Rightarrow> 'c receive_fn \<Rightarrow> 'c NetworkStack \<Rightarrow> bool" for tx rx where
  init: "initialize_stack (Some s0) (Some i) = (Status.Ok, Some s) \<Longrightarrow> if_transmit i = Some tx \<Longrightarrow> if_receive i = Some rx \<Longrightarrow>
    is_mac (hardware_address i) \<Longrightarrow> net_reachable tx rx s"
| configure: "net_reachable tx rx s \<Longrightarrow> is_ipv4 (address cfg) \<Longrightarrow> is_ipv4 (gateway cfg) \<Longrightarrow>
    configure_ipv4 (Some s) cfg = (st, Some s') \<Longrightarrow> net_reachable tx rx s'"
| receives: "net_reachable tx rx s \<Longrightarrow> n \<le> length (the frame) \<Longrightarrow> receive (Some s) frame n = (st, Some s') \<Longrightarrow> net_reachable tx rx s'"
| polls: "net_reachable tx rx s \<Longrightarrow> poll (Some s) budget out = (st, k, Some s') \<Longrightarrow> net_reachable tx rx s'"
| pings: "net_reachable tx rx s \<Longrightarrow> send_ping (Some s) d i q p n = (st, Some s') \<Longrightarrow> net_reachable tx rx s'"
| sends_udp: "net_reachable tx rx s \<Longrightarrow> send_udp (Some s) d sp dp p n = (st, Some s') \<Longrightarrow> net_reachable tx rx s'"
| sends_tcp: "net_reachable tx rx s \<Longrightarrow> send_tcp (Some s) d sp dp q a f w p n = (st, Some s') \<Longrightarrow> net_reachable tx rx s'"
| takes_udp: "net_reachable tx rx s \<Longrightarrow> take_udp_datagram (Some s) out = (st, out', Some s') \<Longrightarrow> net_reachable tx rx s'"
| takes_tcp: "net_reachable tx rx s \<Longrightarrow> take_tcp_segment (Some s) out = (st, out', Some s') \<Longrightarrow> net_reachable tx rx s'"

lemma zero_neighbor_ok [simp]: "neighbor_ok zero_neighbor"
  by (simp add: neighbor_ok_def zero_neighbor_def zero_mac_def zero_ipv4_def)

lemma initialize_stack_inv:
  assumes "initialize_stack (Some s0) (Some i) = (Status.Ok, Some s)" "is_mac (hardware_address i)"
  shows "stack_inv s" "initialized s" "\<not> ipv4_configured s" "iface s = Some i"
  using assms by (auto simp: initialize_stack_def stack_inv_def zero_stack_def own_mac_def split: if_splits)

text \<open>The table of a fresh configuration: the stack itself, and nothing else.\<close>

definition fresh_table :: "NeighborEntry \<Rightarrow> NeighborEntry list" where
  "fresh_table e = (replicate NEIGHBOR_TABLE_CAPACITY zero_neighbor)[0 := e]"

lemma fresh_table_simps [simp]:
  "length (fresh_table e) = NEIGHBOR_TABLE_CAPACITY" "fresh_table e ! 0 = e"
  "neighbor_ok e \<Longrightarrow> \<forall>e' \<in> set (fresh_table e). neighbor_ok e'"
proof -
  show "length (fresh_table e) = NEIGHBOR_TABLE_CAPACITY" by (simp add: fresh_table_def)
  show "fresh_table e ! 0 = e" by (simp add: fresh_table_def NEIGHBOR_TABLE_CAPACITY_def)
  have "set (fresh_table e) \<subseteq> {e, zero_neighbor}"
    using set_update_subset_insert [of "replicate NEIGHBOR_TABLE_CAPACITY zero_neighbor" 0 e] by (auto simp: fresh_table_def)
  then show "neighbor_ok e \<Longrightarrow> \<forall>e' \<in> set (fresh_table e). neighbor_ok e'" using zero_neighbor_ok by blast
qed

lemma fresh_table_entry: "k < NEIGHBOR_TABLE_CAPACITY \<Longrightarrow> is_entry ip (fresh_table e ! k) \<Longrightarrow> k = 0"
  by (cases "k = 0") (auto simp: fresh_table_def is_entry_def zero_neighbor_def)

lemma configure_ipv4_inv:
  assumes inv: "stack_inv s" and a: "is_ipv4 (address cfg)" "is_ipv4 (gateway cfg)" and cf: "configure_ipv4 (Some s) cfg = (st, Some s')"
  shows "stack_inv s'" "st = Status.Ok \<Longrightarrow> ready s'" "iface s' = iface s" "st = Status.Ok \<Longrightarrow> config s' = cfg"
    "initialized s' = initialized s"
proof -
  define e where "e = \<lparr>state = Reachable, n_ip = address cfg, n_mac = own_mac s, update_sequence = 1\<rparr>"
  define t where "t = s\<lparr>config := cfg, neighbors := fresh_table e,
       last_ping_reply := zero_ping, last_udp_datagram := zero_udp, last_tcp_segment := zero_tcp,
       neighbor_eviction_cursor := 1, neighbor_update_sequence := 1, ipv4_configured := True\<rparr>"
  have c: "st \<noteq> Status.Ok \<and> s' = s \<or> st = Status.Ok \<and> initialized s \<and> config_address_is_host (address cfg) (netmask cfg) \<and> s' = t"
    using cf unfolding configure_ipv4_def fresh_table_def [symmetric] by (auto simp: with_stack_def t_def e_def split: if_splits)
  have "ready t" if "initialized s" "config_address_is_host (address cfg) (netmask cfg)"
  proof -
    have "ipv4_is_valid_unicast (address cfg)" using that(2) by (auto simp: config_address_is_host_def split: if_splits)
    moreover have capacity: "1 < NEIGHBOR_TABLE_CAPACITY" by (simp add: NEIGHBOR_TABLE_CAPACITY_def)
    moreover have own: "own_mac t = own_mac s" by (simp add: own_mac_def t_def)
    moreover have "is_mac (own_mac s)" using inv that(1) by (simp add: stack_inv_def)
    moreover from this have "neighbor_ok e" using a by (simp add: neighbor_ok_def e_def)
    moreover have "is_entry (address cfg) e" "n_mac e = own_mac s" by (simp_all add: is_entry_def e_def)
    then have "table_inv t"
      unfolding table_inv_def own using fresh_table_entry [of _ _ e] capacity by (simp add: t_def) blast
    ultimately show ?thesis using inv a that(1) by (simp add: ready_def stack_inv_def t_def)
  qed
  with c inv show "stack_inv s'" "st = Status.Ok \<Longrightarrow> ready s'" by (auto simp: ready_def)
  show "iface s' = iface s" "st = Status.Ok \<Longrightarrow> config s' = cfg" "initialized s' = initialized s" using c by (auto simp: t_def)
qed

text \<open>The invariant of the reachable states.\<close>

definition net_inv :: "'c transmit_fn \<Rightarrow> 'c receive_fn \<Rightarrow> 'c NetworkStack \<Rightarrow> bool" where
  "net_inv tx rx s \<longleftrightarrow> stack_inv s \<and> initialized s \<and> drives tx rx s"

lemma evolves_net_inv: "net_inv tx rx s \<Longrightarrow> evolves s s' \<Longrightarrow> net_inv tx rx s'"
  using same_net_drives [of s s' tx rx] by (auto simp: net_inv_def evolves_def ready_def)

lemma keeps_net_inv: "net_inv tx rx s \<Longrightarrow> ready s \<Longrightarrow> keeps s s' \<Longrightarrow> net_inv tx rx s'"
  using evolves_net_inv evolves_keeps [OF evolves_refl] by blast

lemma net_inv_ready: "net_inv tx rx s \<Longrightarrow> ipv4_configured s \<Longrightarrow> ready s"
  by (simp add: net_inv_def ready_def)

lemma unconfigured: "initialized s \<Longrightarrow> \<not> ipv4_configured s \<Longrightarrow> with_configured f (Some s) = (Status.NotConfigured, Some s)"
  by (simp add: with_configured_def with_stack_def)

context net_driver
begin

lemma reachable_inv: "net_reachable tx rx s \<Longrightarrow> net_inv tx rx s"
proof (induction rule: net_reachable.induct)
  case (init s0 i s)
  then show ?case using initialize_stack_inv [OF init(1,4)] by (simp add: net_inv_def drives_def)
next
  case (configure s cfg st s')
  then show ?case using configure_ipv4_inv [OF _ configure.hyps(2,3,4)] by (simp add: net_inv_def drives_def)
next
  case (receives s n frame st s')
  show ?case
  proof (cases "ipv4_configured s")
    case True
    note r = net_inv_ready [OF receives.IH this]
    have "s' = snd (receive_frame frame n s)" using receives.hyps(3) by (auto simp: receive_def with_configured_ready [OF r] split: prod.splits)
    then show ?thesis using evolves_net_inv [OF receives.IH] evolves_receive_frame [OF evolves_refl [OF r] receives.hyps(2)] by simp
  next
    case False
    then show ?thesis using receives by (simp add: receive_def unconfigured net_inv_def)
  qed
next
  case (polls s budget out st k s')
  show ?case
  proof (cases "ipv4_configured s")
    case True
    note r = net_inv_ready [OF polls.IH this]
    obtain st' n where "poll_loop budget 0 Status.Ok s = (st', n, s')"
      using polls.hyps(2) readyD [OF r] by (auto simp: poll_def split: prod.splits)
    then show ?thesis
      using evolves_poll_loop [OF evolves_refl [OF r]] polls.IH evolves_net_inv [OF polls.IH] by (auto simp: net_inv_def)
  next
    case False
    then show ?thesis using polls by (simp add: poll_def net_inv_def)
  qed
next
  case (pings s d i q p n st s')
  then show ?case
    using keeps_net_inv [OF pings.IH] send_ping_keeps [of s d i q p n] net_inv_ready [OF pings.IH]
    by (cases "ipv4_configured s") (auto simp: send_ping_def unconfigured net_inv_def)
next
  case (sends_udp s d sp dp p n st s')
  then show ?case
    using keeps_net_inv [OF sends_udp.IH] send_udp_keeps [of s d sp dp p n] net_inv_ready [OF sends_udp.IH]
    by (cases "ipv4_configured s") (auto simp: send_udp_def unconfigured net_inv_def)
next
  case (sends_tcp s d sp dp q a f w p n st s')
  then show ?case
    using keeps_net_inv [OF sends_tcp.IH] send_tcp_keeps [of s d sp dp q a f w p n] net_inv_ready [OF sends_tcp.IH]
    by (cases "ipv4_configured s") (auto simp: send_tcp_def unconfigured net_inv_def)
next
  case (takes_udp s out st out' s')
  then show ?case by (auto simp: take_udp_datagram_def net_inv_def stack_inv_def table_inv_def own_mac_def drives_def split: if_splits)
next
  case (takes_tcp s out st out' s')
  then show ?case by (auto simp: take_tcp_segment_def net_inv_def stack_inv_def table_inv_def own_mac_def drives_def split: if_splits)
qed

end

end
