(* ===== verification/Net_Loopback.thy ===== *)
theory Net_Loopback
  imports Ring_Buffer Net_Invariant
begin

text \<open>
  The loopback interface as a bounded queue of frames, and the stack on top of it: what a host sends to
  its own address it receives.
\<close>

section \<open>The queue\<close>

definition lb_slots :: "LoopbackInterface \<Rightarrow> u8 list list" where
  "lb_slots lb = map2 (\<lambda>f l. take (unat l) f) (lb_frames lb) (lb_lengths lb)"

definition lb_contents :: "LoopbackInterface \<Rightarrow> u8 list list" where
  "lb_contents lb = ring_contents (lb_slots lb) (lb_head lb) (lb_count lb)"

definition lb_inv :: "LoopbackInterface \<Rightarrow> bool" where
  "lb_inv lb \<longleftrightarrow> lb_initialized lb \<and> length (lb_frames lb) = LOOPBACK_QUEUE_DEPTH \<and>
     (\<forall>f \<in> set (lb_frames lb). length f = ETHERNET_MAX_FRAME_SIZE) \<and>
     length (lb_lengths lb) = LOOPBACK_QUEUE_DEPTH \<and> (\<forall>l \<in> set (lb_lengths lb). unat l \<le> ETHERNET_MAX_FRAME_SIZE) \<and>
     lb_head lb < LOOPBACK_QUEUE_DEPTH \<and> lb_count lb \<le> LOOPBACK_QUEUE_DEPTH \<and>
     lb_tail lb = (lb_head lb + lb_count lb) mod LOOPBACK_QUEUE_DEPTH \<and>
     (\<forall>f \<in> set (lb_contents lb). f \<noteq> [])"

lemma length_lb_contents [simp]: "length (lb_contents lb) = lb_count lb"
  by (simp add: lb_contents_def)

lemma map2_update: "map2 g (xs[i := x]) (ys[i := y]) = (map2 g xs ys)[i := g x y]"
  using map_update [of "\<lambda>(x, y). g x y" "zip xs ys" i "(x, y)"] by (simp add: update_zip)

lemma ball_update: "\<forall>x \<in> set xs. P x \<Longrightarrow> P y \<Longrightarrow> \<forall>x \<in> set (xs[i := y]). P x"
  using set_update_subset_insert [of xs i y] by blast

lemma lb_invD:
  assumes "lb_inv lb"
  shows "\<forall>f \<in> set (lb_frames lb). length f = ETHERNET_MAX_FRAME_SIZE"
    "\<forall>l \<in> set (lb_lengths lb). unat l \<le> ETHERNET_MAX_FRAME_SIZE"
    "lb_initialized lb" "length (lb_frames lb) = LOOPBACK_QUEUE_DEPTH" "length (lb_lengths lb) = LOOPBACK_QUEUE_DEPTH"
    "lb_head lb < LOOPBACK_QUEUE_DEPTH"
  using assms by (simp_all add: lb_inv_def)

lemma lb_transmit_room:
  assumes inv: "lb_inv lb" and room: "lb_count lb < LOOPBACK_QUEUE_DEPTH" and f: "f \<noteq> []" "length f \<le> ETHERNET_MAX_FRAME_SIZE"
  obtains lb' where "loopback_transmit (Some lb) (Some (f @ r)) (length f) = (Status.Ok, Some lb')" "lb_inv lb'"
    "lb_contents lb' = lb_contents lb @ [f]"
proof -
  let ?t = "lb_tail lb"
  let ?slot = "f @ drop (length f) (lb_frames lb ! ?t)"
  define lb' where "lb' = lb\<lparr>lb_frames := (lb_frames lb)[?t := ?slot], lb_lengths := (lb_lengths lb)[?t := of_nat (length f)],
    lb_tail := (?t + 1) mod LOOPBACK_QUEUE_DEPTH, lb_count := lb_count lb + 1, transmitted_frames := increment (transmitted_frames lb)\<rparr>"
  have t: "?t = (lb_head lb + lb_count lb) mod 8" "?t < 8" and l8: "length (lb_frames lb) = 8" "length (lb_lengths lb) = 8"
    using inv by (simp_all add: lb_inv_def LOOPBACK_QUEUE_DEPTH_def)
  have slot: "length (lb_frames lb ! ?t) = ETHERNET_MAX_FRAME_SIZE" using inv t(2) l8(1) by (simp add: lb_inv_def)
  have w: "unat (of_nat (length f) :: u16) = length f" using f(2) by (simp add: unsigned_of_nat take_bit_nat_eq_self net_sizes)
  have "copy_bytes 0 (f @ r) (length f) (lb_frames lb ! ?t) = ?slot"
    using copy_bytes_append [of "[]" 0 "length f" "f @ r" "lb_frames lb ! ?t"] slot f(2) by simp
  then have tx: "loopback_transmit (Some lb) (Some (f @ r)) (length f) = (Status.Ok, Some lb')"
    using inv room f by (simp add: loopback_transmit_def lb_inv_def lb'_def)
  have "lb_slots lb' = (lb_slots lb)[?t := f]"
    using w by (simp add: lb_slots_def lb'_def map2_update)
  moreover have "length (lb_slots lb) = 8" using l8 by (simp add: lb_slots_def)
  ultimately have c: "lb_contents lb' = lb_contents lb @ [f]"
    using ring_contents_push [of "lb_count lb" "lb_slots lb" "lb_head lb" f] room t(1)
    by (simp add: lb_contents_def lb'_def LOOPBACK_QUEUE_DEPTH_def)
  have upd: "lb_frames lb' = (lb_frames lb)[?t := ?slot]" "lb_lengths lb' = (lb_lengths lb)[?t := of_nat (length f)]"
    by (simp_all add: lb'_def)
  have "length ?slot = ETHERNET_MAX_FRAME_SIZE" using slot f(2) by simp
  then have "\<forall>g \<in> set (lb_frames lb'). length g = ETHERNET_MAX_FRAME_SIZE"
    unfolding upd by (rule ball_update [OF lb_invD(1) [OF inv]])
  moreover have "\<forall>l \<in> set (lb_lengths lb'). unat l \<le> ETHERNET_MAX_FRAME_SIZE"
    unfolding upd using w f(2) by (intro ball_update [OF lb_invD(2) [OF inv]]) simp
  moreover have "lb_tail lb' = (lb_head lb' + lb_count lb') mod LOOPBACK_QUEUE_DEPTH"
    by (simp add: lb'_def t(1) LOOPBACK_QUEUE_DEPTH_def mod_Suc_eq)
  moreover have "\<forall>g \<in> set (lb_contents lb'). g \<noteq> []" using inv f(1) by (simp add: c lb_inv_def)
  moreover have "lb_initialized lb'" "length (lb_frames lb') = LOOPBACK_QUEUE_DEPTH" "length (lb_lengths lb') = LOOPBACK_QUEUE_DEPTH"
    "lb_head lb' < LOOPBACK_QUEUE_DEPTH" "lb_count lb' \<le> LOOPBACK_QUEUE_DEPTH"
    using lb_invD(3-6) [OF inv] room by (simp_all add: lb'_def)
  ultimately have "lb_inv lb'" unfolding lb_inv_def by (intro conjI)
  then show thesis using that tx c by blast
qed

lemma lb_transmit_full:
  assumes "lb_inv lb" "lb_count lb = LOOPBACK_QUEUE_DEPTH" "f \<noteq> []" "length f \<le> ETHERNET_MAX_FRAME_SIZE"
  shows "loopback_transmit (Some lb) (Some (f @ r)) (length f) =
    (Status.QueueFull, Some (lb\<lparr>lb_dropped_frames := increment (lb_dropped_frames lb)\<rparr>))"
  using assms by (simp add: loopback_transmit_def lb_inv_def)

lemma lb_receive_some:
  assumes inv: "lb_inv lb" and c: "lb_contents lb = f # fs" and b: "length f \<le> cap" "cap \<le> length b"
  obtains lb' where "loopback_receive (Some lb) (Some b) cap (Some z) = (Status.Ok, Some (f @ drop (length f) b), Some (length f), Some lb')"
    "lb_inv lb'" "lb_contents lb' = fs"
proof -
  let ?h = "lb_head lb"
  define lb' where "lb' = lb\<lparr>lb_lengths := (lb_lengths lb)[?h := 0], lb_head := (?h + 1) mod LOOPBACK_QUEUE_DEPTH,
    lb_count := lb_count lb - 1, received_frames := increment (received_frames lb)\<rparr>"
  have n: "0 < lb_count lb" using arg_cong [OF c, of length] by simp
  have l8: "length (lb_frames lb) = 8" "length (lb_lengths lb) = 8" "?h < 8" "lb_count lb \<le> 8"
    using inv by (simp_all add: lb_inv_def LOOPBACK_QUEUE_DEPTH_def)
  have s8: "length (lb_slots lb) = 8" using l8 by (simp add: lb_slots_def)
  have pop: "f # fs = lb_slots lb ! ?h # ring_contents (lb_slots lb) ((?h + 1) mod 8) (lb_count lb - 1)"
    using ring_contents_pop [OF n, of ?h "lb_slots lb"] c l8(3) s8 by (simp add: lb_contents_def)
  have f: "f = take (unat (lb_lengths lb ! ?h)) (lb_frames lb ! ?h)" using pop l8 by (simp add: lb_slots_def)
  have "length (lb_frames lb ! ?h) = ETHERNET_MAX_FRAME_SIZE" "unat (lb_lengths lb ! ?h) \<le> ETHERNET_MAX_FRAME_SIZE"
    using inv l8 by (simp_all add: lb_inv_def)
  then have len: "unat (lb_lengths lb ! ?h) = length f" "length f \<le> length (lb_frames lb ! ?h)" using f by simp_all
  have "take (length f) (lb_frames lb ! ?h) = f" using f unfolding len(1) [symmetric] by (rule sym)
  then have "copy_bytes 0 (lb_frames lb ! ?h) (length f) b = f @ drop (length f) b"
    using copy_bytes_append [of "[]" 0 "length f" "lb_frames lb ! ?h" b] len(2) b by simp
  then have rx: "loopback_receive (Some lb) (Some b) cap (Some z) = (Status.Ok, Some (f @ drop (length f) b), Some (length f), Some lb')"
    using inv n len(1) b(1) by (simp add: loopback_receive_def lb_inv_def lb'_def Let_def)
  have "lb_slots lb' = (lb_slots lb)[?h := []]"
    using map2_update [of "\<lambda>f l. take (unat l) f" "lb_frames lb" ?h "lb_frames lb ! ?h" "lb_lengths lb" "0 :: u16"]
    by (simp add: lb_slots_def lb'_def)
  then have cc: "lb_contents lb' = fs"
    using ring_contents_update_outside [of "lb_count lb - 1" "lb_slots lb" ?h "[]"] pop s8 l8 n
    by (simp add: lb_contents_def lb'_def LOOPBACK_QUEUE_DEPTH_def)
  have upd: "lb_lengths lb' = (lb_lengths lb)[?h := 0]" by (simp add: lb'_def)
  have "\<forall>l \<in> set (lb_lengths lb'). unat l \<le> ETHERNET_MAX_FRAME_SIZE"
    unfolding upd by (rule ball_update [OF lb_invD(2) [OF inv]]) simp
  moreover have "lb_tail lb' = (lb_head lb' + lb_count lb') mod LOOPBACK_QUEUE_DEPTH"
  proof -
    have "((?h + 1) mod 8 + (lb_count lb - 1)) mod 8 = (?h + 1 + (lb_count lb - 1)) mod 8" by (rule mod_add_left_eq)
    also have "?h + 1 + (lb_count lb - 1) = ?h + lb_count lb" using n by simp
    finally show ?thesis using inv by (simp add: lb'_def lb_inv_def LOOPBACK_QUEUE_DEPTH_def)
  qed
  moreover have "\<forall>g \<in> set (lb_contents lb'). g \<noteq> []" using inv c by (simp add: cc lb_inv_def)
  moreover have "lb_initialized lb'" "length (lb_frames lb') = LOOPBACK_QUEUE_DEPTH" "length (lb_lengths lb') = LOOPBACK_QUEUE_DEPTH"
    "lb_head lb' < LOOPBACK_QUEUE_DEPTH" "lb_count lb' \<le> LOOPBACK_QUEUE_DEPTH"
    "\<forall>f \<in> set (lb_frames lb'). length f = ETHERNET_MAX_FRAME_SIZE"
    using lb_invD [OF inv] l8(4) by (simp_all add: lb'_def LOOPBACK_QUEUE_DEPTH_def)
  ultimately have "lb_inv lb'" unfolding lb_inv_def by (intro conjI)
  then show thesis using that rx cc by blast
qed

lemma lb_receive_none:
  "lb_inv lb \<Longrightarrow> lb_contents lb = [] \<Longrightarrow> loopback_receive (Some lb) b cap (Some z) = (Status.WouldBlock, b, Some 0, Some lb)"
  using length_lb_contents [of lb] by (simp add: loopback_receive_def lb_inv_def)

text \<open>The frames an Ethernet interface carries, and the queue's operations on them.\<close>

typedef wire_frame = "{f :: u8 list. f \<noteq> [] \<and> length f \<le> ETHERNET_MAX_FRAME_SIZE}"
  morphisms frame_bytes Wire_Frame
  by (rule exI [of _ "[0]"]) (simp add: net_sizes)

lemma frame_bytes_ok [simp]: "frame_bytes f \<noteq> []" "length (frame_bytes f) \<le> ETHERNET_MAX_FRAME_SIZE"
  using frame_bytes [of f] by simp_all

definition lb_wire_frames :: "LoopbackInterface \<Rightarrow> wire_frame list" where
  "lb_wire_frames lb = map Wire_Frame (lb_contents lb)"

definition lb_push_reply :: "wire_frame \<Rightarrow> LoopbackInterface \<Rightarrow> wire_frame fifo_reply \<times> LoopbackInterface" where
  "lb_push_reply f lb = (case loopback_transmit (Some lb) (Some (frame_bytes f)) (length (frame_bytes f)) of
     (status, lb') \<Rightarrow> (if status = Status.Ok then Accepted else Refused, the lb'))"

definition lb_pop_reply :: "u8 list \<Rightarrow> LoopbackInterface \<Rightarrow> wire_frame fifo_reply \<times> LoopbackInterface" where
  "lb_pop_reply buffer lb = (case loopback_receive (Some lb) (Some (take ETHERNET_MAX_FRAME_SIZE (buffer @ replicate ETHERNET_MAX_FRAME_SIZE 0)))
       ETHERNET_MAX_FRAME_SIZE (Some 0) of
     (status, out, n, lb') \<Rightarrow> (if status = Status.Ok then Got (Wire_Frame (take (the n) (the out))) else fifo_reply.Empty, the lb'))"

lemma lb_contents_frames: "lb_inv lb \<Longrightarrow> f \<in> set (lb_contents lb) \<Longrightarrow> f \<noteq> [] \<and> length f \<le> ETHERNET_MAX_FRAME_SIZE"
proof
  assume inv: "lb_inv lb" and f: "f \<in> set (lb_contents lb)"
  show "f \<noteq> []" using inv f by (auto simp: lb_inv_def)
  have l8: "length (lb_frames lb) = 8" "length (lb_lengths lb) = 8"
    using lb_invD(4,5) [OF inv] by (simp_all add: LOOPBACK_QUEUE_DEPTH_def)
  obtain k where "f = lb_slots lb ! (k mod 8)" using f l8 by (auto simp: lb_contents_def ring_contents_def lb_slots_def)
  then have "f = take (unat (lb_lengths lb ! (k mod 8))) (lb_frames lb ! (k mod 8))" using l8 by (simp add: lb_slots_def)
  moreover have "length (lb_frames lb ! (k mod 8)) = ETHERNET_MAX_FRAME_SIZE"
    using bspec [OF lb_invD(1) [OF inv] nth_mem, of "k mod 8"] l8 by simp
  ultimately show "length f \<le> ETHERNET_MAX_FRAME_SIZE" by simp
qed

lemma lb_pop_some:
  assumes "lb_inv lb" "lb_contents lb = f # fs"
  shows "fst (lb_pop_reply b lb) = Got (Wire_Frame f)" "lb_contents (snd (lb_pop_reply b lb)) = fs" "lb_inv (snd (lb_pop_reply b lb))"
proof -
  let ?b = "take ETHERNET_MAX_FRAME_SIZE (b @ replicate ETHERNET_MAX_FRAME_SIZE 0)"
  have f: "length f \<le> ETHERNET_MAX_FRAME_SIZE" using lb_contents_frames [OF assms(1), of f] assms(2) by simp
  have "ETHERNET_MAX_FRAME_SIZE \<le> length ?b" by simp
  from lb_receive_some [OF assms f this] obtain lb' where
    "loopback_receive (Some lb) (Some ?b) ETHERNET_MAX_FRAME_SIZE (Some 0) = (Status.Ok, Some (f @ drop (length f) ?b), Some (length f), Some lb')"
    "lb_inv lb'" "lb_contents lb' = fs" by blast
  then show "fst (lb_pop_reply b lb) = Got (Wire_Frame f)" "lb_contents (snd (lb_pop_reply b lb)) = fs" "lb_inv (snd (lb_pop_reply b lb))"
    unfolding lb_pop_reply_def by simp_all
qed

lemma lb_pop_none: "lb_inv lb \<Longrightarrow> lb_contents lb = [] \<Longrightarrow> lb_pop_reply b lb = (fifo_reply.Empty, lb)"
  by (simp add: lb_pop_reply_def lb_receive_none)

lemma lb_push_room:
  assumes "lb_inv lb" "lb_count lb < LOOPBACK_QUEUE_DEPTH"
  shows "fst (lb_push_reply f lb) = Accepted" "lb_contents (snd (lb_push_reply f lb)) = lb_contents lb @ [frame_bytes f]"
    "lb_inv (snd (lb_push_reply f lb))"
proof -
  obtain lb' where "loopback_transmit (Some lb) (Some (frame_bytes f @ [])) (length (frame_bytes f)) = (Status.Ok, Some lb')" "lb_inv lb'"
    "lb_contents lb' = lb_contents lb @ [frame_bytes f]" by (rule lb_transmit_room [OF assms frame_bytes_ok])
  then show "fst (lb_push_reply f lb) = Accepted" "lb_contents (snd (lb_push_reply f lb)) = lb_contents lb @ [frame_bytes f]"
    "lb_inv (snd (lb_push_reply f lb))" by (simp_all add: lb_push_reply_def)
qed

lemma lb_push_full:
  assumes "lb_inv lb" "lb_count lb = LOOPBACK_QUEUE_DEPTH"
  shows "fst (lb_push_reply f lb) = Refused" "lb_contents (snd (lb_push_reply f lb)) = lb_contents lb" "lb_inv (snd (lb_push_reply f lb))"
  using lb_transmit_full [OF assms frame_bytes_ok, of f "[]"] assms(1)
  by (simp_all add: lb_push_reply_def lb_contents_def lb_slots_def lb_inv_def)

interpretation lb: bounded_fifo lb_inv lb_wire_frames LOOPBACK_QUEUE_DEPTH lb_push_reply "lb_pop_reply b" for b
proof unfold_locales
  fix q x xs
  assume inv: "lb_inv q"
  have full: "\<not> length (lb_wire_frames q) < LOOPBACK_QUEUE_DEPTH \<Longrightarrow> lb_count q = LOOPBACK_QUEUE_DEPTH"
    using inv by (simp add: lb_wire_frames_def lb_inv_def)
  show "fst (lb_push_reply x q) = Accepted \<and> lb_wire_frames (snd (lb_push_reply x q)) = lb_wire_frames q @ [x]"
    if "length (lb_wire_frames q) < LOOPBACK_QUEUE_DEPTH"
    using that lb_push_room [OF inv, of x] by (simp add: lb_wire_frames_def frame_bytes_inverse)
  show "fst (lb_push_reply x q) = Refused \<and> lb_wire_frames (snd (lb_push_reply x q)) = lb_wire_frames q"
    if "\<not> length (lb_wire_frames q) < LOOPBACK_QUEUE_DEPTH"
    using lb_push_full [OF inv full [OF that], of x] by (simp add: lb_wire_frames_def)
  show "fst (lb_pop_reply b q) = Got x \<and> lb_wire_frames (snd (lb_pop_reply b q)) = xs" if "lb_wire_frames q = x # xs"
    using that lb_pop_some [OF inv, of _ _ b] by (auto simp: lb_wire_frames_def)
  show "lb_pop_reply b q = (fifo_reply.Empty, q)" if "lb_wire_frames q = []"
    using that lb_pop_none [OF inv, of b] by (simp add: lb_wire_frames_def)
  show "lb_inv (snd (lb_push_reply x q))"
    using lb_push_room(3) [OF inv, of x] lb_push_full(3) [OF inv, of x] inv
    by (cases "lb_count q < LOOPBACK_QUEUE_DEPTH") (auto simp: lb_inv_def)
  show "lb_inv (snd (lb_pop_reply b q))"
    using lb_pop_some(3) [OF inv, of _ _ b] lb_pop_none [OF inv, of b] inv by (cases "lb_contents q") auto
qed

section \<open>Hosts on a loopback interface\<close>

text \<open>A configured stack whose interface is the loopback, with the queue \<open>lb\<close>.\<close>

definition loops :: "LoopbackInterface \<Rightarrow> LoopbackInterface option NetworkStack \<Rightarrow> bool" where
  "loops lb s \<longleftrightarrow> ready s \<and> lb_inv lb \<and> drives loopback_transmit loopback_receive s \<and> if_context (the (iface s)) = Some lb"

lemma loopsD:
  assumes "loops lb s"
  shows "ready s" "lb_inv lb" "drives loopback_transmit loopback_receive s"
    "\<exists>i. iface s = Some i \<and> if_transmit i = Some loopback_transmit \<and> if_receive i = Some loopback_receive \<and> if_context i = Some lb"
  using assms by (auto simp: loops_def drives_def)

lemma loops_accepts:
  assumes "loops lb s" "lb_count lb < LOOPBACK_QUEUE_DEPTH"
  shows "driver_accepts s"
proof -
  obtain i where i: "iface s = Some i" "if_transmit i = Some loopback_transmit" "if_context i = Some lb"
    using loopsD(4) [OF assms(1)] by blast
  have "mtu i \<le> ETHERNET_MTU" using loopsD(1) [OF assms(1)] i(1) by (simp add: ready_def stack_inv_def)
  with i assms(2) loopsD(2) [OF assms(1)] show ?thesis
    by (auto simp: driver_accepts_def loopback_transmit_def lb_inv_def ETHERNET_MAX_FRAME_SIZE_def)
qed

lemma resolve_self:
  assumes s: "ready s"
  shows "resolve_destination (address (config s)) s = (Status.Ok, Some (own_mac s), s)"
proof -
  have t: "is_entry (address (config s)) (neighbors s ! 0)" "n_mac (neighbors s ! 0) = own_mac s"
    using readyD(10) [OF s] by (simp_all add: table_inv_def)
  have "find_entry (address (config s)) (neighbors s) = Some 0"
    unfolding find_entry_def by (rule find_index_eq_SomeI) (use readyD(2) [OF s] t(1) in simp_all)
  then have "find_neighbor s (address (config s)) = Some (neighbors s ! 0)"
    using find_entry_eq [of "neighbors s" "address (config s)"] s readyD(5) [OF s]
    by (simp add: find_neighbor_def ready_def stack_inv_def)
  then show ?thesis using t(2) by (simp add: resolve_destination_def ipv4_on_same_network_def Let_def)
qed

lemma loops_transmits:
  assumes s: "loops lb s" and room: "lb_count lb < LOOPBACK_QUEUE_DEPTH" and f: "f \<noteq> []" "length f \<le> ETHERNET_MAX_FRAME_SIZE"
    and tx: "transmits s s' f" "same_net s s'" "same_table s s'"
  obtains lb' where "loops lb' s'" "lb_contents lb' = lb_contents lb @ [f]"
proof -
  obtain buffer where b: "take (length f) buffer = f" and
    t: "loopback_transmit (Some lb) (Some buffer) (length f) = (Status.Ok, if_context (the (iface s')))"
    using tx(1) loopsD(4) [OF s] by (auto simp: transmits_def)
  have "buffer = f @ drop (length f) buffer" using b by (metis append_take_drop_id)
  moreover obtain lb' where "loopback_transmit (Some lb) (Some (f @ drop (length f) buffer)) (length f) = (Status.Ok, Some lb')" "lb_inv lb'"
    "lb_contents lb' = lb_contents lb @ [f]" by (rule lb_transmit_room [OF loopsD(2) [OF s] room f])
  ultimately show thesis
    using t ready_same [OF loopsD(1) [OF s] tx(2,3)] same_net_drives [OF tx(2) loopsD(3) [OF s]] by (intro that [of lb']) (auto simp: loops_def)
qed

text \<open>The receive path reads only the bytes of the frame.\<close>

lemma receive_frame_local:
  "f \<noteq> [] \<Longrightarrow> receive_frame (Some (f @ q)) (length f) s = receive_frame (Some f) (length f) s"
  by (simp add: receive_frame_def parse_ethernet_local)

lemma loops_interface_receive:
  assumes s: "loops lb s"
  shows "lb_contents lb = [] \<Longrightarrow> interface_receive (iface s) (Some (receive_buffer s)) ETHERNET_MAX_FRAME_SIZE (Some 0) =
      (Status.WouldBlock, Some (receive_buffer s), Some 0, iface s)"
    "lb_contents lb = f # fs \<Longrightarrow> \<exists>lb' i. interface_receive (iface s) (Some (receive_buffer s)) ETHERNET_MAX_FRAME_SIZE (Some 0) =
      (Status.Ok, Some (f @ drop (length f) (receive_buffer s)), Some (length f), i) \<and>
      loops lb' (s\<lparr>iface := i, receive_buffer := f @ drop (length f) (receive_buffer s)\<rparr>) \<and> lb_contents lb' = fs"
proof -
  obtain i where i: "iface s = Some i" "if_receive i = Some loopback_receive" "if_context i = Some lb" using loopsD(4) [OF s] by blast
  show "interface_receive (iface s) (Some (receive_buffer s)) ETHERNET_MAX_FRAME_SIZE (Some 0) =
      (Status.WouldBlock, Some (receive_buffer s), Some 0, iface s)" if "lb_contents lb = []"
  proof -
    have "i\<lparr>if_context := Some lb\<rparr> = i" using i(3) by (metis NetworkInterface.surjective NetworkInterface.update_convs(1))
    then show ?thesis using i lb_receive_none [OF loopsD(2) [OF s] that] by (simp add: interface_receive_def)
  qed
  show "\<exists>lb' i. interface_receive (iface s) (Some (receive_buffer s)) ETHERNET_MAX_FRAME_SIZE (Some 0) =
      (Status.Ok, Some (f @ drop (length f) (receive_buffer s)), Some (length f), i) \<and>
      loops lb' (s\<lparr>iface := i, receive_buffer := f @ drop (length f) (receive_buffer s)\<rparr>) \<and> lb_contents lb' = fs"
    if c: "lb_contents lb = f # fs"
  proof -
    have f: "length f \<le> ETHERNET_MAX_FRAME_SIZE" using lb_contents_frames [OF loopsD(2) [OF s], of f] c by simp
    have b: "ETHERNET_MAX_FRAME_SIZE \<le> length (receive_buffer s)" using loopsD(1) [OF s] by (simp add: ready_def stack_inv_def)
    obtain lb' where r: "loopback_receive (Some lb) (Some (receive_buffer s)) ETHERNET_MAX_FRAME_SIZE (Some 0) =
      (Status.Ok, Some (f @ drop (length f) (receive_buffer s)), Some (length f), Some lb')" "lb_inv lb'" "lb_contents lb' = fs"
      by (rule lb_receive_some [OF loopsD(2) [OF s] c f b])
    have ir: "interface_receive (iface s) (Some (receive_buffer s)) ETHERNET_MAX_FRAME_SIZE (Some 0) =
      (Status.Ok, Some (f @ drop (length f) (receive_buffer s)), Some (length f), Some (i\<lparr>if_context := Some lb'\<rparr>))"
      using i r(1) f by (simp add: interface_receive_def)
    from loopback_driver.evolves_interface_receive [OF evolves_refl [OF loopsD(1) [OF s]] loopsD(3) [OF s] this]
    show ?thesis using ir r(2,3) by (auto simp: loops_def evolves_def)
  qed
qed

text \<open>Polling a host whose queue holds one frame, which the stack accepts: one frame is processed.\<close>

lemma poll_one:
  assumes s: "loops lb s" and c: "lb_contents lb = [f]" and budget: "0 < budget"
  obtains t where "ready t" "same_net s t" "same_table s t"
    "\<And>u. receive (Some t) (Some f) (length f) = (Status.Ok, Some u) \<Longrightarrow> iface u = iface t \<Longrightarrow>
       \<exists>u'. poll (Some s) budget (Some z) = (Status.Ok, Some 1, Some u') \<and> u' = u\<lparr>receive_buffer := receive_buffer u'\<rparr>"
proof -
  obtain lb' i where ir: "interface_receive (iface s) (Some (receive_buffer s)) ETHERNET_MAX_FRAME_SIZE (Some 0) =
      (Status.Ok, Some (f @ drop (length f) (receive_buffer s)), Some (length f), i)"
    and l: "loops lb' (s\<lparr>iface := i, receive_buffer := f @ drop (length f) (receive_buffer s)\<rparr>)" "lb_contents lb' = []"
    using loops_interface_receive(2) [OF s c] by blast
  define t where "t = s\<lparr>iface := i, receive_buffer := f @ drop (length f) (receive_buffer s)\<rparr>"
  have t: "loops lb' t" using l(1) by (simp add: t_def)
  have f: "f \<noteq> []" using lb_contents_frames [OF loopsD(2) [OF s], of f] c by simp
  have net: "same_net s t"
    using loopback_driver.evolves_interface_receive(1) [OF evolves_refl [OF loopsD(1) [OF s]] loopsD(3) [OF s] ir]
    by (simp add: evolves_def t_def)
  show thesis
  proof (rule that [OF loopsD(1) [OF t] net])
    show "same_table s t" by (simp add: t_def)
    fix u
    assume u: "receive (Some t) (Some f) (length f) = (Status.Ok, Some u)" "iface u = iface t"
    have rf: "receive_frame (Some (receive_buffer t)) (length f) t = (Status.Ok, u)"
    proof -
      have "receive_frame (Some f) (length f) t = (Status.Ok, u)"
        using u(1) by (auto simp: receive_def with_configured_ready [OF loopsD(1) [OF t]] split: prod.splits)
      moreover have "receive_buffer t = f @ drop (length f) (receive_buffer s)" by (simp add: t_def)
      ultimately show ?thesis by (simp only: receive_frame_local [OF f])
    qed
    have "evolves t u"
      using evolves_receive_frame [OF evolves_refl [OF loopsD(1) [OF t]], of "length f" "Some (receive_buffer t)"] rf by (simp add: t_def)
    then have lu: "loops lb' u"
      using t u(2) same_net_drives [of t u] by (auto simp: loops_def evolves_def)
    obtain b where b: "budget = Suc b" using budget by (cases budget) auto
    have rest: "\<exists>u'. poll_loop b 1 Status.Ok u = (Status.Ok, 1, u') \<and> u' = u\<lparr>receive_buffer := receive_buffer u'\<rparr>"
    proof (cases b)
      case (Suc c)
      have "u\<lparr>iface := iface u, receive_buffer := receive_buffer u\<rparr> = u" by simp
      then show ?thesis using loops_interface_receive(1) [OF lu l(2)] by (simp add: Suc)
    qed simp
    have "poll_loop budget 0 Status.Ok s = poll_loop b 1 Status.Ok u"
    proof -
      have "receive_buffer t = f @ drop (length f) (receive_buffer s)" by (simp add: t_def)
      then show ?thesis using ir rf unfolding b by (simp add: t_def [symmetric])
    qed
    with rest show "\<exists>u'. poll (Some s) budget (Some z) = (Status.Ok, Some 1, Some u') \<and> u' = u\<lparr>receive_buffer := receive_buffer u'\<rparr>"
      using readyD(7,8) [OF loopsD(1) [OF s]] by (auto simp: poll_def)
  qed
qed

text \<open>A host: a loopback interface, a stack on it, configured.\<close>

definition host :: "MacAddress \<Rightarrow> IPv4Address \<Rightarrow> LoopbackInterface option NetworkStack" where
  "host mac ip = the (snd (configure_ipv4 (snd (initialize_stack (Some zero_stack) (snd (initialize_loopback False mac))))
     \<lparr>address = ip, netmask = [255, 255, 255, 0], gateway = [0, 0, 0, 0]\<rparr>))"

definition host_address :: "IPv4Address \<Rightarrow> bool" where
  "host_address ip \<longleftrightarrow> is_ipv4 ip \<and> config_address_is_host ip [255, 255, 255, 0]"

lemma zero_loopback_inv: "lb_inv (zero_loopback\<lparr>lb_initialized := True\<rparr>)" "lb_contents (zero_loopback\<lparr>lb_initialized := True\<rparr>) = []"
  by (simp_all add: lb_inv_def zero_loopback_def lb_contents_def LOOPBACK_QUEUE_DEPTH_def)

lemma host_loops:
  assumes m: "is_mac mac" "mac_is_valid_unicast mac" and ip: "host_address ip"
  shows "loops (zero_loopback\<lparr>lb_initialized := True\<rparr>) (host mac ip)"
    "net_reachable loopback_transmit loopback_receive (host mac ip)"
    "config (host mac ip) = \<lparr>address = ip, netmask = [255, 255, 255, 0], gateway = [0, 0, 0, 0]\<rparr>" "own_mac (host mac ip) = mac"
    "iface (host mac ip) = snd (initialize_loopback False mac)"
proof -
  let ?c = "\<lparr>address = ip, netmask = [255, 255, 255, 0], gateway = [0, 0, 0, 0]\<rparr>"
  let ?i = "\<lparr>if_context = Some (zero_loopback\<lparr>lb_initialized := True\<rparr>), if_transmit = Some loopback_transmit,
    if_receive = Some loopback_receive, hardware_address = mac, mtu = ETHERNET_MTU\<rparr>"
  define s where "s = (zero_stack :: LoopbackInterface option NetworkStack)\<lparr>iface := Some ?i, next_identification := 1, initialized := True\<rparr>"
  have lo: "initialize_loopback False mac = (Status.Ok, Some ?i)" using m by (simp add: initialize_loopback_def)
  have ini: "initialize_stack (Some zero_stack) (Some ?i) = (Status.Ok, Some s)" using m by (simp add: initialize_stack_def s_def ETHERNET_MTU_def)
  have s: "stack_inv s" "initialized s" using initialize_stack_inv(1,2) [OF ini] m by simp_all
  have "netmask_is_contiguous [255, 255, 255, 0]" "ipv4_is_zero [0, 0, 0, 0]" by code_simp+
  then have "fst (configure_ipv4 (Some s) ?c) = Status.Ok" using s(2) ip by (simp add: configure_ipv4_def with_stack_def host_address_def)
  then have cf: "configure_ipv4 (Some s) ?c = (Status.Ok, Some (host mac ip))"
    using s(2) by (auto simp: host_def lo ini configure_ipv4_def with_stack_def split: if_splits prod.splits)
  have g: "is_ipv4 (gateway ?c)" "is_ipv4 (address ?c)" using ip by (simp_all add: IPV4_ADDRESS_LENGTH_def host_address_def)
  note h = configure_ipv4_inv [OF s(1) g(2,1) cf]
  have i: "iface (host mac ip) = Some ?i" using h(3) by (simp add: s_def)
  show "loops (zero_loopback\<lparr>lb_initialized := True\<rparr>) (host mac ip)"
    using h(2) i zero_loopback_inv by (simp add: loops_def drives_def)
  have "net_reachable loopback_transmit loopback_receive s" by (rule net_reachable.init [OF ini]) (use m in simp_all)
  then show "net_reachable loopback_transmit loopback_receive (host mac ip)" by (rule net_reachable.configure [OF _ g(2,1) cf])
  show "config (host mac ip) = ?c" "own_mac (host mac ip) = mac" "iface (host mac ip) = snd (initialize_loopback False mac)"
    using h(4) i by (simp_all add: own_mac_def lo)
qed

text \<open>A host that has learned one neighbour, and two concrete hosts.\<close>

definition acquainted :: "MacAddress \<Rightarrow> IPv4Address \<Rightarrow> MacAddress \<Rightarrow> IPv4Address \<Rightarrow> LoopbackInterface option NetworkStack" where
  "acquainted mac ip mac' ip' = snd (update_neighbor ip' mac' (host mac ip))"

lemma acquainted_ok:
  assumes m: "is_mac mac" "mac_is_valid_unicast mac" "host_address ip"
    and m': "is_mac mac'" "mac_is_valid_unicast mac'" "is_ipv4 ip'" "ipv4_is_valid_unicast ip'" "ip' \<noteq> ip"
    and net: "ipv4_on_same_network ip ip' [255, 255, 255, 0]"
  shows "ready (acquainted mac ip mac' ip')" "driver_accepts (acquainted mac ip mac' ip')" "address (config (acquainted mac ip mac' ip')) = ip"
    "own_mac (acquainted mac ip mac' ip') = mac" "stack_mtu (acquainted mac ip mac' ip') = 1500"
    "resolve_destination ip' (acquainted mac ip mac' ip') = (Status.Ok, Some mac', acquainted mac ip mac' ip')"
proof -
  note h = host_loops [OF m]
  have "\<not> conflict ip' mac' (host mac ip)" using m'(5) h(3) by (simp add: conflict_def)
  from update_neighbor_ready [OF loopsD(1) [OF h(1)] m'(3,1,4,2) this] obtain s where
    u: "update_neighbor ip' mac' (host mac ip) = (Status.Ok, s)" and s: "ready s" "same_net (host mac ip) s" "iface s = iface (host mac ip)"
    "map_option n_mac (find_neighbor s ip') = Some mac'" by metis
  have a: "acquainted mac ip mac' ip' = s" by (simp add: acquainted_def u)
  have cfg: "config s = \<lparr>address = ip, netmask = [255, 255, 255, 0], gateway = [0, 0, 0, 0]\<rparr>" using s(2) h(3) by (simp add: same_net_def)
  have "driver_accepts (host mac ip)"
    by (rule loops_accepts [OF h(1)]) (simp add: zero_loopback_def LOOPBACK_QUEUE_DEPTH_def)
  then show "driver_accepts (acquainted mac ip mac' ip')" using driver_accepts_cong [OF s(3)] a by simp
  show "ready (acquainted mac ip mac' ip')" "address (config (acquainted mac ip mac' ip')) = ip"
    "own_mac (acquainted mac ip mac' ip') = mac" "stack_mtu (acquainted mac ip mac' ip') = 1500"
    using a s cfg same_net_own_mac [OF s(2)] h(4,5) m by (simp_all add: initialize_loopback_def ETHERNET_MTU_def)
  obtain e where "find_neighbor s ip' = Some e" "n_mac e = mac'" using s(4) by auto
  then show "resolve_destination ip' (acquainted mac ip mac' ip') = (Status.Ok, Some mac', acquainted mac ip mac' ip')"
    using net cfg by (simp add: a resolve_destination_def Let_def)
qed

abbreviation mac1 :: MacAddress where "mac1 \<equiv> [2, 0, 0, 0, 0, 1]"
abbreviation mac2 :: MacAddress where "mac2 \<equiv> [2, 0, 0, 0, 0, 2]"
abbreviation ip1 :: IPv4Address where "ip1 \<equiv> [10, 0, 0, 1]"
abbreviation ip2 :: IPv4Address where "ip2 \<equiv> [10, 0, 0, 2]"

lemma concrete_addresses:
  "is_mac mac1" "is_mac mac2" "mac_is_valid_unicast mac1" "mac_is_valid_unicast mac2" "host_address ip1" "host_address ip2"
  "is_ipv4 ip1" "is_ipv4 ip2" "ipv4_is_valid_unicast ip1" "ipv4_is_valid_unicast ip2" "ip2 \<noteq> ip1"
  "ipv4_on_same_network ip1 ip2 [255, 255, 255, 0]"
  by code_simp+

lemmas host1 = host_loops [OF concrete_addresses(1,3,5)]
lemmas host2 = host_loops [OF concrete_addresses(2,4,6)]
lemmas acquainted1 = acquainted_ok [OF concrete_addresses(1,3,5,2,4,8,10,11,12)]

lemma send_ping_succeeds:
  assumes s: "ready s" and dst: "is_ipv4 dst" "ipv4_is_valid_unicast dst" and res: "resolve_destination dst s = (Status.Ok, Some dmac, s)"
    and drv: "driver_accepts s" "28 + length d \<le> stack_mtu s"
  obtains s' where "send_ping (Some s) dst i q (Some (d @ r)) (length d) = (Status.Ok, Some s')"
proof -
  have dm: "is_mac dmac" using resolve_ok(2) [OF s res] by simp
  obtain s' where ok: "send_icmp dmac dst IcmpEchoType_Request i q (Some (d @ r)) (length d) s = (Status.Ok, s')"
    by (rule send_icmp_succeeds [OF s dm dst(1) disjI1 [OF refl] drv])
  then have "\<not> ICMP_ECHO_MAX_PAYLOAD < length d" by (auto simp: send_icmp_def)
  then show thesis
    using res ok dst(2) by (intro that [of s'])
      (auto simp: send_ping_def with_configured_ready [OF s] resolve_destination_def Let_def split: if_splits option.splits prod.splits)
qed

text \<open>A destination that is not in the table.\<close>

lemma host_unknown:
  assumes m: "is_mac mac" "mac_is_valid_unicast mac" "host_address ip" and ip: "is_ipv4 ip'" "ip' \<noteq> ip"
  shows "find_neighbor (host mac ip) ip' = None"
proof -
  let ?e = "\<lparr>state = Reachable, n_ip = ip, n_mac = mac, update_sequence = 1\<rparr>"
  have "netmask_is_contiguous [255, 255, 255, 0]" "ipv4_is_zero [0, 0, 0, 0]" by code_simp+
  then have n: "neighbors (host mac ip) = fresh_table ?e"
    using m by (simp add: host_def initialize_loopback_def initialize_stack_def configure_ipv4_def with_stack_def host_address_def
        ETHERNET_MTU_def own_mac_def fresh_table_def)
  have "find_entry ip' (fresh_table ?e) = None"
    unfolding find_entry_def find_index_None_iff
  proof
    fix e
    assume "e \<in> set (fresh_table ?e)"
    then obtain k where k: "k < NEIGHBOR_TABLE_CAPACITY" "e = fresh_table ?e ! k" by (auto simp: in_set_conv_nth)
    then show "\<not> is_entry ip' e" using fresh_table_entry [OF k(1), of ip' ?e] ip(2) by (auto simp: is_entry_def)
  qed
  moreover have "\<forall>e \<in> set (neighbors (host mac ip)). neighbor_ok e"
    using loopsD(1) [OF host_loops(1) [OF m]] by (simp add: ready_def stack_inv_def)
  ultimately show ?thesis using find_entry_eq [of "neighbors (host mac ip)" ip'] ip(1) by (simp add: find_neighbor_def n)
qed

lemmas host1_unknown = host_unknown [OF concrete_addresses(1,3,5,8,11)]

lemma resolve_unknown:
  assumes s: "ready s" and drv: "driver_accepts s" and n: "find_neighbor s dst = None" "is_ipv4 dst"
    and net: "ipv4_on_same_network (address (config s)) dst (netmask (config s))"
  obtains m s' where "resolve_destination dst s = (Status.NeighborResolutionPending, m, s')"
proof -
  let ?a = "\<lparr>operation = ArpOperation_Request, sender_mac = own_mac s, sender_ip = address (config s), target_mac = ZERO_MAC, target_ip = dst\<rparr>"
  have ok: "arp_ok ?a" using s n(2) by (simp add: arp_ok_def readyD ZERO_MAC_def MAC_ADDRESS_LENGTH_def)
  have bc: "is_mac BROADCAST_MAC" by (simp add: BROADCAST_MAC_def MAC_ADDRESS_LENGTH_def)
  obtain u where "send_arp_packet BROADCAST_MAC ?a s = (Status.Ok, u)" by (rule send_arp_packet_succeeds [OF s bc ok drv])
  then show thesis using net n(1) by (intro that) (simp add: resolve_destination_def send_arp_request_def Let_def)
qed

end
