(* ===== verification/Net_Theorems.thy ===== *)
theory Net_Theorems
  imports Net_Loopback
begin

text \<open>
  The properties of the network stack: delivery between two stacks, the neighbour cache, the checksums,
  the memory safety of the parsers and serialisers.
\<close>

section \<open>Delivery\<close>

text \<open>
  C23. Delivery of UDP datagrams.  When \<open>send_udp\<close> of a configured stack \<open>A\<close> reports success for the address of a
  stack \<open>B\<close> whose hardware address \<open>A\<close> resolves, then \<open>A\<close>'s driver has accepted a frame such that \<open>B\<close>,
  receiving exactly these bytes, reports success, has the datagram in its inbox with the addresses, ports
  and payload that were sent, and knows \<open>A\<close>'s hardware address from then on.
\<close>

theorem udp_delivery:
  assumes A: "ready A" and B: "ready B" and c: "accepts B A"
    and route: "resolve_destination (address (config B)) A = (Status.Ok, Some (own_mac B), A)"
    and sent: "send_udp (Some A) (address (config B)) sp dp (Some (d @ r)) (length d) = (Status.Ok, Some A')"
  shows "\<exists>frame B' B''. transmits A A' frame \<and> receive (Some B) (Some frame) (length frame) = (Status.Ok, Some B') \<and>
    take_udp_datagram (Some B') (Some v) = (Status.Ok, Some \<lparr>ud_valid = True, ud_source = address (config A),
       ud_destination = address (config B), ud_source_port = sp, ud_destination_port = dp,
       ud_payload = d @ replicate (TRANSPORT_INBOX_CAPACITY - length d) 0, ud_payload_length = length d\<rparr>, Some B'') \<and>
    map_option n_mac (find_neighbor B' (address (config A))) = Some (own_mac A)"
proof -
  let ?frame = "ipv4_frame A (own_mac B) (address (config B)) IPV4_PROTOCOL_UDP (udp_bytes (address (config A)) (address (config B)) sp dp d)"
  let ?got = "\<lparr>ud_valid = True, ud_source = address (config A), ud_destination = address (config B), ud_source_port = sp,
       ud_destination_port = dp, ud_payload = d @ replicate (TRANSPORT_INBOX_CAPACITY - length d) 0, ud_payload_length = length d\<rparr>"
  note tx = send_udp_ok [OF A readyD(5) [OF B] sent route]
  show ?thesis
  proof (rule udp_received [OF A B c tx(3,4,2) refl])
    fix B'
    assume "receive (Some B) (Some ?frame) (length ?frame) = (Status.Ok, Some B')" "initialized B'" "last_udp_datagram B' = ?got"
      "map_option n_mac (find_neighbor B' (address (config A))) = Some (own_mac A)"
    moreover from this have "\<exists>B''. take_udp_datagram (Some B') (Some v) = (Status.Ok, Some ?got, Some B'')" by (simp add: take_udp_datagram_def)
    ultimately show ?thesis using tx(1) by blast
  qed
qed

theorem udp_delivery_witness:
  "\<exists>A' frame B' B''. send_udp (Some (acquainted mac1 ip1 mac2 ip2)) ip2 4000 53 (Some [104, 105]) 2 = (Status.Ok, Some A') \<and>
    transmits (acquainted mac1 ip1 mac2 ip2) A' frame \<and> receive (Some (host mac2 ip2)) (Some frame) (length frame) = (Status.Ok, Some B') \<and>
    take_udp_datagram (Some B') (Some zero_udp) = (Status.Ok, Some \<lparr>ud_valid = True, ud_source = ip1, ud_destination = ip2,
      ud_source_port = 4000, ud_destination_port = 53, ud_payload = [104, 105] @ replicate (TRANSPORT_INBOX_CAPACITY - 2) 0,
      ud_payload_length = 2\<rparr>, Some B'')"
proof -
  let ?A = "acquainted mac1 ip1 mac2 ip2" and ?B = "host mac2 ip2"
  obtain A' where s: "send_udp (Some ?A) ip2 4000 53 (Some ([104, 105] @ [])) (length [104, 105 :: u8]) = (Status.Ok, Some A')"
    by (rule send_udp_succeeds [OF acquainted1(1) concrete_addresses(8,10) acquainted1(6) _ _ acquainted1(2), of 4000 53 "[104, 105]"])
      (simp_all add: acquainted1(5))
  have "accepts ?B ?A" by (simp add: accepts_def acquainted1 host2)
  from udp_delivery [OF acquainted1(1) loopsD(1) [OF host2(1)] this, of 4000 53 "[104, 105]" "[]" A' zero_udp] s
  show ?thesis by (auto simp: acquainted1 host2 numeral_2_eq_2)
qed

text \<open>
  C24. Delivery of TCP segments, as for UDP: the segment arrives with its ports, sequence and acknowledgement
  numbers, flags, window and payload.
\<close>

theorem tcp_delivery:
  assumes A: "ready A" and B: "ready B" and c: "accepts B A"
    and route: "resolve_destination (address (config B)) A = (Status.Ok, Some (own_mac B), A)"
    and sent: "send_tcp (Some A) (address (config B)) sp dp q a f w (Some (d @ r)) (length d) = (Status.Ok, Some A')"
  shows "\<exists>frame B' B''. transmits A A' frame \<and> receive (Some B) (Some frame) (length frame) = (Status.Ok, Some B') \<and>
    take_tcp_segment (Some B') (Some v) = (Status.Ok, Some \<lparr>ts_valid = True, ts_source = address (config A),
       ts_destination = address (config B), ts_source_port = sp, ts_destination_port = dp, ts_sequence = q,
       ts_acknowledgement = a, ts_flags = f, ts_window = w,
       ts_payload = d @ replicate (TRANSPORT_INBOX_CAPACITY - length d) 0, ts_payload_length = length d\<rparr>, Some B'') \<and>
    map_option n_mac (find_neighbor B' (address (config A))) = Some (own_mac A)"
proof -
  let ?frame = "ipv4_frame A (own_mac B) (address (config B)) IPV4_PROTOCOL_TCP (tcp_bytes (address (config A)) (address (config B)) sp dp q a f w d)"
  let ?got = "\<lparr>ts_valid = True, ts_source = address (config A), ts_destination = address (config B), ts_source_port = sp,
       ts_destination_port = dp, ts_sequence = q, ts_acknowledgement = a, ts_flags = f, ts_window = w,
       ts_payload = d @ replicate (TRANSPORT_INBOX_CAPACITY - length d) 0, ts_payload_length = length d\<rparr>"
  note tx = send_tcp_ok [OF A readyD(5) [OF B] sent route]
  show ?thesis
  proof (rule tcp_received [OF A B c tx(3,4,2) refl, of q a f w])
    fix B'
    assume "receive (Some B) (Some ?frame) (length ?frame) = (Status.Ok, Some B')" "initialized B'" "last_tcp_segment B' = ?got"
      "map_option n_mac (find_neighbor B' (address (config A))) = Some (own_mac A)"
    moreover from this have "\<exists>B''. take_tcp_segment (Some B') (Some v) = (Status.Ok, Some ?got, Some B'')" by (simp add: take_tcp_segment_def)
    ultimately show ?thesis using tx(1) by blast
  qed
qed

theorem tcp_delivery_witness:
  "\<exists>A' frame B' B''. send_tcp (Some (acquainted mac1 ip1 mac2 ip2)) ip2 4000 80 7 9 0x18 512 (Some [71]) 1 = (Status.Ok, Some A') \<and>
    transmits (acquainted mac1 ip1 mac2 ip2) A' frame \<and> receive (Some (host mac2 ip2)) (Some frame) (length frame) = (Status.Ok, Some B') \<and>
    take_tcp_segment (Some B') (Some zero_tcp) = (Status.Ok, Some \<lparr>ts_valid = True, ts_source = ip1, ts_destination = ip2,
      ts_source_port = 4000, ts_destination_port = 80, ts_sequence = 7, ts_acknowledgement = 9, ts_flags = 0x18, ts_window = 512,
      ts_payload = [71] @ replicate (TRANSPORT_INBOX_CAPACITY - 1) 0, ts_payload_length = 1\<rparr>, Some B'')"
proof -
  let ?A = "acquainted mac1 ip1 mac2 ip2" and ?B = "host mac2 ip2"
  obtain A' where s: "send_tcp (Some ?A) ip2 4000 80 7 9 0x18 512 (Some ([71] @ [])) (length [71 :: u8]) = (Status.Ok, Some A')"
    by (rule send_tcp_succeeds [OF acquainted1(1) concrete_addresses(8,10) acquainted1(6) _ _ acquainted1(2), of 4000 80 "[71]"])
      (simp_all add: acquainted1(5))
  have "accepts ?B ?A" by (simp add: accepts_def acquainted1 host2)
  from tcp_delivery [OF acquainted1(1) loopsD(1) [OF host2(1)] this, of 4000 80 7 9 "0x18" 512 "[71]" "[]" A' zero_tcp] s
  show ?thesis by (auto simp: acquainted1 host2)
qed

text \<open>
  C25. Echo.  When \<open>send_ping\<close> succeeds, the addressed stack, if its driver accepts the reply, processes the request
  successfully and puts a reply on the wire; the sender, receiving the reply, records it with the
  identifier, sequence number and payload length of the request.
\<close>

theorem ping_round_trip:
  assumes A: "ready A" and B: "ready B" and c: "accepts B A" "accepts A B"
    and route: "resolve_destination (address (config B)) A = (Status.Ok, Some (own_mac B), A)"
    and sent: "send_ping (Some A) (address (config B)) i q (Some (d @ r)) (length d) = (Status.Ok, Some A')"
    and drv: "driver_accepts B" "28 + length d \<le> stack_mtu B"
  shows "\<exists>request B' reply A''. transmits A A' request \<and> receive (Some B) (Some request) (length request) = (Status.Ok, Some B') \<and>
      transmits B B' reply \<and> receive (Some A') (Some reply) (length reply) = (Status.Ok, Some A'') \<and>
      get_last_ping_reply (Some A'') (Some v) = (Status.Ok, Some \<lparr>ping_valid = True, ping_source = address (config B),
        ping_identifier = i, ping_sequence = q, ping_payload_length = length d\<rparr>)"
proof -
  let ?a = "address (config A)" and ?b = "address (config B)"
  let ?req = "ipv4_frame A (own_mac B) ?b IPV4_PROTOCOL_ICMP (icmp_bytes IcmpEchoType_Request i q d)"
  have icmp: "send_icmp (own_mac B) ?b IcmpEchoType_Request i q (Some (d @ r)) (length d) A = (Status.Ok, A')"
    using sent route unfolding send_ping_def with_configured_ready [OF A] resolve_destination_def Let_def
    by (auto split: if_splits option.splits prod.splits)
  note tx = send_icmp_ok [OF A readyD(3) [OF B] readyD(5) [OF B] disjI1 [OF refl] icmp]
  have len: "length (icmp_bytes t i q d) \<le> 1480" for t using tx(2) by (simp add: net_sizes ICMP_ECHO_MAX_PAYLOAD_def)
  have A': "ready A'" using ready_same [OF A tx(3,4)] .
  have own: "own_mac A' = own_mac A" "address (config A') = ?a" using same_net_own_mac [OF tx(3)] tx(3) by (simp_all add: same_net_def)
  obtain B1 where B1: "ready B1" "same_net B B1" "iface B1 = iface B"
    and rx: "receive (Some B) (Some ?req) (length ?req) =
     (let (st, t) = dispatch (own_mac A) (ipv4_view (stack_header A ?b IPV4_PROTOCOL_ICMP) (icmp_bytes IcmpEchoType_Request i q d)) B1
      in (st, Some (if st \<noteq> Status.Ok then record_receive_failure st t else t)))"
    by (rule receive_stack_frame [OF A B c(1) len, of IPV4_PROTOCOL_ICMP]) blast
  have ownB: "own_mac B1 = own_mac B" "address (config B1) = ?b" using same_net_own_mac [OF B1(2)] B1(2) by (simp_all add: same_net_def)
  let ?B2 = "count echo_requests_received_update (count icmp_received_update B1)"
  note req = dispatch_icmp [OF disjI1 [OF refl], of "own_mac A" A ?b i q d B1, simplified]
  have B2: "ready ?B2" "driver_accepts ?B2" "28 + length d \<le> stack_mtu ?B2"
    using B1(1,3) drv driver_accepts_cong [of ?B2 B] by simp_all
  obtain B' where B': "send_icmp (own_mac A) ?a IcmpEchoType_Reply i q (Some (d @ [])) (length d) ?B2 = (Status.Ok, B')"
    by (rule send_icmp_succeeds [OF B2(1) readyD(3) [OF A] readyD(5) [OF A] disjI2 [OF refl] B2(2,3)])
  then have r: "receive (Some B) (Some ?req) (length ?req) = (Status.Ok, Some B')" unfolding rx req by simp
  let ?rep = "ipv4_frame ?B2 (own_mac A') (address (config A')) IPV4_PROTOCOL_ICMP (icmp_bytes IcmpEchoType_Reply i q d)"
  note ty = send_icmp_ok [OF B2(1) readyD(3) [OF A] readyD(5) [OF A] disjI2 [OF refl] B']
  have tr: "transmits B B' ?rep" using transmits_from [OF ty(1), of B B'] B1(3) own by simp
  have acc: "accepts A' ?B2" using c(2) own ownB by (simp add: accepts_def)
  obtain A1 where A1: "ready A1" and rx': "receive (Some A') (Some ?rep) (length ?rep) =
     (let (st, t) = dispatch (own_mac ?B2) (ipv4_view (stack_header ?B2 (address (config A')) IPV4_PROTOCOL_ICMP) (icmp_bytes IcmpEchoType_Reply i q d)) A1
      in (st, Some (if st \<noteq> Status.Ok then record_receive_failure st t else t)))"
    by (rule receive_stack_frame [OF B2(1) A' acc len, of IPV4_PROTOCOL_ICMP]) blast
  let ?pr = "\<lparr>ping_valid = True, ping_source = ?b, ping_identifier = i, ping_sequence = q, ping_payload_length = length d\<rparr>"
  let ?A2 = "count echo_replies_received_update (count icmp_received_update A1)\<lparr>last_ping_reply := ?pr\<rparr>"
  have "dispatch (own_mac ?B2) (ipv4_view (stack_header ?B2 (address (config A')) IPV4_PROTOCOL_ICMP) (icmp_bytes IcmpEchoType_Reply i q d)) A1 = (Status.Ok, ?A2)"
    using ownB by (simp add: dispatch_icmp IcmpEchoType_Reply_def IcmpEchoType_Request_def)
  then have "receive (Some A') (Some ?rep) (length ?rep) = (Status.Ok, Some ?A2)" using rx' by simp
  moreover have "get_last_ping_reply (Some ?A2) (Some v) = (Status.Ok, Some ?pr)"
    using readyD(7) [OF A1] by (simp add: get_last_ping_reply_def)
  ultimately show ?thesis using tx(1) r tr by blast
qed

theorem ping_round_trip_witness:
  "\<exists>A' request B' reply A''. send_ping (Some (acquainted mac1 ip1 mac2 ip2)) ip2 77 1 (Some [1, 2, 3]) 3 = (Status.Ok, Some A') \<and>
    transmits (acquainted mac1 ip1 mac2 ip2) A' request \<and> receive (Some (host mac2 ip2)) (Some request) (length request) = (Status.Ok, Some B') \<and>
    transmits (host mac2 ip2) B' reply \<and> receive (Some A') (Some reply) (length reply) = (Status.Ok, Some A'') \<and>
    get_last_ping_reply (Some A'') (Some zero_ping) = (Status.Ok, Some \<lparr>ping_valid = True, ping_source = ip2,
      ping_identifier = 77, ping_sequence = 1, ping_payload_length = 3\<rparr>)"
proof -
  let ?A = "acquainted mac1 ip1 mac2 ip2" and ?B = "host mac2 ip2"
  obtain A' where s: "send_ping (Some ?A) ip2 77 1 (Some ([1, 2, 3] @ [])) (length [1, 2, 3 :: u8]) = (Status.Ok, Some A')"
    by (rule send_ping_succeeds [OF acquainted1(1) concrete_addresses(8,10) acquainted1(6,2), of "[1, 2, 3]"]) (simp add: acquainted1(5))
  have c: "accepts ?B ?A" "accepts ?A ?B" by (simp_all add: accepts_def acquainted1 host2)
  have "driver_accepts ?B" by (rule loops_accepts [OF host2(1)]) (simp add: zero_loopback_def LOOPBACK_QUEUE_DEPTH_def)
  moreover have "stack_mtu ?B = 1500" by (simp add: host2(5) initialize_loopback_def concrete_addresses(4) ETHERNET_MTU_def)
  ultimately show ?thesis
    using ping_round_trip [OF acquainted1(1) loopsD(1) [OF host2(1)] c, of 77 1 "[1, 2, 3]" "[]" A' zero_ping] s
    by (auto simp: acquainted1 host2 numeral_3_eq_3)
qed

text \<open>An ARP packet from stack \<open>S\<close> that asks for, or answers, stack \<open>s\<close>.\<close>

lemma arp_received:
  assumes s: "ready s" and S: "ready S" and a: "arp_ok a" "sender_mac a = own_mac S" "sender_ip a = address (config S)"
    and t: "target_ip a = address (config s)" "operation a = ArpOperation_Reply \<Longrightarrow> target_mac a = own_mac s"
    and d: "dmac = own_mac s \<or> dmac = BROADCAST_MAC" and c: "accepts s S"
  obtains s1 where "ready s1" "same_net s s1" "iface s1 = iface s" "map_option n_mac (find_neighbor s1 (address (config S))) = Some (own_mac S)"
    "receive (Some s) (Some (arp_frame S dmac a)) (length (arp_frame S dmac a)) =
      (let (st, t) = (if operation a = ArpOperation_Reply then (Status.Ok, s1) else send_arp_reply a s1)
       in (st, Some (if st \<noteq> Status.Ok then record_receive_failure st t else t)))"
proof -
  let ?p = "arp_bytes a"
  have len: "length ?p = 28" using a(1) by (simp add: arp_ok_def)
  let ?v = "\<lparr>eth_destination = dmac, eth_source = own_mac S, ether_type = ETHER_TYPE_ARP, eth_payload = Some ?p, eth_payload_length = length ?p\<rparr>"
  obtain s0 where s0: "ready s0" "same_net s s0" "s0 = s\<lparr>stats := stats s0\<rparr>"
    "receive_frame (Some (arp_frame S dmac a)) (length (arp_frame S dmac a)) s =
      (let (st, t) = handle_arp ?v s0 in (st, if st \<noteq> Status.Ok then record_receive_failure st t else t))"
    using receive_ethernet [OF s d readyD(3,4) [OF S], of ?p ETHER_TYPE_ARP "arp_frame S dmac a"] len
    by (auto simp: arp_frame_def)
  define s0' where "s0' = count arp_received_update s0"
  have own: "own_mac s0' = own_mac s" "address (config s0') = address (config s)" "iface s0' = iface s"
    using same_net_own_mac [OF s0(2)] s0(2) arg_cong [OF s0(3), of iface] by (simp_all add: s0'_def same_net_def)
  have "ready s0'" using s0(1) by (simp add: s0'_def)
  moreover have "\<not> conflict (address (config S)) (own_mac S) s0'" using c own by (simp add: conflict_def accepts_def)
  ultimately obtain s1 where
    s1: "update_neighbor (address (config S)) (own_mac S) s0' = (Status.Ok, s1)" "ready s1" "same_net s0' s1" "iface s1 = iface s0'"
    "map_option n_mac (find_neighbor s1 (address (config S))) = Some (own_mac S)"
    using readyD [OF S] update_neighbor_ready [of s0' "address (config S)" "own_mac S"] by metis
  have "parse_arp (Some ?p) (length ?p) (Some zero_arp) = (Status.Ok, Some a)"
    using parse_arp_wire [of a "length ?p" "[]" zero_arp] a(1) len by (simp add: arp_ok_def)
  moreover have "address (config s1) = address (config s)" using s1(3) own by (simp add: same_net_def)
  ultimately have "handle_arp ?v s0 = (if operation a = ArpOperation_Reply then (Status.Ok, s1) else send_arp_reply a s1)"
    unfolding handle_arp_def Let_def s0'_def [symmetric]
    using a t own s1(1) readyD [OF S] readyD(3,5) [OF s] by (simp add: mac_equal_eq ipv4_equal_eq)
  with s0(4) have "receive (Some s) (Some (arp_frame S dmac a)) (length (arp_frame S dmac a)) =
      (let (st, t) = (if operation a = ArpOperation_Reply then (Status.Ok, s1) else send_arp_reply a s1)
       in (st, Some (if st \<noteq> Status.Ok then record_receive_failure st t else t)))"
    by (simp add: receive_def with_configured_ready [OF s] Let_def split: prod.splits)
  moreover have "same_net s s1" using same_net_trans [OF s0(2)] s1(3) same_net_trans [of s0 s0' s1] by (simp add: s0'_def)
  ultimately show thesis using s1 own(3) by (intro that [of s1]) simp_all
qed

text \<open>The host a packet for \<open>dst\<close> goes to: the destination, or the gateway when it is on another network.\<close>

definition next_hop :: "'c NetworkStack \<Rightarrow> IPv4Address \<Rightarrow> IPv4Address" where
  "next_hop s dst = (if ipv4_on_same_network (address (config s)) dst (netmask (config s)) then dst else gateway (config s))"

lemma transmit_not_pending: "transmit_stack_frame n s = (st, t) \<Longrightarrow> st \<noteq> Status.NeighborResolutionPending"
  by (auto simp: transmit_stack_frame_def interface_transmit_def Let_def split: option.splits prod.splits if_splits)

lemma arp_request_sent:
  assumes A: "ready A" and hop: "is_ipv4 (next_hop A dst)"
    and pending: "resolve_destination dst A = (Status.NeighborResolutionPending, m, A')"
  shows "transmits A A' (arp_frame A BROADCAST_MAC \<lparr>operation = ArpOperation_Request, sender_mac = own_mac A,
      sender_ip = address (config A), target_mac = ZERO_MAC, target_ip = next_hop A dst\<rparr>)"
    "same_net A A'" "same_table A A'" "ipv4_on_same_network (address (config A)) dst (netmask (config A)) \<or> \<not> ipv4_is_zero (gateway (config A))"
proof -
  let ?a = "\<lparr>operation = ArpOperation_Request, sender_mac = own_mac A, sender_ip = address (config A), target_mac = ZERO_MAC,
    target_ip = next_hop A dst\<rparr>"
  have ok: "arp_ok ?a" using A hop by (simp add: arp_ok_def readyD ZERO_MAC_def MAC_ADDRESS_LENGTH_def)
  have bc: "is_mac BROADCAST_MAC" by (simp add: BROADCAST_MAC_def MAC_ADDRESS_LENGTH_def)
  have np: "fst (send_arp_packet BROADCAST_MAC ?a A) \<noteq> Status.NeighborResolutionPending"
    unfolding send_arp_packet_eq [OF A bc ok]
    by (simp split: prod.splits) (blast dest: transmit_not_pending)
  obtain u where u: "send_arp_packet BROADCAST_MAC ?a A = (Status.Ok, u)" and A': "A' = count arp_resolution_requests_update u"
    and gw: "ipv4_on_same_network (address (config A)) dst (netmask (config A)) \<or> \<not> ipv4_is_zero (gateway (config A))"
    using pending np unfolding resolve_destination_def Let_def next_hop_def [symmetric] send_arp_request_def
    by (auto split: if_splits option.splits prod.splits)
  note r = send_arp_packet_ok [OF A bc ok u]
  show "transmits A A' (arp_frame A BROADCAST_MAC ?a)" using transmits_from [OF r(1)] by (simp add: A')
  show "same_net A A'" "same_table A A'" using r(2,3) by (simp_all add: A' same_net_def)
  show "ipv4_on_same_network (address (config A)) dst (netmask (config A)) \<or> \<not> ipv4_is_zero (gateway (config A))" by fact
qed

text \<open>
  C26. Address resolution.  When a destination's next hop is unknown, the send operations put an ARP request
  on the wire and report that resolution is pending.  The stack that owns the next hop's address, if its
  driver accepts the frame, answers it, and learns the sender; the sender, receiving the answer, resolves the destination to that stack's
  hardware address.
\<close>

theorem arp_resolution:
  assumes A: "ready A" and B: "ready B" and c: "accepts B A" "accepts A B"
    and hop: "next_hop A dst = address (config B)"
    and pending: "resolve_destination dst A = (Status.NeighborResolutionPending, m, A')" and drv: "driver_accepts B"
  shows "\<exists>request B' reply A''. transmits A A' request \<and> receive (Some B) (Some request) (length request) = (Status.Ok, Some B') \<and>
      transmits B B' reply \<and> receive (Some A') (Some reply) (length reply) = (Status.Ok, Some A'') \<and>
      resolve_destination dst A'' = (Status.Ok, Some (own_mac B), A'') \<and>
      map_option n_mac (find_neighbor B' (address (config A))) = Some (own_mac A)"
proof -
  let ?q = "\<lparr>operation = ArpOperation_Request, sender_mac = own_mac A, sender_ip = address (config A), target_mac = ZERO_MAC,
    target_ip = next_hop A dst\<rparr>"
  let ?req = "arp_frame A BROADCAST_MAC ?q"
  let ?r = "\<lparr>operation = ArpOperation_Reply, sender_mac = own_mac B, sender_ip = address (config B), target_mac = own_mac A,
    target_ip = address (config A)\<rparr>"
  let ?rep = "arp_frame B (own_mac A) ?r"
  have "is_ipv4 (next_hop A dst)" using hop readyD(5) [OF B] by simp
  note tx = arp_request_sent [OF A this pending]
  have A': "ready A'" using ready_same [OF A tx(2,3)] .
  have own: "own_mac A' = own_mac A" "config A' = config A" using same_net_own_mac [OF tx(2)] tx(2) by (simp_all add: same_net_def)
  have ne: "ArpOperation_Request \<noteq> ArpOperation_Reply" by (simp add: ArpOperation_Request_def ArpOperation_Reply_def)
  have ok: "arp_ok ?q" "arp_ok ?r"
    using A B hop by (simp_all add: arp_ok_def readyD ZERO_MAC_def MAC_ADDRESS_LENGTH_def)
  obtain B1 where B1: "ready B1" "same_net B B1" "iface B1 = iface B" "map_option n_mac (find_neighbor B1 (address (config A))) = Some (own_mac A)"
    and rx: "receive (Some B) (Some ?req) (length ?req) = (let (st, t) = send_arp_reply ?q B1
      in (st, Some (if st \<noteq> Status.Ok then record_receive_failure st t else t)))"
    by (rule arp_received [OF B A ok(1), of BROADCAST_MAC]) (use hop c(1) ne in \<open>simp_all\<close>)
  have ownB: "own_mac B1 = own_mac B" "config B1 = config B" using same_net_own_mac [OF B1(2)] B1(2) by (simp_all add: same_net_def)
  obtain A1 where A1: "ready A1" "same_net A' A1" "map_option n_mac (find_neighbor A1 (address (config B))) = Some (own_mac B)"
    and rx': "receive (Some A') (Some ?rep) (length ?rep) = (Status.Ok, Some A1)"
    by (rule arp_received [OF A' B ok(2), of "own_mac A"]) (use own c(2) in \<open>simp_all add: accepts_def\<close>)
  have cfg: "config A1 = config A" using A1(2) own by (simp add: same_net_def)
  then have "next_hop A1 dst = address (config B)" using hop by (auto simp: next_hop_def)
  then have res: "resolve_destination dst A1 = (Status.Ok, Some (own_mac B), A1)"
    using A1(3) tx(4) cfg unfolding resolve_destination_def Let_def next_hop_def [symmetric] by auto
  have drv1: "driver_accepts B1" using drv driver_accepts_cong [OF B1(3)] by simp
  obtain B' where B': "send_arp_packet (own_mac A) ?r B1 = (Status.Ok, B')"
    by (rule send_arp_packet_succeeds [OF B1(1) readyD(3) [OF A] ok(2) drv1])
  then have "receive (Some B) (Some ?req) (length ?req) = (Status.Ok, Some B')" unfolding rx by (simp add: send_arp_reply_def ownB)
  moreover from send_arp_packet_ok [OF B1(1) readyD(3) [OF A] ok(2) B']
  have "transmits B B' ?rep" "map_option n_mac (find_neighbor B' (address (config A))) = Some (own_mac A)"
    using B1(3,4) ownB transmits_cong [of B1 B B' B'] by (simp_all add: arp_frame_def find_neighbor_def)
  ultimately show ?thesis using tx(1) rx' res by blast
qed

theorem arp_resolution_witness:
  "\<exists>m A' request B' reply A''. resolve_destination ip2 (host mac1 ip1) = (Status.NeighborResolutionPending, m, A') \<and>
    transmits (host mac1 ip1) A' request \<and> receive (Some (host mac2 ip2)) (Some request) (length request) = (Status.Ok, Some B') \<and>
    transmits (host mac2 ip2) B' reply \<and> receive (Some A') (Some reply) (length reply) = (Status.Ok, Some A'') \<and>
    resolve_destination ip2 A'' = (Status.Ok, Some mac2, A'') \<and> map_option n_mac (find_neighbor B' ip1) = Some mac1"
proof -
  have c: "accepts (host mac2 ip2) (host mac1 ip1)" "accepts (host mac1 ip1) (host mac2 ip2)" by (simp_all add: accepts_def host1 host2)
  have hop: "next_hop (host mac1 ip1) ip2 = address (config (host mac2 ip2))"
    by (simp add: next_hop_def host1 host2 concrete_addresses(12))
  have drv: "driver_accepts (host mac1 ip1)" "driver_accepts (host mac2 ip2)"
    by (rule loops_accepts [OF host1(1)] loops_accepts [OF host2(1)], simp add: zero_loopback_def LOOPBACK_QUEUE_DEPTH_def)+
  obtain m A' where "resolve_destination ip2 (host mac1 ip1) = (Status.NeighborResolutionPending, m, A')"
    by (rule resolve_unknown [OF loopsD(1) [OF host1(1)] drv(1) host1_unknown concrete_addresses(8)]) (simp_all add: host1 concrete_addresses(12))
  then show ?thesis
    using arp_resolution [OF loopsD(1) [OF host1(1)] loopsD(1) [OF host2(1)] c hop _ drv(2)] by (auto simp: host1 host2)
qed

section \<open>The stack on the loopback interface\<close>

text \<open>
  C27. A host reaches itself.  When the loopback queue of a configured host is empty, \<open>send_udp\<close> to the host's own
  address succeeds for every payload that fits the MTU, and the next \<open>poll\<close>, with any positive budget,
  processes one frame, reports success and leaves the datagram in the inbox.
\<close>

theorem loopback_self_delivery:
  assumes s: "loops lb s" and empty: "lb_contents lb = []" and ports: "sp \<noteq> 0" "dp \<noteq> 0"
    and fits: "28 + length d \<le> stack_mtu s" and budget: "0 < budget"
  shows "\<exists>s1 s2 s3. send_udp (Some s) (address (config s)) sp dp (Some (d @ r)) (length d) = (Status.Ok, Some s1) \<and>
    poll (Some s1) budget (Some z) = (Status.Ok, Some 1, Some s2) \<and>
    take_udp_datagram (Some s2) (Some v) = (Status.Ok, Some \<lparr>ud_valid = True, ud_source = address (config s),
       ud_destination = address (config s), ud_source_port = sp, ud_destination_port = dp,
       ud_payload = d @ replicate (TRANSPORT_INBOX_CAPACITY - length d) 0, ud_payload_length = length d\<rparr>, Some s3)"
proof -
  let ?a = "address (config s)"
  let ?body = "udp_bytes ?a ?a sp dp d"
  let ?frame = "ipv4_frame s (own_mac s) ?a IPV4_PROTOCOL_UDP ?body"
  let ?got = "\<lparr>ud_valid = True, ud_source = ?a, ud_destination = ?a, ud_source_port = sp, ud_destination_port = dp,
       ud_payload = d @ replicate (TRANSPORT_INBOX_CAPACITY - length d) 0, ud_payload_length = length d\<rparr>"
  note r = loopsD(1) [OF s]
  have "lb_count lb < LOOPBACK_QUEUE_DEPTH" using length_lb_contents [of lb] empty by (simp add: LOOPBACK_QUEUE_DEPTH_def)
  note room = this and drv = loops_accepts [OF s this]
  obtain s1 where sent: "send_udp (Some s) ?a sp dp (Some (d @ r)) (length d) = (Status.Ok, Some s1)"
    by (rule send_udp_succeeds [OF r readyD(5,6) [OF r] resolve_self [OF r] ports drv fits])
  note tx = send_udp_ok [OF r readyD(5) [OF r] sent resolve_self [OF r]]
  have len: "length ?frame = 42 + length d" using length_ipv4_frame [OF r readyD(3,5) [OF r]] by simp
  moreover have "length d \<le> 1472" using tx(2) by (simp add: transport_sizes)
  ultimately have f: "?frame \<noteq> []" "length ?frame \<le> ETHERNET_MAX_FRAME_SIZE" by (auto simp: net_sizes)
  obtain lb' where l1: "loops lb' s1" "lb_contents lb' = [?frame]"
    using loops_transmits [OF s room f tx(1,5,6)] empty by auto
  obtain t where t: "ready t" "same_net s1 t" "same_table s1 t"
    and poll: "\<And>u. receive (Some t) (Some ?frame) (length ?frame) = (Status.Ok, Some u) \<Longrightarrow> iface u = iface t \<Longrightarrow>
       \<exists>u'. poll (Some s1) budget (Some z) = (Status.Ok, Some 1, Some u') \<and> u' = u\<lparr>receive_buffer := receive_buffer u'\<rparr>"
    using poll_one [OF l1 budget] by blast
  have net: "same_net s t" using same_net_trans [OF tx(5) t(2)] .
  have own: "own_mac t = own_mac s" "address (config t) = ?a" using same_net_own_mac [OF net] net by (simp_all add: same_net_def)
  have acc: "accepts t s" by (simp add: accepts_def own)
  have frame: "?frame = ipv4_frame s (own_mac t) (address (config t)) IPV4_PROTOCOL_UDP (udp_bytes ?a (address (config t)) sp dp d)"
    by (simp add: own)
  obtain u where u: "receive (Some t) (Some ?frame) (length ?frame) = (Status.Ok, Some u)" "initialized u" "iface u = iface t"
    "last_udp_datagram u = ?got"
    by (rule udp_received [OF r t(1) acc ports tx(2) frame]) (simp add: own)
  from poll [OF u(1,3)] obtain s2 where s2: "poll (Some s1) budget (Some z) = (Status.Ok, Some 1, Some s2)" "s2 = u\<lparr>receive_buffer := receive_buffer s2\<rparr>"
    by blast
  have "initialized s2" "last_udp_datagram s2 = ?got"
    using arg_cong [OF s2(2), of initialized] arg_cong [OF s2(2), of last_udp_datagram] u(2,4) by simp_all
  then have "\<exists>s3. take_udp_datagram (Some s2) (Some v) = (Status.Ok, Some ?got, Some s3)" by (simp add: take_udp_datagram_def)
  with sent s2(1) show ?thesis by blast
qed

theorem loopback_self_delivery_witness:
  "\<exists>s1 s2 s3. send_udp (Some (host mac1 ip1)) ip1 1 2 (Some [9]) 1 = (Status.Ok, Some s1) \<and>
    poll (Some s1) 16 (Some 0) = (Status.Ok, Some 1, Some s2) \<and>
    take_udp_datagram (Some s2) (Some zero_udp) = (Status.Ok, Some \<lparr>ud_valid = True, ud_source = ip1, ud_destination = ip1,
      ud_source_port = 1, ud_destination_port = 2, ud_payload = [9] @ replicate (TRANSPORT_INBOX_CAPACITY - 1) 0,
      ud_payload_length = 1\<rparr>, Some s3)"
proof -
  have "28 + length [9 :: u8] \<le> stack_mtu (host mac1 ip1)"
    by (simp add: host1(5) initialize_loopback_def concrete_addresses(3) ETHERNET_MTU_def)
  from loopback_self_delivery [OF host1(1) zero_loopback_inv(2) _ _ this, of 1 2 16 "[]" 0 zero_udp] show ?thesis
    by (simp add: host1)
qed

text \<open>
  C28. The invariant of the stack.  On every driver whose receive function fills the buffer it is given, whatever
  frames arrive and whatever operations are called, in any order: the packet buffers keep their size, the
  neighbour table keeps its 16 entries; and once configured, its first entry is the stack's own address
  with its own hardware address, which is never evicted or replaced, no address has two entries, and
  the eviction cursor stays within 1 to 15.
\<close>

theorem network_stack_invariant:
  assumes "net_driver rx" "net_reachable tx rx s"
  shows "length (transmit_buffer s) = ETHERNET_MAX_FRAME_SIZE \<and> length (receive_buffer s) = ETHERNET_MAX_FRAME_SIZE \<and>
    length (neighbors s) = 16 \<and>
    (ipv4_configured s \<longrightarrow> state (neighbors s ! 0) = Reachable \<and> n_ip (neighbors s ! 0) = address (config s) \<and>
      n_mac (neighbors s ! 0) = own_mac s \<and> 1 \<le> neighbor_eviction_cursor s \<and> neighbor_eviction_cursor s < 16 \<and>
      distinct (map n_ip (filter (\<lambda>e. state e = Reachable) (neighbors s))))"
proof -
  have inv: "stack_inv s" using net_driver.reachable_inv [OF assms] by (simp add: net_inv_def)
  have "distinct (map n_ip (filter (\<lambda>e. state e = Reachable) (neighbors s)))" if "ipv4_configured s"
    by (rule table_distinct) (use inv that in \<open>simp add: stack_inv_def\<close>)
  then show ?thesis using inv by (auto simp: stack_inv_def table_inv_def is_entry_def NEIGHBOR_TABLE_CAPACITY_def)
qed

theorem network_stack_invariant_witness:
  "net_driver loopback_receive \<and> net_reachable loopback_transmit loopback_receive (host mac1 ip1) \<and>
    n_mac (neighbors (host mac1 ip1) ! 0) = mac1"
  using network_stack_invariant [OF loopback_driver.net_driver_axioms host1(2)] readyD(8) [OF loopsD(1) [OF host1(1)]]
    loopback_driver.net_driver_axioms host1(2,4) by simp

text \<open>
  C29. The loopback interface is a queue of at most 8 frames: for every sequence of transmissions and receptions of
  Ethernet frames, the replies and the final contents are those of the bounded first-in first-out queue,
  so frames come out in order, unchanged, and none is lost except by a reported refusal.
\<close>

theorem loopback_is_fifo:
  assumes "lb_inv lb"
  shows "fifo_spec LOOPBACK_QUEUE_DEPTH (lb_wire_frames lb) calls =
    (fst (fifo_run lb_push_reply (lb_pop_reply b) lb calls), lb_wire_frames (snd (fifo_run lb_push_reply (lb_pop_reply b) lb calls)))"
  using lb.run_refines [OF assms] by blast

theorem loopback_is_fifo_witness:
  "fifo_spec LOOPBACK_QUEUE_DEPTH [] [Pop, Push (Wire_Frame [1, 2]), Pop] =
    (fst (fifo_run lb_push_reply (lb_pop_reply []) (zero_loopback\<lparr>lb_initialized := True\<rparr>) [Pop, Push (Wire_Frame [1, 2]), Pop]),
     lb_wire_frames (snd (fifo_run lb_push_reply (lb_pop_reply []) (zero_loopback\<lparr>lb_initialized := True\<rparr>) [Pop, Push (Wire_Frame [1, 2]), Pop])))"
  using loopback_is_fifo [OF zero_loopback_inv(1), of "[Pop, Push (Wire_Frame [1, 2]), Pop]" "[]"] zero_loopback_inv(2)
  by (simp add: lb_wire_frames_def)

section \<open>Checksums\<close>

text \<open>
  C30. The accumulating, folding 32-bit checksum loops compute the Internet checksum: the complement of the ones'
  complement sum of the 16-bit big-endian words, for a message and, for the transport protocols, over the
  pseudo header followed by the message, with no overflow up to the 65535 bytes a packet can have.
\<close>

theorem checksums_are_rfc1071:
  assumes "is_ipv4 src" "is_ipv4 dst" "n \<le> 65535"
  shows "internet_checksum (Some d) k = reference_checksum (take k d) \<and>
    transport_checksum src dst proto d n = reference_checksum (pseudo_header src dst proto n @ take n d)"
  using internet_checksum_eq transport_checksum_eq [OF assms] by blast+

theorem checksums_are_rfc1071_witness:
  "internet_checksum (Some [0x45, 0, 1]) 3 = reference_checksum [0x45, 0, 1] \<and>
   transport_checksum ip1 ip2 17 [0, 7, 0, 9] 4 = reference_checksum (pseudo_header ip1 ip2 17 4 @ [0, 7, 0, 9])"
  using checksums_are_rfc1071 [OF concrete_addresses(7,8), where n = 4 and d = "[0x45, 0, 1]" and k = 3]
    checksums_are_rfc1071 [OF concrete_addresses(7,8), where n = 4 and proto = 17 and d = "[0, 7, 0, 9]"] by simp

text \<open>
  C31. A single corrupted byte never goes unnoticed: an ICMP echo message or a TCP segment that parses no longer
  parses once any one of its bytes is changed.
\<close>

theorem corrupted_byte_rejected:
  assumes "i < length p" "x \<noteq> p ! i" "is_ipv4 src" "is_ipv4 dst" "length p \<le> 65535"
  shows "(fst (parse_icmp_echo (Some p) (length p) (Some v)) = Status.Ok \<longrightarrow>
      fst (parse_icmp_echo (Some (p[i := x])) (length p) (Some v)) \<noteq> Status.Ok) \<and>
    (fst (parse_tcp src dst (Some p) (length p) (Some w)) = Status.Ok \<longrightarrow>
      fst (parse_tcp src dst (Some (p[i := x])) (length p) (Some w)) \<noteq> Status.Ok)"
proof -
  have "reference_checksum p = 0 \<Longrightarrow> reference_checksum (p[i := x]) \<noteq> 0"
    using reference_checksum_update [OF _ assms(1,2)] .
  then have icmp: "fst (parse_icmp_echo (Some p) (length p) (Some v)) = Status.Ok \<Longrightarrow>
      fst (parse_icmp_echo (Some (p[i := x])) (length p) (Some v)) \<noteq> Status.Ok"
    by (auto simp: parse_icmp_echo_def internet_checksum_eq split: if_splits)
  let ?h = "pseudo_header src dst IPV4_PROTOCOL_TCP (length p)"
  have "(?h @ p)[length ?h + i := x] = ?h @ p[i := x]" by (simp add: list_update_append)
  then have "reference_checksum (?h @ p) = 0 \<Longrightarrow> reference_checksum (?h @ p[i := x]) \<noteq> 0"
    using reference_checksum_update [of "?h @ p" "length ?h + i" x] assms(1,2) by (simp add: nth_append)
  then have "fst (parse_tcp src dst (Some p) (length p) (Some w)) = Status.Ok \<Longrightarrow>
      fst (parse_tcp src dst (Some (p[i := x])) (length p) (Some w)) \<noteq> Status.Ok"
    using transport_checksum_eq [OF assms(3,4,5), of IPV4_PROTOCOL_TCP]
    by (auto simp: parse_tcp_def Let_def split: if_splits)
  with icmp show ?thesis by blast
qed

theorem corrupted_byte_rejected_witness:
  "fst (parse_icmp_echo (Some [8, 0, 0xF7, 0xFD, 0, 1, 0, 1]) 8 (Some zero_echo_view)) = Status.Ok \<and>
   fst (parse_icmp_echo (Some ([8, 0, 0xF7, 0xFD, 0, 1, 0, 1][5 := 3])) 8 (Some zero_echo_view)) \<noteq> Status.Ok"
proof -
  let ?p = "[8, 0, 0xF7, 0xFD, 0, 1, 0, 1] :: u8 list"
  have "fst (parse_icmp_echo (Some ?p) 8 (Some zero_echo_view)) = Status.Ok" by code_simp
  moreover have "length ?p = 8" by simp
  ultimately show ?thesis
    using corrupted_byte_rejected [OF _ _ concrete_addresses(7,8), of 5 ?p 3 zero_echo_view] by (simp only:) simp
qed

section \<open>Memory safety\<close>

text \<open>
  C32. No parser reads past the length it is given: the result of every one of the eight packet parsers on a
  buffer is determined by its first \<open>n\<close> bytes, whatever lies behind them, for packets of any content.
\<close>

theorem parsers_stay_inside:
  assumes "n \<le> length p"
  shows "parse_ethernet (Some (p @ q)) n o1 = parse_ethernet (Some (p @ q')) n o1 \<and>
    parse_arp (Some (p @ q)) n o2 = parse_arp (Some (p @ q')) n o2 \<and>
    parse_ipv4 (Some (p @ q)) n o3 = parse_ipv4 (Some (p @ q')) n o3 \<and>
    parse_icmp_echo (Some (p @ q)) n o4 = parse_icmp_echo (Some (p @ q')) n o4 \<and>
    parse_udp src dst (Some (p @ q)) n o5 = parse_udp src dst (Some (p @ q')) n o5 \<and>
    parse_tcp src dst (Some (p @ q)) n o6 = parse_tcp src dst (Some (p @ q')) n o6 \<and>
    parse_dhcp_reply (Some (p @ q)) n x mac o7 = parse_dhcp_reply (Some (p @ q')) n x mac o7 \<and>
    parse_dns_a_response (Some (p @ q)) n i o8 = parse_dns_a_response (Some (p @ q')) n i o8"
  by (simp add: assms parse_ethernet_local parse_arp_local parse_ipv4_local parse_icmp_echo_local parse_udp_local
      parse_tcp_local parse_dhcp_reply_local parse_dns_local)

theorem parsers_stay_inside_witness:
  "parse_icmp_echo (Some ([8, 0, 0xF7, 0xFD, 0, 1, 0, 1] @ [1, 2])) 8 (Some zero_echo_view) =
   parse_icmp_echo (Some ([8, 0, 0xF7, 0xFD, 0, 1, 0, 1] @ [3])) 8 (Some zero_echo_view)"
  using parsers_stay_inside [of 8 "[8, 0, 0xF7, 0xFD, 0, 1, 0, 1]" "[1, 2]" _ "[3]" _ _ "Some zero_echo_view"] by simp

text \<open>What it means for a serialiser to respect its buffer.\<close>

definition stays_inside :: "writer \<Rightarrow> bool" where
  "stays_inside w \<longleftrightarrow> (\<forall>b cap l status out n. cap \<le> length b \<longrightarrow> w (Some b) cap (Some l) = (status, out, n) \<longrightarrow>
     (\<exists>b' k. out = Some b' \<and> n = Some k \<and> length b' = length b \<and> drop cap b' = drop cap b \<and> (status = Status.Ok \<longrightarrow> k \<le> cap)))"

definition writes_exactly :: "writer \<Rightarrow> bool" where
  "writes_exactly w \<longleftrightarrow> (\<forall>b cap l status out n. cap \<le> length b \<longrightarrow> w (Some b) cap (Some l) = (status, out, n) \<longrightarrow>
     (\<exists>b' k. out = Some b' \<and> n = Some k \<and> length b' = length b \<and>
        (if status = Status.Ok then k \<le> cap \<and> drop k b' = drop k b else b' = b)))"

lemma writer_meaning: "bounded_writer w \<Longrightarrow> stays_inside w" "exact_writer w \<Longrightarrow> writes_exactly w"
  unfolding stays_inside_def writes_exactly_def
  by (intro allI impI, erule (2) bounded_writer.within) (intro allI impI, erule (1) exact_writer.exact)

text \<open>
  C33. No serialiser writes outside the capacity it is given, and a length it reports with success is at most that
  capacity.  The header serialisers moreover leave everything behind the reported length as it was, and
  leave the whole buffer as it was when they fail.
\<close>

theorem serializers_stay_inside:
  "writes_exactly (serialize_ethernet m m' t p n) \<and> writes_exactly (serialize_arp a) \<and> writes_exactly (serialize_ipv4 h p n) \<and>
   writes_exactly (serialize_icmp_echo t' i q p n) \<and> writes_exactly (serialize_udp src dst sp dp p' n) \<and>
   writes_exactly (serialize_tcp src dst sp dp s k f win p' n) \<and>
   stays_inside (serialize_dhcp_discover x m) \<and> stays_inside (serialize_dhcp_request x m ip ip') \<and> stays_inside (serialize_dns_a_query y name)"
  unfolding serialize_dhcp_discover_def serialize_dhcp_request_def
  by (intro conjI writer_meaning ethernet_writer.exact_writer_axioms arp_writer.exact_writer_axioms ipv4_writer.exact_writer_axioms
      icmp_writer.exact_writer_axioms udp_writer.exact_writer_axioms tcp_writer.exact_writer_axioms
      dhcp_writer.bounded_writer_axioms dns_writer.bounded_writer_axioms)

end
