(* ===== verification/Net_Services.thy ===== *)
theory Net_Services
  imports Net_Writers
begin

text \<open>
  The DNS and DHCP clients: what they put on the wire, and that they accept the answers of a server that
  answers what they asked.
\<close>

section \<open>DNS\<close>

text \<open>The question of a query: the name's labels, the terminator, type A, class IN.\<close>

definition question_bytes :: "u8 list list \<Rightarrow> u8 list" where
  "question_bytes ls = labels_bytes ls @ 0 # bytes16 1 @ bytes16 1"

lemma dns_query_wire:
  assumes "serialize_dns_a_query x (Some nm) (Some b) cap (Some l) = (Status.Ok, Some q, Some n)" "cap \<le> length b"
  obtains ls where "take n q = bytes16 x @ bytes16 0x0100 @ bytes16 1 @ replicate 6 0 @ question_bytes ls"
    "\<forall>l \<in> set ls. valid_label l" "length ls \<le> 127" "n = 17 + length (labels_bytes ls)" "n \<le> cap"
proof -
  define b1 where "b1 = put16 4 1 (put16 2 0x0100 (put16 0 x (clear_bytes cap b)))"
  have start: "nm ! 0 \<noteq> 0" "\<not> cap < 17" using assms(1) by (auto simp: serialize_dns_a_query_def Let_def split: if_splits)
  note eq = assms(1) [unfolded serialize_dns_a_query_def Let_def b1_def [symmetric] prod.case option.case if_not_P [OF start(1)] if_not_P [OF start(2)]]
  obtain k where k: "dns_name_length nm 0 = Some k" using eq by (auto split: option.splits)
  obtain b2 c where lab: "dns_labels nm k 0 12 cap b1 = (True, b2, c)" and c: "c + 5 \<le> cap"
    and q: "q = put16 (c + 1 + 2) 1 (put16 (c + 1) 1 (b2[c := 0]))" "n = c + 5"
    using eq k by (auto split: prod.splits bool.splits if_splits)
  have len1: "length b1 = length b" by (simp add: b1_def)
  from dns_labels_ok [OF lab] obtain ls where
    b2: "b2 = take 12 b1 @ labels_bytes ls @ drop (12 + length (labels_bytes ls)) b1" and cl: "c = 12 + length (labels_bytes ls)"
    and valid: "\<forall>l \<in> set ls. valid_label l" and few: "2 * length ls \<le> k - 0 + 1"
    using start(2) assms(2) len1 by auto
  have "k \<le> 253" using dns_name_length_bound [OF k] by simp
  then have ls127: "length ls \<le> 127" using few by simp
  let ?p = "bytes16 x @ bytes16 0x0100 @ bytes16 1 @ replicate 6 0"
  have head: "take 12 b1 = ?p"
  proof -
    let ?z = "replicate cap 0 @ drop cap b"
    have z: "clear_bytes cap b = ?z" using clear_bytes_eq [OF assms(2)] .
    have cap: "replicate cap (0 :: u8) = replicate 12 0 @ replicate (cap - 12) 0"
      using start(2) replicate_add [of 12 "cap - 12" "0 :: u8"] by simp
    let ?y = "replicate (cap - 12) 0 @ drop cap b"
    have z2: "?z = replicate 12 0 @ ?y" unfolding cap by simp
    have "put16 0 x (replicate 12 0 @ ?y) = bytes16 x @ replicate 10 0 @ ?y" using put16_append [of "[]" 0 "replicate 12 0 @ ?y" x] by simp
    moreover have "put16 2 0x0100 (bytes16 x @ replicate 10 0 @ ?y) = (bytes16 x @ bytes16 0x0100) @ replicate 8 0 @ ?y"
      using put16_append [of "bytes16 x" 2 "replicate 10 0 @ ?y" "0x0100"] by simp
    moreover have "put16 4 1 ((bytes16 x @ bytes16 0x0100) @ replicate 8 0 @ ?y) = (?p) @ ?y"
      using put16_append [of "bytes16 x @ bytes16 0x0100" 4 "replicate 8 0 @ ?y" 1] by simp
    ultimately have "b1 = ?p @ ?y" unfolding b1_def z z2 by simp
    then show ?thesis by simp
  qed
  let ?s = "?p @ labels_bytes ls"
  have s: "length ?s = c" using cl by simp
  let ?t = "drop c b1"
  have t: "5 \<le> length ?t" using c assms(2) len1 by simp
  have "b2[c := 0] = (?s @ [0]) @ drop 1 ?t"
    unfolding b2 head cl [symmetric] using list_update_prefix [OF s, of ?t 0] t by simp
  moreover have "put16 (c + 1) 1 ((?s @ [0]) @ drop 1 ?t) = (?s @ [0] @ bytes16 1) @ drop 3 ?t"
    using put16_append [of "?s @ [0]" "c + 1" "drop 1 ?t" 1] s t by (simp add: numeral_3_eq_3)
  moreover have "put16 (c + 3) 1 ((?s @ [0] @ bytes16 1) @ drop 3 ?t) = (?s @ [0] @ bytes16 1 @ bytes16 1) @ drop 5 ?t"
    using put16_append [of "?s @ [0] @ bytes16 1" "c + 3" "drop 3 ?t" 1] s t by simp
  ultimately have q': "q = (?s @ [0] @ bytes16 1 @ bytes16 1) @ drop 5 ?t" unfolding q(1) by (simp add: numeral_3_eq_3)
  define w where "w = ?s @ [0] @ bytes16 1 @ bytes16 1"
  have "length w = n" unfolding w_def using s q(2) by simp
  moreover have "q = w @ drop 5 ?t" using q' unfolding w_def .
  ultimately have "take n q = w" by simp
  then have "take n q = ?p @ question_bytes ls" by (simp add: w_def question_bytes_def)
  then show thesis using that valid ls127 q(2) cl c by simp
qed

text \<open>A response that repeats the question and carries one address record, its name a pointer to the question's.\<close>

definition dns_response :: "u16 \<Rightarrow> u16 \<Rightarrow> u8 list \<Rightarrow> u32 \<Rightarrow> IPv4Address \<Rightarrow> u8 list" where
  "dns_response x flags question ttl addr = bytes16 x @ bytes16 flags @ bytes16 1 @ bytes16 1 @ replicate 4 0 @ question @
     [0xC0, 12] @ bytes16 1 @ bytes16 1 @ bytes32 ttl @ bytes16 4 @ addr"

lemma skip_pointer:
  assumes "length p + 2 \<le> n"
  shows "skip_loop (p @ 0xC0 # y # r) n (length p) 0 = Some (length p + 2)"
proof -
  have m: "(0xC0 :: u8) \<noteq> 0" "(0xC0 :: u8) AND 0xc0 = 0xc0" by code_simp+
  have nth: "(p @ 0xC0 # y # r) ! length p = 0xC0" by (simp add: nth_append)
  have "length p < n" "\<not> length p + 1 \<ge> n" using assms by simp_all
  then show ?thesis
    unfolding skip_loop.simps [of "p @ 0xC0 # y # r" n "length p" 0] Let_def nth using m by simp
qed

lemma parse_dns_response:
  assumes valid: "\<forall>l \<in> set ls. valid_label l" "length ls \<le> 127" and addr: "is_ipv4 addr"
    and flags: "flags AND 0x8000 \<noteq> 0" "flags AND 0x000f = 0"
    and p_def: "p = dns_response x flags (question_bytes ls) ttl addr"
  shows "parse_dns_a_response (Some p) (length p) x (Some v) =
    (Status.Ok, Some \<lparr>dns_transaction_id = x, dns_address = addr, ttl_seconds = ttl\<rparr>)"
proof -
  let ?h = "bytes16 x @ bytes16 flags @ bytes16 1 @ bytes16 1 @ replicate 4 0"
  define rec where "rec = bytes16 1 @ bytes16 1 @ bytes32 ttl @ bytes16 4 @ addr"
  define q where "q = ?h @ question_bytes ls"
  have p: "p = q @ 0xC0 # 12 # rec" by (simp add: p_def dns_response_def q_def rec_def)
  have len: "length p = length q + 16" using addr by (simp add: p rec_def IPV4_ADDRESS_LENGTH_def)
  have ql: "length q = 12 + length (labels_bytes ls) + 5" by (simp add: q_def question_bytes_def)
  have be: "be16 p 0 = x" "be16 p 2 = flags" "be16 p 4 = 1" "be16 p 6 = 1"
    unfolding p q_def using be16_append [of "[]" 0 x] be16_append [of "bytes16 x" 2 flags] be16_append [of "bytes16 x @ bytes16 flags" 4 1]
      be16_append [of "bytes16 x @ bytes16 flags @ bytes16 1" 6 1] by simp_all
  have q1: "skip_loop p (length p) 12 0 = Some (12 + length (labels_bytes ls) + 1)"
  proof -
    have e: "p = ?h @ labels_bytes ls @ 0 # bytes16 1 @ bytes16 1 @ 0xC0 # 12 # rec" by (simp add: p q_def question_bytes_def)
    have h: "length ?h = 12" by simp
    have "length ?h + length (labels_bytes ls) < length p" using len ql h by simp
    with skip_loop_labels [OF valid(1), of 0 ?h "length p" "bytes16 1 @ bytes16 1 @ 0xC0 # 12 # rec"] valid(2)
    show ?thesis unfolding e [symmetric] by simp
  qed
  have qs: "dns_questions p (length p) 1 12 = Inr (length q)"
    using q1 ql len by (simp add: skip_dns_name_def)
  let ?a = "q @ [0xC0, 12]"
  define c where "c = length q + 2"
  have a: "length ?a = c" by (simp add: c_def)
  have rec: "be16 p c = 1" "be16 p (c + 2) = 1" "be32 p (c + 4) = ttl" "be16 p (c + 8) = 4" "sub_bytes (c + 10) 4 p = addr"
    unfolding p rec_def
    using be16_append [OF a, of 1] be16_append [of "?a @ bytes16 1" "c + 2" 1] be32_append [of "?a @ bytes16 1 @ bytes16 1" "c + 4" ttl]
      be16_append [of "?a @ bytes16 1 @ bytes16 1 @ bytes32 ttl" "c + 8" 4]
      sub_bytes_append [of "?a @ bytes16 1 @ bytes16 1 @ bytes32 ttl @ bytes16 4" "c + 10" addr 4 "[]"] addr a
    by (simp_all add: IPV4_ADDRESS_LENGTH_def)
  have sk: "skip_dns_name (Some p) (length p) (length q) = Inr c"
    using skip_pointer [of q "length p" 12 rec] len by (simp add: skip_dns_name_def p add.commute c_def)
  have lc: "length p = c + 14" using len by (simp add: c_def)
  have "dns_answers p (length p) x 1 (length q) = Inr \<lparr>dns_transaction_id = x, dns_address = addr, ttl_seconds = ttl\<rparr>"
    using sk rec unfolding lc by (simp add: Let_def)
  then show ?thesis using be flags qs ql len by (simp add: parse_dns_a_response_def Let_def)
qed

text \<open>
  C34. A DNS answer to our question is understood.  When \<open>serialize_dns_a_query\<close> succeeds, every response that carries
  the query's identifier, repeats its question and adds one address record for it is accepted, and the
  result is that record's address and lifetime.
\<close>

theorem dns_round_trip:
  assumes "serialize_dns_a_query x (Some name) (Some b) cap (Some l) = (Status.Ok, Some q, Some n)" "cap \<le> length b"
    and "flags AND 0x8000 \<noteq> 0" "flags AND 0x000f = 0" "is_ipv4 addr"
    and "response = dns_response x flags (drop 12 (take n q)) ttl addr"
  shows "parse_dns_a_response (Some response) (length response) x (Some v) =
    (Status.Ok, Some \<lparr>dns_transaction_id = x, dns_address = addr, ttl_seconds = ttl\<rparr>)"
proof -
  obtain ls where ls: "take n q = bytes16 x @ bytes16 0x0100 @ bytes16 1 @ replicate 6 0 @ question_bytes ls"
    "\<forall>l \<in> set ls. valid_label l" "length ls \<le> 127" by (rule dns_query_wire [OF assms(1,2)])
  have "drop 12 (take n q) = question_bytes ls" unfolding ls(1) by simp
  then show ?thesis using parse_dns_response [OF ls(2,3) assms(5,3,4)] assms(6) by simp
qed

theorem dns_round_trip_witness:
  "\<exists>q n. serialize_dns_a_query 0x1234 (Some [107, 46, 111, 115, 0]) (Some (replicate 32 0)) 32 (Some 0) = (Status.Ok, Some q, Some n) \<and>
    parse_dns_a_response (Some (dns_response 0x1234 0x8180 (drop 12 (take n q)) 60 [10, 0, 0, 7]))
      (length (dns_response 0x1234 0x8180 (drop 12 (take n q)) 60 [10, 0, 0, 7])) 0x1234
      (Some \<lparr>dns_transaction_id = 0, dns_address = zero_ipv4, ttl_seconds = 0\<rparr>) =
    (Status.Ok, Some \<lparr>dns_transaction_id = 0x1234, dns_address = [10, 0, 0, 7], ttl_seconds = 60\<rparr>)"
proof -
  let ?r = "serialize_dns_a_query 0x1234 (Some [107, 46, 111, 115, 0]) (Some (replicate 32 0)) 32 (Some 0)"
  have "fst ?r = Status.Ok" "fst (snd ?r) \<noteq> None" "snd (snd ?r) \<noteq> None" by code_simp+
  then obtain q n where q: "?r = (Status.Ok, Some q, Some n)" by (cases ?r) auto
  have "(0x8180 :: u16) AND 0x8000 \<noteq> 0" "(0x8180 :: u16) AND 0x000f = 0" "is_ipv4 [10, 0, 0, 7]" by code_simp+
  from dns_round_trip [OF q _ this refl, of 60] q show ?thesis by simp
qed

section \<open>DHCP\<close>

text \<open>The fixed part of a request, and the options the client adds.\<close>

definition dhcp_header :: "u8 \<Rightarrow> u32 \<Rightarrow> IPv4Address \<Rightarrow> MacAddress \<Rightarrow> u8 list" where
  "dhcp_header op x yiaddr mac = [op, 1, 6, 0] @ bytes32 x @ [0, 0] @ bytes16 0x8000 @ replicate 4 0 @ yiaddr @ replicate 8 0 @ mac @
     replicate 202 0 @ bytes32 DHCP_COOKIE"

lemma length_dhcp_header [simp]: "is_ipv4 y \<Longrightarrow> is_mac m \<Longrightarrow> length (dhcp_header op x y m) = 240"
  by (simp add: dhcp_header_def net_sizes)

lemma initialize_dhcp_eq:
  assumes "241 \<le> cap" "cap \<le> length b" "is_mac mac"
  shows "initialize_dhcp_request x mac (Some b) cap (Some l) =
    (Status.Ok, Some (dhcp_header 1 x [0, 0, 0, 0] mac @ replicate (cap - 240) 0 @ drop cap b), Some 240)"
proof -
  let ?y = "replicate (cap - 240) 0 @ drop cap b"
  have cap: "replicate cap (0 :: u8) = replicate 240 0 @ replicate (cap - 240) 0"
    using assms(1) replicate_add [of 240 "cap - 240" "0 :: u8"] by simp
  have z: "clear_bytes cap b = replicate 240 0 @ ?y" using clear_bytes_eq [OF assms(2)] unfolding cap by simp
  have r: "replicate (k + n) (0 :: u8) = replicate k 0 @ replicate n 0" for k n by (rule replicate_add)
  have four: "replicate 4 (0 :: u8) = [0, 0, 0, 0]" "replicate 2 (0 :: u8) = [0, 0]" by code_simp+
  have z0: "replicate 240 (0 :: u8) = [0, 0, 0, 0] @ replicate 236 0" using r [of 4 236] unfolding four by simp
  have b0: "(replicate 240 0 @ ?y)[0 := 1, 1 := 1, 2 := of_nat MAC_ADDRESS_LENGTH] = [1, 1, 6, 0] @ replicate 236 0 @ ?y"
    unfolding z0 MAC_ADDRESS_LENGTH_def by (simp add: numeral_2_eq_2)
  have b1: "put32 4 x ([1, 1, 6, 0] @ replicate 236 0 @ ?y) = ([1, 1, 6, 0] @ bytes32 x) @ replicate 232 0 @ ?y"
    using put32_append [of "[1, 1, 6, 0]" 4 "replicate 236 0 @ ?y" x] by simp
  have s1: "replicate 232 (0 :: u8) = [0, 0] @ replicate 230 0" using r [of 2 230] unfolding four by simp
  have b2: "put16 10 0x8000 (([1, 1, 6, 0] @ bytes32 x) @ replicate 232 0 @ ?y) =
      ([1, 1, 6, 0] @ bytes32 x @ [0, 0] @ bytes16 0x8000) @ replicate 228 0 @ ?y"
    unfolding s1 using put16_append [of "[1, 1, 6, 0] @ bytes32 x @ [0, 0]" 10 "replicate 230 0 @ ?y" "0x8000"] by simp
  let ?p = "[1, 1, 6, 0] @ bytes32 x @ [0, 0] @ bytes16 0x8000 @ replicate 4 0 @ [0, 0, 0, 0] @ replicate 8 0"
  have s2: "replicate 228 (0 :: u8) = (replicate 4 0 @ [0, 0, 0, 0] @ replicate 8 0) @ replicate 212 0"
    unfolding four(1) [symmetric] using r [of 4 12] r [of 4 8] r [of 16 212] by simp
  have b3: "copy_bytes 28 mac MAC_ADDRESS_LENGTH (?p @ replicate 212 0 @ ?y) = (?p @ mac) @ replicate 206 0 @ ?y"
    using copy_bytes_append [of ?p 28 6 mac "replicate 212 0 @ ?y"] assms(3) by (simp add: MAC_ADDRESS_LENGTH_def)
  have s3: "replicate 206 (0 :: u8) = replicate 202 0 @ replicate 4 0" using r [of 202 4] by simp
  have b4: "put32 236 DHCP_COOKIE ((?p @ mac @ replicate 202 0) @ replicate 4 0 @ ?y) = dhcp_header 1 x [0, 0, 0, 0] mac @ ?y"
    using put32_append [of "?p @ mac @ replicate 202 0" 236 "replicate 4 0 @ ?y" DHCP_COOKIE] assms(3)
    by (simp add: dhcp_header_def MAC_ADDRESS_LENGTH_def)
  have "put32 236 DHCP_COOKIE (copy_bytes 28 mac MAC_ADDRESS_LENGTH (put16 10 0x8000 (put32 4 x
      ((clear_bytes cap b)[0 := 1, 1 := 1, 2 := of_nat MAC_ADDRESS_LENGTH])))) = dhcp_header 1 x [0, 0, 0, 0] mac @ ?y"
    unfolding z b0 b1 b2 s2 using b3 b4 unfolding s3 by simp
  then show ?thesis using assms(1) by (simp add: initialize_dhcp_request_def DHCP_FIXED_SIZE_def Let_def)
qed

lemma serialize_dhcp_eq:
  assumes "is_mac mac" "\<forall>(t, v) \<in> set os. length v \<le> 255" "240 + length (options_bytes os) < cap" "cap \<le> length b"
  obtains r where "serialize_dhcp os x mac (Some b) cap (Some l) =
    (Status.Ok, Some (dhcp_header 1 x [0, 0, 0, 0] mac @ options_bytes os @ DHCP_OPTION_END # r), Some (241 + length (options_bytes os)))"
proof -
  define h where "h = dhcp_header 1 x [0, 0, 0, 0] mac"
  define rest where "rest = replicate (cap - 240) 0 @ drop cap b"
  let ?n = "length (options_bytes os)"
  have h: "length h = 240" using assms(1) by (simp add: h_def IPV4_ADDRESS_LENGTH_def)
  have rest: "?n < length rest" using assms(3,4) by (simp add: rest_def)
  have i: "initialize_dhcp_request x mac (Some b) cap (Some 0) = (Status.Ok, Some (h @ rest), Some 240)"
    using initialize_dhcp_eq [of cap b mac x 0] assms by (simp add: h_def rest_def)
  have a: "append_options (h @ rest) cap 240 os = (True, (h @ options_bytes os) @ drop ?n rest, 240 + ?n)"
    using append_options_eq [of os h cap rest] assms(2,3) rest h by simp
  have e: "((h @ options_bytes os) @ drop ?n rest)[240 + ?n := DHCP_OPTION_END] =
      (h @ options_bytes os @ [DHCP_OPTION_END]) @ drop (Suc ?n) rest"
    using list_update_prefix [of "h @ options_bytes os" "240 + ?n" "drop ?n rest" DHCP_OPTION_END] h rest by simp
  show thesis
    by (rule that [of "drop (Suc ?n) rest"]) (use i a e assms(3) in \<open>simp add: serialize_dhcp_def h_def [symmetric]\<close>)
qed

lemma serialize_dhcp_wire:
  assumes "is_mac mac" "\<forall>(t, v) \<in> set os. length v \<le> 255" "length (options_bytes os) = k" "241 + k \<le> cap" "cap \<le> length b"
  shows "\<exists>q. serialize_dhcp os x mac (Some b) cap (Some l) = (Status.Ok, Some q, Some (241 + k)) \<and>
    take (241 + k) q = dhcp_header 1 x [0, 0, 0, 0] mac @ options_bytes os @ [DHCP_OPTION_END]"
proof -
  obtain r where "serialize_dhcp os x mac (Some b) cap (Some l) =
    (Status.Ok, Some (dhcp_header 1 x [0, 0, 0, 0] mac @ options_bytes os @ DHCP_OPTION_END # r), Some (241 + length (options_bytes os)))"
    by (rule serialize_dhcp_eq [OF assms(1,2) _ assms(5)]) (use assms(3,4) in simp_all)
  moreover have "length (dhcp_header 1 x [0, 0, 0, 0] mac) = 240" using assms(1) by (simp add: IPV4_ADDRESS_LENGTH_def)
  ultimately show ?thesis using assms(3) by simp
qed

text \<open>
  A server's message: the fields the client checks or uses, and in between those it ignores (\<open>hops\<close>; in \<open>f1\<close>
  the elapsed time, the flags and the client's address, in \<open>f2\<close> the addresses of server and relay, in \<open>f3\<close> the
  rest of the hardware address field, the server's name and the file name).
\<close>

definition dhcp_reply :: "u8 \<Rightarrow> u32 \<Rightarrow> u8 list \<Rightarrow> IPv4Address \<Rightarrow> u8 list \<Rightarrow> MacAddress \<Rightarrow> u8 list \<Rightarrow> u8 list \<Rightarrow> u8 list" where
  "dhcp_reply hops x f1 y f2 mac f3 options =
     [2, 1, 6, hops] @ bytes32 x @ f1 @ y @ f2 @ mac @ f3 @ bytes32 DHCP_COOKIE @ options"

lemma parse_dhcp_wire:
  assumes mac: "is_mac mac" and y: "is_ipv4 y" and f: "length f1 = 8" "length f2 = 8" "length f3 = 202"
    and os: "\<forall>(k, t, v) \<in> set os. length v \<le> 255 \<and> t \<noteq> DHCP_OPTION_END \<and> t \<noteq> DHCP_OPTION_PAD"
    and rest: "rest = [] \<or> (\<exists>r. rest = DHCP_OPTION_END # r)"
    and p: "p = dhcp_reply hops x f1 y f2 mac f3 (padded_bytes os @ replicate j DHCP_OPTION_PAD @ rest)"
  shows "parse_dhcp_reply (Some p) (length p) x mac (Some v) =
    (case apply_options (map snd os) (zero_dhcp\<lparr>dhcp_transaction_id := x, offered_address := y\<rparr>, False) of
       None \<Rightarrow> (Status.MalformedPacket, Some v)
     | Some (result, has_type) \<Rightarrow>
         if \<not> has_type \<or> ipv4_is_zero (offered_address result) then (Status.MalformedPacket, Some v) else (Status.Ok, Some result))"
proof -
  define s where "s = padded_bytes os @ replicate j DHCP_OPTION_PAD @ rest"
  define h where "h = [2, 1, 6, hops] @ bytes32 x @ f1 @ y @ f2 @ mac @ f3 @ bytes32 DHCP_COOKIE"
  have h: "length h = 240" using mac y f by (simp add: h_def net_sizes)
  have ps: "p = h @ s" by (simp add: p s_def h_def dhcp_reply_def)
  have e: "p = [2, 1, 6, hops] @ bytes32 x @ f1 @ y @ f2 @ mac @ f3 @ bytes32 DHCP_COOKIE @ s"
    by (simp add: ps h_def)
  have b: "p ! 0 = 2" "p ! 1 = 1" "p ! 2 = of_nat MAC_ADDRESS_LENGTH" by (simp_all add: e MAC_ADDRESS_LENGTH_def)
  let ?a = "[2, 1, 6, hops] @ bytes32 x @ f1"
  have "be32 p 4 = x" unfolding e using be32_append [of "[2, 1, 6, hops]" 4 x] by simp
  moreover have "be32 p 236 = DHCP_COOKIE"
    unfolding e using be32_append [of "?a @ y @ f2 @ mac @ f3" 236 DHCP_COOKIE s] mac y f by (simp add: net_sizes)
  moreover have "sub_bytes 16 IPV4_ADDRESS_LENGTH p = y"
    unfolding e using sub_bytes_append [of ?a 16 y IPV4_ADDRESS_LENGTH] y f by simp
  moreover have "list_all (\<lambda>i. p ! (28 + i) = mac ! i) [0..<MAC_ADDRESS_LENGTH]"
  proof -
    define a where "a = ?a @ y @ f2"
    define t where "t = f3 @ bytes32 DHCP_COOKIE @ s"
    have a: "length a = 28" using y f by (simp add: a_def net_sizes)
    have "p = a @ mac @ t" by (simp add: e a_def t_def)
    then show ?thesis using a mac by (simp add: list_all_iff nth_append)
  qed
  moreover have "dhcp_loop p (length p) DHCP_FIXED_SIZE st = apply_options (map snd os) st" for st
    using dhcp_loop_options [OF os rest, of h j st] h by (simp add: ps s_def DHCP_FIXED_SIZE_def add.assoc)
  moreover have "\<not> length p < DHCP_FIXED_SIZE" using h by (simp add: ps DHCP_FIXED_SIZE_def)
  ultimately show ?thesis using b unfolding parse_dhcp_reply_def by (simp add: Let_def split: option.splits)
qed

text \<open>The options of the client's messages.\<close>

definition discover_options :: "MacAddress \<Rightarrow> (u8 \<times> u8 list) list" where
  "discover_options mac =
     [(DHCP_OPTION_TYPE, [DhcpMessageType_Discover]), (DHCP_OPTION_CLIENT_ID, 1 # mac), (DHCP_OPTION_PARAMETERS, dhcp_parameters)]"

definition request_options :: "MacAddress \<Rightarrow> IPv4Address \<Rightarrow> IPv4Address \<Rightarrow> (u8 \<times> u8 list) list" where
  "request_options mac requested server =
     [(DHCP_OPTION_TYPE, [DhcpMessageType_Request]), (DHCP_OPTION_REQUESTED_IP, requested), (DHCP_OPTION_SERVER, server),
      (DHCP_OPTION_CLIENT_ID, 1 # mac), (DHCP_OPTION_PARAMETERS, dhcp_parameters)]"

text \<open>
  What a list of options says.  The last instance of an option counts, except that an instance too short for an
  address leaves the address of an earlier one (and says that there is none), and that a lease time that is not four
  bytes long is ignored.
\<close>

definition last_option :: "(u8 \<times> u8 list) list \<Rightarrow> u8 \<Rightarrow> u8 list option" where
  "last_option os = map_of (rev os)"

definition has_address :: "(u8 \<times> u8 list) list \<Rightarrow> u8 \<Rightarrow> bool" where
  "has_address os t \<longleftrightarrow> (case last_option os t of None \<Rightarrow> False | Some v \<Rightarrow> 4 \<le> length v)"

definition address_in :: "(u8 \<times> u8 list) list \<Rightarrow> u8 \<Rightarrow> IPv4Address" where
  "address_in os t =
     (case last_option (filter (\<lambda>(_, v). 4 \<le> length v) os) t of None \<Rightarrow> [0, 0, 0, 0] | Some v \<Rightarrow> take 4 v)"

definition lease_in :: "(u8 \<times> u8 list) list \<Rightarrow> u32" where
  "lease_in os =
     (case last_option (filter (\<lambda>(_, v). length v = 4) os) DHCP_OPTION_LEASE of None \<Rightarrow> 0 | Some v \<Rightarrow> read_be32 (Some v))"

definition type_in :: "(u8 \<times> u8 list) list \<Rightarrow> u8" where
  "type_in os = (case last_option os DHCP_OPTION_TYPE of None \<Rightarrow> 0 | Some v \<Rightarrow> v ! 0)"

definition types_ok :: "(u8 \<times> u8 list) list \<Rightarrow> bool" where
  "types_ok os \<longleftrightarrow> (\<forall>(t, v) \<in> set os. t = DHCP_OPTION_TYPE \<longrightarrow> length v = 1 \<and> 1 \<le> v ! 0 \<and> v ! 0 \<le> 6)"

definition dhcp_view :: "u32 \<Rightarrow> IPv4Address \<Rightarrow> (u8 \<times> u8 list) list \<Rightarrow> DhcpMessageView" where
  "dhcp_view x y os = \<lparr>dhcp_type = type_in os, dhcp_transaction_id = x, offered_address = y,
     server_identifier = address_in os DHCP_OPTION_SERVER, dhcp_netmask = address_in os DHCP_OPTION_SUBNET,
     dhcp_gateway = address_in os DHCP_OPTION_ROUTER, dns_server = address_in os DHCP_OPTION_DNS, lease_seconds = lease_in os,
     has_server_identifier = has_address os DHCP_OPTION_SERVER, has_netmask = has_address os DHCP_OPTION_SUBNET,
     has_gateway = has_address os DHCP_OPTION_ROUTER, has_dns_server = has_address os DHCP_OPTION_DNS\<rparr>"

lemma last_option_snoc: "last_option (os @ [(t, v)]) s = (if s = t then Some v else last_option os s)"
  by (simp add: last_option_def)

lemma apply_options_snoc:
  "apply_options (os @ [(t, v)]) st = Option.bind (apply_options os st) (dhcp_option t v (length v))"
  by (induction os st rule: apply_options.induct) (auto split: option.splits)

lemma dhcp_view_snoc:
  "dhcp_option t v (length v) (dhcp_view x y os, k) =
    (if t = DHCP_OPTION_TYPE \<and> \<not> (length v = 1 \<and> 1 \<le> v ! 0 \<and> v ! 0 \<le> 6) then None
     else Some (dhcp_view x y (os @ [(t, v)]), k \<or> t = DHCP_OPTION_TYPE))"
  by (auto simp: dhcp_option_def dhcp_view_def ipv4_option_def type_in_def address_in_def has_address_def lease_in_def
      last_option_snoc dhcp_options IPV4_ADDRESS_LENGTH_def not_less not_le)

lemma apply_options_view:
  "apply_options os (zero_dhcp\<lparr>dhcp_transaction_id := x, offered_address := y\<rparr>, False) =
    (if types_ok os then Some (dhcp_view x y os, DHCP_OPTION_TYPE \<in> fst ` set os) else None)"
proof (induction os rule: rev_induct)
  case Nil
  then show ?case
    by (simp add: types_ok_def dhcp_view_def zero_dhcp_def zero_ipv4_def type_in_def address_in_def has_address_def lease_in_def
        last_option_def IPV4_ADDRESS_LENGTH_def numeral_eq_Suc)
next
  case (snoc o1 os)
  obtain t v where o1: "o1 = (t, v)" by (cases o1)
  have "types_ok (os @ [o1]) \<longleftrightarrow>
      types_ok os \<and> \<not> (t = DHCP_OPTION_TYPE \<and> \<not> (length v = 1 \<and> 1 \<le> v ! 0 \<and> v ! 0 \<le> 6))"
    by (auto simp: types_ok_def o1)
  then show ?case using snoc by (auto simp: o1 apply_options_snoc dhcp_view_snoc)
qed

text \<open>
  C35. The DHCP exchange.  The two messages the client sends are the fixed header with the client's hardware
  address and transaction, followed by their options and the end marker, 259 and 271 bytes in all, whenever the
  capacity allows it.  A server's message with the client's transaction and hardware address, any options in any
  order, with or without padding and an end marker, is accepted exactly when it offers a nonzero address and has a
  message type and no invalid one; the client then learns what the last instance of each option it uses says,
  of a list of addresses the first.
\<close>

theorem dhcp_exchange:
  assumes "is_mac mac" "is_ipv4 requested" "is_ipv4 server" "271 \<le> cap" "cap \<le> length b"
    and "is_ipv4 y" "length f1 = 8" "length f2 = 8" "length f3 = 202"
    and "\<forall>(k, t, v) \<in> set os. length v \<le> 255 \<and> t \<noteq> DHCP_OPTION_END \<and> t \<noteq> DHCP_OPTION_PAD"
    and "rest = [] \<or> (\<exists>r. rest = DHCP_OPTION_END # r)"
    and "reply = dhcp_reply hops x f1 y f2 mac f3 (padded_bytes os @ replicate j DHCP_OPTION_PAD @ rest)"
  shows "(\<exists>q. serialize_dhcp_discover x mac (Some b) cap (Some l) = (Status.Ok, Some q, Some 259) \<and>
      take 259 q = dhcp_header 1 x [0, 0, 0, 0] mac @ options_bytes (discover_options mac) @ [DHCP_OPTION_END]) \<and>
    (\<exists>q. serialize_dhcp_request x mac requested server (Some b) cap (Some l) = (Status.Ok, Some q, Some 271) \<and>
      take 271 q = dhcp_header 1 x [0, 0, 0, 0] mac @ options_bytes (request_options mac requested server) @ [DHCP_OPTION_END]) \<and>
    parse_dhcp_reply (Some reply) (length reply) x mac (Some v) =
      (if types_ok (map snd os) \<and> DHCP_OPTION_TYPE \<in> fst ` set (map snd os) \<and> \<not> ipv4_is_zero y
       then (Status.Ok, Some (dhcp_view x y (map snd os))) else (Status.MalformedPacket, Some v))"
proof (intro conjI)
  have "length (options_bytes (discover_options mac)) = 18" "\<forall>(t, v) \<in> set (discover_options mac). length v \<le> 255"
    using assms(1) by (simp_all add: discover_options_def options_bytes_def option_bytes_def dhcp_parameters_def net_sizes)
  from serialize_dhcp_wire [OF assms(1) this(2,1) _ assms(5)] assms(4)
  show "\<exists>q. serialize_dhcp_discover x mac (Some b) cap (Some l) = (Status.Ok, Some q, Some 259) \<and>
      take 259 q = dhcp_header 1 x [0, 0, 0, 0] mac @ options_bytes (discover_options mac) @ [DHCP_OPTION_END]"
    by (simp add: serialize_dhcp_discover_def discover_options_def [symmetric])
  have "length (options_bytes (request_options mac requested server)) = 30"
    "\<forall>(t, v) \<in> set (request_options mac requested server). length v \<le> 255"
    using assms(1-3) by (simp_all add: request_options_def options_bytes_def option_bytes_def dhcp_parameters_def net_sizes)
  from serialize_dhcp_wire [OF assms(1) this(2,1) _ assms(5)] assms(4)
  show "\<exists>q. serialize_dhcp_request x mac requested server (Some b) cap (Some l) = (Status.Ok, Some q, Some 271) \<and>
      take 271 q = dhcp_header 1 x [0, 0, 0, 0] mac @ options_bytes (request_options mac requested server) @ [DHCP_OPTION_END]"
    by (simp add: serialize_dhcp_request_def request_options_def [symmetric])
  have "offered_address (dhcp_view x y (map snd os)) = y" by (simp add: dhcp_view_def)
  then show "parse_dhcp_reply (Some reply) (length reply) x mac (Some v) =
      (if types_ok (map snd os) \<and> DHCP_OPTION_TYPE \<in> fst ` set (map snd os) \<and> \<not> ipv4_is_zero y
       then (Status.Ok, Some (dhcp_view x y (map snd os))) else (Status.MalformedPacket, Some v))"
    unfolding parse_dhcp_wire [OF assms(1,6-12)] apply_options_view by simp
qed

text \<open>An acknowledgement with two name servers, padding, an option the client does not know and no end marker.\<close>

definition example_options :: "(nat \<times> u8 \<times> u8 list) list" where
  "example_options = [(0, DHCP_OPTION_TYPE, [5]), (1, DHCP_OPTION_DNS, [10, 0, 0, 2, 10, 0, 0, 3]), (0, 12, [107]),
     (0, DHCP_OPTION_SUBNET, [255, 0, 0, 0])]"

definition example_ack :: "u8 list" where
  "example_ack = dhcp_reply 0 7 (replicate 8 0) [10, 0, 0, 9] (replicate 8 0) [2, 0, 0, 0, 0, 1] (replicate 202 0)
     (padded_bytes example_options @ replicate 2 DHCP_OPTION_PAD @ [])"

theorem dhcp_exchange_witness:
  "(\<exists>q. serialize_dhcp_request 7 [2, 0, 0, 0, 0, 1] [10, 0, 0, 9] [10, 0, 0, 1] (Some (replicate 300 0)) 300 (Some 0) =
      (Status.Ok, Some q, Some 271)) \<and>
    parse_dhcp_reply (Some example_ack) (length example_ack) 7 [2, 0, 0, 0, 0, 1] (Some zero_dhcp) =
    (Status.Ok, Some \<lparr>dhcp_type = 5, dhcp_transaction_id = 7, offered_address = [10, 0, 0, 9], server_identifier = [0, 0, 0, 0],
      dhcp_netmask = [255, 0, 0, 0], dhcp_gateway = [0, 0, 0, 0], dns_server = [10, 0, 0, 2], lease_seconds = 0,
      has_server_identifier = False, has_netmask = True, has_gateway = False, has_dns_server = True\<rparr>)"
proof -
  have a: "is_mac [2, 0, 0, 0, 0, 1]" "is_ipv4 [10, 0, 0, 9]" "is_ipv4 [10, 0, 0, 1]" "271 \<le> (300 :: nat)"
    "300 \<le> length (replicate 300 (0 :: u8))" "is_ipv4 [10, 0, 0, 9]" "length (replicate 8 (0 :: u8)) = 8"
    "length (replicate 8 (0 :: u8)) = 8" "length (replicate 202 (0 :: u8)) = 202"
    by (simp_all add: net_sizes)
  have o: "\<forall>(k, t, v) \<in> set example_options. length v \<le> 255 \<and> t \<noteq> DHCP_OPTION_END \<and> t \<noteq> DHCP_OPTION_PAD"
    "types_ok (map snd example_options)" "DHCP_OPTION_TYPE \<in> fst ` set (map snd example_options)" "\<not> ipv4_is_zero [10, 0, 0, 9]"
    by code_simp+
  have v: "dhcp_view 7 [10, 0, 0, 9] (map snd example_options) = \<lparr>dhcp_type = 5, dhcp_transaction_id = 7,
      offered_address = [10, 0, 0, 9], server_identifier = [0, 0, 0, 0], dhcp_netmask = [255, 0, 0, 0], dhcp_gateway = [0, 0, 0, 0],
      dns_server = [10, 0, 0, 2], lease_seconds = 0, has_server_identifier = False, has_netmask = True, has_gateway = False,
      has_dns_server = True\<rparr>" by code_simp
  note ex = dhcp_exchange [OF a o(1) disjI1 [OF refl] example_ack_def, where l = 0 and v = zero_dhcp]
  show ?thesis using ex o(2-4) unfolding v by (elim conjE exE) (intro conjI exI, assumption, simp only: if_True simp_thms)
qed

end
