(* ===== verification/Scheduler2.thy ===== *)
theory Scheduler2
  imports Kurogane_Prelude
begin

text \<open>
  The SMP scheduling policy, \<^verbatim>\<open>kernel/task/scheduler2.hpp\<close> and \<^verbatim>\<open>scheduler2.cpp\<close>: a table of 64
  schedulable threads and one run queue for each of up to 64 processors.  Every public function takes
  the policy lock for its whole body, so each is one function on the state \<open>policy\<close>.  The index
  \<^verbatim>\<open>kInvalidIndex\<close> is \<open>None\<close>.

  The theory shows that every thread is queued exactly once, on an online processor its affinity
  allows, in every reachable state; that \<open>pick_next\<close> is work conserving and obeys priorities; that a
  dispatched thread is not dispatched again before it is released; and that threads of equal
  priority take turns.
\<close>

section \<open>State\<close>

datatype Status =
    Ok | NotInitialized | AlreadyInitialized | InvalidArgument | InvalidCpu | InvalidAffinity
  | AlreadyExists | NotFound | CapacityReached | QueueFull

datatype State = Ready | Running | Blocked | Sleeping | Terminated

definition MAX_CPUS :: nat where "MAX_CPUS = 64"
definition MAX_SCHEDULABLE_THREADS :: nat where "MAX_SCHEDULABLE_THREADS = 64"
definition MAX_PRIORITY :: u8 where "MAX_PRIORITY = 31"

record ThreadStat =
  ts_id :: u64
  ts_state :: State
  ts_priority :: u8
  ts_affinity :: u64
  ts_home_cpu :: nat
  ts_last_cpu :: nat
  ts_dispatches :: u64
  ts_migrations :: u64

record CpuStat =
  cs_cpu :: nat
  cs_queued :: nat
  cs_ready :: nat
  cs_dispatches :: u64
  cs_steals :: u64

record ThreadSlot =
  stat :: ThreadStat
  used :: bool

record RunQueue =
  ids :: "u64 list"
  count :: nat
  cursor :: nat
  dispatches :: u64
  steals :: u64

record policy =
  g_threads :: "ThreadSlot list"
  g_queues :: "RunQueue list"
  g_cpu_count :: nat
  g_initialized :: bool

definition zero_stat :: ThreadStat where
  "zero_stat = \<lparr> ts_id = 0, ts_state = Ready, ts_priority = 0, ts_affinity = 0, ts_home_cpu = 0,
     ts_last_cpu = 0, ts_dispatches = 0, ts_migrations = 0 \<rparr>"

definition zero_slot :: ThreadSlot where
  "zero_slot = \<lparr> stat = zero_stat, used = False \<rparr>"

definition zero_queue :: RunQueue where
  "zero_queue = \<lparr> ids = replicate MAX_SCHEDULABLE_THREADS 0, count = 0, cursor = 0,
     dispatches = 0, steals = 0 \<rparr>"

text \<open>The zero-initialised globals.\<close>

definition boot_policy :: policy where
  "boot_policy = \<lparr> g_threads = replicate MAX_SCHEDULABLE_THREADS zero_slot,
     g_queues = replicate MAX_CPUS zero_queue, g_cpu_count = 0, g_initialized = False \<rparr>"

definition set_queue :: "policy \<Rightarrow> nat \<Rightarrow> RunQueue \<Rightarrow> policy" where
  "set_queue s cpu q = s\<lparr> g_queues := (g_queues s)[cpu := q] \<rparr>"

definition set_stat :: "policy \<Rightarrow> nat \<Rightarrow> ThreadStat \<Rightarrow> policy" where
  "set_stat s i t = s\<lparr> g_threads := (g_threads s)[i := (g_threads s ! i)\<lparr> stat := t \<rparr>] \<rparr>"

abbreviation stat_at :: "policy \<Rightarrow> nat \<Rightarrow> ThreadStat" where
  "stat_at s i \<equiv> stat (g_threads s ! i)"

section \<open>Helpers\<close>

definition mask_for_cpu :: "nat \<Rightarrow> u64" where
  "mask_for_cpu cpu = (if cpu < MAX_CPUS then push_bit cpu 1 else 0)"

definition online_mask_unlocked :: "policy \<Rightarrow> u64" where
  "online_mask_unlocked s =
     (if \<not> g_initialized s \<or> g_cpu_count s = 0 then 0
      else if g_cpu_count s = MAX_CPUS then - 1
      else push_bit (g_cpu_count s) 1 - 1)"

definition cpu_allowed :: "policy \<Rightarrow> u64 \<Rightarrow> nat \<Rightarrow> bool" where
  "cpu_allowed s affinity cpu \<longleftrightarrow>
     cpu < g_cpu_count s \<and> affinity AND mask_for_cpu cpu \<noteq> 0"

definition find_thread :: "policy \<Rightarrow> u64 \<Rightarrow> nat option" where
  "find_thread s tid =
     (if tid = 0 then None
      else find_index (\<lambda>slot. used slot \<and> ts_id (stat slot) = tid) (g_threads s))"

definition queue_contains :: "RunQueue \<Rightarrow> u64 \<Rightarrow> bool" where
  "queue_contains queue tid = list_ex (\<lambda>x. x = tid) (take (count queue) (ids queue))"

definition queue_add :: "policy \<Rightarrow> nat \<Rightarrow> u64 \<Rightarrow> policy \<times> Status" where
  "queue_add s cpu tid =
     (if g_cpu_count s \<le> cpu then (s, InvalidCpu)
      else let queue = g_queues s ! cpu in
        if queue_contains queue tid then (s, Ok)
        else if MAX_SCHEDULABLE_THREADS \<le> count queue then (s, QueueFull)
        else
          let n = count queue + 1 in
          (set_queue s cpu (queue\<lparr> ids := (ids queue)[count queue := tid], count := n,
             cursor := (if n = 1 then 0 else cursor queue) \<rparr>), Ok))"

text \<open>
  The ids behind the removed one move down; the entry that was last keeps its value beyond the new
  count.
\<close>

definition queue_remove :: "policy \<Rightarrow> nat \<Rightarrow> u64 \<Rightarrow> policy" where
  "queue_remove s cpu tid =
     (if g_cpu_count s \<le> cpu then s
      else let queue = g_queues s ! cpu; held = take (count queue) (ids queue) in
        case find_index (\<lambda>x. x = tid) held of
          None \<Rightarrow> s
        | Some index \<Rightarrow>
            let n = count queue - 1 in
            set_queue s cpu (queue\<lparr> ids := remove_nth index held @ drop n (ids queue), count := n,
              cursor := (if n = 0 then 0
                         else if n \<le> cursor queue then cursor queue mod n
                         else cursor queue) \<rparr>))"

definition choose_home_step :: "policy \<Rightarrow> u64 \<Rightarrow> nat \<Rightarrow> nat option \<times> nat \<Rightarrow> nat option \<times> nat" where
  "choose_home_step s affinity cpu best =
     (if \<not> cpu_allowed s affinity cpu then best
      else if count (g_queues s ! cpu) < snd best then (Some cpu, count (g_queues s ! cpu))
      else best)"

definition choose_home :: "policy \<Rightarrow> u64 \<Rightarrow> nat \<Rightarrow> nat option" where
  "choose_home s affinity preferred_cpu =
     (if preferred_cpu < g_cpu_count s \<and> cpu_allowed s affinity preferred_cpu
      then Some preferred_cpu
      else fst (fold (choose_home_step s affinity) [0..<g_cpu_count s]
                  (None, MAX_SCHEDULABLE_THREADS + 1)))"

text \<open>
  One iteration of the loop of \<^verbatim>\<open>select_from_queue\<close>.  The accumulator holds \<^verbatim>\<open>selected_thread\<close>,
  \<^verbatim>\<open>selected_queue_offset\<close> and \<^verbatim>\<open>selected_priority\<close>, and is \<open>None\<close> while \<^verbatim>\<open>have_priority\<close> is false.
\<close>

definition select_step ::
  "policy \<Rightarrow> nat \<Rightarrow> u64 \<Rightarrow> nat \<Rightarrow> (nat \<times> nat \<times> u8) option \<Rightarrow> (nat \<times> nat \<times> u8) option" where
  "select_step s cpu excluded off selected =
     (let queue = g_queues s ! cpu;
          queue_index = (cursor queue + off) mod count queue;
          tid = ids queue ! queue_index
      in if tid = excluded then selected
         else case find_thread s tid of
           None \<Rightarrow> selected
         | Some thread_index \<Rightarrow>
             let t = stat_at s thread_index in
             if ts_state t \<noteq> Ready \<or> \<not> cpu_allowed s (ts_affinity t) cpu then selected
             else (case selected of
                 None \<Rightarrow> Some (thread_index, queue_index, ts_priority t)
               | Some (_, _, selected_priority) \<Rightarrow>
                   if selected_priority < ts_priority t
                   then Some (thread_index, queue_index, ts_priority t) else selected))"

definition select_from_queue :: "policy \<Rightarrow> nat \<Rightarrow> u64 \<Rightarrow> policy \<times> nat option" where
  "select_from_queue s cpu excluded =
     (let queue = g_queues s ! cpu in
      if count queue = 0 then (s, None)
      else case fold (select_step s cpu excluded) [0..<count queue] None of
          None \<Rightarrow> (s, None)
        | Some (selected_thread, selected_queue_offset, _) \<Rightarrow>
            (set_queue s cpu (queue\<lparr> cursor := (selected_queue_offset + 1) mod count queue \<rparr>),
             Some selected_thread))"

text \<open>One iteration of the inner loop of \<^verbatim>\<open>select_steal_candidate\<close>, on the queue of \<open>cpu\<close>.\<close>

definition steal_step ::
  "policy \<Rightarrow> nat \<Rightarrow> u64 \<Rightarrow> nat \<Rightarrow> nat \<Rightarrow> (nat \<times> u8) option \<Rightarrow> (nat \<times> u8) option" where
  "steal_step s destination_cpu excluded cpu off selected =
     (let queue = g_queues s ! cpu;
          queue_index = (cursor queue + off) mod count queue
      in case find_thread s (ids queue ! queue_index) of
           None \<Rightarrow> selected
         | Some thread_index \<Rightarrow>
             let t = stat_at s thread_index in
             if ts_id t = excluded \<or> ts_state t \<noteq> Ready
                \<or> \<not> cpu_allowed s (ts_affinity t) destination_cpu then selected
             else (case selected of
                 None \<Rightarrow> Some (thread_index, ts_priority t)
               | Some (_, selected_priority) \<Rightarrow>
                   if selected_priority < ts_priority t
                   then Some (thread_index, ts_priority t) else selected))"

definition select_steal_candidate :: "policy \<Rightarrow> nat \<Rightarrow> u64 \<Rightarrow> nat option" where
  "select_steal_candidate s destination_cpu excluded =
     map_option fst (fold (\<lambda>cpu selected.
         if cpu = destination_cpu then selected
         else fold (steal_step s destination_cpu excluded cpu)
                [0..<count (g_queues s ! cpu)] selected)
       [0..<g_cpu_count s] None)"

definition configure :: "policy \<Rightarrow> nat \<Rightarrow> policy \<times> Status" where
  "configure s online_cpus =
     (if online_cpus = 0 \<or> MAX_CPUS < online_cpus then (s, InvalidArgument)
      else (s\<lparr> g_threads := replicate MAX_SCHEDULABLE_THREADS zero_slot,
               g_queues := replicate MAX_CPUS zero_queue,
               g_cpu_count := online_cpus, g_initialized := True \<rparr>, Ok))"

section \<open>Operations\<close>

definition sched_initialize :: "policy \<Rightarrow> nat \<Rightarrow> policy \<times> Status" where
  "sched_initialize s online_cpus =
     (if g_initialized s then (s, AlreadyInitialized) else configure s online_cpus)"

definition sched_reset :: "policy \<Rightarrow> nat \<Rightarrow> policy \<times> Status" where
  "sched_reset s online_cpus = configure s online_cpus"

definition expand_cpu_count :: "policy \<Rightarrow> nat \<Rightarrow> policy \<times> Status" where
  "expand_cpu_count s online_cpus =
     (if \<not> g_initialized s then (s, NotInitialized)
      else if online_cpus = 0 \<or> MAX_CPUS < online_cpus \<or> online_cpus < g_cpu_count s
      then (s, InvalidArgument)
      else if online_cpus = g_cpu_count s then (s, Ok)
      else ((fold (\<lambda>cpu s. set_queue s cpu zero_queue) [g_cpu_count s..<online_cpus] s)
              \<lparr> g_cpu_count := online_cpus \<rparr>, Ok))"

definition register_thread :: "policy \<Rightarrow> u64 \<Rightarrow> u8 \<Rightarrow> u64 \<Rightarrow> nat \<Rightarrow> policy \<times> Status" where
  "register_thread s tid priority affinity preferred_cpu =
     (if \<not> g_initialized s then (s, NotInitialized)
      else if tid = 0 \<or> MAX_PRIORITY < priority then (s, InvalidArgument)
      else let valid_affinity = affinity AND online_mask_unlocked s in
        if valid_affinity = 0 \<or> valid_affinity \<noteq> affinity then (s, InvalidAffinity)
        else if find_thread s tid \<noteq> None then (s, AlreadyExists)
        else case find_index (\<lambda>slot. \<not> used slot) (g_threads s) of
          None \<Rightarrow> (s, CapacityReached)
        | Some free_slot \<Rightarrow>
            (case choose_home s affinity preferred_cpu of
               None \<Rightarrow> (s, InvalidAffinity)
             | Some home \<Rightarrow>
                 let (s1, add_status) = queue_add s home tid in
                 if add_status \<noteq> Ok then (s1, QueueFull)
                 else (s1\<lparr> g_threads := (g_threads s1)[free_slot :=
                         \<lparr> stat = zero_stat\<lparr> ts_id := tid, ts_state := Ready,
                             ts_priority := priority, ts_affinity := affinity,
                             ts_home_cpu := home, ts_last_cpu := MAX_CPUS \<rparr>,
                           used = True \<rparr>] \<rparr>, Ok)))"

definition unregister_thread :: "policy \<Rightarrow> u64 \<Rightarrow> policy \<times> Status" where
  "unregister_thread s tid =
     (if \<not> g_initialized s then (s, NotInitialized)
      else case find_thread s tid of
        None \<Rightarrow> (s, NotFound)
      | Some index \<Rightarrow>
          let s1 = queue_remove s (ts_home_cpu (stat_at s index)) tid in
          (s1\<lparr> g_threads := (g_threads s1)[index := zero_slot] \<rparr>, Ok))"

definition set_state :: "policy \<Rightarrow> u64 \<Rightarrow> State \<Rightarrow> policy \<times> Status" where
  "set_state s tid state =
     (if \<not> g_initialized s then (s, NotInitialized)
      else case find_thread s tid of
        None \<Rightarrow> (s, NotFound)
      | Some index \<Rightarrow> (set_stat s index ((stat_at s index)\<lparr> ts_state := state \<rparr>), Ok))"

definition set_affinity :: "policy \<Rightarrow> u64 \<Rightarrow> u64 \<Rightarrow> policy \<times> Status" where
  "set_affinity s tid affinity =
     (if \<not> g_initialized s then (s, NotInitialized)
      else let valid_affinity = affinity AND online_mask_unlocked s in
        if valid_affinity = 0 \<or> valid_affinity \<noteq> affinity then (s, InvalidAffinity)
        else case find_thread s tid of
          None \<Rightarrow> (s, NotFound)
        | Some index \<Rightarrow>
            let s1 = set_stat s index ((stat_at s index)\<lparr> ts_affinity := affinity \<rparr>) in
            if cpu_allowed s1 affinity (ts_home_cpu (stat_at s1 index)) then (s1, Ok)
            else case choose_home s1 affinity MAX_CPUS of
              None \<Rightarrow> (s1, InvalidAffinity)
            | Some destination \<Rightarrow>
                let previous = ts_home_cpu (stat_at s1 index);
                    s2 = queue_remove s1 previous tid;
                    (s3, add_status) = queue_add s2 destination tid
                in if add_status \<noteq> Ok
                   then let s4 = fst (queue_add s3 previous tid); t = stat_at s4 index in
                     (set_stat s4 index (t\<lparr> ts_affinity := ts_affinity t OR mask_for_cpu previous \<rparr>),
                      add_status)
                   else let t = stat_at s3 index in
                     (set_stat s3 index (t\<lparr> ts_home_cpu := destination,
                        ts_migrations := ts_migrations t + 1 \<rparr>), Ok))"

definition set_priority :: "policy \<Rightarrow> u64 \<Rightarrow> u8 \<Rightarrow> policy \<times> Status" where
  "set_priority s tid priority =
     (if \<not> g_initialized s then (s, NotInitialized)
      else if MAX_PRIORITY < priority then (s, InvalidArgument)
      else case find_thread s tid of
        None \<Rightarrow> (s, NotFound)
      | Some index \<Rightarrow> (set_stat s index ((stat_at s index)\<lparr> ts_priority := priority \<rparr>), Ok))"

text \<open>
  \<open>pick_next\<close> in three parts: the reservation of a selected thread, the migration of a stolen one,
  and the operation itself.
\<close>

definition reserve :: "policy \<Rightarrow> nat \<Rightarrow> nat \<Rightarrow> policy \<times> u64" where
  "reserve s cpu selected =
     (let t = stat_at s selected;
          s1 = set_stat s selected (t\<lparr> ts_state := Running, ts_last_cpu := cpu,
                 ts_dispatches := ts_dispatches t + 1 \<rparr>);
          queue = g_queues s1 ! cpu
      in (set_queue s1 cpu (queue\<lparr> dispatches := dispatches queue + 1 \<rparr>), ts_id t))"

definition migrate :: "policy \<Rightarrow> nat \<Rightarrow> nat \<Rightarrow> policy \<times> Status" where
  "migrate s cpu selected =
     (let tid = ts_id (stat_at s selected);
          donor = ts_home_cpu (stat_at s selected);
          (s1, add_status) = queue_add (queue_remove s donor tid) cpu tid
      in if add_status \<noteq> Ok then (fst (queue_add s1 donor tid), add_status)
         else
           let t = stat_at s1 selected;
               s2 = set_stat s1 selected (t\<lparr> ts_home_cpu := cpu, ts_migrations := ts_migrations t + 1 \<rparr>);
               queue = g_queues s2 ! cpu
           in (set_queue s2 cpu (queue\<lparr> steals := steals queue + 1 \<rparr>), Ok))"

definition dispatch :: "policy \<Rightarrow> nat \<Rightarrow> nat option \<Rightarrow> policy \<times> Status \<times> u64 option" where
  "dispatch s cpu selected =
     (case selected of
        None \<Rightarrow> (s, NotFound, Some 0)
      | Some index \<Rightarrow> let (s1, tid) = reserve s cpu index in (s1, Ok, Some tid))"

definition pick_next ::
  "policy \<Rightarrow> nat \<Rightarrow> u64 \<Rightarrow> u64 option \<Rightarrow> policy \<times> Status \<times> u64 option" where
  "pick_next s cpu excluded out_id =
     (let out = map_option (\<lambda>_. 0) out_id in
      if \<not> g_initialized s then (s, NotInitialized, out)
      else if out_id = None then (s, InvalidArgument, out)
      else if g_cpu_count s \<le> cpu then (s, InvalidCpu, out)
      else
        let (s1, selected) = select_from_queue s cpu excluded in
        case selected of
          Some _ \<Rightarrow> dispatch s1 cpu selected
        | None \<Rightarrow>
            (case select_steal_candidate s1 cpu excluded of
               None \<Rightarrow> dispatch s1 cpu None
             | Some candidate \<Rightarrow>
                 let (s2, add_status) = migrate s1 cpu candidate in
                 if add_status \<noteq> Ok then (s2, add_status, out)
                 else let (s3, again) = select_from_queue s2 cpu excluded in
                   dispatch s3 cpu again))"

definition cancel_dispatch :: "policy \<Rightarrow> u64 \<Rightarrow> nat \<Rightarrow> policy \<times> Status" where
  "cancel_dispatch s tid cpu =
     (if \<not> g_initialized s then (s, NotInitialized)
      else if g_cpu_count s \<le> cpu then (s, InvalidCpu)
      else case find_thread s tid of
        None \<Rightarrow> (s, NotFound)
      | Some index \<Rightarrow>
          let t = stat_at s index in
          if ts_state t \<noteq> Running \<or> ts_last_cpu t \<noteq> cpu then (s, InvalidArgument)
          else (set_stat s index (t\<lparr> ts_state := Ready \<rparr>), Ok))"

definition thread_stat :: "policy \<Rightarrow> u64 \<Rightarrow> ThreadStat option \<Rightarrow> Status \<times> ThreadStat option" where
  "thread_stat s tid out_stat =
     (if \<not> g_initialized s then (NotInitialized, out_stat)
      else if out_stat = None then (InvalidArgument, out_stat)
      else case find_thread s tid of
        None \<Rightarrow> (NotFound, Some zero_stat)
      | Some index \<Rightarrow> (Ok, Some (stat_at s index)))"

definition cpu_ready :: "policy \<Rightarrow> nat \<Rightarrow> u64 \<Rightarrow> bool" where
  "cpu_ready s cpu tid =
     (case find_thread s tid of
        None \<Rightarrow> False
      | Some thread_index \<Rightarrow> ts_state (stat_at s thread_index) = Ready
          \<and> cpu_allowed s (ts_affinity (stat_at s thread_index)) cpu)"

definition cpu_stat :: "policy \<Rightarrow> nat \<Rightarrow> CpuStat option \<Rightarrow> Status \<times> CpuStat option" where
  "cpu_stat s cpu out_stat =
     (if \<not> g_initialized s then (NotInitialized, out_stat)
      else if out_stat = None then (InvalidArgument, out_stat)
      else if g_cpu_count s \<le> cpu then (InvalidCpu, out_stat)
      else let queue = g_queues s ! cpu in
        (Ok, Some \<lparr> cs_cpu = cpu, cs_queued = count queue,
           cs_ready = length (filter (cpu_ready s cpu) (take (count queue) (ids queue))),
           cs_dispatches = dispatches queue, cs_steals = steals queue \<rparr>))"

definition cpu_count :: "policy \<Rightarrow> nat" where
  "cpu_count s = (if g_initialized s then g_cpu_count s else 0)"

definition online_mask :: "policy \<Rightarrow> u64" where
  "online_mask s = online_mask_unlocked s"

fun status_message :: "Status \<Rightarrow> string" where
  "status_message Ok = ''ok''"
| "status_message NotInitialized = ''scheduler2 not initialized''"
| "status_message AlreadyInitialized = ''scheduler2 already initialized''"
| "status_message InvalidArgument = ''invalid scheduler2 argument''"
| "status_message InvalidCpu = ''invalid scheduler2 cpu''"
| "status_message InvalidAffinity = ''invalid scheduler2 affinity''"
| "status_message AlreadyExists = ''scheduler2 thread already exists''"
| "status_message NotFound = ''scheduler2 thread not found''"
| "status_message CapacityReached = ''scheduler2 thread capacity reached''"
| "status_message QueueFull = ''scheduler2 run queue full''"


section \<open>Abstract view\<close>

text \<open>
  The policy as its clients see it: the thread table as a map from thread ids, and the ids waiting in
  each processor's queue, in queue order.
\<close>

definition "thread" :: "policy \<Rightarrow> u64 \<Rightarrow> ThreadStat option" where
  "thread s tid = map_option (stat_at s) (find_thread s tid)"

definition runq :: "policy \<Rightarrow> nat \<Rightarrow> u64 list" where
  "runq s cpu = take (count (g_queues s ! cpu)) (ids (g_queues s ! cpu))"

definition queue_ok :: "RunQueue \<Rightarrow> bool" where
  "queue_ok q \<longleftrightarrow> length (ids q) = MAX_SCHEDULABLE_THREADS \<and> count q \<le> MAX_SCHEDULABLE_THREADS
     \<and> (if count q = 0 then cursor q = 0 else cursor q < count q)"

definition tables_ok :: "policy \<Rightarrow> bool" where
  "tables_ok s \<longleftrightarrow>
     length (g_threads s) = MAX_SCHEDULABLE_THREADS \<and> length (g_queues s) = MAX_CPUS
     \<and> g_cpu_count s \<le> MAX_CPUS \<and> (g_initialized s \<longleftrightarrow> 0 < g_cpu_count s)
     \<and> (\<forall>i < MAX_SCHEDULABLE_THREADS. used (g_threads s ! i) \<longrightarrow> ts_id (stat_at s i) \<noteq> 0)
     \<and> (\<forall>i < MAX_SCHEDULABLE_THREADS. \<forall>j < MAX_SCHEDULABLE_THREADS.
          used (g_threads s ! i) \<longrightarrow> used (g_threads s ! j)
          \<longrightarrow> ts_id (stat_at s i) = ts_id (stat_at s j) \<longrightarrow> i = j)
     \<and> (\<forall>q \<in> set (g_queues s). queue_ok q)"

text \<open>What the policy keeps of each thread: a legal priority, an affinity of online processors, and a home it allows.\<close>

definition thread_ok :: "nat \<Rightarrow> ThreadStat \<Rightarrow> bool" where
  "thread_ok cpus t \<longleftrightarrow>
     ts_priority t \<le> MAX_PRIORITY \<and> (\<forall>k. bit (ts_affinity t) k \<longrightarrow> k < cpus)
     \<and> bit (ts_affinity t) (ts_home_cpu t)"

text \<open>Every thread waits in exactly one queue, that of its home processor, exactly once.\<close>

definition placed :: "(u64 \<Rightarrow> ThreadStat option) \<Rightarrow> (nat \<Rightarrow> u64 list) \<Rightarrow> bool" where
  "placed T R \<longleftrightarrow>
     (\<forall>cpu < MAX_CPUS. distinct (R cpu)
        \<and> (\<forall>tid. tid \<in> set (R cpu) \<longleftrightarrow> (\<exists>t. T tid = Some t \<and> ts_home_cpu t = cpu)))"

definition sched_inv :: "policy \<Rightarrow> bool" where
  "sched_inv s \<longleftrightarrow> tables_ok s \<and> placed (thread s) (runq s)
     \<and> (\<forall>tid t. thread s tid = Some t \<longrightarrow> thread_ok (g_cpu_count s) t)"

subsection \<open>Processor masks\<close>

lemma cpu_allowed_iff:
  assumes "g_cpu_count s \<le> MAX_CPUS"
  shows "cpu_allowed s a cpu \<longleftrightarrow> cpu < g_cpu_count s \<and> bit a cpu"
  using assms by (auto simp: cpu_allowed_def mask_for_cpu_def push_bit_of_1 and_exp_eq_0_iff_not_bit)

lemma bit_online_mask:
  assumes "tables_ok s" "g_initialized s"
  shows "bit (online_mask_unlocked s) k \<longleftrightarrow> k < g_cpu_count s"
proof -
  have c: "g_cpu_count s \<le> 64" "0 < g_cpu_count s"
    using assms by (auto simp: tables_ok_def MAX_CPUS_def)
  have m: "push_bit n 1 - 1 = (mask n :: u64)" for n
    by (simp add: mask_eq_exp_minus_1 push_bit_of_1)
  show ?thesis
  proof (cases "g_cpu_count s = 64")
    case True
    then show ?thesis using assms(2) c
      by (auto simp: online_mask_unlocked_def MAX_CPUS_def bit_minus_1_iff)
  next
    case False
    then show ?thesis using assms(2) c
      unfolding online_mask_unlocked_def MAX_CPUS_def m by (auto simp: bit_mask_iff)
  qed
qed

lemma valid_affinity_iff:
  assumes "tables_ok s" "g_initialized s"
  shows "a AND online_mask_unlocked s = a \<longleftrightarrow> (\<forall>k. bit a k \<longrightarrow> k < g_cpu_count s)"
proof -
  have "a AND m = a \<longleftrightarrow> (\<forall>k. bit a k \<longrightarrow> bit m k)" for m :: u64
  proof (intro iffI allI impI)
    fix k assume "a AND m = a" "bit a k"
    then have "bit (a AND m) k" by (simp only:)
    then show "bit m k" by (simp add: bit_and_iff)
  next
    assume "\<forall>k. bit a k \<longrightarrow> bit m k"
    then show "a AND m = a" by (intro bit_word_eqI) (auto simp: bit_and_iff)
  qed
  then show ?thesis using bit_online_mask [OF assms] by simp
qed

lemma affinity_some_cpu:
  assumes "a \<noteq> (0 :: u64)" shows "\<exists>k. bit a k"
  using assms by (auto simp: bit_eq_iff)

subsection \<open>Looking up threads\<close>

lemma find_thread_iff:
  assumes "tables_ok s"
  shows "find_thread s tid = Some i \<longleftrightarrow>
    i < MAX_SCHEDULABLE_THREADS \<and> used (g_threads s ! i) \<and> ts_id (stat_at s i) = tid"
    (is "?l \<longleftrightarrow> ?r")
proof
  assume ?l
  then show ?r using assms
    by (auto simp: find_thread_def tables_ok_def dest!: find_index_SomeD split: if_splits)
next
  assume r: ?r
  then have "tid \<noteq> 0" using assms by (auto simp: tables_ok_def)
  moreover have "find_index (\<lambda>slot. used slot \<and> ts_id (stat slot) = tid) (g_threads s) = Some i"
  proof (rule find_index_eq_SomeI)
    show "i < length (g_threads s)" using r assms by (simp add: tables_ok_def)
    show "used (g_threads s ! i) \<and> ts_id (stat_at s i) = tid" using r by simp
    fix j assume j: "j < i"
    show "\<not> (used (g_threads s ! j) \<and> ts_id (stat_at s j) = tid)"
    proof
      assume u: "used (g_threads s ! j) \<and> ts_id (stat_at s j) = tid"
      have "j < MAX_SCHEDULABLE_THREADS" using j r by simp
      then have "j = i" using u r assms unfolding tables_ok_def by blast
      with j show False by simp
    qed
  qed
  ultimately show ?l by (simp add: find_thread_def)
qed

lemma thread_eq_Some_iff:
  assumes "tables_ok s"
  shows "thread s tid = Some t \<longleftrightarrow>
    (\<exists>i < MAX_SCHEDULABLE_THREADS. used (g_threads s ! i) \<and> stat_at s i = t \<and> ts_id t = tid)"
  by (auto simp: thread_def find_thread_iff [OF assms])

lemma thread_of_find:
  "find_thread s tid = Some i \<Longrightarrow> thread s tid = Some (stat_at s i)"
  "find_thread s tid = None \<Longrightarrow> thread s tid = None"
  by (simp_all add: thread_def)

lemma thread_id: "tables_ok s \<Longrightarrow> thread s tid = Some t \<Longrightarrow> ts_id t = tid"
  by (auto simp: thread_eq_Some_iff)

lemma thread_zero: "tables_ok s \<Longrightarrow> thread s 0 = None"
  by (simp add: thread_def find_thread_def)

text \<open>Two tables with the same used ids at the same places differ only where a record was written.\<close>

lemma thread_set_stat:
  assumes "tables_ok s" "find_thread s tid = Some i" "ts_id t = tid"
  shows "tables_ok (set_stat s i t)" "thread (set_stat s i t) = (thread s)(tid \<mapsto> t)"
    "runq (set_stat s i t) = runq s" "find_thread (set_stat s i t) = find_thread s"
proof -
  have i: "i < MAX_SCHEDULABLE_THREADS" "used (g_threads s ! i)" "ts_id (stat_at s i) = tid"
    using assms by (simp_all add: find_thread_iff)
  have len: "length (g_threads s) = MAX_SCHEDULABLE_THREADS" using assms(1) by (simp add: tables_ok_def)
  have at: "used (g_threads (set_stat s i t) ! j) = used (g_threads s ! j)"
    "ts_id (stat_at (set_stat s i t) j) = ts_id (stat_at s j)"
    "stat_at (set_stat s i t) j = (if j = i then t else stat_at s j)" for j
    using i len assms(3) by (auto simp: set_stat_def nth_list_update)
  show ok: "tables_ok (set_stat s i t)"
    using assms(1) unfolding tables_ok_def at(1,2) by (simp add: set_stat_def)
  show fnd: "find_thread (set_stat s i t) = find_thread s"
  proof
    fix x
    have "find_thread (set_stat s i t) x = Some k \<longleftrightarrow> find_thread s x = Some k" for k
      unfolding find_thread_iff [OF ok] find_thread_iff [OF assms(1)] at(1,2) ..
    then show "find_thread (set_stat s i t) x = find_thread s x" by (metis option.exhaust)
  qed
  show "thread (set_stat s i t) = (thread s)(tid \<mapsto> t)"
  proof
    fix x
    have "find_thread s x = Some i \<longleftrightarrow> x = tid"
      unfolding find_thread_iff [OF assms(1)] using i by auto
    then show "thread (set_stat s i t) x = ((thread s)(tid \<mapsto> t)) x"
      unfolding thread_def fnd by (cases "find_thread s x") (auto simp: at(3))
  qed
  show "runq (set_stat s i t) = runq s" by (simp add: set_stat_def runq_def fun_eq_iff)
qed

lemma thread_cong:
  assumes "g_threads s' = g_threads s"
  shows "thread s' = thread s" "find_thread s' = find_thread s"
  using assms by (simp_all add: thread_def find_thread_def fun_eq_iff)

lemma runq_cong: "g_queues s' = g_queues s \<Longrightarrow> runq s' = runq s"
  by (simp add: runq_def fun_eq_iff)

subsection \<open>Writing a queue\<close>

lemma set_queue_simps [simp]:
  "g_threads (set_queue s cpu q) = g_threads s"
  "g_cpu_count (set_queue s cpu q) = g_cpu_count s"
  "g_initialized (set_queue s cpu q) = g_initialized s"
  "g_queues (set_queue s cpu q) = (g_queues s)[cpu := q]"
  by (simp_all add: set_queue_def)

lemma set_stat_simps [simp]:
  "g_queues (set_stat s i t) = g_queues s"
  "g_cpu_count (set_stat s i t) = g_cpu_count s"
  "g_initialized (set_stat s i t) = g_initialized s"
  by (simp_all add: set_stat_def)

lemma tables_ok_set_queue: "tables_ok s \<Longrightarrow> queue_ok q \<Longrightarrow> tables_ok (set_queue s cpu q)"
  unfolding tables_ok_def using set_update_subset_insert [of "g_queues s" cpu q] by auto

lemma thread_set_queue [simp]: "thread (set_queue s cpu q) = thread s"
  "find_thread (set_queue s cpu q) = find_thread s"
  by (rule thread_cong, simp)+

lemma runq_set_queue:
  "cpu < length (g_queues s) \<Longrightarrow> runq (set_queue s cpu q) = (runq s)(cpu := take (count q) (ids q))"
  by (auto simp: runq_def fun_eq_iff)

lemma queue_ok_nth: "tables_ok s \<Longrightarrow> cpu < MAX_CPUS \<Longrightarrow> queue_ok (g_queues s ! cpu)"
  by (simp add: tables_ok_def)

lemma queue_contains_iff: "queue_contains (g_queues s ! cpu) tid \<longleftrightarrow> tid \<in> set (runq s cpu)"
  by (auto simp: queue_contains_def runq_def list_ex_iff)

lemma length_runq:
  assumes "tables_ok s" "cpu < MAX_CPUS"
  shows "length (runq s cpu) = count (g_queues s ! cpu)"
  using queue_ok_nth [OF assms] by (simp add: runq_def queue_ok_def)

lemma queue_add_new:
  assumes "tables_ok s" "cpu < g_cpu_count s" "tid \<notin> set (runq s cpu)"
    "length (runq s cpu) < MAX_SCHEDULABLE_THREADS"
  obtains s' where "queue_add s cpu tid = (s', Ok)" "tables_ok s'" "g_threads s' = g_threads s"
    "g_cpu_count s' = g_cpu_count s" "g_initialized s' = g_initialized s"
    "runq s' = (runq s)(cpu := runq s cpu @ [tid])"
proof -
  define q where "q = g_queues s ! cpu"
  have c: "cpu < MAX_CPUS" "cpu < length (g_queues s)" using assms(1,2) by (auto simp: tables_ok_def)
  have q: "length (ids q) = MAX_SCHEDULABLE_THREADS" "count q < MAX_SCHEDULABLE_THREADS"
    "if count q = 0 then cursor q = 0 else cursor q < count q"
    using queue_ok_nth [OF assms(1) c(1)] assms(4) length_runq [OF assms(1) c(1)]
    by (auto simp: queue_ok_def q_def)
  define q' where "q' = q\<lparr> ids := (ids q)[count q := tid], count := count q + 1,
    cursor := (if count q + 1 = 1 then 0 else cursor q) \<rparr>"
  have "queue_add s cpu tid = (set_queue s cpu q', Ok)"
    using assms(2,3) q(2) queue_contains_iff [of s cpu tid]
    by (simp add: queue_add_def Let_def q_def [symmetric] q'_def)
  moreover have "queue_ok q'" using q by (auto simp: queue_ok_def q'_def split: if_splits)
  moreover have "take (count q') (ids q') = runq s cpu @ [tid]"
    using q(1,2) by (simp add: q'_def runq_def q_def [symmetric] take_Suc_conv_app_nth)
  ultimately show ?thesis
    using that [of "set_queue s cpu q'"] tables_ok_set_queue [OF assms(1)] runq_set_queue [OF c(2)] by simp
qed

lemma queue_remove_correct:
  assumes "tables_ok s" "cpu < g_cpu_count s"
  shows "tables_ok (queue_remove s cpu tid)" (is ?ok)
    and "runq (queue_remove s cpu tid) = (runq s)(cpu := remove1 tid (runq s cpu))" (is ?rq)
    and "g_threads (queue_remove s cpu tid) = g_threads s"
    and "g_cpu_count (queue_remove s cpu tid) = g_cpu_count s"
    and "g_initialized (queue_remove s cpu tid) = g_initialized s"
proof -
  define q where "q = g_queues s ! cpu"
  have c: "cpu < MAX_CPUS" "cpu < length (g_queues s)" using assms(1,2) by (auto simp: tables_ok_def)
  have q: "length (ids q) = MAX_SCHEDULABLE_THREADS" "count q \<le> MAX_SCHEDULABLE_THREADS"
    "if count q = 0 then cursor q = 0 else cursor q < count q"
    using queue_ok_nth [OF assms(1) c(1)] by (auto simp: queue_ok_def q_def)
  have r: "runq s cpu = take (count q) (ids q)" by (simp add: runq_def q_def)
  have "?ok \<and> ?rq"
  proof (cases "find_index (\<lambda>x. x = tid) (runq s cpu)")
    case None
    then have "tid \<notin> set (runq s cpu)" by (auto simp: find_index_None_iff)
    moreover have "queue_remove s cpu tid = s"
      using None assms(2) by (simp add: queue_remove_def Let_def q_def [symmetric] r)
    ultimately show ?thesis using assms(1) by (simp add: remove1_idem)
  next
    case (Some i)
    define n where "n = count q - 1"
    define q' where "q' = q\<lparr> ids := remove_nth i (runq s cpu) @ drop n (ids q), count := n,
      cursor := (if n = 0 then 0 else if n \<le> cursor q then cursor q mod n else cursor q) \<rparr>"
    have i: "i < length (runq s cpu)" using Some by (rule find_index_Some_lessD)
    then have lr: "length (remove_nth i (runq s cpu)) = n"
      using q by (simp add: length_remove_nth r n_def)
    have cq: "0 < count q" "n < MAX_SCHEDULABLE_THREADS" using i q by (auto simp: r n_def)
    have "queue_remove s cpu tid = set_queue s cpu q'"
      using Some assms(2) by (simp add: queue_remove_def Let_def q_def [symmetric] r q'_def n_def)
    moreover have "queue_ok q'"
      using q cq lr by (auto simp: queue_ok_def q'_def)
    moreover have "take (count q') (ids q') = remove1 tid (runq s cpu)"
      using lr remove_nth_find_index [OF Some] by (simp add: q'_def)
    ultimately show ?thesis
      using tables_ok_set_queue [OF assms(1)] runq_set_queue [OF c(2)] by simp
  qed
  then show ?ok ?rq by simp_all
  show "g_threads (queue_remove s cpu tid) = g_threads s"
    "g_cpu_count (queue_remove s cpu tid) = g_cpu_count s"
    "g_initialized (queue_remove s cpu tid) = g_initialized s"
    by (simp_all add: queue_remove_def Let_def split: option.splits)
qed


subsection \<open>A queue always has room\<close>

lemma thread_home_online: "sched_inv s \<Longrightarrow> thread s tid = Some t \<Longrightarrow> ts_home_cpu t < g_cpu_count s"
  by (auto simp: sched_inv_def thread_ok_def)

lemma sched_inv_tables: "sched_inv s \<Longrightarrow> tables_ok s"
  by (simp add: sched_inv_def)

lemma cpu_count_bound: "tables_ok s \<Longrightarrow> cpu < g_cpu_count s \<Longrightarrow> cpu < MAX_CPUS"
  by (auto simp: tables_ok_def)

lemma runq_mem:
  assumes "sched_inv s" "cpu < MAX_CPUS"
  shows "tid \<in> set (runq s cpu) \<longleftrightarrow> (\<exists>t. thread s tid = Some t \<and> ts_home_cpu t = cpu)"
  using assms by (simp add: sched_inv_def placed_def)

lemma runq_distinct: "sched_inv s \<Longrightarrow> cpu < MAX_CPUS \<Longrightarrow> distinct (runq s cpu)"
  by (simp add: sched_inv_def placed_def)

lemma runq_room:
  assumes "tables_ok s" "placed (thread s) (runq s)" "cpu < MAX_CPUS" "j < MAX_SCHEDULABLE_THREADS"
    "used (g_threads s ! j) \<Longrightarrow> ts_home_cpu (stat_at s j) \<noteq> cpu"
  shows "length (runq s cpu) < MAX_SCHEDULABLE_THREADS"
proof -
  have "x \<in> (\<lambda>i. ts_id (stat_at s i)) ` ({..<MAX_SCHEDULABLE_THREADS} - {j})"
    if x: "x \<in> set (runq s cpu)" for x
  proof -
    obtain t where t: "thread s x = Some t" "ts_home_cpu t = cpu"
      using x assms(2,3) by (auto simp: placed_def)
    then obtain i where i: "i < MAX_SCHEDULABLE_THREADS" "used (g_threads s ! i)" "stat_at s i = t" "ts_id t = x"
      using thread_eq_Some_iff [OF assms(1)] by blast
    then have "i \<noteq> j" using t assms(5) by auto
    with i show ?thesis by blast
  qed
  then have "set (runq s cpu) \<subseteq> (\<lambda>i. ts_id (stat_at s i)) ` ({..<MAX_SCHEDULABLE_THREADS} - {j})"
    by blast
  then have "card (set (runq s cpu)) \<le> card ({..<MAX_SCHEDULABLE_THREADS} - {j})"
    by (rule surj_card_le [rotated]) simp
  moreover have "distinct (runq s cpu)" using assms(2,3) by (simp add: placed_def)
  ultimately show ?thesis
    using assms(4) by (simp add: distinct_card card_Diff_singleton MAX_SCHEDULABLE_THREADS_def)
qed

subsection \<open>Choosing a home\<close>

lemma choose_home_fold:
  assumes "fold (choose_home_step s a) cpus (best, load) = (best', load')"
  shows "(best' = best \<and> load' = load \<or> (\<exists>c \<in> set cpus. cpu_allowed s a c \<and> best' = Some c \<and> load' = count (g_queues s ! c)))
    \<and> load' \<le> load \<and> (\<forall>c \<in> set cpus. cpu_allowed s a c \<longrightarrow> load' \<le> count (g_queues s ! c))"
  using assms
proof (induction cpus arbitrary: best load)
  case Nil
  then show ?case by simp
next
  case (Cons c cpus)
  obtain b l where bl: "choose_home_step s a c (best, load) = (b, l)" by fastforce
  then have "fold (choose_home_step s a) cpus (b, l) = (best', load')" using Cons.prems by simp
  note ih = Cons.IH [OF this]
  from bl show ?case
    using ih by (auto simp: choose_home_step_def split: if_splits)
qed

text \<open>
  The home is the preferred processor when the thread may run there, and otherwise an allowed
  processor with the shortest queue; one is found whenever the affinity names an online processor.
\<close>

lemma choose_home_spec:
  assumes "tables_ok s" "cpu_allowed s a k"
  obtains c where "choose_home s a preferred = Some c" "cpu_allowed s a c"
    "preferred < g_cpu_count s \<and> cpu_allowed s a preferred \<longrightarrow> c = preferred"
    "\<not> (preferred < g_cpu_count s \<and> cpu_allowed s a preferred) \<longrightarrow>
      (\<forall>d. cpu_allowed s a d \<longrightarrow> length (runq s c) \<le> length (runq s d))"
proof (cases "preferred < g_cpu_count s \<and> cpu_allowed s a preferred")
  case True
  then show ?thesis using that [of preferred] by (simp add: choose_home_def)
next
  case False
  obtain b l where bl: "fold (choose_home_step s a) [0..<g_cpu_count s] (None, MAX_SCHEDULABLE_THREADS + 1) = (b, l)"
    by fastforce
  note f = choose_home_fold [OF bl]
  have lim: "c < MAX_CPUS" if "cpu_allowed s a c" for c
    using that cpu_count_bound [OF assms(1)] by (simp add: cpu_allowed_def)
  have len: "length (runq s c) = count (g_queues s ! c)" if "cpu_allowed s a c" for c
    using length_runq [OF assms(1) lim [OF that]] .
  have mem: "c \<in> set [0..<g_cpu_count s]" if "cpu_allowed s a c" for c
    using that by (simp add: cpu_allowed_def)
  have "l \<le> count (g_queues s ! k)" using f assms(2) mem by blast
  also have "\<dots> \<le> MAX_SCHEDULABLE_THREADS"
    using queue_ok_nth [OF assms(1) lim [OF assms(2)]] by (simp add: queue_ok_def)
  finally obtain c where c: "cpu_allowed s a c" "b = Some c" "l = count (g_queues s ! c)" using f by auto
  have "choose_home s a preferred = Some c" using False bl c(2) unfolding choose_home_def by auto
  then show ?thesis
    using that [of c] False c f mem len by fastforce
qed

subsection \<open>The invariant is kept\<close>

lemma sched_invI:
  assumes "tables_ok s'" "placed (thread s') (runq s')"
    "\<And>tid t. thread s' tid = Some t \<Longrightarrow> thread_ok (g_cpu_count s') t"
  shows "sched_inv s'"
  using assms by (simp add: sched_inv_def)

text \<open>Changing a record in place keeps the invariant as long as the home and the identity stay.\<close>

lemma set_stat_inv:
  assumes "sched_inv s" "find_thread s tid = Some i" "ts_id t = tid"
    "ts_home_cpu t = ts_home_cpu (stat_at s i)" "thread_ok (g_cpu_count s) t"
  shows "sched_inv (set_stat s i t)"
proof (rule sched_invI)
  note T = thread_set_stat [OF sched_inv_tables [OF assms(1)] assms(2,3)]
  show "tables_ok (set_stat s i t)" by (rule T(1))
  show "placed (thread (set_stat s i t)) (runq (set_stat s i t))"
    using assms(1,4) thread_of_find(1) [OF assms(2)]
    unfolding T(2,3) sched_inv_def placed_def by auto
  show "thread_ok (g_cpu_count (set_stat s i t)) u" if "thread (set_stat s i t) x = Some u" for x u
    using that assms(1,5) unfolding T(2) by (auto simp: sched_inv_def split: if_splits)
qed

lemma placed_move:
  assumes "placed T R" "T tid = Some t" "ts_home_cpu t < MAX_CPUS" "c < MAX_CPUS" "c \<noteq> ts_home_cpu t"
    "ts_home_cpu t' = c"
  shows "placed (T(tid \<mapsto> t')) (R(ts_home_cpu t := remove1 tid (R (ts_home_cpu t)), c := R c @ [tid]))"
proof -
  let ?h = "ts_home_cpu t"
  have notin: "tid \<notin> set (R c)" using assms by (auto simp: placed_def)
  have d: "distinct (R k)" "\<And>x. x \<in> set (R k) \<longleftrightarrow> (\<exists>u. T x = Some u \<and> ts_home_cpu u = k)"
    if "k < MAX_CPUS" for k using assms(1) that by (auto simp: placed_def)
  show ?thesis unfolding placed_def
  proof (intro allI impI conjI)
    fix k assume k: "k < MAX_CPUS"
    show "distinct ((R(?h := remove1 tid (R ?h), c := R c @ [tid])) k)"
      using d(1) [OF k] d(1) [OF assms(3)] d(1) [OF assms(4)] notin by simp
    fix x
    show "(x \<in> set ((R(?h := remove1 tid (R ?h), c := R c @ [tid])) k)) =
          (\<exists>u. (T(tid \<mapsto> t')) x = Some u \<and> ts_home_cpu u = k)"
      using d(2) [OF k, of x] d(1) [OF k] assms(2,5,6) by auto
  qed
qed

lemma placed_new:
  assumes "placed T R" "T tid = None" "ts_home_cpu t = c" "c < MAX_CPUS"
  shows "placed (T(tid \<mapsto> t)) (R(c := R c @ [tid]))"
  using assms unfolding placed_def by (auto split: if_splits)

lemma placed_drop:
  assumes "placed T R" "T tid = Some t" "ts_home_cpu t < MAX_CPUS"
  shows "placed (T(tid := None)) (R(ts_home_cpu t := remove1 tid (R (ts_home_cpu t))))"
  using assms unfolding placed_def by (auto split: if_splits)


text \<open>Moving a thread to another queue always succeeds.\<close>

lemma requeue:
  assumes "tables_ok s" "placed (thread s) (runq s)" "find_thread s tid = Some i"
    "ts_home_cpu (stat_at s i) < g_cpu_count s" "c < g_cpu_count s" "c \<noteq> ts_home_cpu (stat_at s i)"
  obtains s' where
    "queue_add (queue_remove s (ts_home_cpu (stat_at s i)) tid) c tid = (s', Ok)"
    "tables_ok s'" "g_threads s' = g_threads s" "g_cpu_count s' = g_cpu_count s"
    "g_initialized s' = g_initialized s"
    "runq s' = (runq s)(ts_home_cpu (stat_at s i) := remove1 tid (runq s (ts_home_cpu (stat_at s i))),
                        c := runq s c @ [tid])"
proof -
  let ?h = "ts_home_cpu (stat_at s i)"
  let ?r = "queue_remove s ?h tid"
  note R = queue_remove_correct [OF assms(1,4), of tid]
  have c: "c < MAX_CPUS" using cpu_count_bound [OF assms(1,5)] .
  have i: "i < MAX_SCHEDULABLE_THREADS" using assms(1,3) by (simp add: find_thread_iff)
  have rc: "runq ?r c = runq s c" using assms(6) by (simp add: R(2))
  have "tid \<notin> set (runq s c)"
    using assms(2,6) c thread_of_find(1) [OF assms(3)] by (auto simp: placed_def)
  moreover have "length (runq s c) < MAX_SCHEDULABLE_THREADS"
    using runq_room [OF assms(1,2) c i] assms(6) by simp
  ultimately obtain s' where s': "queue_add ?r c tid = (s', Ok)" "tables_ok s'" "g_threads s' = g_threads ?r"
    "g_cpu_count s' = g_cpu_count ?r" "g_initialized s' = g_initialized ?r"
    "runq s' = (runq ?r)(c := runq ?r c @ [tid])"
    using queue_add_new [OF R(1), of c tid] assms(5) unfolding rc R(4) by blast
  show ?thesis
    by (rule that [OF s'(1,2)]) (simp_all add: s' R assms(6))
qed

lemma configure_inv: "sched_inv s \<Longrightarrow> sched_inv (fst (configure s n))"
proof -
  assume inv: "sched_inv s"
  define s' where "s' = s\<lparr> g_threads := replicate MAX_SCHEDULABLE_THREADS zero_slot,
    g_queues := replicate MAX_CPUS zero_queue, g_cpu_count := n, g_initialized := True \<rparr>"
  have "sched_inv s'" if "n \<noteq> 0" "n \<le> MAX_CPUS"
  proof -
    have t: "thread s' x = None" for x
      by (simp add: thread_def find_thread_def s'_def find_index_None_iff zero_slot_def)
    moreover have "tables_ok s'" using that
      by (auto simp: tables_ok_def s'_def zero_slot_def zero_queue_def queue_ok_def)
    moreover have "runq s' cpu = []" if "cpu < MAX_CPUS" for cpu
      using that by (simp add: runq_def s'_def zero_queue_def)
    ultimately show ?thesis by (simp add: sched_inv_def placed_def)
  qed
  with inv show ?thesis by (auto simp: configure_def s'_def)
qed

lemma boot_inv: "sched_inv boot_policy"
proof -
  have "thread boot_policy x = None" for x
    by (simp add: thread_def find_thread_def boot_policy_def find_index_None_iff zero_slot_def)
  moreover have "tables_ok boot_policy"
    by (auto simp: tables_ok_def boot_policy_def zero_slot_def zero_queue_def queue_ok_def)
  moreover have "runq boot_policy cpu = []" if "cpu < MAX_CPUS" for cpu
    using that by (simp add: runq_def boot_policy_def zero_queue_def)
  ultimately show ?thesis by (simp add: sched_inv_def placed_def)
qed

lemma sched_initialize_inv: "sched_inv s \<Longrightarrow> sched_inv (fst (sched_initialize s n))"
  by (simp add: sched_initialize_def configure_inv)

lemma sched_reset_inv: "sched_inv s \<Longrightarrow> sched_inv (fst (sched_reset s n))"
  by (simp add: sched_reset_def configure_inv)

text \<open>The queues of the processors that come online were empty before.\<close>

lemma fold_zero_queues:
  "g_threads (fold (\<lambda>cpu s. set_queue s cpu zero_queue) cpus s) = g_threads s"
  "g_cpu_count (fold (\<lambda>cpu s. set_queue s cpu zero_queue) cpus s) = g_cpu_count s"
  "g_initialized (fold (\<lambda>cpu s. set_queue s cpu zero_queue) cpus s) = g_initialized s"
  by (induction cpus arbitrary: s) simp_all

lemma fold_zero_queues_runq:
  assumes "tables_ok s" "\<And>c. c \<in> set cpus \<Longrightarrow> c < MAX_CPUS \<and> runq s c = []"
  shows "tables_ok (fold (\<lambda>cpu s. set_queue s cpu zero_queue) cpus s)
    \<and> runq (fold (\<lambda>cpu s. set_queue s cpu zero_queue) cpus s) = runq s"
  using assms
proof (induction cpus arbitrary: s)
  case Nil
  then show ?case by simp
next
  case (Cons c cpus)
  have "queue_ok zero_queue" by (simp add: queue_ok_def zero_queue_def)
  then have ok: "tables_ok (set_queue s c zero_queue)" using tables_ok_set_queue Cons.prems(1) by blast
  have "c < length (g_queues s)" using Cons.prems by (auto simp: tables_ok_def)
  then have "runq (set_queue s c zero_queue) = (runq s)(c := [])"
    by (simp add: runq_set_queue zero_queue_def)
  also have "\<dots> = runq s" using Cons.prems(2) [of c] by (auto simp: fun_eq_iff)
  finally have r: "runq (set_queue s c zero_queue) = runq s" .
  show ?case using Cons.IH [OF ok] Cons.prems(2) by (simp add: r)
qed

lemma expand_cpu_count_inv:
  assumes "sched_inv s" shows "sched_inv (fst (expand_cpu_count s n))"
proof (cases "g_initialized s \<and> n \<noteq> 0 \<and> n \<le> MAX_CPUS \<and> g_cpu_count s < n")
  case True
  let ?f = "fold (\<lambda>cpu s. set_queue s cpu zero_queue) [g_cpu_count s..<n] s"
  note T = sched_inv_tables [OF assms]
  have "c < MAX_CPUS \<and> runq s c = []" if "c \<in> set [g_cpu_count s..<n]" for c
  proof -
    have c: "c < MAX_CPUS" "g_cpu_count s \<le> c" using that True by auto
    then have "x \<notin> set (runq s c)" for x
      using runq_mem [OF assms c(1)] thread_home_online [OF assms] by fastforce
    with c show ?thesis by (meson ex_in_conv set_empty)
  qed
  note F = fold_zero_queues_runq [OF T this]
  let ?s = "?f\<lparr> g_cpu_count := n \<rparr>"
  have th: "thread ?s = thread s" by (rule thread_cong(1)) (simp add: fold_zero_queues)
  have "runq ?s = runq ?f" by (rule runq_cong) simp
  also have "\<dots> = runq s" using F by (rule conjunct2)
  finally have rq: "runq ?s = runq s" .
  have "tables_ok ?f" using F by (rule conjunct1)
  then have tb: "tables_ok ?s" using True by (simp add: tables_ok_def fold_zero_queues)
  have "sched_inv ?s"
    using assms tb True unfolding sched_inv_def th rq thread_ok_def by fastforce
  moreover have "expand_cpu_count s n = (?s, Ok)" using True by (simp add: expand_cpu_count_def)
  ultimately show ?thesis by simp
next
  case False
  then show ?thesis using assms by (auto simp: expand_cpu_count_def)
qed


lemma register_thread_cases:
  assumes "sched_inv s" "g_initialized s" "tid \<noteq> 0" "priority \<le> MAX_PRIORITY"
    "affinity \<noteq> 0" "\<And>k. bit affinity k \<Longrightarrow> k < g_cpu_count s" "thread s tid = None"
    "\<exists>slot \<in> set (g_threads s). \<not> used slot"
  obtains s' home t where "register_thread s tid priority affinity preferred = (s', Ok)"
    "choose_home s affinity preferred = Some home"
    "t = zero_stat\<lparr> ts_id := tid, ts_state := Ready, ts_priority := priority, ts_affinity := affinity,
           ts_home_cpu := home, ts_last_cpu := MAX_CPUS \<rparr>"
    "thread s' = (thread s)(tid \<mapsto> t)" "runq s' = (runq s)(home := runq s home @ [tid])"
    "g_cpu_count s' = g_cpu_count s" "sched_inv s'"
proof -
  note T = sched_inv_tables [OF assms(1)]
  have cc: "g_cpu_count s \<le> MAX_CPUS" using T by (simp add: tables_ok_def)
  obtain k where k: "bit affinity k" using affinity_some_cpu assms(5) by blast
  then have "cpu_allowed s affinity k" using assms(6) by (simp add: cpu_allowed_iff [OF cc])
  then obtain home where h: "choose_home s affinity preferred = Some home" "cpu_allowed s affinity home"
    using choose_home_spec [OF T] by metis
  then have hc: "home < g_cpu_count s" "bit affinity home" by (simp_all add: cpu_allowed_iff [OF cc])
  have hm: "home < MAX_CPUS" using hc cc by simp
  obtain j where j: "find_index (\<lambda>slot. \<not> used slot) (g_threads s) = Some j"
    using assms(8) find_index_None_iff by fastforce
  have jl: "j < MAX_SCHEDULABLE_THREADS" "\<not> used (g_threads s ! j)"
    using find_index_SomeD [OF j] T by (auto simp: tables_ok_def)
  have P: "placed (thread s) (runq s)" using assms(1) by (simp add: sched_inv_def)
  have "tid \<notin> set (runq s home)" using assms(7) runq_mem [OF assms(1) hm] by simp
  moreover have "length (runq s home) < MAX_SCHEDULABLE_THREADS"
    using runq_room [OF T P hm jl(1)] jl(2) by simp
  ultimately obtain s1 where s1: "queue_add s home tid = (s1, Ok)" "tables_ok s1" "g_threads s1 = g_threads s"
    "g_cpu_count s1 = g_cpu_count s" "g_initialized s1 = g_initialized s"
    "runq s1 = (runq s)(home := runq s home @ [tid])"
    using queue_add_new [OF T hc(1)] by blast
  define t where "t = zero_stat\<lparr> ts_id := tid, ts_state := Ready, ts_priority := priority,
    ts_affinity := affinity, ts_home_cpu := home, ts_last_cpu := MAX_CPUS \<rparr>"
  define s' where "s' = s1\<lparr> g_threads := (g_threads s1)[j := \<lparr> stat = t, used = True \<rparr>] \<rparr>"
  have fn: "find_thread s tid = None" using assms(7) by (simp add: thread_def)
  have "affinity AND online_mask_unlocked s = affinity"
    using assms(6) by (simp add: valid_affinity_iff [OF T assms(2)])
  then have reg: "register_thread s tid priority affinity preferred = (s', Ok)"
    using assms(2-5) fn j h(1) s1(1)
    by (simp add: register_thread_def not_less [symmetric] s'_def t_def)
  have tid: "ts_id t = tid" "ts_home_cpu t = home" by (simp_all add: t_def)
  have len: "length (g_threads s1) = MAX_SCHEDULABLE_THREADS" using s1(2) by (simp add: tables_ok_def)
  have at: "g_threads s' ! i = (if i = j then \<lparr> stat = t, used = True \<rparr> else g_threads s1 ! i)" for i
    using jl(1) len by (auto simp: s'_def nth_list_update)
  have fresh: "ts_id (stat_at s1 i) \<noteq> tid" if "i < MAX_SCHEDULABLE_THREADS" "used (g_threads s1 ! i)" for i
    using that fn T find_thread_iff [OF T, of tid i] by (auto simp: s1(3))
  have inj: "i = k" if "i < MAX_SCHEDULABLE_THREADS" "k < MAX_SCHEDULABLE_THREADS"
    "used (g_threads s' ! i)" "used (g_threads s' ! k)" "ts_id (stat_at s' i) = ts_id (stat_at s' k)" for i k
  proof (cases "i = j \<or> k = j")
    case True
    with that fresh [of i] fresh [of k] show ?thesis by (auto simp: at tid(1) split: if_splits)
  next
    case False
    with that s1(2) show ?thesis unfolding at tables_ok_def by simp
  qed
  have nz: "ts_id (stat_at s' i) \<noteq> 0" if "i < MAX_SCHEDULABLE_THREADS" "used (g_threads s' ! i)" for i
    using that s1(2) assms(3) tid(1) unfolding at tables_ok_def by (auto split: if_splits)
  have tb: "tables_ok s'"
    using s1(2) inj nz unfolding tables_ok_def by (auto simp: s'_def)
  have th: "thread s' = (thread s)(tid \<mapsto> t)"
  proof (rule ext)
    fix x
    have "thread s' x = Some u \<longleftrightarrow> ((thread s)(tid \<mapsto> t)) x = Some u" for u
      unfolding thread_eq_Some_iff [OF tb] at fun_upd_apply
      using thread_eq_Some_iff [OF T, of x u] jl tid(1) fresh s1(3) by auto metis
    then show "thread s' x = ((thread s)(tid \<mapsto> t)) x" by (metis option.exhaust)
  qed
  have "runq s' = runq s1" by (rule runq_cong) (simp add: s'_def)
  then have rq: "runq s' = (runq s)(home := runq s home @ [tid])" using s1(6) by simp
  have g: "g_cpu_count s' = g_cpu_count s" by (simp add: s'_def s1)
  have "thread_ok (g_cpu_count s) t" using assms(4,6) hc by (simp add: thread_ok_def t_def)
  then have "sched_inv s'"
    using tb placed_new [OF P assms(7) tid(2) hm] assms(1)
    unfolding sched_inv_def th rq g by (auto split: if_splits)
  then show ?thesis using that [OF reg h(1) t_def th rq g] by blast
qed

lemma register_thread_inv:
  assumes "sched_inv s" shows "sched_inv (fst (register_thread s tid priority affinity preferred))"
proof (cases "snd (register_thread s tid priority affinity preferred) = Ok")
  case True
  note T = sched_inv_tables [OF assms]
  have c: "g_initialized s" "tid \<noteq> 0" "priority \<le> MAX_PRIORITY" "affinity \<noteq> 0"
    "affinity AND online_mask_unlocked s = affinity" "find_thread s tid = None"
    "find_index (\<lambda>slot. \<not> used slot) (g_threads s) \<noteq> None"
    using True by (auto simp: register_thread_def Let_def split: if_splits option.splits)
  have "\<exists>slot \<in> set (g_threads s). \<not> used slot" using c(7) find_index_None_iff by metis
  with c show ?thesis
    using register_thread_cases [OF assms c(1-4), of preferred] valid_affinity_iff [OF T c(1)]
    by (metis fst_conv thread_of_find(2))
next
  case False
  have "fst (register_thread s tid priority affinity preferred) = s"
    using False by (auto simp: register_thread_def queue_add_def Let_def split: if_splits option.splits)
  with assms show ?thesis by simp
qed

lemma found_ok:
  assumes "sched_inv s" "find_thread s tid = Some i"
  shows "thread_ok (g_cpu_count s) (stat_at s i)" "ts_id (stat_at s i) = tid"
    "thread s tid = Some (stat_at s i)"
  using assms thread_of_find(1) [OF assms(2)] find_thread_iff [OF sched_inv_tables [OF assms(1)]]
  by (auto simp: sched_inv_def)

lemma set_state_inv: "sched_inv s \<Longrightarrow> sched_inv (fst (set_state s tid st))"
  using found_ok [of s tid]
  by (auto simp: set_state_def thread_ok_def intro!: set_stat_inv split: option.splits)

lemma set_priority_inv: "sched_inv s \<Longrightarrow> sched_inv (fst (set_priority s tid p))"
  using found_ok [of s tid]
  by (auto simp: set_priority_def thread_ok_def intro!: set_stat_inv split: option.splits)

lemma cancel_dispatch_inv: "sched_inv s \<Longrightarrow> sched_inv (fst (cancel_dispatch s tid cpu))"
  using found_ok [of s tid]
  by (auto simp: cancel_dispatch_def Let_def thread_ok_def intro!: set_stat_inv split: option.splits)

lemma unregister_thread_inv:
  assumes "sched_inv s"
  shows "sched_inv (fst (unregister_thread s tid))
    \<and> (\<forall>x. x \<noteq> tid \<longrightarrow> thread (fst (unregister_thread s tid)) x = thread s x)"
proof (cases "g_initialized s \<and> find_thread s tid \<noteq> None")
  case True
  then obtain i where i: "find_thread s tid = Some i" by auto
  note T = sched_inv_tables [OF assms] and F = found_ok [OF assms i]
  let ?h = "ts_home_cpu (stat_at s i)"
  have h: "?h < g_cpu_count s" using thread_home_online [OF assms F(3)] .
  note R = queue_remove_correct [OF T h, of tid]
  define s1 where "s1 = queue_remove s ?h tid"
  define s' where "s' = s1\<lparr> g_threads := (g_threads s1)[i := zero_slot] \<rparr>"
  have il: "i < MAX_SCHEDULABLE_THREADS" "used (g_threads s ! i)" using i by (simp_all add: find_thread_iff [OF T])
  have len: "length (g_threads s1) = MAX_SCHEDULABLE_THREADS" using R(1) by (simp add: tables_ok_def s1_def)
  have at: "g_threads s' ! j = (if j = i then zero_slot else g_threads s ! j)" for j
    using il len R(3) by (auto simp: s'_def s1_def nth_list_update)
  have tb: "tables_ok s'"
    using R(1) unfolding tables_ok_def at R(3) [folded s1_def]
    by (auto simp: s'_def s1_def [symmetric] zero_slot_def R(3) [folded s1_def])
  have th: "thread s' = (thread s)(tid := None)"
  proof (rule ext)
    fix x
    have uniq: "j = i" if "j < MAX_SCHEDULABLE_THREADS" "used (g_threads s ! j)" "ts_id (stat_at s j) = tid" for j
      using that i find_thread_iff [OF T, of tid j] by simp
    have "thread s' x = Some u \<longleftrightarrow> ((thread s)(tid := None)) x = Some u" for u
      unfolding thread_eq_Some_iff [OF tb] at fun_upd_apply
      using thread_eq_Some_iff [OF T, of x u] uniq F(2) by (auto simp: zero_slot_def) metis
    then show "thread s' x = ((thread s)(tid := None)) x" by (metis option.exhaust)
  qed
  have "runq s' = runq s1" by (rule runq_cong) (simp add: s'_def)
  then have rq: "runq s' = (runq s)(?h := remove1 tid (runq s ?h))" using R(2) by (simp add: s1_def)
  have g: "g_cpu_count s' = g_cpu_count s" by (simp add: s'_def s1_def R)
  have P: "placed (thread s) (runq s)" using assms by (simp add: sched_inv_def)
  have "sched_inv s'"
    using tb placed_drop [OF P F(3) cpu_count_bound [OF T h]] assms
    unfolding sched_inv_def th rq g by (auto split: if_splits)
  moreover have "unregister_thread s tid = (s', Ok)"
    using True i by (simp add: unregister_thread_def s'_def s1_def Let_def)
  ultimately show ?thesis by (simp add: th)
next
  case False
  then show ?thesis using assms by (auto simp: unregister_thread_def)
qed

text \<open>
  The three steps that give a thread another home: out of the old queue, into the new one, and the
  record.  The failure branches of the callers are never taken.
\<close>

lemma rehome:
  assumes "tables_ok s" "placed (thread s) (runq s)" "find_thread s tid = Some i" "t = stat_at s i"
    "\<forall>x u. x \<noteq> tid \<longrightarrow> thread s x = Some u \<longrightarrow> thread_ok (g_cpu_count s) u"
    "ts_home_cpu t < g_cpu_count s" "c < g_cpu_count s" "c \<noteq> ts_home_cpu t"
    "ts_id t' = tid" "ts_home_cpu t' = c" "thread_ok (g_cpu_count s) t'"
  obtains s' where
    "queue_add (queue_remove s (ts_home_cpu t) tid) c tid = (s', Ok)"
    "stat_at s' i = t"
    "sched_inv (set_stat s' i t')"
    "thread (set_stat s' i t') = (thread s)(tid \<mapsto> t')"
    "runq (set_stat s' i t') =
       (runq s)(ts_home_cpu t := remove1 tid (runq s (ts_home_cpu t)), c := runq s c @ [tid])"
    "g_cpu_count s' = g_cpu_count s" "g_initialized s' = g_initialized s"
    "find_thread (set_stat s' i t') tid = Some i"
proof -
  obtain s' where s': "queue_add (queue_remove s (ts_home_cpu t) tid) c tid = (s', Ok)"
    "tables_ok s'" "g_threads s' = g_threads s" "g_cpu_count s' = g_cpu_count s"
    "g_initialized s' = g_initialized s"
    "runq s' = (runq s)(ts_home_cpu t := remove1 tid (runq s (ts_home_cpu t)), c := runq s c @ [tid])"
    using requeue [OF assms(1-3)] assms(6-8) unfolding assms(4) by blast
  have f: "find_thread s' tid = Some i" using thread_cong(2) [OF s'(3)] assms(3) by simp
  note S = thread_set_stat [OF s'(2) f assms(9)]
  have th: "thread (set_stat s' i t') = (thread s)(tid \<mapsto> t')" using S(2) thread_cong(1) [OF s'(3)] by simp
  have rq: "runq (set_stat s' i t') =
      (runq s)(ts_home_cpu t := remove1 tid (runq s (ts_home_cpu t)), c := runq s c @ [tid])"
    using S(3) s'(6) by simp
  have tt: "thread s tid = Some t" using thread_of_find(1) [OF assms(3)] assms(4) by simp
  have "sched_inv (set_stat s' i t')"
  proof (rule sched_invI)
    show "tables_ok (set_stat s' i t')" by (rule S(1))
    show "placed (thread (set_stat s' i t')) (runq (set_stat s' i t'))" unfolding th rq
      using placed_move [OF assms(2) tt _ _ assms(8,10)] cpu_count_bound [OF assms(1)] assms(6,7) by blast
    show "thread_ok (g_cpu_count (set_stat s' i t')) u" if "thread (set_stat s' i t') x = Some u" for x u
      using that assms(5,11) unfolding th by (auto simp: s'(4) split: if_splits)
  qed
  then show ?thesis using that [OF s'(1) _ _ th rq s'(4,5)] s'(3) assms(4) S(4) f by simp
qed


text \<open>What a processor relies on while it runs a thread: the thread's state and the processor that owns it.\<close>

definition held :: "policy \<Rightarrow> u64 \<Rightarrow> (State \<times> nat) option" where
  "held s tid = map_option (\<lambda>t. (ts_state t, ts_last_cpu t)) (thread s tid)"

lemma held_upd:
  "thread s' = (thread s)(tid \<mapsto> u) \<Longrightarrow> thread s tid = Some t \<Longrightarrow> ts_state u = ts_state t \<Longrightarrow>
   ts_last_cpu u = ts_last_cpu t \<Longrightarrow> held s' = held s"
  by (simp add: held_def fun_eq_iff)

lemma set_affinity_inv:
  assumes "sched_inv s"
  shows "sched_inv (fst (set_affinity s tid affinity)) \<and> held (fst (set_affinity s tid affinity)) = held s"
proof (cases "g_initialized s \<and> affinity \<noteq> 0 \<and> affinity AND online_mask_unlocked s = affinity
    \<and> find_thread s tid \<noteq> None")
  case True
  then obtain i where i: "find_thread s tid = Some i" by auto
  note T = sched_inv_tables [OF assms] and F = found_ok [OF assms i]
  define t where "t = (stat_at s i)\<lparr> ts_affinity := affinity \<rparr>"
  define s1 where "s1 = set_stat s i t"
  have t: "ts_id t = tid" "ts_home_cpu t = ts_home_cpu (stat_at s i)" "ts_affinity t = affinity"
    "ts_priority t \<le> MAX_PRIORITY"
    using F by (simp_all add: t_def thread_ok_def)
  note S = thread_set_stat [OF T i t(1), folded s1_def]
  have g: "g_cpu_count s1 = g_cpu_count s" "g_cpu_count s1 \<le> MAX_CPUS"
    using T by (simp_all add: s1_def tables_ok_def)
  have a: "k < g_cpu_count s" if "bit affinity k" for k
    using that True valid_affinity_iff [OF T] by blast
  have i1: "find_thread s1 tid = Some i" using i by (simp add: S(4))
  have at: "stat_at s1 i = t" using S(2) found_ok [OF assms i] thread_of_find(1) [OF i1] by simp
  have pl: "placed (thread s1) (runq s1)"
    using assms F(3) t(2) unfolding S(2,3) sched_inv_def placed_def by auto
  have others: "\<forall>x u. x \<noteq> tid \<longrightarrow> thread s1 x = Some u \<longrightarrow> thread_ok (g_cpu_count s1) u"
    using assms unfolding S(2) g(1) sched_inv_def by simp
  show ?thesis
  proof (cases "cpu_allowed s1 affinity (ts_home_cpu t)")
    case ok: True
    have "set_affinity s tid affinity = (s1, Ok)"
      using True i ok at by (auto simp: set_affinity_def Let_def s1_def t_def)
    moreover have "sched_inv s1" unfolding s1_def
      using set_stat_inv [OF assms i t(1,2)] ok a t by (simp add: thread_ok_def cpu_allowed_iff g(2))
    ultimately show ?thesis using held_upd [OF S(2) F(3)] by (simp add: t_def)
  next
    case no: False
    obtain k where "bit affinity k" using affinity_some_cpu True by blast
    then have "cpu_allowed s1 affinity k" using a by (simp add: cpu_allowed_iff [OF g(2)] g(1))
    then obtain c where c: "choose_home s1 affinity MAX_CPUS = Some c" "cpu_allowed s1 affinity c"
      using choose_home_spec [OF S(1)] by metis
    define t' where "t' = t\<lparr> ts_home_cpu := c, ts_migrations := ts_migrations t + 1 \<rparr>"
    have home: "ts_home_cpu t < g_cpu_count s1"
      using thread_home_online [OF assms F(3)] t(2) g(1) by simp
    have cc: "c < g_cpu_count s1" "bit affinity c" "c \<noteq> ts_home_cpu t"
      using c(2) no by (auto simp: cpu_allowed_iff g(2))
    have t': "ts_id t' = tid" "ts_home_cpu t' = c" "thread_ok (g_cpu_count s1) t'"
      using t cc a by (simp_all add: t'_def thread_ok_def g(1))
    obtain s2 where s2: "queue_add (queue_remove s1 (ts_home_cpu t) tid) c tid = (s2, Ok)"
      "stat_at s2 i = t" "sched_inv (set_stat s2 i t')" "thread (set_stat s2 i t') = (thread s1)(tid \<mapsto> t')"
      by (rule rehome [OF S(1) pl i1 at [symmetric] others home cc(1,3) t'])
    have "set_affinity s tid affinity = (set_stat s2 i t', Ok)"
      using True i no at c(1) s2(1,2) unfolding set_affinity_def t_def [symmetric] Let_def
      by (simp add: s1_def [symmetric] t_def [symmetric] t'_def)
    moreover have "thread (set_stat s2 i t') = (thread s)(tid \<mapsto> t')" using s2(4) S(2) by simp
    ultimately show ?thesis using held_upd [OF _ F(3), of "set_stat s2 i t'" t'] s2(3)
      by (simp add: t'_def t_def)
  qed
next
  case False
  then show ?thesis using assms by (auto simp: set_affinity_def Let_def)
qed

section \<open>Selection\<close>

text \<open>
  Both selection loops keep the first candidate of the highest priority they meet.
\<close>

definition keep_best :: "('b \<Rightarrow> 'p::linorder) \<Rightarrow> 'b option \<Rightarrow> 'b option \<Rightarrow> 'b option" where
  "keep_best prio x best =
     (case x of None \<Rightarrow> best
      | Some y \<Rightarrow> (case best of None \<Rightarrow> Some y | Some z \<Rightarrow> if prio z < prio y then Some y else best))"

lemma fold_keep_best:
  fixes prio :: "'b \<Rightarrow> 'p::linorder"
  shows "case fold (\<lambda>a. keep_best prio (f a)) as None of
      None \<Rightarrow> \<forall>a \<in> set as. f a = None
    | Some y \<Rightarrow> \<exists>i < length as. f (as ! i) = Some y \<and>
        (\<forall>j < length as. \<forall>z. f (as ! j) = Some z \<longrightarrow> prio z \<le> prio y \<and> (j < i \<longrightarrow> prio z < prio y))"
proof (induction as rule: rev_induct)
  case Nil
  then show ?case by simp
next
  case (snoc a as)
  let ?r = "fold (\<lambda>a. keep_best prio (f a)) as None"
  show ?case
  proof (cases "f a")
    case None
    then have r: "fold (\<lambda>a. keep_best prio (f a)) (as @ [a]) None = ?r" by (simp add: keep_best_def)
    show ?thesis
    proof (cases ?r)
      case None
      with snoc \<open>f a = None\<close> show ?thesis unfolding r by simp
    next
      case (Some y)
      with snoc obtain i where "i < length as" "f (as ! i) = Some y"
        "\<forall>j < length as. \<forall>z. f (as ! j) = Some z \<longrightarrow> prio z \<le> prio y \<and> (j < i \<longrightarrow> prio z < prio y)"
        by auto
      with Some \<open>f a = None\<close> show ?thesis unfolding r
        by (auto intro!: exI [of _ i] simp: nth_append less_Suc_eq)
    qed
  next
    case (Some x)
    show ?thesis
    proof (cases ?r)
      case None
      then have "fold (\<lambda>a. keep_best prio (f a)) (as @ [a]) None = Some x"
        using Some by (simp add: keep_best_def)
      moreover have "\<forall>j < length as. f (as ! j) = None" using snoc None by simp
      ultimately show ?thesis using Some
        by (auto intro!: exI [of _ "length as"] simp: nth_append less_Suc_eq)
    next
      case r: (Some y)
      with snoc obtain i where i: "i < length as" "f (as ! i) = Some y"
        "\<forall>j < length as. \<forall>z. f (as ! j) = Some z \<longrightarrow> prio z \<le> prio y \<and> (j < i \<longrightarrow> prio z < prio y)"
        by auto
      show ?thesis
      proof (cases "prio y < prio x")
        case True
        then have "fold (\<lambda>a. keep_best prio (f a)) (as @ [a]) None = Some x"
          using Some r by (simp add: keep_best_def)
        moreover have "prio z < prio x" if "j < length as" "f (as ! j) = Some z" for j z
          using i(3) that True by (meson le_less_trans)
        ultimately show ?thesis using Some
          by (auto intro!: exI [of _ "length as"] simp: nth_append less_Suc_eq less_imp_le)
      next
        case False
        then have "fold (\<lambda>a. keep_best prio (f a)) (as @ [a]) None = Some y"
          using Some r by (simp add: keep_best_def)
        then show ?thesis using Some i False
          by (auto intro!: exI [of _ i] simp: nth_append less_Suc_eq not_less)
      qed
    qed
  qed
qed


text \<open>The order in which a queue is scanned: from its cursor, around the ring.\<close>

definition scanned :: "policy \<Rightarrow> nat \<Rightarrow> u64 list" where
  "scanned s cpu = rotate (cursor (g_queues s ! cpu)) (runq s cpu)"

text \<open>A thread that \<open>pick_next\<close> may give to the processor.\<close>

definition eligible :: "policy \<Rightarrow> nat \<Rightarrow> u64 \<Rightarrow> u64 \<Rightarrow> bool" where
  "eligible s cpu excluded tid \<longleftrightarrow> tid \<noteq> excluded
     \<and> (case thread s tid of None \<Rightarrow> False
        | Some t \<Rightarrow> ts_state t = Ready \<and> cpu_allowed s (ts_affinity t) cpu)"

definition priority_of :: "policy \<Rightarrow> u64 \<Rightarrow> u8" where
  "priority_of s tid = ts_priority (the (thread s tid))"

lemma set_scanned [simp]: "set (scanned s cpu) = set (runq s cpu)"
  and length_scanned [simp]: "length (scanned s cpu) = length (runq s cpu)"
  and distinct_scanned [simp]: "distinct (scanned s cpu) = distinct (runq s cpu)"
  by (simp_all add: scanned_def)

lemma scan_entry:
  assumes "tables_ok s" "cpu < MAX_CPUS" "off < length (runq s cpu)"
  shows "ids (g_queues s ! cpu) ! ((cursor (g_queues s ! cpu) + off) mod count (g_queues s ! cpu))
    = scanned s cpu ! off"
proof -
  let ?q = "g_queues s ! cpu"
  have n: "length (runq s cpu) = count ?q" by (rule length_runq [OF assms(1,2)])
  have "(cursor ?q + off) mod count ?q < count ?q" using assms(3) n by simp
  then have "ids ?q ! ((cursor ?q + off) mod count ?q) = runq s cpu ! ((cursor ?q + off) mod count ?q)"
    by (simp add: runq_def)
  also have "\<dots> = scanned s cpu ! off"
    using assms(3) n by (simp add: scanned_def nth_rotate)
  finally show ?thesis .
qed

definition local_candidate :: "policy \<Rightarrow> nat \<Rightarrow> u64 \<Rightarrow> nat \<Rightarrow> (nat \<times> nat \<times> u8) option" where
  "local_candidate s cpu excluded off =
     (let tid = scanned s cpu ! off in
      if eligible s cpu excluded tid
      then Some (the (find_thread s tid), (cursor (g_queues s ! cpu) + off) mod count (g_queues s ! cpu),
        priority_of s tid) else None)"

lemma select_step_keep_best:
  assumes "tables_ok s" "cpu < MAX_CPUS" "off < length (runq s cpu)"
  shows "select_step s cpu excluded off best =
    keep_best (snd \<circ> snd) (local_candidate s cpu excluded off) best"
  unfolding select_step_def Let_def scan_entry [OF assms] local_candidate_def
  by (cases "find_thread s (scanned s cpu ! off)")
     (auto simp: keep_best_def eligible_def priority_of_def thread_def split: option.splits)

lemma select_from_queue_cases:
  assumes "sched_inv s" "cpu < g_cpu_count s"
  obtains (none) "select_from_queue s cpu excluded = (s, None)"
      "\<forall>tid \<in> set (runq s cpu). \<not> eligible s cpu excluded tid"
  | (found) i tid k s' where "select_from_queue s cpu excluded = (s', Some k)"
      "i < length (runq s cpu)" "scanned s cpu ! i = tid" "eligible s cpu excluded tid"
      "find_thread s tid = Some k"
      "\<forall>x \<in> set (runq s cpu). eligible s cpu excluded x \<longrightarrow> priority_of s x \<le> priority_of s tid"
      "\<forall>j < i. eligible s cpu excluded (scanned s cpu ! j)
         \<longrightarrow> priority_of s (scanned s cpu ! j) < priority_of s tid"
      "s' = set_queue s cpu ((g_queues s ! cpu)\<lparr> cursor := cursor (g_queues s' ! cpu) \<rparr>)"
      "tables_ok s'" "runq s' = runq s" "scanned s' cpu = rotate (Suc i) (scanned s cpu)"
proof -
  let ?q = "g_queues s ! cpu"
  let ?L = "fold (select_step s cpu excluded) [0..<count ?q] None"
  note T = sched_inv_tables [OF assms(1)] and c = cpu_count_bound [OF T assms(2)]
  have n: "length (runq s cpu) = count ?q" by (rule length_runq [OF T c])
  have L: "?L = fold (\<lambda>off. keep_best (snd \<circ> snd) (local_candidate s cpu excluded off)) [0..<count ?q] None"
    by (rule fold_cong) (auto simp: fun_eq_iff select_step_keep_best [OF T c] n)
  note best = fold_keep_best [where prio = "snd \<circ> snd" and f = "local_candidate s cpu excluded"
      and as = "[0..<count ?q]", folded L]
  have lc: "local_candidate s cpu excluded j = None \<longleftrightarrow> \<not> eligible s cpu excluded (scanned s cpu ! j)" for j
    by (simp add: local_candidate_def Let_def)
  have mem: "x \<in> set (runq s cpu) \<longleftrightarrow> (\<exists>j < count ?q. scanned s cpu ! j = x)" for x
    using in_set_conv_nth [of x "scanned s cpu"] n by auto
  show ?thesis
  proof (cases ?L)
    case None
    then have "\<forall>j < count ?q. local_candidate s cpu excluded j = None" using best by simp
    then have "\<forall>x \<in> set (runq s cpu). \<not> eligible s cpu excluded x" by (auto simp: mem lc)
    moreover have "select_from_queue s cpu excluded = (s, None)" by (simp add: select_from_queue_def Let_def None)
    ultimately show ?thesis by (rule none [rotated])
  next
    case (Some y)
    with best obtain i where i: "i < count ?q" "local_candidate s cpu excluded i = Some y"
      "\<forall>j < count ?q. \<forall>z. local_candidate s cpu excluded j = Some z \<longrightarrow>
         snd (snd z) \<le> snd (snd y) \<and> (j < i \<longrightarrow> snd (snd z) < snd (snd y))"
      by auto
    define tid where "tid = scanned s cpu ! i"
    define qi where "qi = (cursor ?q + i) mod count ?q"
    have e: "eligible s cpu excluded tid" using i(2) lc [of i] by (auto simp: tid_def)
    then obtain k where k: "find_thread s tid = Some k" by (auto simp: eligible_def thread_def split: option.splits)
    have y: "y = (k, qi, priority_of s tid)"
      using i(2) e k by (simp add: local_candidate_def Let_def tid_def [symmetric] qi_def)
    have rel: "priority_of s (scanned s cpu ! j) \<le> priority_of s tid
        \<and> (j < i \<longrightarrow> priority_of s (scanned s cpu ! j) < priority_of s tid)"
      if "j < count ?q" "eligible s cpu excluded (scanned s cpu ! j)" for j
      using i(3) that y by (auto simp: local_candidate_def Let_def)
    define q' where "q' = ?q\<lparr> cursor := (qi + 1) mod count ?q \<rparr>"
    define s' where "s' = set_queue s cpu q'"
    have cl: "cpu < length (g_queues s)" using T c by (simp add: tables_ok_def)
    have cq: "0 < count ?q" using i(1) by simp
    have sel: "select_from_queue s cpu excluded = (s', Some k)"
      using Some y cq by (simp add: select_from_queue_def Let_def s'_def q'_def)
    have "queue_ok q'" using queue_ok_nth [OF T c] cq by (simp add: queue_ok_def q'_def)
    then have tb: "tables_ok s'" unfolding s'_def by (rule tables_ok_set_queue [OF T])
    have rq: "runq s' = runq s" unfolding s'_def runq_set_queue [OF cl] by (auto simp: q'_def runq_def fun_eq_iff)
    have at: "g_queues s' ! cpu = q'" using cl by (simp add: s'_def)
    have "scanned s' cpu = rotate ((qi + 1) mod count ?q) (runq s cpu)"
      by (simp add: scanned_def at rq q'_def)
    also have "\<dots> = rotate (qi + 1) (runq s cpu)" using n rotate_conv_mod [of "qi + 1" "runq s cpu"] by simp
    also have "\<dots> = rotate (Suc i + cursor ?q) (runq s cpu)"
      using n rotate_conv_mod [of "qi + 1" "runq s cpu"] rotate_conv_mod [of "Suc i + cursor ?q" "runq s cpu"]
      by (simp add: qi_def mod_Suc_eq add.commute)
    also have "\<dots> = rotate (Suc i) (scanned s cpu)" by (simp only: scanned_def rotate_rotate)
    finally have sc: "scanned s' cpu = rotate (Suc i) (scanned s cpu)" .
    have cur: "s' = set_queue s cpu (?q\<lparr> cursor := cursor (g_queues s' ! cpu) \<rparr>)"
      unfolding at by (simp add: s'_def q'_def)
    have mx: "\<forall>x \<in> set (runq s cpu). eligible s cpu excluded x \<longrightarrow> priority_of s x \<le> priority_of s tid"
    proof (intro ballI impI)
      fix x assume "x \<in> set (runq s cpu)" "eligible s cpu excluded x"
      then show "priority_of s x \<le> priority_of s tid" using rel mem [of x] by auto
    qed
    have fs: "\<forall>j < i. eligible s cpu excluded (scanned s cpu ! j)
         \<longrightarrow> priority_of s (scanned s cpu ! j) < priority_of s tid"
      using rel i(1) by simp
    have il: "i < length (runq s cpu)" using i(1) n by simp
    show ?thesis by (rule found [OF sel il tid_def [symmetric] e k mx fs cur tb rq sc])
  qed
qed

definition steal_candidate :: "policy \<Rightarrow> nat \<Rightarrow> u64 \<Rightarrow> nat \<times> nat \<Rightarrow> (nat \<times> u8) option" where
  "steal_candidate s destination excluded place =
     (let tid = scanned s (fst place) ! snd place in
      if eligible s destination excluded tid
      then Some (the (find_thread s tid), priority_of s tid) else None)"

lemma steal_step_keep_best:
  assumes "tables_ok s" "cpu < MAX_CPUS" "off < length (runq s cpu)"
  shows "steal_step s destination excluded cpu off best =
    keep_best snd (steal_candidate s destination excluded (cpu, off)) best"
proof (cases "find_thread s (scanned s cpu ! off)")
  case None
  then show ?thesis unfolding steal_step_def Let_def scan_entry [OF assms] steal_candidate_def
    by (simp add: keep_best_def eligible_def thread_def)
next
  case (Some k)
  then have "ts_id (stat_at s k) = scanned s cpu ! off" using find_thread_iff [OF assms(1)] by simp
  with Some show ?thesis unfolding steal_step_def Let_def scan_entry [OF assms] steal_candidate_def
    by (auto simp: keep_best_def eligible_def priority_of_def thread_def split: option.splits)
qed

lemma fold_nested:
  "fold (\<lambda>c b. if c = d then b else fold (g c) (ys c) b) cs b =
   fold (\<lambda>p. g (fst p) (snd p)) (concat (map (\<lambda>c. if c = d then [] else map (Pair c) (ys c)) cs)) b"
proof (induction cs arbitrary: b)
  case Nil
  then show ?case by simp
next
  case (Cons c cs)
  have "fold (g c) zs b = fold (\<lambda>p. g (fst p) (snd p)) (map (Pair c) zs) b" for zs b
    by (induction zs arbitrary: b) simp_all
  with Cons show ?case by simp
qed

lemma select_steal_candidate_cases:
  assumes "sched_inv s"
  obtains (none) "select_steal_candidate s destination excluded = None"
      "\<forall>tid t. thread s tid = Some t \<longrightarrow> ts_home_cpu t \<noteq> destination \<longrightarrow> \<not> eligible s destination excluded tid"
  | (found) tid t k where "select_steal_candidate s destination excluded = Some k"
      "find_thread s tid = Some k" "thread s tid = Some t" "ts_home_cpu t \<noteq> destination"
      "eligible s destination excluded tid"
      "\<forall>x u. thread s x = Some u \<longrightarrow> ts_home_cpu u \<noteq> destination \<longrightarrow> eligible s destination excluded x
         \<longrightarrow> priority_of s x \<le> priority_of s tid"
proof -
  define places where "places = concat (map (\<lambda>c. if c = destination then []
    else map (Pair c) [0..<count (g_queues s ! c)]) [0..<g_cpu_count s])"
  let ?f = "steal_candidate s destination excluded"
  let ?L = "fold (\<lambda>p. keep_best snd (?f p)) places None"
  note T = sched_inv_tables [OF assms]
  have pl: "p \<in> set places \<longleftrightarrow> fst p < g_cpu_count s \<and> fst p \<noteq> destination \<and> snd p < length (runq s (fst p))" for p
  proof -
    have "p \<in> set places \<longleftrightarrow>
        (\<exists>c < g_cpu_count s. c \<noteq> destination \<and> (\<exists>m < count (g_queues s ! c). p = (c, m)))"
      by (force simp: places_def split: if_splits)
    then show ?thesis using length_runq [OF T cpu_count_bound [OF T]] by (cases p) auto
  qed
  have mem: "(\<exists>p \<in> set places. scanned s (fst p) ! snd p = x) \<longleftrightarrow>
      (\<exists>t. thread s x = Some t \<and> ts_home_cpu t \<noteq> destination)" (is "?l = ?r") for x
  proof
    assume ?l
    then obtain c m where p: "c < g_cpu_count s" "c \<noteq> destination" "m < length (runq s c)" "scanned s c ! m = x"
      by (auto simp: pl)
    then have "x \<in> set (runq s c)" using nth_mem [of m "scanned s c"] by simp
    with p show ?r using runq_mem [OF assms cpu_count_bound [OF T p(1)]] by auto
  next
    assume ?r
    then obtain t where t: "thread s x = Some t" "ts_home_cpu t \<noteq> destination" by blast
    then have h: "ts_home_cpu t < g_cpu_count s" using thread_home_online [OF assms] by blast
    then have "x \<in> set (scanned s (ts_home_cpu t))"
      using t runq_mem [OF assms cpu_count_bound [OF T h]] by auto
    then obtain m where "m < length (runq s (ts_home_cpu t))" "scanned s (ts_home_cpu t) ! m = x"
      unfolding in_set_conv_nth by auto
    then show ?l using h t(2) by (intro bexI [of _ "(ts_home_cpu t, m)"]) (auto simp: pl)
  qed
  have "fold (\<lambda>p. steal_step s destination excluded (fst p) (snd p)) places None = ?L"
  proof (rule fold_cong)
    show "steal_step s destination excluded (fst p) (snd p) = keep_best snd (?f p)" if "p \<in> set places" for p
      using that steal_step_keep_best [OF T cpu_count_bound [OF T]] by (auto simp: fun_eq_iff pl)
  qed simp_all
  then have sel: "select_steal_candidate s destination excluded = map_option fst ?L"
    by (simp add: select_steal_candidate_def fold_nested places_def)
  note best = fold_keep_best [where prio = snd and f = ?f and as = places]
  have cand: "?f p = (if eligible s destination excluded (scanned s (fst p) ! snd p)
      then Some (the (find_thread s (scanned s (fst p) ! snd p)), priority_of s (scanned s (fst p) ! snd p))
      else None)" for p
    by (simp add: steal_candidate_def Let_def)
  show ?thesis
  proof (cases ?L)
    case None
    then have "\<forall>p \<in> set places. \<not> eligible s destination excluded (scanned s (fst p) ! snd p)"
      using best by (auto simp: cand split: if_splits)
    then have "\<forall>x t. thread s x = Some t \<longrightarrow> ts_home_cpu t \<noteq> destination \<longrightarrow> \<not> eligible s destination excluded x"
      using mem by metis
    with None sel show ?thesis using none by simp
  next
    case (Some y)
    with best obtain i where i: "i < length places" "?f (places ! i) = Some y"
      "\<forall>j < length places. \<forall>z. ?f (places ! j) = Some z \<longrightarrow> snd z \<le> snd y"
      by auto
    define x where "x = scanned s (fst (places ! i)) ! snd (places ! i)"
    have e: "eligible s destination excluded x" using i(2) by (auto simp: cand x_def split: if_splits)
    then obtain k where k: "find_thread s x = Some k" by (auto simp: eligible_def thread_def split: option.splits)
    have y: "y = (k, priority_of s x)" using i(2) e k by (simp add: cand x_def)
    obtain t where t: "thread s x = Some t" "ts_home_cpu t \<noteq> destination"
      using mem [of x] nth_mem [OF i(1)] by (auto simp: x_def)
    have "\<forall>p \<in> set places. \<forall>z. ?f p = Some z \<longrightarrow> snd z \<le> priority_of s x"
      using i(3) y by (metis in_set_conv_nth snd_conv)
    then have "\<forall>p \<in> set places. eligible s destination excluded (scanned s (fst p) ! snd p) \<longrightarrow>
        priority_of s (scanned s (fst p) ! snd p) \<le> priority_of s x"
      by (auto simp: cand)
    then have "\<forall>z u. thread s z = Some u \<longrightarrow> ts_home_cpu u \<noteq> destination \<longrightarrow> eligible s destination excluded z
        \<longrightarrow> priority_of s z \<le> priority_of s x"
      using mem by metis
    then show ?thesis using found [OF _ k t e] Some y sel by simp
  qed
qed

lemma reserve_correct:
  assumes "sched_inv s" "cpu < g_cpu_count s" "find_thread s tid = Some k" "thread s tid = Some t"
  obtains s' where "reserve s cpu k = (s', tid)" "sched_inv s'"
    "thread s' = (thread s)(tid \<mapsto> t\<lparr> ts_state := Running, ts_last_cpu := cpu,
        ts_dispatches := ts_dispatches t + 1 \<rparr>)"
    "runq s' = runq s" "scanned s' = scanned s"
    "g_cpu_count s' = g_cpu_count s" "g_initialized s' = g_initialized s"
proof -
  note T = sched_inv_tables [OF assms(1)] and F = found_ok [OF assms(1,3)]
  have t: "stat_at s k = t" using F(3) assms(4) by simp
  define t' where "t' = t\<lparr> ts_state := Running, ts_last_cpu := cpu, ts_dispatches := ts_dispatches t + 1 \<rparr>"
  have t': "ts_id t' = tid" "ts_home_cpu t' = ts_home_cpu (stat_at s k)" "thread_ok (g_cpu_count s) t'"
    using F t by (simp_all add: t'_def thread_ok_def)
  define s1 where "s1 = set_stat s k t'"
  note S = thread_set_stat [OF T assms(3) t'(1), folded s1_def]
  have g1: "g_queues s1 = g_queues s" by (simp add: s1_def)
  have inv1: "sched_inv s1" unfolding s1_def by (rule set_stat_inv [OF assms(1,3) t'])
  define q' where "q' = (g_queues s1 ! cpu)\<lparr> dispatches := dispatches (g_queues s1 ! cpu) + 1 \<rparr>"
  define s' where "s' = set_queue s1 cpu q'"
  have c: "cpu < MAX_CPUS" using cpu_count_bound [OF T assms(2)] .
  then have cl: "cpu < length (g_queues s1)" using S(1) by (simp add: tables_ok_def)
  have "queue_ok q'" using queue_ok_nth [OF S(1) c] by (simp add: q'_def queue_ok_def)
  then have tb: "tables_ok s'" unfolding s'_def by (rule tables_ok_set_queue [OF S(1)])
  have rq: "runq s' = runq s1" unfolding s'_def runq_set_queue [OF cl] by (auto simp: q'_def runq_def fun_eq_iff)
  have sc: "scanned s' = scanned s" unfolding scanned_def rq S(3)
    using cl by (auto simp: fun_eq_iff s'_def s1_def q'_def nth_list_update)
  have th: "thread s' = thread s1" by (simp add: s'_def)
  have "sched_inv s'" using inv1 tb unfolding sched_inv_def rq th by (simp add: s'_def)
  moreover have "reserve s cpu k = (s', tid)"
    using F(2) g1 by (simp add: reserve_def Let_def t t'_def [symmetric] s1_def [symmetric] s'_def q'_def)
  moreover have "thread s' = (thread s)(tid \<mapsto> t')" "runq s' = runq s" using th rq S(2,3) by simp_all
  moreover have "g_cpu_count s' = g_cpu_count s" "g_initialized s' = g_initialized s"
    by (simp_all add: s'_def s1_def)
  ultimately show ?thesis
    using that [of s'] sc unfolding t'_def by blast
qed


lemma migrate_correct:
  assumes "sched_inv s" "find_thread s tid = Some k" "thread s tid = Some t"
    "ts_home_cpu t \<noteq> cpu" "cpu_allowed s (ts_affinity t) cpu"
  obtains s' where "migrate s cpu k = (s', Ok)" "sched_inv s'"
    "thread s' = (thread s)(tid \<mapsto> t\<lparr> ts_home_cpu := cpu, ts_migrations := ts_migrations t + 1 \<rparr>)"
    "runq s' = (runq s)(ts_home_cpu t := remove1 tid (runq s (ts_home_cpu t)), cpu := runq s cpu @ [tid])"
    "find_thread s' tid = Some k"
    "g_cpu_count s' = g_cpu_count s" "g_initialized s' = g_initialized s"
proof -
  note T = sched_inv_tables [OF assms(1)] and F = found_ok [OF assms(1,2)]
  have P: "placed (thread s) (runq s)" using assms(1) by (simp add: sched_inv_def)
  have t: "t = stat_at s k" using F(3) assms(3) by simp
  have cc: "g_cpu_count s \<le> MAX_CPUS" using T by (simp add: tables_ok_def)
  have a: "cpu < g_cpu_count s" "bit (ts_affinity t) cpu" using assms(5) by (simp_all add: cpu_allowed_iff [OF cc])
  have h: "ts_home_cpu t < g_cpu_count s" by (rule thread_home_online [OF assms(1,3)])
  define t' where "t' = t\<lparr> ts_home_cpu := cpu, ts_migrations := ts_migrations t + 1 \<rparr>"
  have t': "ts_id t' = tid" "ts_home_cpu t' = cpu" "thread_ok (g_cpu_count s) t'"
    using F a unfolding t [symmetric] by (simp_all add: t'_def thread_ok_def)
  have others: "\<forall>x u. x \<noteq> tid \<longrightarrow> thread s x = Some u \<longrightarrow> thread_ok (g_cpu_count s) u"
    using assms(1) by (simp add: sched_inv_def)
  obtain s1 where s1: "queue_add (queue_remove s (ts_home_cpu t) tid) cpu tid = (s1, Ok)" "stat_at s1 k = t"
    "sched_inv (set_stat s1 k t')" "thread (set_stat s1 k t') = (thread s)(tid \<mapsto> t')"
    "runq (set_stat s1 k t') =
       (runq s)(ts_home_cpu t := remove1 tid (runq s (ts_home_cpu t)), cpu := runq s cpu @ [tid])"
    "g_cpu_count s1 = g_cpu_count s" "g_initialized s1 = g_initialized s"
    "find_thread (set_stat s1 k t') tid = Some k"
    by (rule rehome [OF T P assms(2) t others h a(1) assms(4) [symmetric] t'])
  define s2 where "s2 = set_stat s1 k t'"
  have g2: "g_queues s2 = g_queues s1" by (simp add: s2_def)
  define q where "q = (g_queues s2 ! cpu)\<lparr> steals := steals (g_queues s2 ! cpu) + 1 \<rparr>"
  define s' where "s' = set_queue s2 cpu q"
  note T2 = sched_inv_tables [OF s1(3), folded s2_def]
  have c: "cpu < MAX_CPUS" "cpu < length (g_queues s2)"
    using cpu_count_bound [OF T a(1)] T2 by (simp_all add: tables_ok_def)
  have "queue_ok q" using queue_ok_nth [OF T2 c(1)] by (simp add: q_def queue_ok_def)
  then have tb: "tables_ok s'" unfolding s'_def by (rule tables_ok_set_queue [OF T2])
  have rq: "runq s' = runq s2" unfolding s'_def runq_set_queue [OF c(2)] by (auto simp: q_def runq_def fun_eq_iff)
  have th: "thread s' = thread s2" by (simp add: s'_def)
  have inv: "sched_inv s'" using s1(3) [folded s2_def] tb unfolding sched_inv_def rq th by (simp add: s'_def)
  have "ts_id t = tid" using F(2) t by simp
  then have mg: "migrate s cpu k = (s', Ok)"
    unfolding migrate_def t [symmetric] using s1(1,2) g2
    by (simp add: Let_def t'_def [symmetric] s2_def [symmetric] s'_def q_def)
  have "thread s' = (thread s)(tid \<mapsto> t')" "find_thread s' tid = Some k"
    "runq s' = (runq s)(ts_home_cpu t := remove1 tid (runq s (ts_home_cpu t)), cpu := runq s cpu @ [tid])"
    "g_cpu_count s' = g_cpu_count s" "g_initialized s' = g_initialized s"
    using rq s1(4-8) by (simp_all add: s'_def s2_def)
  then show ?thesis using that [OF mg inv] unfolding t'_def by blast
qed


text \<open>
  The outcomes of \<open>pick_next\<close> on an online processor: nothing is eligible anywhere; the first local
  thread of the highest local priority in scan order; or, when nothing local is eligible, a thread of
  the highest eligible priority taken over from another processor.
\<close>

lemma pick_next_cases:
  assumes "sched_inv s" "g_initialized s" "cpu < g_cpu_count s"
  obtains (none) "pick_next s cpu excluded (Some old) = (s, NotFound, Some 0)"
      "\<forall>tid. \<not> eligible s cpu excluded tid"
  | (own) s' tid t i where "pick_next s cpu excluded (Some old) = (s', Ok, Some tid)"
      "thread s tid = Some t" "ts_home_cpu t = cpu" "eligible s cpu excluded tid"
      "i < length (runq s cpu)" "scanned s cpu ! i = tid"
      "\<forall>x \<in> set (runq s cpu). eligible s cpu excluded x \<longrightarrow> priority_of s x \<le> priority_of s tid"
      "\<forall>j < i. eligible s cpu excluded (scanned s cpu ! j)
         \<longrightarrow> priority_of s (scanned s cpu ! j) < priority_of s tid"
      "sched_inv s'"
      "thread s' = (thread s)(tid \<mapsto> t\<lparr> ts_state := Running, ts_last_cpu := cpu,
         ts_dispatches := ts_dispatches t + 1 \<rparr>)"
      "runq s' = runq s" "scanned s' cpu = rotate (Suc i) (scanned s cpu)"
      "g_cpu_count s' = g_cpu_count s" "g_initialized s' = g_initialized s"
  | (stolen) s' tid t where "pick_next s cpu excluded (Some old) = (s', Ok, Some tid)"
      "thread s tid = Some t" "ts_home_cpu t \<noteq> cpu" "eligible s cpu excluded tid"
      "\<forall>x \<in> set (runq s cpu). \<not> eligible s cpu excluded x"
      "\<forall>x. eligible s cpu excluded x \<longrightarrow> priority_of s x \<le> priority_of s tid"
      "sched_inv s'"
      "thread s' = (thread s)(tid \<mapsto> t\<lparr> ts_state := Running, ts_home_cpu := cpu, ts_last_cpu := cpu,
         ts_dispatches := ts_dispatches t + 1, ts_migrations := ts_migrations t + 1 \<rparr>)"
      "runq s' = (runq s)(ts_home_cpu t := remove1 tid (runq s (ts_home_cpu t)), cpu := runq s cpu @ [tid])"
      "g_cpu_count s' = g_cpu_count s" "g_initialized s' = g_initialized s"
proof -
  note T = sched_inv_tables [OF assms(1)] and c = cpu_count_bound [OF sched_inv_tables [OF assms(1)] assms(3)]
  have home: "x \<in> set (runq s cpu) \<longleftrightarrow> (\<exists>u. thread s x = Some u \<and> ts_home_cpu u = cpu)" for x
    by (rule runq_mem [OF assms(1) c])
  have known: "\<exists>u. thread s x = Some u" if "eligible s cpu excluded x" for x
    using that by (auto simp: eligible_def split: option.splits)
  from assms(1,3) show ?thesis
  proof (cases rule: select_from_queue_cases [where excluded = excluded])
    case (found i tid k s1)
    obtain t where t: "thread s tid = Some t" using known found(4) by blast
    have loc: "tid \<in> set (runq s cpu)" using found(2,3) nth_mem [of i "scanned s cpu"] by simp
    have th1: "thread s1 = thread s" "find_thread s1 tid = Some k" "g_cpu_count s1 = g_cpu_count s"
      "g_initialized s1 = g_initialized s"
      by (subst found(8), simp add: found(5))+
    have inv1: "sched_inv s1" using assms(1) found(9,10) th1 unfolding sched_inv_def by simp
    have c1: "cpu < g_cpu_count s1" "thread s1 tid = Some t" using assms(3) th1 t by simp_all
    obtain s' where s': "reserve s1 cpu k = (s', tid)" "sched_inv s'"
      "thread s' = (thread s1)(tid \<mapsto> t\<lparr> ts_state := Running, ts_last_cpu := cpu,
         ts_dispatches := ts_dispatches t + 1 \<rparr>)"
      "runq s' = runq s1" "scanned s' = scanned s1" "g_cpu_count s' = g_cpu_count s1"
      "g_initialized s' = g_initialized s1"
      by (rule reserve_correct [OF inv1 c1(1) th1(2) c1(2)])
    have pk: "pick_next s cpu excluded (Some old) = (s', Ok, Some tid)"
      using assms(2,3) found(1) s'(1) by (simp add: pick_next_def dispatch_def)
    have "ts_home_cpu t = cpu" using t loc home [of tid] by simp
    moreover have "thread s' = (thread s)(tid \<mapsto> t\<lparr> ts_state := Running, ts_last_cpu := cpu,
        ts_dispatches := ts_dispatches t + 1 \<rparr>)" using s'(3) th1(1) by simp
    moreover have "runq s' = runq s" "scanned s' cpu = rotate (Suc i) (scanned s cpu)"
      "g_cpu_count s' = g_cpu_count s" "g_initialized s' = g_initialized s"
      using s'(4-7) found(10,11) th1(3,4) by simp_all
    ultimately show ?thesis by (rule own [OF pk t _ found(4,2,3,6,7) s'(2)])
  next
    case no: none
    from assms(1) show ?thesis
    proof (cases rule: select_steal_candidate_cases [where destination = cpu and excluded = excluded])
      case none
      have "\<not> eligible s cpu excluded x" for x
        using none(2) no(2) home [of x] known by blast
      moreover have "pick_next s cpu excluded (Some old) = (s, NotFound, Some 0)"
        using assms(2,3) no(1) none(1) by (simp add: pick_next_def dispatch_def)
      ultimately show ?thesis using that(1) by blast
    next
      case (found tid t k)
      have al: "cpu_allowed s (ts_affinity t) cpu" "ts_state t = Ready" "tid \<noteq> excluded"
        using found(3,5) by (auto simp: eligible_def)
      obtain s2 where s2: "migrate s cpu k = (s2, Ok)" "sched_inv s2"
        "thread s2 = (thread s)(tid \<mapsto> t\<lparr> ts_home_cpu := cpu, ts_migrations := ts_migrations t + 1 \<rparr>)"
        "runq s2 = (runq s)(ts_home_cpu t := remove1 tid (runq s (ts_home_cpu t)), cpu := runq s cpu @ [tid])"
        "find_thread s2 tid = Some k" "g_cpu_count s2 = g_cpu_count s" "g_initialized s2 = g_initialized s"
        by (rule migrate_correct [OF assms(1) found(2,3,4) al(1)])
      have al2: "cpu_allowed s2 a b = cpu_allowed s a b" for a b by (simp add: cpu_allowed_def s2(6))
      have el: "eligible s2 cpu excluded x \<longleftrightarrow> x = tid" if "x \<in> set (runq s2 cpu)" for x
      proof (cases "x = tid")
        case True
        then show ?thesis using al by (simp add: s2(3) eligible_def al2)
      next
        case False
        then have "x \<in> set (runq s cpu)" using that by (simp add: s2(4))
        moreover have "eligible s2 cpu excluded x = eligible s cpu excluded x"
          using False by (simp add: s2(3) eligible_def al2 cong: option.case_cong)
        ultimately show ?thesis using no(2) False by simp
      qed
      have tin: "tid \<in> set (runq s2 cpu)" by (simp add: s2(4))
      have c2: "cpu < g_cpu_count s2" using assms(3) s2(6) by simp
      from s2(2) c2 show ?thesis
      proof (cases rule: select_from_queue_cases [where excluded = excluded])
        case none
        then show ?thesis using el [OF tin] tin by blast
      next
        case again: (found i tid' k' s3)
        have "tid' \<in> set (runq s2 cpu)" using again(2,3) nth_mem [of i "scanned s2 cpu"] by simp
        with again(4) el have tid': "tid' = tid" by blast
        then have k': "k' = k" using again(5) s2(5) by simp
        have th3: "thread s3 = thread s2" "find_thread s3 tid = Some k" "g_cpu_count s3 = g_cpu_count s2"
          "g_initialized s3 = g_initialized s2"
          by (subst again(8), simp add: s2(5))+
        define t2 where "t2 = t\<lparr> ts_home_cpu := cpu, ts_migrations := ts_migrations t + 1 \<rparr>"
        have inv3: "sched_inv s3" using s2(2) again(9,10) th3 unfolding sched_inv_def by simp
        have t3: "thread s3 tid = Some t2" by (simp add: th3 s2(3) t2_def)
        have c3: "cpu < g_cpu_count s3" using c2 th3(3) by simp
        obtain s' where s': "reserve s3 cpu k = (s', tid)" "sched_inv s'"
          "thread s' = (thread s3)(tid \<mapsto> t2\<lparr> ts_state := Running, ts_last_cpu := cpu,
             ts_dispatches := ts_dispatches t2 + 1 \<rparr>)"
          "runq s' = runq s3" "g_cpu_count s' = g_cpu_count s3" "g_initialized s' = g_initialized s3"
          by (rule reserve_correct [OF inv3 c3 th3(2) t3])
        have pk: "pick_next s cpu excluded (Some old) = (s', Ok, Some tid)"
          using assms(2,3) no(1) found(1) s2(1) again(1) s'(1) k' by (simp add: pick_next_def dispatch_def)
        have "\<forall>x. eligible s cpu excluded x \<longrightarrow> priority_of s x \<le> priority_of s tid"
        proof (intro allI impI)
          fix x assume x: "eligible s cpu excluded x"
          then obtain u where "thread s x = Some u" using known by blast
          with x show "priority_of s x \<le> priority_of s tid" using found(6) no(2) home [of x] by blast
        qed
        moreover have "thread s' = (thread s)(tid \<mapsto> t\<lparr> ts_state := Running, ts_home_cpu := cpu,
            ts_last_cpu := cpu, ts_dispatches := ts_dispatches t + 1, ts_migrations := ts_migrations t + 1 \<rparr>)"
          using s'(3) th3(1) s2(3) by (cases t) (simp add: t2_def)
        moreover have "runq s' = (runq s)(ts_home_cpu t := remove1 tid (runq s (ts_home_cpu t)), cpu := runq s cpu @ [tid])"
          using s'(4) again(10) s2(4) by (simp only:)
        moreover have "g_cpu_count s' = g_cpu_count s" "g_initialized s' = g_initialized s"
          using s'(5,6) th3(3,4) s2(6,7) by simp_all
        ultimately show ?thesis by (rule that(3) [OF pk found(3,4,5) no(2) _ s'(2)])
      qed
    qed
  qed
qed


section \<open>Reachable states\<close>

datatype sched_op =
    Initialize nat
  | Reset nat
  | Expand nat
  | Register u64 u8 u64 nat
  | Unregister u64
  | SetState u64 State
  | SetAffinity u64 u64
  | SetPriority u64 u8
  | Pick nat u64
  | Cancel u64 nat

text \<open>One call of the public interface; the second component is the thread a \<open>pick_next\<close> dispatched.\<close>

fun sched_step :: "sched_op \<Rightarrow> policy \<Rightarrow> policy \<times> u64 option" where
  "sched_step (Initialize n) s = (fst (sched_initialize s n), None)"
| "sched_step (Reset n) s = (fst (sched_reset s n), None)"
| "sched_step (Expand n) s = (fst (expand_cpu_count s n), None)"
| "sched_step (Register tid p a c) s = (fst (register_thread s tid p a c), None)"
| "sched_step (Unregister tid) s = (fst (unregister_thread s tid), None)"
| "sched_step (SetState tid st) s = (fst (set_state s tid st), None)"
| "sched_step (SetAffinity tid a) s = (fst (set_affinity s tid a), None)"
| "sched_step (SetPriority tid p) s = (fst (set_priority s tid p), None)"
| "sched_step (Pick cpu excluded) s =
     (let (s', status, out) = pick_next s cpu excluded (Some 0) in (s', if status = Ok then out else None))"
| "sched_step (Cancel tid cpu) s = (fst (cancel_dispatch s tid cpu), None)"

fun sched_run :: "sched_op list \<Rightarrow> policy \<Rightarrow> policy \<times> u64 list" where
  "sched_run [] s = (s, [])"
| "sched_run (x # xs) s =
     (let (s1, picked) = sched_step x s; (s2, rest) = sched_run xs s1 in
      (s2, (case picked of None \<Rightarrow> rest | Some tid \<Rightarrow> tid # rest)))"

inductive sched_reachable :: "policy \<Rightarrow> bool" where
  boot: "sched_reachable boot_policy"
| step: "sched_reachable s \<Longrightarrow> sched_reachable (fst (sched_step x s))"

lemma pick_next_refused:
  "\<not> (g_initialized s \<and> cpu < g_cpu_count s) \<Longrightarrow> fst (pick_next s cpu excluded (Some old)) = s
     \<and> fst (snd (pick_next s cpu excluded (Some old))) \<noteq> Ok"
  by (auto simp: pick_next_def Let_def)

lemma pick_next_inv:
  assumes "sched_inv s" shows "sched_inv (fst (pick_next s cpu excluded (Some old)))"
proof (cases "g_initialized s \<and> cpu < g_cpu_count s")
  case True
  then show ?thesis using assms
    by (cases rule: pick_next_cases [OF assms, where cpu = cpu and excluded = excluded and old = old]) simp_all
next
  case False
  then show ?thesis using pick_next_refused assms by simp
qed

lemma sched_step_inv: "sched_inv s \<Longrightarrow> sched_inv (fst (sched_step x s))"
  by (cases x)
    (simp_all add: sched_initialize_inv sched_reset_inv expand_cpu_count_inv register_thread_inv
      unregister_thread_inv set_state_inv set_affinity_inv set_priority_inv cancel_dispatch_inv
      case_prod_beta pick_next_inv)

lemma reachable_sched_inv: "sched_reachable s \<Longrightarrow> sched_inv s"
  by (induction rule: sched_reachable.induct) (simp_all add: boot_inv sched_step_inv)


section \<open>Exclusive dispatch\<close>

text \<open>
  The calls that give a thread running on \<open>cpu\<close> back to the policy: its owner changes its state or
  cancels the dispatch, or the thread, or the whole policy, goes away.
\<close>

fun releases :: "u64 \<Rightarrow> nat \<Rightarrow> sched_op \<Rightarrow> bool" where
  "releases tid cpu (Reset _) = True"
| "releases tid cpu (Unregister x) = (x = tid)"
| "releases tid cpu (SetState x _) = (x = tid)"
| "releases tid cpu (Cancel x c) = (x = tid \<and> c = cpu)"
| "releases tid cpu _ = False"

lemma set_stat_held:
  assumes "sched_inv s" "find_thread s y = Some i" "ts_id t = y"
  shows "x \<noteq> y \<Longrightarrow> held (set_stat s i t) x = held s x"
    and "ts_state t = ts_state (stat_at s i) \<Longrightarrow> ts_last_cpu t = ts_last_cpu (stat_at s i) \<Longrightarrow>
      held (set_stat s i t) = held s"
  using thread_set_stat(2) [OF sched_inv_tables [OF assms(1)] assms(2,3)] found_ok(3) [OF assms(1,2)]
  by (simp_all add: held_def fun_eq_iff)

lemma register_thread_held:
  assumes "sched_inv s" "held s x = Some h"
  shows "held (fst (register_thread s tid p a c)) x = Some h"
proof (cases "snd (register_thread s tid p a c) = Ok")
  case True
  note T = sched_inv_tables [OF assms(1)]
  have r: "g_initialized s" "tid \<noteq> 0" "p \<le> MAX_PRIORITY" "a \<noteq> 0"
    "a AND online_mask_unlocked s = a" "find_thread s tid = None"
    "find_index (\<lambda>slot. \<not> used slot) (g_threads s) \<noteq> None"
    using True by (auto simp: register_thread_def Let_def split: if_splits option.splits)
  have a: "k < g_cpu_count s" if "bit a k" for k using that r(5) valid_affinity_iff [OF T r(1)] by blast
  have "\<exists>slot \<in> set (g_threads s). \<not> used slot" using r(7) find_index_None_iff by metis
  then obtain s' t where s': "register_thread s tid p a c = (s', Ok)" "thread s' = (thread s)(tid \<mapsto> t)"
    using register_thread_cases [OF assms(1) r(1-4) a thread_of_find(2) [OF r(6)]] by metis
  have "x \<noteq> tid" using assms(2) thread_of_find(2) [OF r(6)] by (auto simp: held_def)
  with s' assms(2) show ?thesis by (simp add: held_def)
next
  case False
  have "fst (register_thread s tid p a c) = s"
    using False by (auto simp: register_thread_def queue_add_def Let_def split: if_splits option.splits)
  with assms show ?thesis by simp
qed

lemma pick_next_held:
  assumes "sched_inv s" "held s x = Some (Running, cpu)"
    "pick_next s c excluded (Some old) = (s', status, out)"
  shows "held s' x = Some (Running, cpu)" "status = Ok \<Longrightarrow> out \<noteq> Some x"
proof -
  have r: "\<not> eligible s c excluded x" using assms(2) by (auto simp: held_def eligible_def)
  have "held s' x = Some (Running, cpu) \<and> (status = Ok \<longrightarrow> out \<noteq> Some x)"
  proof (cases "g_initialized s \<and> c < g_cpu_count s")
    case True
    then have i: "g_initialized s" "c < g_cpu_count s" by simp_all
    from assms(1) i show ?thesis
    proof (cases rule: pick_next_cases [where excluded = excluded and old = old])
      case none
      then show ?thesis using assms(2,3) by simp
    next
      case (own s1 tid t i)
      then show ?thesis using assms(2,3) r by (cases "tid = x") (simp_all add: held_def)
    next
      case (stolen s1 tid t)
      then show ?thesis using assms(2,3) r by (cases "tid = x") (simp_all add: held_def)
    qed
  next
    case False
    then show ?thesis using pick_next_refused [OF False, of excluded old] assms(2,3) by simp
  qed
  then show "held s' x = Some (Running, cpu)" "status = Ok \<Longrightarrow> out \<noteq> Some x" by simp_all
qed

lemma expand_cpu_count_held: "held (fst (expand_cpu_count s n)) = held s"
proof -
  have "thread (fst (expand_cpu_count s n)) = thread s"
    by (rule thread_cong(1)) (simp add: expand_cpu_count_def fold_zero_queues)
  then show ?thesis by (simp add: held_def fun_eq_iff)
qed

lemma sched_step_held:
  assumes "sched_inv s" "held s tid = Some (Running, cpu)" "\<not> releases tid cpu x"
  shows "held (fst (sched_step x s)) tid = Some (Running, cpu)" "snd (sched_step x s) \<noteq> Some tid"
proof -
  have known: "thread s tid \<noteq> None" using assms(2) by (auto simp: held_def)
  then have init: "g_initialized s"
    using thread_home_online [OF assms(1)] sched_inv_tables [OF assms(1)] by (fastforce simp: tables_ok_def)
  have "held (fst (sched_step x s)) tid = Some (Running, cpu) \<and> snd (sched_step x s) \<noteq> Some tid"
  proof (cases x)
    case (Initialize n)
    then show ?thesis using assms(2) init by (simp add: sched_initialize_def)
  next
    case (Reset n)
    then show ?thesis using assms(3) by simp
  next
    case (Expand n)
    then show ?thesis using assms(2) by (simp add: expand_cpu_count_held)
  next
    case (Register y p a c)
    then show ?thesis using register_thread_held [OF assms(1,2)] by simp
  next
    case (Unregister y)
    then show ?thesis using assms unregister_thread_inv [OF assms(1), of y] by (auto simp: held_def)
  next
    case (SetState y st)
    then show ?thesis using assms set_stat_held(1) [OF assms(1)] found_ok(2) [OF assms(1)]
      by (auto simp: set_state_def split: option.splits)
  next
    case (SetAffinity y a)
    then show ?thesis using assms(2) set_affinity_inv [OF assms(1)] by simp
  next
    case (SetPriority y p)
    then show ?thesis using assms(2) set_stat_held(2) [OF assms(1)] found_ok(2) [OF assms(1)]
      by (auto simp: set_priority_def split: option.splits)
  next
    case (Pick c e)
    obtain s' status out where "pick_next s c e (Some 0) = (s', status, out)" by (metis prod_cases3)
    then show ?thesis using pick_next_held [OF assms(1,2), of c e 0 s' status out] Pick by simp
  next
    case (Cancel y c)
    show ?thesis
    proof (cases "y = tid")
      case True
      then have "c \<noteq> cpu" using Cancel assms(3) by simp
      then have "fst (cancel_dispatch s y c) = s"
        using assms(2) True found_ok(3) [OF assms(1)]
        by (auto simp: cancel_dispatch_def Let_def held_def split: option.splits)
      then show ?thesis using Cancel assms(2) by simp
    next
      case False
      then show ?thesis using Cancel assms(2) set_stat_held(1) [OF assms(1)] found_ok(2) [OF assms(1)]
        by (auto simp: cancel_dispatch_def Let_def split: option.splits)
    qed
  qed
  then show "held (fst (sched_step x s)) tid = Some (Running, cpu)" "snd (sched_step x s) \<noteq> Some tid" by simp_all
qed

lemma sched_run_held:
  assumes "sched_inv s" "held s tid = Some (Running, cpu)" "\<forall>x \<in> set xs. \<not> releases tid cpu x"
  shows "held (fst (sched_run xs s)) tid = Some (Running, cpu) \<and> tid \<notin> set (snd (sched_run xs s))"
  using assms
proof (induction xs arbitrary: s)
  case Nil
  then show ?case by simp
next
  case (Cons x xs)
  have n: "\<not> releases tid cpu x" using Cons.prems(3) by simp
  note st = sched_step_held [OF Cons.prems(1,2) n]
  obtain s1 p where sp: "sched_step x s = (s1, p)" by fastforce
  obtain s2 r where sr: "sched_run xs s1 = (s2, r)" by fastforce
  have "held s2 tid = Some (Running, cpu) \<and> tid \<notin> set r"
    using Cons.IH [of s1] sched_step_inv [OF Cons.prems(1), of x] st Cons.prems(3) sp sr by simp
  then show ?case using st(2) sp sr by (auto split: option.splits)
qed


section \<open>Taking turns\<close>

text \<open>
  A processor that gives every dispatched thread back as \<open>Ready\<close> before it picks again: the ids of the
  threads it runs, in order.
\<close>

fun turns :: "nat \<Rightarrow> nat \<Rightarrow> policy \<Rightarrow> u64 list" where
  "turns cpu 0 s = []"
| "turns cpu (Suc n) s =
     (case pick_next s cpu 0 (Some 0) of
        (s1, Ok, Some tid) \<Rightarrow> tid # turns cpu n (fst (set_state s1 tid Ready))
      | (_, _, _) \<Rightarrow> [])"

lemma turn_keeps:
  assumes "sched_inv s" "g_initialized s" "thread s' = (thread s)(x \<mapsto> t\<lparr> ts_state := Running,
      ts_last_cpu := cpu, ts_dispatches := ts_dispatches t + 1 \<rparr>)" "thread s x = Some t" "ts_state t = Ready"
    "sched_inv s'" "g_initialized s'" "runq s' = runq s" "g_cpu_count s' = g_cpu_count s"
  shows "sched_inv (fst (set_state s' x Ready))" "g_initialized (fst (set_state s' x Ready))"
    "g_cpu_count (fst (set_state s' x Ready)) = g_cpu_count s"
    "runq (fst (set_state s' x Ready)) = runq s" "scanned (fst (set_state s' x Ready)) = scanned s'"
    "eligible (fst (set_state s' x Ready)) c e y = eligible s c e y"
    "priority_of (fst (set_state s' x Ready)) y = priority_of s y"
    "map_option ts_home_cpu (thread (fst (set_state s' x Ready)) y) = map_option ts_home_cpu (thread s y)"
proof -
  obtain i where i: "find_thread s' x = Some i"
    using assms(3) by (auto simp: thread_def fun_eq_iff split: option.splits if_splits)
  define s2 where "s2 = fst (set_state s' x Ready)"
  have s2: "s2 = set_stat s' i ((stat_at s' i)\<lparr> ts_state := Ready \<rparr>)"
    using assms(7) i by (simp add: s2_def set_state_def)
  have at: "stat_at s' i = t\<lparr> ts_state := Running, ts_last_cpu := cpu, ts_dispatches := ts_dispatches t + 1 \<rparr>"
    using thread_of_find(1) [OF i] assms(3) by simp
  note S = thread_set_stat [OF sched_inv_tables [OF assms(6)] i, of "(stat_at s' i)\<lparr> ts_state := Ready \<rparr>",
      folded s2]
  have id: "ts_id ((stat_at s' i)\<lparr> ts_state := Ready \<rparr>) = x" using found_ok(2) [OF assms(6) i] by simp
  have th: "thread s2 = (thread s)(x \<mapsto> t\<lparr> ts_last_cpu := cpu, ts_dispatches := ts_dispatches t + 1 \<rparr>)"
    using S(2) [OF id] assms(3,5) at by (cases t) simp
  show "sched_inv (fst (set_state s' x Ready))" by (rule set_state_inv [OF assms(6)])
  show "g_initialized (fst (set_state s' x Ready))" "g_cpu_count (fst (set_state s' x Ready)) = g_cpu_count s"
    unfolding s2_def [symmetric] using assms(7,9) by (simp_all add: s2)
  show rq: "runq (fst (set_state s' x Ready)) = runq s" unfolding s2_def [symmetric] using S(3) [OF id] assms(8) by simp
  show "scanned (fst (set_state s' x Ready)) = scanned s'"
    unfolding s2_def [symmetric] scanned_def by (simp add: s2 runq_def fun_eq_iff)
  have "cpu_allowed s2 = cpu_allowed s" using assms(9) by (simp add: cpu_allowed_def fun_eq_iff s2)
  then show "eligible (fst (set_state s' x Ready)) c e y = eligible s c e y"
    unfolding s2_def [symmetric] using assms(4) by (simp add: eligible_def th cong: option.case_cong)
  show "priority_of (fst (set_state s' x Ready)) y = priority_of s y"
    unfolding s2_def [symmetric] using assms(4) by (simp add: priority_of_def th)
  show "map_option ts_home_cpu (thread (fst (set_state s' x Ready)) y) = map_option ts_home_cpu (thread s y)"
    unfolding s2_def [symmetric] using assms(4) by (simp add: th)
qed

lemma turns_reach:
  assumes "sched_inv s" "g_initialized s" "cpu < g_cpu_count s"
    "d < length (runq s cpu)" "scanned s cpu ! d = tid" "eligible s cpu 0 tid"
    "\<forall>x \<in> set (runq s cpu). eligible s cpu 0 x \<longrightarrow> priority_of s x \<le> priority_of s tid" "d < n"
  shows "tid \<in> set (turns cpu n s)"
  using assms
proof (induction n arbitrary: s d)
  case 0
  then show ?case by simp
next
  case (Suc n)
  note p = Suc.prems
  have here: "tid \<in> set (runq s cpu)" using p(4,5) nth_mem [of d "scanned s cpu"] by simp
  from p(1-3) show ?case
  proof (cases rule: pick_next_cases [where excluded = 0 and old = 0])
    case none
    then show ?thesis using p(6) by blast
  next
    case (own s1 x t i)
    have xin: "x \<in> set (runq s cpu)" using own(5,6) nth_mem [of i "scanned s cpu"] by simp
    have "\<not> d < i"
    proof
      assume "d < i"
      then have "priority_of s tid < priority_of s x" using own(8) p(5,6) by blast
      moreover have "priority_of s x \<le> priority_of s tid" using p(7) xin own(4) by blast
      ultimately show False by simp
    qed
    then consider "d = i" | "i < d" by linarith
    then show ?thesis
    proof cases
      case 1
      then show ?thesis using own(1,6) p(5) by simp
    next
      case 2
      define s2 where "s2 = fst (set_state s1 x Ready)"
      have tr: "ts_state t = Ready" using own(2,4) by (simp add: eligible_def)
      have i1: "g_initialized s1" using own(14) p(2) by simp
      note K = turn_keeps [OF p(1,2) own(10,2) tr own(9) i1 own(11,13), folded s2_def]
      have sc: "scanned s2 cpu = rotate (Suc i) (scanned s cpu)" using K(5) own(12) by simp
      have "scanned s2 cpu ! (d - Suc i) = scanned s cpu ! ((Suc i + (d - Suc i)) mod length (runq s cpu))"
        unfolding sc using p(4) 2 by (subst nth_rotate) simp_all
      also have "(Suc i + (d - Suc i)) mod length (runq s cpu) = d" using 2 p(4) by simp
      finally have at: "scanned s2 cpu ! (d - Suc i) = tid" using p(5) by simp
      have "tid \<in> set (turns cpu n s2)"
      proof (rule Suc.IH [OF K(1,2) _ _ at])
        show "cpu < g_cpu_count s2" "d - Suc i < length (runq s2 cpu)" "eligible s2 cpu 0 tid"
          using p(3,4,6) K(3,4,6) 2 by simp_all
        show "\<forall>y \<in> set (runq s2 cpu). eligible s2 cpu 0 y \<longrightarrow> priority_of s2 y \<le> priority_of s2 tid"
          using p(7) unfolding K(4,6,7) .
        show "d - Suc i < n" using 2 p(8) by simp
      qed
      then show ?thesis using own(1) by (simp add: s2_def)
    qed
  next
    case (stolen s1 x t)
    then show ?thesis using here p(6) by blast
  qed
qed


section \<open>Properties\<close>

lemma reachable_run: "sched_reachable s \<Longrightarrow> sched_reachable (fst (sched_run xs s))"
proof (induction xs arbitrary: s)
  case Nil
  then show ?case by simp
next
  case (Cons x xs)
  then have "sched_reachable (fst (sched_run xs (fst (sched_step x s))))"
    using sched_reachable.step by blast
  then show ?case by (simp add: case_prod_beta)
qed

text \<open>Two processors; threads 7 and 9 of equal priority at home on the first, thread 8 on the second.\<close>

definition two_cpus :: policy where
  "two_cpus = fst (sched_run
     [Initialize 2, Register 7 5 3 0, Register 9 5 3 0, Register 8 1 2 1] boot_policy)"

lemma two_cpus_reachable: "sched_reachable two_cpus"
  unfolding two_cpus_def by (intro reachable_run sched_reachable.boot)

text \<open>
  C36. In every state that calls of the public interface can reach, each registered thread has a legal
  priority and an affinity of online processors, and waits exactly once in exactly one queue, that of
  a home processor its affinity allows; every queued id belongs to a registered thread.
\<close>

theorem every_thread_queued_once:
  assumes "sched_reachable s"
  shows "(\<forall>tid t. thread s tid = Some t \<longrightarrow>
      ts_id t = tid \<and> ts_priority t \<le> MAX_PRIORITY
      \<and> ts_affinity t AND online_mask s = ts_affinity t
      \<and> cpu_allowed s (ts_affinity t) (ts_home_cpu t))
    \<and> (\<forall>cpu < MAX_CPUS. distinct (runq s cpu)
        \<and> (\<forall>tid. tid \<in> set (runq s cpu) \<longleftrightarrow> (\<exists>t. thread s tid = Some t \<and> ts_home_cpu t = cpu)))"
proof -
  note inv = reachable_sched_inv [OF assms] and T = sched_inv_tables [OF reachable_sched_inv [OF assms]]
  have cc: "g_cpu_count s \<le> MAX_CPUS" using T by (simp add: tables_ok_def)
  have "ts_id t = tid \<and> ts_priority t \<le> MAX_PRIORITY \<and> ts_affinity t AND online_mask s = ts_affinity t
      \<and> cpu_allowed s (ts_affinity t) (ts_home_cpu t)" if t: "thread s tid = Some t" for tid t
  proof -
    have ok: "thread_ok (g_cpu_count s) t" using inv t by (simp add: sched_inv_def)
    have h: "ts_home_cpu t < g_cpu_count s" by (rule thread_home_online [OF inv t])
    then have "g_initialized s" using T by (simp add: tables_ok_def)
    with ok h show ?thesis
      using thread_id [OF T t] valid_affinity_iff [OF T]
      by (simp add: thread_ok_def cpu_allowed_iff [OF cc] online_mask_def)
  qed
  then show ?thesis using runq_distinct [OF inv] runq_mem [OF inv] by blast
qed

theorem every_thread_queued_once_witness:
  "thread two_cpus 9 \<noteq> None \<and> distinct (runq two_cpus 0) \<and> 9 \<in> set (runq two_cpus 0)"
proof -
  have t: "map_option ts_home_cpu (thread two_cpus 9) = Some 0" by code_simp
  then obtain t where "thread two_cpus 9 = Some t" "ts_home_cpu t = 0" by auto
  moreover have "0 < MAX_CPUS" by (simp add: MAX_CPUS_def)
  ultimately show ?thesis using every_thread_queued_once [OF two_cpus_reachable] by blast
qed

text \<open>
  C37. \<open>pick_next\<close> on an online processor is work conserving and obeys priorities.  It reports
  \<open>NotFound\<close>, and changes nothing, exactly when no thread anywhere is ready and allowed there.
  Otherwise it dispatches an eligible thread: one of the highest priority of its own queue if that
  queue has an eligible thread, and one of the highest priority of all otherwise.  The thread becomes
  \<open>Running\<close> with this processor as home and owner, and no other thread changes.
\<close>

theorem pick_next_correct:
  assumes "sched_reachable s" "g_initialized s" "cpu < g_cpu_count s"
  shows "if \<forall>tid. \<not> eligible s cpu excluded tid
    then pick_next s cpu excluded (Some old) = (s, NotFound, Some 0)
    else \<exists>s' tid t. pick_next s cpu excluded (Some old) = (s', Ok, Some tid)
      \<and> thread s tid = Some t \<and> eligible s cpu excluded tid
      \<and> (if \<exists>x \<in> set (runq s cpu). eligible s cpu excluded x
         then tid \<in> set (runq s cpu)
           \<and> (\<forall>x \<in> set (runq s cpu). eligible s cpu excluded x \<longrightarrow> priority_of s x \<le> priority_of s tid)
         else \<forall>x. eligible s cpu excluded x \<longrightarrow> priority_of s x \<le> priority_of s tid)
      \<and> thread s' = (thread s)(tid \<mapsto> t\<lparr> ts_state := Running, ts_home_cpu := cpu, ts_last_cpu := cpu,
           ts_dispatches := ts_dispatches t + 1,
           ts_migrations := ts_migrations t + (if ts_home_cpu t = cpu then 0 else 1) \<rparr>)"
proof -
  note inv = reachable_sched_inv [OF assms(1)]
  from inv assms(2,3) show ?thesis
  proof (cases rule: pick_next_cases [where excluded = excluded and old = old])
    case none
    then show ?thesis by simp
  next
    case (own s' tid t i)
    have "tid \<in> set (runq s cpu)" using own(5,6) nth_mem [of i "scanned s cpu"] by simp
    moreover have "thread s' = (thread s)(tid \<mapsto> t\<lparr> ts_state := Running, ts_home_cpu := cpu, ts_last_cpu := cpu,
           ts_dispatches := ts_dispatches t + 1,
           ts_migrations := ts_migrations t + (if ts_home_cpu t = cpu then 0 else 1) \<rparr>)"
      using own(3,10) by (cases t) simp
    ultimately show ?thesis using own(1,2,4,7) by auto
  next
    case (stolen s' tid t)
    have "\<not> (\<exists>x \<in> set (runq s cpu). eligible s cpu excluded x)" using stolen(5) by blast
    moreover have "thread s' = (thread s)(tid \<mapsto> t\<lparr> ts_state := Running, ts_home_cpu := cpu, ts_last_cpu := cpu,
           ts_dispatches := ts_dispatches t + 1,
           ts_migrations := ts_migrations t + (if ts_home_cpu t = cpu then 0 else 1) \<rparr>)"
      using stolen(3,8) by simp
    ultimately show ?thesis using stolen(1,2,4,6) by auto
  qed
qed

theorem pick_next_correct_witness:
  "\<exists>s' tid. pick_next two_cpus 0 7 (Some 0) = (s', Ok, Some tid) \<and> tid \<in> set (runq two_cpus 0)"
proof -
  have i: "g_initialized two_cpus" "0 < g_cpu_count two_cpus" by code_simp+
  have e: "eligible two_cpus 0 7 9" "9 \<in> set (runq two_cpus 0)" by code_simp+
  have some: "\<not> (\<forall>tid. \<not> eligible two_cpus 0 7 tid)" "\<exists>x \<in> set (runq two_cpus 0). eligible two_cpus 0 7 x"
    using e by blast+
  show ?thesis
    using pick_next_correct [OF two_cpus_reachable i, of 7 0]
    unfolding if_not_P [OF some(1)] if_P [OF some(2)] by blast
qed

text \<open>
  C38. A dispatched thread is reserved for its processor.  From the moment \<open>pick_next\<close> returns it, no
  sequence of calls, on any processor, dispatches it again or takes it from its owner until the
  owner changes its state or cancels the dispatch, or the thread is unregistered or the policy reset;
  a stale cancellation from another processor has no effect.
\<close>

theorem dispatch_is_exclusive:
  assumes "sched_reachable s" "pick_next s cpu excluded (Some old) = (s', Ok, Some tid)"
    "\<forall>x \<in> set xs. \<not> releases tid cpu x"
  shows "tid \<notin> set (snd (sched_run xs s')) \<and> held (fst (sched_run xs s')) tid = Some (Running, cpu)"
proof -
  note inv = reachable_sched_inv [OF assms(1)]
  have on: "g_initialized s" "cpu < g_cpu_count s"
    using pick_next_refused [of s cpu excluded old] assms(2) by auto
  have inv': "sched_inv s'" using pick_next_inv [OF inv, of cpu excluded old] assms(2) by simp
  from inv on have "held s' tid = Some (Running, cpu)"
    by (cases rule: pick_next_cases [where excluded = excluded and old = old])
      (use assms(2) in \<open>auto simp: held_def\<close>)
  then show ?thesis using sched_run_held [OF inv' _ assms(3)] by blast
qed

theorem dispatch_is_exclusive_witness:
  "7 \<notin> set (snd (sched_run [Cancel 7 1, Pick 1 0, SetAffinity 7 2, Pick 1 0]
     (fst (pick_next two_cpus 0 0 (Some 0)))))"
proof -
  have "snd (pick_next two_cpus 0 0 (Some 0)) = (Ok, Some 7)" by code_simp
  then obtain s' where "pick_next two_cpus 0 0 (Some 0) = (s', Ok, Some 7)" by (metis prod.collapse)
  then show ?thesis
    using dispatch_is_exclusive [OF two_cpus_reachable, of 0 0 0 s' 7
        "[Cancel 7 1, Pick 1 0, SetAffinity 7 2, Pick 1 0]"] by simp
qed

text \<open>
  C39. Threads of equal priority take turns.  If a ready thread at home on a processor has the highest
  priority of the ready threads there, then the processor runs it within as many turns as its
  queue is long, whatever threads it runs before.
\<close>

theorem equal_priorities_take_turns:
  assumes "sched_reachable s" "g_initialized s" "cpu < g_cpu_count s"
    "tid \<in> set (runq s cpu)" "eligible s cpu 0 tid"
    "\<forall>x \<in> set (runq s cpu). eligible s cpu 0 x \<longrightarrow> priority_of s x \<le> priority_of s tid"
  shows "tid \<in> set (turns cpu (length (runq s cpu)) s)"
proof -
  have "tid \<in> set (scanned s cpu)" using assms(4) by simp
  then obtain d where "d < length (runq s cpu)" "scanned s cpu ! d = tid"
    unfolding in_set_conv_nth by auto
  then show ?thesis using turns_reach [OF reachable_sched_inv [OF assms(1)] assms(2,3) _ _ assms(5,6)] by blast
qed

theorem equal_priorities_take_turns_witness: "9 \<in> set (turns 0 2 two_cpus)"
proof -
  have i: "g_initialized two_cpus" "0 < g_cpu_count two_cpus" "9 \<in> set (runq two_cpus 0)"
    "eligible two_cpus 0 0 9"
    "\<forall>x \<in> set (runq two_cpus 0). eligible two_cpus 0 0 x \<longrightarrow> priority_of two_cpus x \<le> priority_of two_cpus 9"
    "length (runq two_cpus 0) = 2"
    by code_simp+
  show ?thesis using equal_priorities_take_turns [OF two_cpus_reachable i(1-5)] unfolding i(6) .
qed


text \<open>
  The guarantee is for a queue that keeps its threads.  Removing an entry in front of the cursor shifts
  the later entries but not the cursor, so the thread whose turn it was is passed over once: here thread
  2 runs twice in a row while thread 3, ready and of the same priority, still waits for its first turn.
\<close>

lemma removal_passes_over_a_turn:
  "snd (sched_run [Initialize 1, Register 1 0 1 0, Register 2 0 1 0, Register 3 0 1 0,
     Pick 0 0, SetState 1 Ready, Pick 0 0, SetState 2 Ready, Unregister 1, Pick 0 0] boot_policy)
   = [1, 2, 2]"
  by code_simp

end
