(* ===== verification/Jobs.thy ===== *)
theory Jobs
  imports Handles
begin

text \<open>
  Jobs, \<^verbatim>\<open>kernel/task/job.hpp\<close> and \<^verbatim>\<open>job.cpp\<close>: named groups of at most 16 processes in a table of 16
  slots, addressed by generation-checked ids.  Every public function holds the table's lock for its
  whole body (the argument checks in front of it read no shared state), so each is one function on
  the state \<open>job_table\<close>.

  The theory shows that the table implements a finite map from ids to jobs with an owner and a list of
  members, with every status the functions return, and that a job lives exactly as long as it has a
  member.
\<close>

section \<open>State\<close>

definition INVALID_PROCESS_ID :: u64 where "INVALID_PROCESS_ID = 0"
definition INVALID_JOB_ID :: u64 where "INVALID_JOB_ID = 0"
definition MAX_JOBS :: nat where "MAX_JOBS = 16"
definition MAX_JOB_MEMBERS :: nat where "MAX_JOB_MEMBERS = 16"
definition MAX_JOB_NAME :: nat where "MAX_JOB_NAME = 31"

datatype Status =
    Ok | NotInitialized | AlreadyInitialized | InvalidArgument | NameTooLong | AlreadyExists
  | NotFound | AccessDenied | CapacityReached

record Stat =
  st_id :: u64
  st_owner_pid :: u64
  st_member_count :: nat
  st_orphaned :: bool
  st_name :: string

record Slot =
  jb_id :: u64
  jb_generation :: u64
  jb_owner_pid :: u64
  jb_members :: "u64 list"
  jb_member_count :: nat
  jb_active :: bool
  jb_name :: string

record job_table =
  g_slots :: "Slot list"
  jb_initialized :: bool

definition zero_job :: Slot where
  "zero_job = \<lparr> jb_id = 0, jb_generation = 0, jb_owner_pid = 0,
     jb_members = replicate MAX_JOB_MEMBERS 0, jb_member_count = 0, jb_active = False,
     jb_name = replicate (MAX_JOB_NAME + 1) (CHR 0x00) \<rparr>"

definition jobs_zero :: job_table where
  "jobs_zero = \<lparr> g_slots = replicate MAX_JOBS zero_job, jb_initialized = False \<rparr>"

definition zero_job_stat :: Stat where
  "zero_job_stat = \<lparr> st_id = 0, st_owner_pid = 0, st_member_count = 0, st_orphaned = False,
     st_name = replicate (MAX_JOB_NAME + 1) (CHR 0x00) \<rparr>"

section \<open>Helpers\<close>

definition jb_kIndexMask :: u64 where "jb_kIndexMask = 0xFF"
definition jb_kMaximumGeneration :: u64 where "jb_kMaximumGeneration = drop_bit 8 (- 1)"

text \<open>
  The length of a C string, or \<open>limit + 1\<close> when the first \<open>limit + 1\<close> characters hold no terminator; the
  list holds the characters from the pointer on, and its end counts as a terminator.
\<close>

definition text_length :: "string option \<Rightarrow> nat \<Rightarrow> nat" where
  "text_length text limit =
     (case text of
        None \<Rightarrow> limit + 1
      | Some t \<Rightarrow> length (takeWhile (\<lambda>c. c \<noteq> CHR 0x00) (take (limit + 1) t)))"

definition job_next_generation :: "u64 \<Rightarrow> u64" where
  "job_next_generation generation = next_generation jb_kMaximumGeneration generation"

definition job_encode :: "nat \<Rightarrow> u64 \<Rightarrow> u64" where
  "job_encode index generation = push_bit 8 generation OR of_nat (index + 1)"

definition job_index :: "u64 \<Rightarrow> nat option" where
  "job_index h =
     (if h = INVALID_JOB_ID then None
      else let encoded = h AND jb_kIndexMask in
        if encoded = 0 \<or> unat encoded > MAX_JOBS then None else Some (unat encoded - 1))"

definition job_decode :: "job_table \<Rightarrow> u64 \<Rightarrow> nat option" where
  "job_decode s h =
     (case job_index h of
        None \<Rightarrow> None
      | Some i \<Rightarrow>
          let slot = g_slots s ! i in
          if \<not> jb_active slot \<or> jb_id slot \<noteq> h then None else Some i)"

definition has_member :: "Slot \<Rightarrow> u64 \<Rightarrow> bool" where
  "has_member slot pid = list_ex (\<lambda>x. x = pid) (take (jb_member_count slot) (jb_members slot))"

definition add_member :: "Slot \<Rightarrow> u64 \<Rightarrow> Status \<times> Slot" where
  "add_member slot pid =
     (if pid = INVALID_PROCESS_ID then (Status.InvalidArgument, slot)
      else if has_member slot pid then (Status.AlreadyExists, slot)
      else if jb_member_count slot \<ge> MAX_JOB_MEMBERS then (Status.CapacityReached, slot)
      else (Status.Ok, slot\<lparr> jb_members := (jb_members slot)[jb_member_count slot := pid],
                            jb_member_count := jb_member_count slot + 1 \<rparr>))"

definition remove_member :: "Slot \<Rightarrow> u64 \<Rightarrow> bool \<times> Slot" where
  "remove_member slot pid =
     (let held = take (jb_member_count slot) (jb_members slot) in
      case find_index (\<lambda>x. x = pid) held of
        None \<Rightarrow> (False, slot)
      | Some index \<Rightarrow>
          let n = jb_member_count slot - 1 in
          (True, slot\<lparr> jb_members := (remove_nth index held @ drop n (jb_members slot))[n := INVALID_PROCESS_ID],
                       jb_member_count := n \<rparr>))"

definition reclaim_if_empty :: "Slot \<Rightarrow> Slot" where
  "reclaim_if_empty slot =
     (if \<not> jb_active slot \<or> jb_member_count slot \<noteq> 0 then slot
      else zero_job\<lparr> jb_generation := jb_generation slot \<rparr>)"

section \<open>Operations\<close>

definition job_initialize :: "job_table \<Rightarrow> Status \<times> job_table" where
  "job_initialize s =
     (if jb_initialized s then (Status.AlreadyInitialized, s)
      else (Status.Ok, \<lparr> g_slots = replicate MAX_JOBS zero_job, jb_initialized = True \<rparr>))"

definition created_slot :: "nat \<Rightarrow> u64 \<Rightarrow> u64 \<Rightarrow> string \<Rightarrow> nat \<Rightarrow> Slot" where
  "created_slot index generation owner_pid name len =
     zero_job\<lparr> jb_generation := generation, jb_id := job_encode index generation,
       jb_owner_pid := owner_pid, jb_members := (jb_members zero_job)[0 := owner_pid],
       jb_member_count := 1, jb_active := True,
       jb_name := (take len name @ drop len (jb_name zero_job))[len := CHR 0x00] \<rparr>"

definition job_create ::
  "u64 \<Rightarrow> string option \<Rightarrow> u64 option \<Rightarrow> job_table \<Rightarrow> Status \<times> u64 option \<times> job_table" where
  "job_create owner_pid name out_job s =
     (let out = map_option (\<lambda>_. INVALID_JOB_ID) out_job in
      if \<not> jb_initialized s then (Status.NotInitialized, out, s)
      else if owner_pid = INVALID_PROCESS_ID \<or> out_job = None then (Status.InvalidArgument, out, s)
      else let len = text_length name MAX_JOB_NAME in
        if len = 0 then (Status.InvalidArgument, out, s)
        else if len > MAX_JOB_NAME then (Status.NameTooLong, out, s)
        else case find_index (\<lambda>slot. \<not> jb_active slot) (g_slots s) of
            None \<Rightarrow> (Status.CapacityReached, out, s)
          | Some index \<Rightarrow>
              let slot = created_slot index (job_next_generation (jb_generation (g_slots s ! index)))
                           owner_pid (the name) len
              in (Status.Ok, Some (jb_id slot), s\<lparr> g_slots := (g_slots s)[index := slot] \<rparr>))"

definition set_slot :: "job_table \<Rightarrow> nat \<Rightarrow> Slot \<Rightarrow> job_table" where
  "set_slot s i slot = s\<lparr> g_slots := (g_slots s)[i := slot] \<rparr>"

definition job_attach :: "u64 \<Rightarrow> u64 \<Rightarrow> u64 \<Rightarrow> job_table \<Rightarrow> Status \<times> job_table" where
  "job_attach owner_pid h target_pid s =
     (if \<not> jb_initialized s then (Status.NotInitialized, s)
      else if owner_pid = INVALID_PROCESS_ID \<or> target_pid = INVALID_PROCESS_ID
      then (Status.InvalidArgument, s)
      else case job_decode s h of
          None \<Rightarrow> (Status.NotFound, s)
        | Some i \<Rightarrow>
            if jb_owner_pid (g_slots s ! i) \<noteq> owner_pid then (Status.AccessDenied, s)
            else let (status, slot) = add_member (g_slots s ! i) target_pid in
              (status, set_slot s i slot))"

definition job_detach :: "u64 \<Rightarrow> u64 \<Rightarrow> u64 \<Rightarrow> job_table \<Rightarrow> Status \<times> job_table" where
  "job_detach owner_pid h target_pid s =
     (if \<not> jb_initialized s then (Status.NotInitialized, s)
      else if owner_pid = INVALID_PROCESS_ID \<or> target_pid = INVALID_PROCESS_ID
      then (Status.InvalidArgument, s)
      else case job_decode s h of
          None \<Rightarrow> (Status.NotFound, s)
        | Some i \<Rightarrow>
            if jb_owner_pid (g_slots s ! i) \<noteq> owner_pid \<or> target_pid = jb_owner_pid (g_slots s ! i)
            then (Status.AccessDenied, s)
            else let (removed, slot) = remove_member (g_slots s ! i) target_pid in
              (if removed then Status.Ok else Status.NotFound, set_slot s i slot))"

definition job_inherit_member :: "u64 \<Rightarrow> u64 \<Rightarrow> job_table \<Rightarrow> Status \<times> job_table" where
  "job_inherit_member h child_pid s =
     (if \<not> jb_initialized s then (Status.NotInitialized, s)
      else if child_pid = INVALID_PROCESS_ID then (Status.InvalidArgument, s)
      else case job_decode s h of
          None \<Rightarrow> (Status.NotFound, s)
        | Some i \<Rightarrow>
            let (status, slot) = add_member (g_slots s ! i) child_pid in (status, set_slot s i slot))"

text \<open>The loop body of \<^verbatim>\<open>release_process\<close>.\<close>

definition release_slot :: "u64 \<Rightarrow> Slot \<Rightarrow> Slot" where
  "release_slot pid slot =
     (if \<not> jb_active slot then slot
      else let slot1 = snd (remove_member slot pid);
               slot2 = (if jb_owner_pid slot1 = pid then slot1\<lparr> jb_owner_pid := INVALID_PROCESS_ID \<rparr> else slot1)
           in reclaim_if_empty slot2)"

definition job_release_process :: "u64 \<Rightarrow> job_table \<Rightarrow> job_table" where
  "job_release_process pid s =
     (if pid = INVALID_PROCESS_ID \<or> \<not> jb_initialized s then s
      else s\<lparr> g_slots := map (release_slot pid) (g_slots s) \<rparr>)"

definition stat_name :: "string \<Rightarrow> string" where
  "stat_name name =
     (let copied = takeWhile (\<lambda>c. c \<noteq> CHR 0x00) (take (MAX_JOB_NAME + 1) name) in
      copied @ drop (length copied) (st_name zero_job_stat))"

definition job_stat :: "u64 \<Rightarrow> Stat option \<Rightarrow> job_table \<Rightarrow> Status \<times> Stat option" where
  "job_stat h out_stat s =
     (let out = map_option (\<lambda>_. zero_job_stat) out_stat in
      if \<not> jb_initialized s then (Status.NotInitialized, out)
      else if out_stat = None then (Status.InvalidArgument, out)
      else case job_decode s h of
          None \<Rightarrow> (Status.NotFound, out)
        | Some i \<Rightarrow>
            let slot = g_slots s ! i in
            (Status.Ok, Some \<lparr> st_id = jb_id slot, st_owner_pid = jb_owner_pid slot,
               st_member_count = jb_member_count slot,
               st_orphaned = (jb_owner_pid slot = INVALID_PROCESS_ID),
               st_name = stat_name (jb_name slot) \<rparr>))"

definition job_contains :: "u64 \<Rightarrow> u64 \<Rightarrow> job_table \<Rightarrow> bool" where
  "job_contains h pid s =
     (if \<not> jb_initialized s \<or> pid = INVALID_PROCESS_ID then False
      else case job_decode s h of None \<Rightarrow> False | Some i \<Rightarrow> has_member (g_slots s ! i) pid)"

fun job_status_message :: "Status \<Rightarrow> string" where
  "job_status_message Status.Ok = ''ok''"
| "job_status_message Status.NotInitialized = ''job table not initialized''"
| "job_status_message Status.AlreadyInitialized = ''job table already initialized''"
| "job_status_message Status.InvalidArgument = ''invalid job argument''"
| "job_status_message Status.NameTooLong = ''job name too long''"
| "job_status_message Status.AlreadyExists = ''process already belongs to job''"
| "job_status_message Status.NotFound = ''job or member not found''"
| "job_status_message Status.AccessDenied = ''job owner mismatch''"
| "job_status_message Status.CapacityReached = ''job capacity reached''"

section \<open>Job ids\<close>

lemma jb_kMaximumGeneration_eq: "unat jb_kMaximumGeneration = 2 ^ 56 - 1"
  unfolding jb_kMaximumGeneration_def unsigned_drop_bit_eq
  by (simp add: unsigned_minus_1_eq_mask mask_eq_exp_minus_1 drop_bit_eq_div)

lemma job_encode_fields:
  assumes "i < MAX_JOBS" "valid_generation jb_kMaximumGeneration g"
  shows "job_index (job_encode i g) = Some i" "drop_bit 8 (job_encode i g) = g" "job_encode i g \<noteq> 0"
proof -
  define w :: u64 where "w = of_nat (i + 1)"
  have i: "i < 16" using assms(1) by (simp add: MAX_JOBS_def)
  have w: "unat w = i + 1" unfolding w_def using i by (intro unat_of_nat_small) simp
  have w8: "unat w < 2 ^ 8" using w i by simp
  have g: "unat g < 2 ^ 56"
    using assms(2) jb_kMaximumGeneration_eq by (auto simp: valid_generation_def word_le_nat_alt)
  note f = or_push_bit_8 [OF w8 g]
  show "drop_bit 8 (job_encode i g) = g" using f(1) by (simp add: job_encode_def w_def)
  have low: "job_encode i g AND 0xFF = w" using f(2) by (simp add: job_encode_def w_def)
  have "w \<noteq> 0" using w by auto
  then show nz: "job_encode i g \<noteq> 0" using low by auto
  show "job_index (job_encode i g) = Some i"
    using nz \<open>w \<noteq> 0\<close> w i by (simp add: job_index_def INVALID_JOB_ID_def jb_kIndexMask_def low MAX_JOBS_def)
qed

lemma job_index_bound: "job_index h = Some i \<Longrightarrow> i < MAX_JOBS"
  using word_neq_0_unat [of "h AND jb_kIndexMask"] by (auto simp: job_index_def Let_def split: if_splits)

lemma encode_nonzero: "i < MAX_JOBS \<Longrightarrow> job_encode i g \<noteq> 0"
proof
  assume i: "i < MAX_JOBS" and e: "job_encode i g = 0"
  have "(of_nat (i + 1) :: u64) = 0"
    using e by (auto simp: job_encode_def or_eq_0_iff)
  moreover have "unat (of_nat (i + 1) :: u64) = i + 1" using i by (intro unat_of_nat_small) (simp add: MAX_JOBS_def)
  ultimately show False by simp
qed

interpretation jb: slot_table job_encode job_index "drop_bit 8" MAX_JOBS jb_kMaximumGeneration
    jb_active jb_generation
  by unfold_locales
    (auto simp: job_encode_fields job_index_bound encode_nonzero word_le_nat_alt jb_kMaximumGeneration_eq)


section \<open>Invariant\<close>

definition member_pids :: "Slot \<Rightarrow> u64 list" where
  "member_pids slot = take (jb_member_count slot) (jb_members slot)"

text \<open>
  A slot in use has the id of its place and generation, a proper name, distinct valid members, at least
  one of them, and an owner that is a member unless it has exited.
\<close>

definition slot_inv :: "nat \<Rightarrow> Slot \<Rightarrow> bool" where
  "slot_inv i slot \<longleftrightarrow>
     length (jb_members slot) = MAX_JOB_MEMBERS \<and> jb_member_count slot \<le> MAX_JOB_MEMBERS
     \<and> (jb_active slot \<longrightarrow>
          jb_id slot = job_encode i (jb_generation slot)
          \<and> valid_generation jb_kMaximumGeneration (jb_generation slot)
          \<and> distinct (member_pids slot) \<and> 0 \<notin> set (member_pids slot) \<and> member_pids slot \<noteq> []
          \<and> (jb_owner_pid slot \<noteq> 0 \<longrightarrow> jb_owner_pid slot \<in> set (member_pids slot))
          \<and> (\<exists>len \<le> MAX_JOB_NAME. jb_name slot ! len = CHR 0x00) \<and> length (jb_name slot) = MAX_JOB_NAME + 1)"

definition jobs_inv :: "job_table \<Rightarrow> bool" where
  "jobs_inv s \<longleftrightarrow> length (g_slots s) = MAX_JOBS \<and> (\<forall>i < MAX_JOBS. slot_inv i (g_slots s ! i))
     \<and> (jb_initialized s \<or> (\<forall>i < MAX_JOBS. \<not> jb_active (g_slots s ! i)))"

lemma zero_job_inv: "slot_inv i (zero_job\<lparr> jb_generation := g \<rparr>)" "slot_inv i zero_job"
  by (simp_all add: slot_inv_def zero_job_def)

lemma jobs_zero_inv: "jobs_inv jobs_zero" "jobs_inv \<lparr> g_slots = replicate MAX_JOBS zero_job, jb_initialized = b \<rparr>"
  by (simp_all add: jobs_inv_def jobs_zero_def zero_job_inv) (simp_all add: zero_job_def)

lemma jobs_inv_nth: "jobs_inv s \<Longrightarrow> i < MAX_JOBS \<Longrightarrow> slot_inv i (g_slots s ! i)"
  by (simp add: jobs_inv_def)

lemma set_slot_inv:
  assumes "jobs_inv s" "jb_initialized s" "slot_inv i slot"
  shows "jobs_inv (set_slot s i slot)"
proof -
  have "slot_inv j ((g_slots s)[i := slot] ! j)" if "j < MAX_JOBS" for j
    using assms that by (cases "j = i") (simp_all add: jobs_inv_def)
  then show ?thesis using assms(1,2) by (simp add: jobs_inv_def set_slot_def)
qed

text \<open>Under the invariant the stored id is the encoding of place and generation, so decoding is the generation check.\<close>

lemma job_decode_iff:
  assumes "jobs_inv s"
  shows "job_decode s h = Some i \<longleftrightarrow> i < MAX_JOBS \<and> jb_active (g_slots s ! i) \<and> jb_id (g_slots s ! i) = h"
proof
  assume "job_decode s h = Some i"
  then show "i < MAX_JOBS \<and> jb_active (g_slots s ! i) \<and> jb_id (g_slots s ! i) = h"
    by (auto simp: job_decode_def Let_def job_index_bound split: option.splits if_splits)
next
  assume r: "i < MAX_JOBS \<and> jb_active (g_slots s ! i) \<and> jb_id (g_slots s ! i) = h"
  then have e: "h = job_encode i (jb_generation (g_slots s ! i))"
    "valid_generation jb_kMaximumGeneration (jb_generation (g_slots s ! i))"
    using jobs_inv_nth [OF assms, of i] by (auto simp: slot_inv_def)
  then have "job_index h = Some i" using jb.index_encode r by simp
  with r show "job_decode s h = Some i" by (simp add: job_decode_def)
qed

lemma job_decode_resolve:
  assumes "jobs_inv s" "i < MAX_JOBS" "valid_generation jb_kMaximumGeneration g"
  shows "job_decode s (job_encode i g) =
    resolve job_index (drop_bit 8) jb_active jb_generation (g_slots s) (job_encode i g)"
proof -
  have "job_decode s (job_encode i g) = Some j \<longleftrightarrow>
      resolve job_index (drop_bit 8) jb_active jb_generation (g_slots s) (job_encode i g) = Some j" for j
    unfolding job_decode_iff [OF assms(1)] jb.resolve_encode [OF assms(2,3)]
    using jobs_inv_nth [OF assms(1)] jb.encode_inject assms(2,3) by (auto simp: slot_inv_def)
  then show ?thesis by (metis option.exhaust)
qed

lemma job_id_unique:
  assumes "jobs_inv s" "i < MAX_JOBS" "j < MAX_JOBS" "jb_active (g_slots s ! i)" "jb_active (g_slots s ! j)"
    "jb_id (g_slots s ! i) = jb_id (g_slots s ! j)"
  shows "i = j"
  using assms job_decode_iff [OF assms(1), of "jb_id (g_slots s ! i)" i]
    job_decode_iff [OF assms(1), of "jb_id (g_slots s ! i)" j] by simp

text \<open>The id of an ended job names nothing again until its slot has been reused \<open>2 ^ 56 - 1\<close> times.\<close>

lemma job_id_stale:
  assumes "jobs_inv s" "i < MAX_JOBS" "valid_generation jb_kMaximumGeneration g" "0 < n" "n < 2 ^ 56 - 1"
    "jb_generation (g_slots s ! i) = (job_next_generation ^^ n) g"
  shows "job_decode s (job_encode i g) = None"
proof -
  have "job_next_generation = next_generation jb_kMaximumGeneration"
    by (simp add: job_next_generation_def fun_eq_iff)
  then show ?thesis
    using jb.stale_after_reuse [OF assms(2-4), of "g_slots s"] assms(5,6)
    by (simp add: job_decode_resolve [OF assms(1-3)] jb_kMaximumGeneration_eq)
qed

section \<open>Abstract jobs\<close>

record job =
  owner :: u64
  members :: "u64 list"
  title :: string

type_synonym jobs = "u64 \<rightharpoonup> job"

definition job_of :: "Slot \<Rightarrow> job" where
  "job_of slot = \<lparr> owner = jb_owner_pid slot, members = member_pids slot,
     title = takeWhile (\<lambda>c. c \<noteq> CHR 0x00) (jb_name slot) \<rparr>"

definition jobs_of :: "job_table \<Rightarrow> jobs" where
  "jobs_of s h = map_option (\<lambda>i. job_of (g_slots s ! i)) (job_decode s h)"

definition spec_enter :: "u64 \<Rightarrow> u64 \<Rightarrow> job \<Rightarrow> jobs \<Rightarrow> Status \<times> jobs" where
  "spec_enter h pid j m =
     (if pid \<in> set (members j) then (Status.AlreadyExists, m)
      else if length (members j) = MAX_JOB_MEMBERS then (Status.CapacityReached, m)
      else (Status.Ok, m(h \<mapsto> j\<lparr> members := members j @ [pid] \<rparr>)))"

definition spec_attach :: "u64 \<Rightarrow> u64 \<Rightarrow> u64 \<Rightarrow> jobs \<Rightarrow> Status \<times> jobs" where
  "spec_attach p h pid m =
     (case m h of
        None \<Rightarrow> (Status.NotFound, m)
      | Some j \<Rightarrow> if owner j \<noteq> p then (Status.AccessDenied, m) else spec_enter h pid j m)"

definition spec_detach :: "u64 \<Rightarrow> u64 \<Rightarrow> u64 \<Rightarrow> jobs \<Rightarrow> Status \<times> jobs" where
  "spec_detach p h pid m =
     (case m h of
        None \<Rightarrow> (Status.NotFound, m)
      | Some j \<Rightarrow>
          if owner j \<noteq> p \<or> pid = p then (Status.AccessDenied, m)
          else if pid \<notin> set (members j) then (Status.NotFound, m)
          else (Status.Ok, m(h \<mapsto> j\<lparr> members := remove1 pid (members j) \<rparr>)))"

definition spec_inherit :: "u64 \<Rightarrow> u64 \<Rightarrow> jobs \<Rightarrow> Status \<times> jobs" where
  "spec_inherit h pid m =
     (case m h of None \<Rightarrow> (Status.NotFound, m) | Some j \<Rightarrow> spec_enter h pid j m)"

text \<open>Exit of a process: it leaves every job, a job it owned is orphaned, and a job without members ends.\<close>

definition spec_leave :: "u64 \<Rightarrow> job \<Rightarrow> job option" where
  "spec_leave pid j =
     (if members j = [pid] then None
      else Some (j\<lparr> owner := (if owner j = pid then 0 else owner j), members := remove1 pid (members j) \<rparr>))"

definition spec_release :: "u64 \<Rightarrow> jobs \<Rightarrow> jobs" where
  "spec_release pid m = (\<lambda>h. Option.bind (m h) (spec_leave pid))"

definition spec_create_status :: "string option \<Rightarrow> jobs \<Rightarrow> Status" where
  "spec_create_status name m =
     (if text_length name MAX_JOB_NAME = 0 then Status.InvalidArgument
      else if text_length name MAX_JOB_NAME > MAX_JOB_NAME then Status.NameTooLong
      else if card (dom m) = MAX_JOBS then Status.CapacityReached
      else Status.Ok)"

lemma jobs_of_set_slot:
  assumes "jobs_inv s" "jb_initialized s" "job_decode s h = Some i" "slot_inv i slot" "jb_active slot"
    "jb_id slot = h"
  shows "jobs_of (set_slot s i slot) = (jobs_of s)(h \<mapsto> job_of slot)"
proof
  fix x
  have i: "i < MAX_JOBS" "jb_active (g_slots s ! i)" "jb_id (g_slots s ! i) = h"
    using assms(3) by (simp_all add: job_decode_iff [OF assms(1)])
  note inv' = set_slot_inv [OF assms(1,2,4)]
  have len: "length (g_slots s) = MAX_JOBS" using assms(1) by (simp add: jobs_inv_def)
  have at: "g_slots (set_slot s i slot) ! j = (if j = i then slot else g_slots s ! j)" for j
    using i(1) len by (simp add: set_slot_def nth_list_update)
  have "job_decode (set_slot s i slot) x = Some j \<longleftrightarrow> job_decode s x = Some j" for j
    unfolding job_decode_iff [OF inv'] job_decode_iff [OF assms(1)] at using i assms(5,6) by auto
  then have "job_decode (set_slot s i slot) x = job_decode s x" by (metis option.exhaust)
  moreover have "job_decode s x = Some i \<longleftrightarrow> x = h" using i by (auto simp: job_decode_iff [OF assms(1)])
  ultimately show "jobs_of (set_slot s i slot) x = ((jobs_of s)(h \<mapsto> job_of slot)) x"
    unfolding jobs_of_def by (cases "job_decode s x") (auto simp: at)
qed

lemma set_slot_same: "set_slot s i (g_slots s ! i) = s"
  by (simp add: set_slot_def)

lemma has_member_iff: "has_member slot pid \<longleftrightarrow> pid \<in> set (member_pids slot)"
  by (auto simp: has_member_def member_pids_def list_ex_iff)

lemma add_member_spec:
  assumes "slot_inv i slot" "jb_active slot" "pid \<noteq> 0" "pid \<notin> set (member_pids slot)"
    "length (member_pids slot) \<noteq> MAX_JOB_MEMBERS"
  obtains slot' where "add_member slot pid = (Status.Ok, slot')" "slot_inv i slot'" "jb_active slot'"
    "jb_id slot' = jb_id slot" "job_of slot' = (job_of slot)\<lparr> members := member_pids slot @ [pid] \<rparr>"
proof -
  define slot' where "slot' = slot\<lparr> jb_members := (jb_members slot)[jb_member_count slot := pid],
    jb_member_count := jb_member_count slot + 1 \<rparr>"
  have n: "length (member_pids slot) = jb_member_count slot" "jb_member_count slot < MAX_JOB_MEMBERS"
    "length (jb_members slot) = MAX_JOB_MEMBERS"
    using assms(1,5) by (auto simp: slot_inv_def member_pids_def)
  have m: "member_pids slot' = member_pids slot @ [pid]"
    using n by (simp add: member_pids_def slot'_def take_Suc_conv_app_nth)
  have same: "jb_id slot' = jb_id slot" "jb_generation slot' = jb_generation slot" "jb_active slot' = jb_active slot"
    "jb_owner_pid slot' = jb_owner_pid slot" "jb_name slot' = jb_name slot"
    "length (jb_members slot') = MAX_JOB_MEMBERS" "jb_member_count slot' \<le> MAX_JOB_MEMBERS"
    using n by (simp_all add: slot'_def)
  have "slot_inv i slot'" using assms(1-4) same(7) unfolding slot_inv_def same(1-6) m by auto
  moreover have "add_member slot pid = (Status.Ok, slot')"
    using assms(3,4) n by (simp add: add_member_def has_member_iff INVALID_PROCESS_ID_def slot'_def)
  moreover have "job_of slot' = (job_of slot)\<lparr> members := member_pids slot @ [pid] \<rparr>"
    by (simp add: job_of_def m same)
  ultimately show ?thesis using that same assms(2) by simp
qed

lemma remove_member_spec:
  assumes "slot_inv i slot" "jb_active slot" "pid \<in> set (member_pids slot)"
  obtains slot' where "remove_member slot pid = (True, slot')"
    "member_pids slot' = remove1 pid (member_pids slot)" "length (jb_members slot') = MAX_JOB_MEMBERS"
    "jb_member_count slot' = length (member_pids slot')" "jb_member_count slot' \<le> MAX_JOB_MEMBERS"
    "slot' = slot\<lparr> jb_members := jb_members slot', jb_member_count := jb_member_count slot' \<rparr>"
proof -
  obtain k where k: "find_index (\<lambda>x. x = pid) (member_pids slot) = Some k"
    using assms(3) find_index_None_iff [of "\<lambda>x. x = pid" "member_pids slot"] by fastforce
  define n where "n = jb_member_count slot - 1"
  have c: "length (member_pids slot) = jb_member_count slot" "jb_member_count slot \<le> MAX_JOB_MEMBERS"
    "length (jb_members slot) = MAX_JOB_MEMBERS"
    using assms(1) by (auto simp: slot_inv_def member_pids_def)
  have kl: "k < length (member_pids slot)" using k by (rule find_index_Some_lessD)
  have r: "length (remove_nth k (member_pids slot)) = n" using length_remove_nth [OF kl] c(1) by (simp add: n_def)
  define slot' where "slot' = slot\<lparr> jb_members := (remove_nth k (member_pids slot) @ drop n (jb_members slot))[n := 0],
    jb_member_count := n \<rparr>"
  have "remove_member slot pid = (True, slot')"
    using k by (simp add: remove_member_def Let_def member_pids_def [symmetric] n_def slot'_def INVALID_PROCESS_ID_def)
  moreover have m: "member_pids slot' = remove1 pid (member_pids slot)"
  proof -
    have "member_pids slot' = take n ((remove_nth k (member_pids slot) @ drop n (jb_members slot))[n := 0])"
      unfolding member_pids_def [of slot'] by (simp add: slot'_def)
    also have "\<dots> = remove_nth k (member_pids slot)" using r by simp
    finally show ?thesis using remove_nth_find_index [OF k] by simp
  qed
  moreover have "length (jb_members slot') = MAX_JOB_MEMBERS" using r c kl by (simp add: slot'_def n_def)
  moreover have "jb_member_count slot' = length (member_pids slot')"
    using m r remove_nth_find_index [OF k] by (simp add: slot'_def)
  moreover have "jb_member_count slot' \<le> MAX_JOB_MEMBERS" using c by (simp add: slot'_def n_def)
  ultimately show ?thesis using that by (simp add: slot'_def)
qed


text \<open>\<open>implements\<close>: a step of the table and a step of the jobs agree in status and effect.\<close>

definition implements :: "Status \<times> job_table \<Rightarrow> Status \<times> jobs \<Rightarrow> bool" where
  "implements r r' \<longleftrightarrow> fst r = fst r' \<and> jobs_of (snd r) = snd r' \<and> jobs_inv (snd r)
     \<and> jb_initialized (snd r)"

lemma jobs_of_decode:
  "job_decode s h = Some i \<Longrightarrow> jobs_of s h = Some (job_of (g_slots s ! i))"
  "job_decode s h = None \<Longrightarrow> jobs_of s h = None"
  by (simp_all add: jobs_of_def)

lemma job_of_simps [simp]:
  "owner (job_of slot) = jb_owner_pid slot" "members (job_of slot) = member_pids slot"
  by (simp_all add: job_of_def)

lemma decoded:
  assumes "jobs_inv s" "job_decode s h = Some i"
  shows "i < MAX_JOBS" "slot_inv i (g_slots s ! i)" "jb_active (g_slots s ! i)" "jb_id (g_slots s ! i) = h"
    "length (member_pids (g_slots s ! i)) = jb_member_count (g_slots s ! i)"
  using assms jobs_inv_nth [OF assms(1), of i]
  by (auto simp: job_decode_iff slot_inv_def member_pids_def)

lemma enter_implements:
  assumes "jobs_inv s" "jb_initialized s" "job_decode s h = Some i" "pid \<noteq> 0"
  shows "implements (let (status, slot) = add_member (g_slots s ! i) pid in (status, set_slot s i slot))
    (spec_enter h pid (job_of (g_slots s ! i)) (jobs_of s))"
proof -
  note d = decoded [OF assms(1,3)]
  show ?thesis
  proof (cases "pid \<in> set (member_pids (g_slots s ! i)) \<or> length (member_pids (g_slots s ! i)) = MAX_JOB_MEMBERS")
    case True
    then show ?thesis
      using assms d(2,5)
      by (auto simp: add_member_def has_member_iff spec_enter_def implements_def set_slot_same INVALID_PROCESS_ID_def
          slot_inv_def)
  next
    case False
    then obtain slot where slot: "add_member (g_slots s ! i) pid = (Status.Ok, slot)" "slot_inv i slot" "jb_active slot"
      "jb_id slot = jb_id (g_slots s ! i)"
      "job_of slot = (job_of (g_slots s ! i))\<lparr> members := member_pids (g_slots s ! i) @ [pid] \<rparr>"
      using add_member_spec [OF d(2,3) assms(4)] by blast
    then have "jobs_of (set_slot s i slot) = (jobs_of s)(h \<mapsto> job_of slot)"
      using jobs_of_set_slot [OF assms(1-3) slot(2,3)] d(4) by simp
    with slot False show ?thesis
      using set_slot_inv [OF assms(1,2) slot(2)] assms(2)
      by (simp add: spec_enter_def implements_def) (simp add: set_slot_def)
  qed
qed

lemma job_attach_implements:
  assumes "jobs_inv s" "jb_initialized s" "p \<noteq> 0" "pid \<noteq> 0"
  shows "implements (job_attach p h pid s) (spec_attach p h pid (jobs_of s))"
proof (cases "job_decode s h")
  case None
  then show ?thesis
    using assms by (simp add: job_attach_def spec_attach_def jobs_of_decode implements_def INVALID_PROCESS_ID_def)
next
  case (Some i)
  show ?thesis
  proof (cases "jb_owner_pid (g_slots s ! i) = p")
    case True
    then show ?thesis
      using enter_implements [OF assms(1,2) Some assms(4)] assms(2-4)
      by (simp add: job_attach_def spec_attach_def jobs_of_decode Some INVALID_PROCESS_ID_def)
  next
    case False
    then show ?thesis
      using assms by (simp add: job_attach_def spec_attach_def jobs_of_decode Some implements_def INVALID_PROCESS_ID_def)
  qed
qed

lemma job_inherit_implements:
  assumes "jobs_inv s" "jb_initialized s" "pid \<noteq> 0"
  shows "implements (job_inherit_member h pid s) (spec_inherit h pid (jobs_of s))"
proof (cases "job_decode s h")
  case None
  then show ?thesis
    using assms by (simp add: job_inherit_member_def spec_inherit_def jobs_of_decode implements_def INVALID_PROCESS_ID_def)
next
  case (Some i)
  then show ?thesis
    using enter_implements [OF assms(1,2) Some assms(3)] assms(2,3)
    by (simp add: job_inherit_member_def spec_inherit_def jobs_of_decode INVALID_PROCESS_ID_def)
qed

text \<open>Removing a member that is not the owner of a slot in use, or with the owner reset, keeps the slot proper.\<close>

lemma removed_slot_inv:
  assumes "slot_inv i slot" "jb_active slot" "member_pids slot' = remove1 pid (member_pids slot)"
    "length (jb_members slot') = MAX_JOB_MEMBERS" "jb_member_count slot' \<le> MAX_JOB_MEMBERS"
    "slot' = slot\<lparr> jb_owner_pid := w, jb_members := jb_members slot', jb_member_count := jb_member_count slot' \<rparr>"
    "w = 0 \<or> w = jb_owner_pid slot \<and> w \<noteq> pid" "member_pids slot' \<noteq> []"
  shows "slot_inv i slot'"
    "job_of slot' = (job_of slot)\<lparr> owner := w, members := remove1 pid (member_pids slot) \<rparr>"
proof -
  have same: "jb_id slot' = jb_id slot" "jb_generation slot' = jb_generation slot" "jb_active slot' = jb_active slot"
    "jb_name slot' = jb_name slot" "jb_owner_pid slot' = w"
    by (subst assms(6), simp)+
  show "slot_inv i slot'"
    using assms(1,2,4,5,7,8) unfolding slot_inv_def same assms(3)
    by (auto simp: in_set_remove1 dest: notin_set_remove1 [of 0])
  show "job_of slot' = (job_of slot)\<lparr> owner := w, members := remove1 pid (member_pids slot) \<rparr>"
    by (simp add: job_of_def assms(3) same)
qed

lemma job_detach_implements:
  assumes "jobs_inv s" "jb_initialized s" "p \<noteq> 0" "pid \<noteq> 0"
  shows "implements (job_detach p h pid s) (spec_detach p h pid (jobs_of s))"
proof (cases "job_decode s h")
  case None
  then show ?thesis
    using assms by (simp add: job_detach_def spec_detach_def jobs_of_decode implements_def INVALID_PROCESS_ID_def)
next
  case (Some i)
  let ?slot = "g_slots s ! i"
  note d = decoded [OF assms(1) Some]
  show ?thesis
  proof (cases "jb_owner_pid ?slot = p \<and> pid \<noteq> p")
    case own: True
    show ?thesis
    proof (cases "pid \<in> set (member_pids ?slot)")
      case True
      obtain slot where slot: "remove_member ?slot pid = (True, slot)"
        "member_pids slot = remove1 pid (member_pids ?slot)" "length (jb_members slot) = MAX_JOB_MEMBERS"
        "jb_member_count slot \<le> MAX_JOB_MEMBERS"
        "slot = ?slot\<lparr> jb_members := jb_members slot, jb_member_count := jb_member_count slot \<rparr>"
        using remove_member_spec [OF d(2,3) True] by blast
      have w: "slot = ?slot\<lparr> jb_owner_pid := p, jb_members := jb_members slot, jb_member_count := jb_member_count slot \<rparr>"
        by (subst slot(5)) (use own in \<open>cases ?slot, simp\<close>)
      have "p \<in> set (member_pids ?slot)" using d(2,3) own assms(3) by (auto simp: slot_inv_def)
      then have "p \<in> set (member_pids slot)" unfolding slot(2) using own by (subst in_set_remove1) auto
      then have ne: "member_pids slot \<noteq> []" by auto
      note r = removed_slot_inv [OF d(2,3) slot(2-4) w _ ne]
      have act: "jb_active slot" "jb_id slot = h" by (subst slot(5), simp add: d)+
      have ri: "slot_inv i slot" "job_of slot = (job_of ?slot)\<lparr> owner := p, members := remove1 pid (member_pids ?slot) \<rparr>"
        using r own by auto
      have "(job_of ?slot)\<lparr> owner := p \<rparr> = job_of ?slot" using own by (simp add: job_of_def)
      then have j: "job_of slot = (job_of ?slot)\<lparr> members := remove1 pid (member_pids ?slot) \<rparr>" using ri(2) by simp
      have js: "jobs_of (set_slot s i slot) = (jobs_of s)(h \<mapsto> job_of slot)"
        by (rule jobs_of_set_slot [OF assms(1,2) Some ri(1) act])
      have "job_detach p h pid s = (Status.Ok, set_slot s i slot)"
        using assms(2-4) Some own slot(1) by (simp add: job_detach_def INVALID_PROCESS_ID_def)
      moreover have "spec_detach p h pid (jobs_of s) = (Status.Ok, jobs_of (set_slot s i slot))"
        using own True unfolding js j by (simp add: spec_detach_def jobs_of_decode Some)
      moreover have "jobs_inv (set_slot s i slot)" by (rule set_slot_inv [OF assms(1,2) ri(1)])
      ultimately show ?thesis using assms(2) by (simp add: implements_def set_slot_def)
    next
      case False
      then have "find_index (\<lambda>x. x = pid) (member_pids ?slot) = None" by (auto simp: find_index_None_iff)
      then have "remove_member ?slot pid = (False, ?slot)"
        by (simp add: remove_member_def Let_def member_pids_def [symmetric])
      with own False assms Some show ?thesis
        by (simp add: job_detach_def spec_detach_def jobs_of_decode implements_def INVALID_PROCESS_ID_def set_slot_same)
    qed
  next
    case False
    then show ?thesis using assms Some
      by (auto simp: job_detach_def spec_detach_def jobs_of_decode implements_def INVALID_PROCESS_ID_def)
  qed
qed


lemma remove_member_absent:
  "pid \<notin> set (member_pids slot) \<Longrightarrow> remove_member slot pid = (False, slot)"
proof -
  assume "pid \<notin> set (member_pids slot)"
  then have "find_index (\<lambda>x. x = pid) (member_pids slot) = None" by (auto simp: find_index_None_iff)
  then show ?thesis by (simp add: remove_member_def Let_def member_pids_def [symmetric])
qed

lemma release_slot_spec:
  assumes "slot_inv i slot" "jb_active slot" "pid \<noteq> 0"
  shows "slot_inv i (release_slot pid slot)
    \<and> (if jb_active (release_slot pid slot) then Some (job_of (release_slot pid slot)) else None)
        = spec_leave pid (job_of slot)
    \<and> (jb_active (release_slot pid slot) \<longrightarrow> jb_id (release_slot pid slot) = jb_id slot)"
proof (cases "pid \<in> set (member_pids slot)")
  case True
  obtain slot1 where r: "remove_member slot pid = (True, slot1)"
    "member_pids slot1 = remove1 pid (member_pids slot)" "length (jb_members slot1) = MAX_JOB_MEMBERS"
    "jb_member_count slot1 = length (member_pids slot1)" "jb_member_count slot1 \<le> MAX_JOB_MEMBERS"
    "slot1 = slot\<lparr> jb_members := jb_members slot1, jb_member_count := jb_member_count slot1 \<rparr>"
    using remove_member_spec [OF assms(1,2) True] by blast
  have same1: "jb_owner_pid slot1 = jb_owner_pid slot" "jb_active slot1" "jb_id slot1 = jb_id slot"
    by (subst r(6), simp add: assms(2))+
  define w where "w = (if jb_owner_pid slot = pid then 0 else jb_owner_pid slot)"
  define slot2 where "slot2 = (if jb_owner_pid slot1 = pid then slot1\<lparr> jb_owner_pid := INVALID_PROCESS_ID \<rparr> else slot1)"
  have s2: "slot2 = slot1\<lparr> jb_owner_pid := w \<rparr>"
    using same1(1) by (cases slot1) (simp add: slot2_def w_def INVALID_PROCESS_ID_def)
  have m2: "member_pids slot2 = remove1 pid (member_pids slot)" using r(2) by (simp add: s2 member_pids_def)
  have rel: "release_slot pid slot = reclaim_if_empty slot2"
    using assms(2) r(1) by (simp add: release_slot_def Let_def slot2_def)
  show ?thesis
  proof (cases "member_pids slot = [pid]")
    case True
    then have "jb_member_count slot2 = 0" "jb_active slot2" using r(2,4) same1(2) by (simp_all add: s2)
    then have "release_slot pid slot = zero_job\<lparr> jb_generation := jb_generation slot2 \<rparr>"
      unfolding rel by (simp add: reclaim_if_empty_def)
    with True show ?thesis by (simp add: zero_job_inv) (simp add: zero_job_def spec_leave_def)
  next
    case False
    obtain x xs where xs: "member_pids slot = x # xs" using True by (cases "member_pids slot") auto
    then have ne: "remove1 pid (member_pids slot) \<noteq> []" using False by (cases xs) auto
    have "jb_member_count slot2 \<noteq> 0" using r(2,4) ne by (simp add: s2)
    then have rs: "release_slot pid slot = slot2" unfolding rel by (simp add: reclaim_if_empty_def)
    have e: "slot2 = slot\<lparr> jb_owner_pid := w, jb_members := jb_members slot2, jb_member_count := jb_member_count slot2 \<rparr>"
      unfolding s2 by (subst r(6)) simp
    have l2: "length (jb_members slot2) = MAX_JOB_MEMBERS" "jb_member_count slot2 \<le> MAX_JOB_MEMBERS"
      using r(3,5) by (simp_all add: s2)
    have w: "w = 0 \<or> w = jb_owner_pid slot \<and> w \<noteq> pid" by (simp add: w_def)
    have ne2: "member_pids slot2 \<noteq> []" using m2 ne by simp
    note f = removed_slot_inv [OF assms(1,2) m2 l2 e w ne2]
    have "jb_active slot2" "jb_id slot2 = jb_id slot" using same1 by (simp_all add: s2)
    with f show ?thesis unfolding rs using False by (simp add: spec_leave_def w_def)
  qed
next
  case False
  have ow: "jb_owner_pid slot \<noteq> pid" using assms False by (auto simp: slot_inv_def)
  have "jb_member_count slot \<noteq> 0" using assms(1,2) by (auto simp: slot_inv_def member_pids_def)
  then have "release_slot pid slot = slot"
    using assms(2) remove_member_absent [OF False] ow by (simp add: release_slot_def Let_def reclaim_if_empty_def)
  moreover have "spec_leave pid (job_of slot) = Some (job_of slot)"
    using False ow by (auto simp: spec_leave_def job_of_def remove1_idem)
  ultimately show ?thesis using assms(1,2) by simp
qed

lemma job_release_implements:
  assumes "jobs_inv s" "jb_initialized s" "pid \<noteq> 0"
  shows "jobs_of (job_release_process pid s) = spec_release pid (jobs_of s)" "jobs_inv (job_release_process pid s)"
proof -
  define s' where "s' = s\<lparr> g_slots := map (release_slot pid) (g_slots s) \<rparr>"
  have r: "job_release_process pid s = s'"
    using assms by (simp add: job_release_process_def s'_def INVALID_PROCESS_ID_def)
  have len: "length (g_slots s) = MAX_JOBS" using assms(1) by (simp add: jobs_inv_def)
  have at: "g_slots s' ! i = release_slot pid (g_slots s ! i)" if "i < MAX_JOBS" for i
    using that len by (simp add: s'_def)
  have idle: "release_slot pid slot = slot" if "\<not> jb_active slot" for slot using that by (simp add: release_slot_def)
  have "slot_inv i (g_slots s' ! i)" if "i < MAX_JOBS" for i
    using that at [OF that] release_slot_spec [OF jobs_inv_nth [OF assms(1) that] _ assms(3)]
      jobs_inv_nth [OF assms(1) that] idle by (cases "jb_active (g_slots s ! i)") simp_all
  then have inv': "jobs_inv s'" using len assms(2) by (simp add: jobs_inv_def s'_def)
  show "jobs_inv (job_release_process pid s)" unfolding r by (rule inv')
  show "jobs_of (job_release_process pid s) = spec_release pid (jobs_of s)" unfolding r
  proof
    fix h
    have lives: "job_decode s' h = Some i \<longleftrightarrow>
        job_decode s h = Some i \<and> jb_active (release_slot pid (g_slots s ! i))" for i
    proof (cases "i < MAX_JOBS \<and> jb_active (g_slots s ! i)")
      case True
      then show ?thesis
        unfolding job_decode_iff [OF inv'] job_decode_iff [OF assms(1)]
        using at [of i] release_slot_spec [OF jobs_inv_nth [OF assms(1), of i] _ assms(3)] by auto
    next
      case False
      then show ?thesis
        unfolding job_decode_iff [OF inv'] job_decode_iff [OF assms(1)] using at [of i] idle by auto
    qed
    show "jobs_of s' h = spec_release pid (jobs_of s) h"
    proof (cases "job_decode s h")
      case None
      then have "job_decode s' h = None" using lives by (metis not_Some_eq)
      with None show ?thesis by (simp add: jobs_of_def spec_release_def)
    next
      case (Some i)
      note d = decoded [OF assms(1) Some]
      note sp = release_slot_spec [OF d(2,3) assms(3)]
      show ?thesis
      proof (cases "jb_active (release_slot pid (g_slots s ! i))")
        case True
        then have "job_decode s' h = Some i" using lives Some by simp
        with Some True sp at [OF d(1)] show ?thesis by (simp add: jobs_of_def spec_release_def)
      next
        case False
        then have "job_decode s' h = None" using lives Some by (metis not_Some_eq option.inject)
        with Some False sp show ?thesis by (simp add: jobs_of_def spec_release_def)
      qed
    qed
  qed
qed


section \<open>Creation\<close>

lemma text_length_take:
  assumes "text_length (Some t) limit \<le> limit"
  shows "take (text_length (Some t) limit) t = takeWhile (\<lambda>c. c \<noteq> CHR 0x00) (take (limit + 1) t)"
proof -
  let ?w = "takeWhile (\<lambda>c. c \<noteq> CHR 0x00) (take (limit + 1) t)"
  have "?w = take (length ?w) (take (limit + 1) t)" by (rule takeWhile_eq_take)
  also have "\<dots> = take (length ?w) t" using assms by (simp add: text_length_def min_def)
  finally show ?thesis by (simp add: text_length_def)
qed

lemma created_slot_spec:
  assumes "i < MAX_JOBS" "p \<noteq> 0" "0 < len" "len \<le> MAX_JOB_NAME" "len = text_length (Some t) MAX_JOB_NAME"
  shows "slot_inv i (created_slot i (job_next_generation g) p t len)"
    "job_of (created_slot i (job_next_generation g) p t len) = \<lparr> owner = p, members = [p], title = take len t \<rparr>"
    "jb_id (created_slot i (job_next_generation g) p t len) = job_encode i (job_next_generation g)"
    "jb_active (created_slot i (job_next_generation g) p t len)"
proof -
  let ?c = "created_slot i (job_next_generation g) p t len"
  show id: "jb_id ?c = job_encode i (job_next_generation g)" and act: "jb_active ?c" by (simp_all add: created_slot_def)
  have tw: "take len t = takeWhile (\<lambda>c. c \<noteq> CHR 0x00) (take (MAX_JOB_NAME + 1) t)"
    using text_length_take assms(4,5) by simp
  then have lt: "length (take len t) = len" using assms(5) by (simp add: text_length_def)
  have nz: "c \<noteq> CHR 0x00" if "c \<in> set (take len t)" for c using that unfolding tw by (rule set_takeWhileD [THEN conjunct2])
  define buf where "buf = replicate (MAX_JOB_NAME + 1 - len) (CHR 0x00)"
  have bufc: "buf = CHR 0x00 # replicate (MAX_JOB_NAME - len) (CHR 0x00)"
    using assms(4) by (simp add: buf_def Suc_diff_le)
  have name: "jb_name ?c = take len t @ buf"
  proof -
    have "jb_name ?c = (take len t @ buf)[len := CHR 0x00]" by (simp add: created_slot_def zero_job_def buf_def del: replicate_Suc)
    also have "\<dots> = take len t @ buf" using lt by (simp add: bufc list_update_append)
    finally show ?thesis .
  qed
  have m: "member_pids ?c = [p]" "length (jb_members ?c) = MAX_JOB_MEMBERS" "jb_member_count ?c = 1"
    "jb_owner_pid ?c = p" "jb_generation ?c = job_next_generation g"
  proof -
    have "replicate MAX_JOB_MEMBERS (0 :: u64) = 0 # replicate 15 0"
      by (simp add: MAX_JOB_MEMBERS_def numeral_eq_Suc)
    then show "member_pids ?c = [p]" by (simp add: created_slot_def zero_job_def member_pids_def)
  qed (simp_all add: created_slot_def zero_job_def)
  have nul: "jb_name ?c ! len = CHR 0x00" using lt by (simp add: name bufc nth_append)
  have ln: "length (jb_name ?c) = MAX_JOB_NAME + 1" using lt assms(4) by (simp add: name buf_def)
  have gen: "valid_generation jb_kMaximumGeneration (job_next_generation g)"
    unfolding job_next_generation_def by (rule next_generation_valid [OF jb.limit_pos])
  show "slot_inv i ?c"
    unfolding slot_inv_def m id using gen assms(2,4) nul ln by (auto simp: MAX_JOB_MEMBERS_def)
  have "takeWhile (\<lambda>c. c \<noteq> CHR 0x00) (take len t @ buf) = take len t @ takeWhile (\<lambda>c. c \<noteq> CHR 0x00) buf"
    using nz by (intro takeWhile_append2) blast
  then show "job_of ?c = \<lparr> owner = p, members = [p], title = take len t \<rparr>"
    by (simp add: job_of_def m name bufc)
qed

lemma all_active_card:
  assumes "jobs_inv s"
  shows "find_index (\<lambda>slot. \<not> jb_active slot) (g_slots s) = None \<longleftrightarrow> card (dom (jobs_of s)) = MAX_JOBS"
proof -
  define A where "A = {i. i < MAX_JOBS \<and> jb_active (g_slots s ! i)}"
  have len: "length (g_slots s) = MAX_JOBS" using assms by (simp add: jobs_inv_def)
  have "dom (jobs_of s) = (\<lambda>i. jb_id (g_slots s ! i)) ` A"
  proof (intro set_eqI)
    fix h
    have "h \<in> dom (jobs_of s) \<longleftrightarrow> (\<exists>i. job_decode s h = Some i)" by (auto simp: jobs_of_def)
    also have "\<dots> \<longleftrightarrow> h \<in> (\<lambda>i. jb_id (g_slots s ! i)) ` A" by (auto simp: job_decode_iff [OF assms] A_def)
    finally show "h \<in> dom (jobs_of s) \<longleftrightarrow> h \<in> (\<lambda>i. jb_id (g_slots s ! i)) ` A" .
  qed
  moreover have "inj_on (\<lambda>i. jb_id (g_slots s ! i)) A"
    using job_id_unique [OF assms] by (auto simp: inj_on_def A_def)
  ultimately have c: "card (dom (jobs_of s)) = card A" by (simp add: card_image)
  have "A \<subseteq> {..<MAX_JOBS}" by (auto simp: A_def)
  then have "card A = MAX_JOBS \<longleftrightarrow> A = {..<MAX_JOBS}"
    using card_subset_eq [of "{..<MAX_JOBS}" A] by auto
  also have "\<dots> \<longleftrightarrow> (\<forall>i < MAX_JOBS. jb_active (g_slots s ! i))" by (auto simp: A_def)
  also have "\<dots> \<longleftrightarrow> find_index (\<lambda>slot. \<not> jb_active slot) (g_slots s) = None"
    by (simp add: find_index_None_iff all_set_conv_all_nth len)
  finally show ?thesis unfolding c by simp
qed

text \<open>
  Creation: what it refuses, and that it otherwise adds one job with its creator as owner and only member
  under an id that named nothing.
\<close>

lemma job_create_implements:
  assumes "jobs_inv s" "jb_initialized s" "p \<noteq> 0" "len = text_length name MAX_JOB_NAME"
  shows "if len = 0 then job_create p name (Some out) s = (Status.InvalidArgument, Some 0, s)
    else if len > MAX_JOB_NAME then job_create p name (Some out) s = (Status.NameTooLong, Some 0, s)
    else if card (dom (jobs_of s)) = MAX_JOBS
    then job_create p name (Some out) s = (Status.CapacityReached, Some 0, s)
    else \<exists>h s'. job_create p name (Some out) s = (Status.Ok, Some h, s') \<and> h \<noteq> 0 \<and> jobs_of s h = None
      \<and> jobs_of s' = (jobs_of s)(h \<mapsto> \<lparr> owner = p, members = [p], title = take len (the name) \<rparr>)
      \<and> jobs_inv s' \<and> jb_initialized s'"
proof -
  have big: "len > MAX_JOB_NAME" if "name = None" using that assms(4) by (simp add: text_length_def)
  show ?thesis
  proof (cases "len = 0 \<or> len > MAX_JOB_NAME \<or> card (dom (jobs_of s)) = MAX_JOBS")
    case True
    then show ?thesis
      using assms all_active_card [OF assms(1)]
      by (auto simp: job_create_def Let_def INVALID_PROCESS_ID_def INVALID_JOB_ID_def)
  next
    case False
    then obtain t where t: "name = Some t" using big by (cases name) auto
    have l: "0 < len" "len \<le> MAX_JOB_NAME" "len = text_length (Some t) MAX_JOB_NAME" using False assms(4) t by auto
    obtain i where i: "find_index (\<lambda>slot. \<not> jb_active slot) (g_slots s) = Some i"
      using False all_active_card [OF assms(1)] by auto
    have len: "length (g_slots s) = MAX_JOBS" using assms(1) by (simp add: jobs_inv_def)
    have il: "i < MAX_JOBS" "\<not> jb_active (g_slots s ! i)" using find_index_SomeD [OF i] len by auto
    define c where "c = created_slot i (job_next_generation (jb_generation (g_slots s ! i))) p t len"
    note C = created_slot_spec [OF il(1) assms(3) l, of "jb_generation (g_slots s ! i)", folded c_def]
    define s' where "s' = set_slot s i c"
    have inv': "jobs_inv s'" unfolding s'_def by (rule set_slot_inv [OF assms(1,2) C(1)])
    have at: "g_slots s' ! j = (if j = i then c else g_slots s ! j)" for j
      using il(1) len by (simp add: s'_def set_slot_def nth_list_update)
    have dec: "job_decode s' (jb_id c) = Some i" using il(1) C(4) by (simp add: job_decode_iff [OF inv'] at)
    have old: "job_decode s h = Some j \<longleftrightarrow> h \<noteq> jb_id c \<and> job_decode s' h = Some j" for h j
    proof
      assume o: "job_decode s h = Some j"
      then have j: "j < MAX_JOBS" "jb_active (g_slots s ! j)" "jb_id (g_slots s ! j) = h"
        by (simp_all add: job_decode_iff [OF assms(1)])
      then have ji: "j \<noteq> i" using il(2) by auto
      then have d: "job_decode s' h = Some j" using j by (simp add: job_decode_iff [OF inv'] at)
      with dec ji show "h \<noteq> jb_id c \<and> job_decode s' h = Some j" by auto
    next
      assume "h \<noteq> jb_id c \<and> job_decode s' h = Some j"
      then show "job_decode s h = Some j"
        by (auto simp: job_decode_iff [OF inv'] job_decode_iff [OF assms(1)] at split: if_splits)
    qed
    have none: "jobs_of s (jb_id c) = None"
      using old [of "jb_id c"] by (metis jobs_of_decode(2) not_Some_eq)
    have "jobs_of s' = (jobs_of s)(jb_id c \<mapsto> job_of c)"
    proof
      fix h
      show "jobs_of s' h = ((jobs_of s)(jb_id c \<mapsto> job_of c)) h"
      proof (cases "h = jb_id c")
        case True
        then show ?thesis using dec by (simp add: jobs_of_def at)
      next
        case False
        then have e: "job_decode s h = job_decode s' h" using old [of h] by (metis not_Some_eq)
        have "j \<noteq> i" if "job_decode s' h = Some j" for j
          using that False by (auto simp: job_decode_iff [OF inv'] at)
        then show ?thesis using False e by (cases "job_decode s' h") (simp_all add: jobs_of_def at)
      qed
    qed
    moreover have "job_create p name (Some out) s = (Status.Ok, Some (jb_id c), s')"
      using assms(2,3) l i t assms(4)
      by (simp add: job_create_def Let_def INVALID_PROCESS_ID_def c_def s'_def set_slot_def)
    moreover have "jb_id c \<noteq> 0" using C(3) encode_nonzero [OF il(1)] by simp
    moreover have "jb_initialized s'" using assms(2) by (simp add: s'_def set_slot_def)
    ultimately show ?thesis using False none inv' C(2) t by auto
  qed
qed


section \<open>Reachable tables\<close>

datatype job_call =
    Initialize
  | Create u64 "string option" "u64 option"
  | Attach u64 u64 u64
  | Detach u64 u64 u64
  | Inherit u64 u64
  | Release u64

fun job_exec :: "job_call \<Rightarrow> job_table \<Rightarrow> job_table" where
  "job_exec Initialize s = snd (job_initialize s)"
| "job_exec (Create p name out) s = snd (snd (job_create p name out s))"
| "job_exec (Attach p h q) s = snd (job_attach p h q s)"
| "job_exec (Detach p h q) s = snd (job_detach p h q s)"
| "job_exec (Inherit h q) s = snd (job_inherit_member h q s)"
| "job_exec (Release p) s = job_release_process p s"

inductive job_reachable :: "job_table \<Rightarrow> bool" where
  start: "job_reachable jobs_zero"
| call: "job_reachable s \<Longrightarrow> job_reachable (job_exec c s)"

lemma job_exec_inv:
  assumes "jobs_inv s" shows "jobs_inv (job_exec c s)"
proof (cases "jb_initialized s")
  case False
  then show ?thesis using assms
    by (cases c) (simp_all add: job_initialize_def jobs_zero_inv job_create_def job_attach_def job_detach_def
      job_inherit_member_def job_release_process_def Let_def)
next
  case init: True
  show ?thesis
  proof (cases c)
    case Initialize
    then show ?thesis using assms init by (simp add: job_initialize_def)
  next
    case (Create p name out)
    show ?thesis
    proof (cases "p = 0 \<or> out = None")
      case True
      then show ?thesis using assms init Create by (auto simp: job_create_def Let_def INVALID_PROCESS_ID_def)
    next
      case False
      then obtain old where "out = Some old" by auto
      with False show ?thesis
        using job_create_implements [OF assms init _ refl, of p name old] assms Create by (auto split: if_splits)
    qed
  next
    case (Attach p h q)
    then show ?thesis using job_attach_implements [OF assms init, of p q h] assms init
      by (cases "p = 0 \<or> q = 0") (auto simp: implements_def job_attach_def INVALID_PROCESS_ID_def)
  next
    case (Detach p h q)
    then show ?thesis using job_detach_implements [OF assms init, of p q h] assms init
      by (cases "p = 0 \<or> q = 0") (auto simp: implements_def job_detach_def INVALID_PROCESS_ID_def)
  next
    case (Inherit h q)
    then show ?thesis using job_inherit_implements [OF assms init, of q h] assms init
      by (cases "q = 0") (auto simp: implements_def job_inherit_member_def INVALID_PROCESS_ID_def)
  next
    case (Release p)
    then show ?thesis using job_release_implements(2) [OF assms init, of p] assms
      by (cases "p = 0") (auto simp: job_release_process_def INVALID_PROCESS_ID_def)
  qed
qed

lemma job_reachable_inv: "job_reachable s \<Longrightarrow> jobs_inv s"
  by (induction rule: job_reachable.induct) (simp_all add: jobs_zero_inv job_exec_inv)

lemma job_reachable_fold: "job_reachable s \<Longrightarrow> job_reachable (fold job_exec cs s)"
  by (induction cs arbitrary: s) (simp_all add: job_reachable.call)

subsection \<open>Queries\<close>

lemma job_contains_spec:
  assumes "jobs_inv s" "jb_initialized s" "pid \<noteq> 0"
  shows "job_contains h pid s \<longleftrightarrow> (case jobs_of s h of None \<Rightarrow> False | Some j \<Rightarrow> pid \<in> set (members j))"
  using assms by (auto simp: job_contains_def jobs_of_def has_member_iff INVALID_PROCESS_ID_def split: option.splits)

lemma job_stat_spec:
  assumes "jobs_inv s" "jb_initialized s"
  shows "job_stat h (Some out) s =
    (case jobs_of s h of
       None \<Rightarrow> (Status.NotFound, Some zero_job_stat)
     | Some j \<Rightarrow> (Status.Ok, Some \<lparr> st_id = h, st_owner_pid = owner j, st_member_count = length (members j),
         st_orphaned = (owner j = 0),
         st_name = title j @ replicate (MAX_JOB_NAME + 1 - length (title j)) (CHR 0x00) \<rparr>))"
proof (cases "job_decode s h")
  case None
  then show ?thesis using assms(2) by (simp add: job_stat_def jobs_of_decode)
next
  case (Some i)
  note d = decoded [OF assms(1) Some]
  have "length (jb_name (g_slots s ! i)) = MAX_JOB_NAME + 1" using d(2,3) by (simp add: slot_inv_def)
  then have "stat_name (jb_name (g_slots s ! i)) =
      title (job_of (g_slots s ! i))
        @ replicate (MAX_JOB_NAME + 1 - length (title (job_of (g_slots s ! i)))) (CHR 0x00)"
    by (simp add: stat_name_def Let_def job_of_def zero_job_stat_def del: replicate_Suc)
  then show ?thesis
    using assms(2) d(4,5) Some by (simp add: job_stat_def Let_def jobs_of_decode INVALID_PROCESS_ID_def del: replicate_Suc)
qed

section \<open>Properties\<close>

text \<open>
  C40.  The job table implements a map from ids to jobs.  In every reachable table, \<open>attach\<close>, \<open>detach\<close>,
  \<open>inherit_member\<close>, \<open>release_process\<close>, \<open>contains\<close> and \<open>stat\<close> have the status and the effect of the operations on
  jobs: only the owner attaches and detaches, and cannot detach itself; members are distinct and at
  most 16; an exiting process leaves every job, a job whose owner exits is orphaned, and a job ends
  exactly with its last member.  \<open>create\<close> refuses an empty or too long name and a full table, and otherwise adds
  a job with its creator as owner and only member, under an id that named nothing.
\<close>

theorem job_table_refines_jobs:
  assumes "job_reachable s" "jb_initialized s" "p \<noteq> INVALID_PROCESS_ID" "q \<noteq> INVALID_PROCESS_ID"
  shows "map_prod id jobs_of (job_attach p h q s) = spec_attach p h q (jobs_of s) \<and>
    map_prod id jobs_of (job_detach p h q s) = spec_detach p h q (jobs_of s) \<and>
    map_prod id jobs_of (job_inherit_member h q s) = spec_inherit h q (jobs_of s) \<and>
    jobs_of (job_release_process q s) = spec_release q (jobs_of s) \<and>
    (job_contains h q s \<longleftrightarrow> (case jobs_of s h of None \<Rightarrow> False | Some j \<Rightarrow> q \<in> set (members j))) \<and>
    job_stat h (Some out) s =
      (case jobs_of s h of
         None \<Rightarrow> (Status.NotFound, Some zero_job_stat)
       | Some j \<Rightarrow> (Status.Ok, Some \<lparr> st_id = h, st_owner_pid = owner j, st_member_count = length (members j),
           st_orphaned = (owner j = 0),
           st_name = title j @ replicate (MAX_JOB_NAME + 1 - length (title j)) (CHR 0x00) \<rparr>)) \<and>
    (case job_create p name (Some old) s of (status, result, s') \<Rightarrow>
       status = spec_create_status name (jobs_of s) \<and>
       (if status = Status.Ok
        then \<exists>k. result = Some k \<and> k \<noteq> INVALID_JOB_ID \<and> jobs_of s k = None \<and>
          jobs_of s' = (jobs_of s)(k \<mapsto> \<lparr> owner = p, members = [p],
            title = take (text_length name MAX_JOB_NAME) (the name) \<rparr>)
        else result = Some INVALID_JOB_ID \<and> s' = s))"
proof -
  note inv = job_reachable_inv [OF assms(1)]
  have pq: "p \<noteq> 0" "q \<noteq> 0" using assms(3,4) by (simp_all add: INVALID_PROCESS_ID_def)
  have im: "implements r r' \<Longrightarrow> map_prod id jobs_of r = r'" for r r'
    by (cases r; cases r') (simp add: implements_def)
  have cr: "case job_create p name (Some old) s of (status, result, s') \<Rightarrow>
       status = spec_create_status name (jobs_of s) \<and>
       (if status = Status.Ok
        then \<exists>k. result = Some k \<and> k \<noteq> INVALID_JOB_ID \<and> jobs_of s k = None \<and>
          jobs_of s' = (jobs_of s)(k \<mapsto> \<lparr> owner = p, members = [p],
            title = take (text_length name MAX_JOB_NAME) (the name) \<rparr>)
        else result = Some INVALID_JOB_ID \<and> s' = s)"
    using job_create_implements [OF inv assms(2) pq(1) refl, of name old]
    by (auto simp: spec_create_status_def INVALID_JOB_ID_def split: if_splits)
  show ?thesis
    using cr im [OF job_attach_implements [OF inv assms(2) pq]] im [OF job_detach_implements [OF inv assms(2) pq]]
      im [OF job_inherit_implements [OF inv assms(2) pq(2)]] job_release_implements(1) [OF inv assms(2) pq(2)]
      job_contains_spec [OF inv assms(2) pq(2)] job_stat_spec [OF inv assms(2)]
    by blast
qed

text \<open>A job of process 5 that process 6 joins, and that is orphaned when 5 exits.\<close>

definition example_jobs :: job_table where
  "example_jobs = fold job_exec
     [Initialize, Create 5 (Some ''build'') (Some 0), Attach 5 (job_encode 0 1) 6, Release 5] jobs_zero"

lemma example_jobs_facts:
  "job_reachable example_jobs" "jb_initialized example_jobs"
proof -
  show "job_reachable example_jobs"
    unfolding example_jobs_def by (rule job_reachable_fold [OF job_reachable.start])
qed code_simp

theorem job_table_refines_jobs_witness:
  "map_prod id jobs_of (job_attach 6 (job_encode 0 1) 7 example_jobs) =
    spec_attach 6 (job_encode 0 1) 7 (jobs_of example_jobs)"
  using job_table_refines_jobs [OF example_jobs_facts, of 6 7] by (simp add: INVALID_PROCESS_ID_def)

end
