(* ===== verification/Spec2Isabelle.thy ===== *)
theory Spec2Isabelle
  imports Ring_Buffer Physical_Memory Kernel_Heap_Theorems Ipc_Channel_Theorems Ipc_Event Ipc_Shared_Memory
    Spin_Lock Net_Theorems Net_Services Scheduler2 Jobs
begin

text \<open>
  A verification library for the KuroganeOS kernel: models of the kernel's memory allocators, its
  inter-process communication, its SMP scheduling policy, its locks and its network stack, and the theorems
  that make them correct.  File names are relative to \<^verbatim>\<open>src/kernel/\<close>.

  \<^bold>\<open>The program and how its parts interact.\<close>  At boot the kernel hands its memory map to the
  frame allocator (\<^verbatim>\<open>memory/physical_memory.cpp\<close>) and a region to the kernel heap (\<^verbatim>\<open>memory/allocator.cpp\<close>).
  Processes communicate through three tables of objects with generation-checked handles: channels
  (\<^verbatim>\<open>ipc/channel.cpp\<close>), events (\<^verbatim>\<open>ipc/event.cpp\<close>) and shared memory (\<^verbatim>\<open>ipc/shared_memory.cpp\<close>), the last a client
  of the frame allocator.  Jobs (\<^verbatim>\<open>task/job.cpp\<close>) group processes in a table of the same kind.  The scheduler
  core (\<^verbatim>\<open>task/scheduler2.cpp\<close>) chooses the thread each processor runs.  Each table has a ticket
  lock (\<^verbatim>\<open>sync/spinlock.hpp\<close>) that its operations hold from start to end.  The network stack
  (\<^verbatim>\<open>net/network.cpp\<close>, \<^verbatim>\<open>net/protocols.cpp\<close>) runs over an interface, a pair of driver callbacks, of which the loopback
  interface is part of the same file.

  \<^bold>\<open>How the models are built.\<close>  A file's static variables are one record and each function is one
  definition on it, with the code's order of checks and early returns; a loop is a recursive definition of its own.
  A function that returns a status and writes through an output pointer returns the status, the new value
  behind the pointer and the new state; a pointer that the code compares with null is an option.  Integers
  whose wrap-around or bit layout matters are words of the code's width (\<open>u8\<close> to \<open>u64\<close>); indices and
  counters that a bound keeps small are naturals, with the bound part of the invariant.  An operation that holds
  the lock of its table is one atomic step, which the mutual exclusion of \<^verbatim>\<open>Spin_Lock\<close> justifies.  Status enumerations
  exist per file, as in the code, and are written \<open>Status.Ok\<close> and so on; they have the declared values only, so the
  default branches of the \<^verbatim>\<open>status_message\<close> functions for other values have no counterpart.

  \<^bold>\<open>Shared theories.\<close>
  \<^item> \<^verbatim>\<open>Kurogane_Prelude\<close>: the machine types, and the generic lemmas on lists, first-match searches and words.
  \<^item> \<^verbatim>\<open>Handles\<close>: three locales.  \<open>handle_codec\<close> is the bit layout of a handle, \<open>slot_table\<close> a table whose handles
    resolve only in the generation they were issued in, \<open>slot_history\<close> the fact that a slot's generation
    does not come back within \<open>limit - 1\<close> reuses.  Endpoints, channels, events, shared-memory objects and jobs
    interpret them (\<open>ep\<close>, \<open>ch\<close>, \<open>ev\<close>, \<open>sm\<close>, \<open>jb\<close>, \<open>ch_life\<close>, \<open>ep_life\<close>).

  \<^bold>\<open>Components, in the order of the theories.\<close>
  \<^item> \<^verbatim>\<open>Ring_Buffer\<close> (\<^verbatim>\<open>libk/status.hpp\<close>, \<^verbatim>\<open>status.cpp\<close>, \<^verbatim>\<open>libk/ring_buffer.hpp\<close>).  The locale \<open>bounded_fifo\<close> is the contract
    of a bounded queue; the ring buffer (\<open>rb\<close>), a channel's message ring (\<open>mq\<close>) and the loopback queue
    (\<open>lb\<close>) interpret it.  C1: the buffer answers every sequence of calls as the queue does.
  \<^item> \<^verbatim>\<open>Physical_Memory\<close> (\<^verbatim>\<open>memory/physical_memory.cpp\<close>).  Two bitmaps with cached counts, over static storage or
    a caller's buffer.  C2 to C4: what initialisation reserves, that allocation takes the lowest free frame and
    fails only when there is none, that release accepts exactly the frames that were allocated.  The locale
    \<open>frame_provider\<close> is what a client of the allocator relies on, interpreted as \<open>pmm\<close>.
  \<^item> \<^verbatim>\<open>Kernel_Heap\<close>, \<^verbatim>\<open>Kernel_Heap_Inv\<close>, \<^verbatim>\<open>Kernel_Heap_Theorems\<close> (\<^verbatim>\<open>memory/allocator.hpp\<close>, \<^verbatim>\<open>allocator.cpp\<close>).  Headers and
    prefixes are words of an explicit memory, beside the users' data.  The invariant relates the memory to a
    list of blocks that tile the heap, are linked both ways and are never free twice in a row; \<open>heap_run\<close> are
    the heaps that any sequence of allocations, releases and user writes leads to.  C5 to C7: results
    are aligned, in the heap and disjoint, the data of live allocations is never touched, a second release is ignored,
    the counters are exact, and an empty heap is one free block again.  Releases are of live addresses
    or of addresses without the magic number in front; forging a prefix inside one's own data is not described.
  \<^item> \<^verbatim>\<open>Ipc_Channel\<close>, \<^verbatim>\<open>Ipc_Channel_Inv\<close>, \<^verbatim>\<open>Ipc_Channel_Safety\<close>, \<^verbatim>\<open>Ipc_Channel_Theorems\<close> (\<^verbatim>\<open>ipc/channel.hpp\<close>, \<^verbatim>\<open>channel.cpp\<close>).
    C8 to C15: the tables stay well formed under every sequence of calls, a process cannot affect connections
    of others, messages arrive in order with their real sender, a name has one owner, accept returns the
    waiting connections in order up to a new one, an exited process and a closed handle leave nothing usable behind.  C15 is a defect: a stale entry
    of an endpoint's pending queue can name a connection that was made to another endpoint.
  \<^item> \<^verbatim>\<open>Spin_Lock\<close> (\<^verbatim>\<open>sync/spinlock.hpp\<close>).  Any number of processors below \<open>2\<^sup>3\<^sup>2\<close> interleave the single atomic accesses of
    lock, try-lock and unlock.  C16 and C17: mutual exclusion with wrapping tickets, and refinement of a first-come
    first-served queue, in the schedules in which no try-lock lasts for \<open>2\<^sup>3\<^sup>2\<close> tickets.  The lemma
    \<open>try_lock_window_needed\<close> shows that two processors can hold the lock in a schedule in which one does.
  \<^item> \<^verbatim>\<open>Ipc_Event\<close> (\<^verbatim>\<open>ipc/event.hpp\<close>, \<^verbatim>\<open>event.cpp\<close>).  C18: the table refines a map of named objects with users, with the
    status of every operation.
  \<^item> \<^verbatim>\<open>Ipc_Shared_Memory\<close> (\<^verbatim>\<open>ipc/shared_memory.hpp\<close>, \<^verbatim>\<open>shared_memory.cpp\<close>), over the frame allocator's model and a
    byte memory.  C19 to C22: every frame is accounted for and in one object only, new pages are zero, an object lives
    exactly as long as its references.  C22 is a defect: grant slots are not returned.
  \<^item> \<^verbatim>\<open>Net_Bytes\<close>, \<^verbatim>\<open>Net_Packets\<close>, \<^verbatim>\<open>Net_Protocols\<close>, \<^verbatim>\<open>Net_Stack\<close> (\<^verbatim>\<open>net/network.hpp\<close>, \<^verbatim>\<open>network.cpp\<close>, \<^verbatim>\<open>protocols.hpp\<close>,
    \<^verbatim>\<open>protocols.cpp\<close>) hold the definitions: byte access and checksums; Ethernet, ARP, IPv4, ICMP; UDP, TCP, DHCP, DNS;
    the stack and the loopback interface.  A driver is a pair of functions on a context of any type.
    \<^verbatim>\<open>Net_Writers\<close> has the contracts of the serialisers (\<open>bounded_writer\<close>, \<open>exact_writer\<close>), \<^verbatim>\<open>Net_Invariant\<close> the
    invariant of the stack under the locale \<open>net_driver\<close>, \<^verbatim>\<open>Net_Delivery\<close> and \<^verbatim>\<open>Net_Loopback\<close> the frames that are sent and
    what receiving them does.  \<^verbatim>\<open>Net_Theorems\<close> (C23 to C33): delivery between two stacks from the bytes on
    the wire, address resolution, self-delivery, the invariant for arbitrary input, the loopback queue, the checksums
    and what they detect, and that parsers and serialisers stay inside their buffers.  \<^verbatim>\<open>Net_Services\<close> (C34 and C35):
    a DNS query and the answer with one address record, the DHCP client's messages and a server's messages with any options.
  \<^item> \<^verbatim>\<open>Scheduler2\<close> (\<^verbatim>\<open>task/scheduler2.hpp\<close>, \<^verbatim>\<open>scheduler2.cpp\<close>).  C36 to C39: every thread is in one run queue,
    that of an allowed processor; \<open>pick_next\<close> dispatches an eligible thread of the highest priority; no thread runs
    twice at once; threads of equal priority take turns.  The lemma \<open>removal_passes_over_a_turn\<close> shows where removal from a
    queue breaks the turn order.
  \<^item> \<^verbatim>\<open>Jobs\<close> (\<^verbatim>\<open>task/job.hpp\<close>, \<^verbatim>\<open>job.cpp\<close>).  C40: the table refines a map from ids to jobs.

  \<^bold>\<open>Loops and bounds.\<close>  Loops over arrays recurse on the array or an index and are total.  The heap's
  walks follow pointers in memory and are partial functions, with \<open>None\<close> for a walk that does not end;
  \<open>heap_walks_end\<close> shows that they return on every reachable heap.  \<open>alloc_frame\<close>'s scan, the DNS and DHCP option loops
  and the pending queue of an endpoint decrease a bounded index.  Nothing is bounded artificially: the
  capacities are the code's constants.

  \<^bold>\<open>Not modelled.\<close>
  \<^item> Hardware: \<^verbatim>\<open>arch/\<close>, \<^verbatim>\<open>drivers/\<close>, \<^verbatim>\<open>hardware/\<close>, the storage controllers and the network cards access ports, device registers
    and privileged instructions, whose behaviour the sources do not contain.  Virtual memory is in this group:
    its effect is that of the processor's page walks.
  \<^item> Memory orderings weaker than sequential consistency.
  \<^item> Glue to third-party code (\<^verbatim>\<open>net/tls\<close>), user interaction (\<^verbatim>\<open>ui/\<close>, \<^verbatim>\<open>apps/\<close>, \<^verbatim>\<open>shell/\<close>, \<^verbatim>\<open>input/\<close>), the installer, diagnostics
    output, and the separate programs (boot loader, userspace, SDK, tools).
  \<^item> Left out although it could be modelled: the file systems and partition tables over block devices
    (\<^verbatim>\<open>fs/\<close>, \<^verbatim>\<open>storage/\<close>), the clients of the network stack (sockets, TCP and DHCP clients), the process, thread and
    cooperative task tables, and the freestanding helpers of \<^verbatim>\<open>libk/\<close> and \<^verbatim>\<open>core/\<close> that the modelled files do not use.
\<close>

end
